(* ===== verification/Prelude.thy ===== *)
theory Prelude
  imports Main "HOL-Library.Word" "HOL-Library.Sublist" "HOL-Library.Signed_Division"
begin

text \<open>
  Shared vocabulary of the development.

  A C function that runs in the kernel is modelled as a HOL function from the kernel state to
  an \<open>outcome\<close>: it returns a value and the new state (\<open>Ok\<close>), it gives the processor away
  through \<^verbatim>\<open>swtch\<close> (\<open>Switch\<close>, with the state at that moment), it calls \<^verbatim>\<open>panic\<close> (\<open>Panic\<close>,
  with the message), it uses a pointer it must not use (\<open>Fault\<close>), or it loops for ever
  (\<open>Diverge\<close>).  \<open>bindo\<close> is the sequencing of C statements, \<open>for_list\<close> the bounded
  \<^verbatim>\<open>for\<close> loop, and \<open>returns\<close> turns a loop written with \<^theory_text>\<open>partial_function\<close>, whose
  \<open>None\<close> is "never leaves the loop", into an outcome.

  The C types \<^verbatim>\<open>int\<close> and \<^verbatim>\<open>uint\<close> are either 32-bit words or integers that are brought
  back into range by \<open>s32\<close> and \<open>u32\<close> after every operation that can leave it.
\<close>

unbundle bit_operations_syntax

named_theorems field_rules \<comment> \<open>state components an operation leaves alone\<close>
named_theorems lock_rules \<comment> \<open>what acquire and release do to a usable processor state\<close>

section \<open>Outcomes\<close>

datatype ('a, 's) outcome =
    Ok 'a 's
  | Switch 's
  | Panic string
  | Fault string
  | Diverge

fun bindo :: "('a, 's) outcome \<Rightarrow> ('a \<Rightarrow> 's \<Rightarrow> ('b, 's) outcome) \<Rightarrow> ('b, 's) outcome" where
  "bindo (Ok a s) f = f a s"
| "bindo (Switch s) f = Switch s"
| "bindo (Panic m) f = Panic m"
| "bindo (Fault m) f = Fault m"
| "bindo Diverge f = Diverge"

fun for_list :: "('x \<Rightarrow> 's \<Rightarrow> (unit, 's) outcome) \<Rightarrow> 'x list \<Rightarrow> 's \<Rightarrow> (unit, 's) outcome" where
  "for_list f [] s = Ok () s"
| "for_list f (x # xs) s = bindo (f x s) (\<lambda>_ s. for_list f xs s)"

definition returns :: "('a, 's) outcome option \<Rightarrow> ('a, 's) outcome" where
  "returns r = (case r of None \<Rightarrow> Diverge | Some q \<Rightarrow> q)"

fun is_ok :: "('a, 's) outcome \<Rightarrow> bool" where
  "is_ok (Ok a s) = True"
| "is_ok _ = False"

section \<open>Machine integers\<close>

type_synonym addr = "32 word"
type_synonym byte = "8 word"

definition s32 :: "int \<Rightarrow> int" where
  "s32 x = (x + 2147483648) mod 4294967296 - 2147483648"

definition u32 :: "int \<Rightarrow> int" where
  "u32 x = x mod 4294967296"

section \<open>Lemmas on outcomes\<close>

lemma returns_simps [simp]: "returns None = Diverge" "returns (Some q) = q"
  by (simp_all add: returns_def)

lemma bindo_Ok_iff:
  "bindo m f = Ok b t \<longleftrightarrow> (\<exists>a s. m = Ok a s \<and> f a s = Ok b t)"
  by (cases m) auto

lemma bindo_OkE:
  assumes "bindo m f = Ok b t"
  obtains a s where "m = Ok a s" "f a s = Ok b t"
  using assms by (auto simp: bindo_Ok_iff)

lemma bindo_assoc:
  "bindo (bindo m f) g = bindo m (\<lambda>a s. bindo (f a s) g)"
  by (cases m) auto

lemma bindo_cong [fundef_cong]:
  "m = m' \<Longrightarrow> (\<And>a s. m' = Ok a s \<Longrightarrow> f a s = g a s) \<Longrightarrow> bindo m f = bindo m' g"
  by (cases m') auto

lemma bindo_if [simp]:
  "bindo (if c then m else n) f = (if c then bindo m f else bindo n f)"
  by simp

lemma for_list_append:
  "for_list f (xs @ ys) s = bindo (for_list f xs s) (\<lambda>_ s. for_list f ys s)"
proof (induction xs arbitrary: s)
  case (Cons x xs)
  then show ?case by (cases "f x s") simp_all
qed simp

text \<open>An invariant that every iteration keeps is kept by the loop.\<close>

lemma for_list_invariant:
  assumes "for_list f xs s = Ok () t"
    and "I s"
    and "\<And>x s t. x \<in> set xs \<Longrightarrow> I s \<Longrightarrow> f x s = Ok () t \<Longrightarrow> I t"
  shows "I t"
  using assms
proof (induction xs arbitrary: s)
  case (Cons x xs)
  from Cons.prems(1) obtain u where "f x s = Ok () u" "for_list f xs u = Ok () t"
    by (auto simp: bindo_Ok_iff)
  then show ?case
    using Cons by (metis list.set_intros(1,2))
qed simp

section \<open>Lemmas on machine integers\<close>

lemma s32_id: "- 2147483648 \<le> x \<Longrightarrow> x < 2147483648 \<Longrightarrow> s32 x = x"
  by (simp add: s32_def)

lemma s32_range: "- 2147483648 \<le> s32 x" "s32 x < 2147483648"
proof -
  have "0 \<le> (x + 2147483648) mod 4294967296" "(x + 2147483648) mod 4294967296 < 4294967296"
    by simp_all
  then show "- 2147483648 \<le> s32 x" "s32 x < 2147483648"
    by (simp_all add: s32_def)
qed

lemma u32_range: "0 \<le> u32 x" "u32 x < 4294967296"
  by (simp_all add: u32_def)

lemma u32_id: "0 \<le> x \<Longrightarrow> x < 4294967296 \<Longrightarrow> u32 x = x"
  by (simp add: u32_def)

lemma s32_absorb [simp]: "s32 (s32 a + b) = s32 (a + b)" "s32 (s32 a - b) = s32 (a - b)" "s32 (s32 a) = s32 a"
proof -
  have "(s32 a + c + 2147483648) mod 4294967296 = (a + c + 2147483648) mod 4294967296" for c
  proof -
    have "(s32 a + c + 2147483648) mod 4294967296 = ((a + 2147483648) mod 4294967296 + c) mod 4294967296"
      by (simp add: s32_def)
    then show ?thesis by (simp add: mod_simps algebra_simps)
  qed
  from this [of b] this [of "- b"] this [of 0]
  show "s32 (s32 a + b) = s32 (a + b)" "s32 (s32 a - b) = s32 (a - b)" "s32 (s32 a) = s32 a"
    by (simp_all add: s32_def [of "_ + _"] s32_def [of "_ - _"] s32_def [of "s32 a"] s32_def [of a])
qed

lemma s32_eq_sint: "s32 x = sint (word_of_int x :: 32 word)"
  by (simp add: s32_def sint_sbintrunc' signed_take_bit_eq_take_bit_shift take_bit_eq_mod)

lemma sint_uint32: "sint (w :: 32 word) = (if uint w < 2147483648 then uint w else uint w - 4294967296)"
proof (cases "uint w < 2147483648")
  case True
  moreover have "- 2147483648 \<le> uint w" using order_trans [of "- 2147483648" 0 "uint w"] by simp
  ultimately show ?thesis
    using s32_eq_sint [of "uint w"] s32_id [of "uint w"] by simp
next
  case False
  have "(uint w - 2147483648 + 4294967296) mod 4294967296 = uint w - 2147483648"
    unfolding mod_add_self2
    by (rule mod_pos_pos_trivial) (use False unsigned_less [of w, where 'a = int] in simp_all)
  with False show ?thesis
    using s32_eq_sint [of "uint w"] by (simp add: s32_def algebra_simps)
qed

section \<open>Lemmas on sorted lists\<close>

text \<open>
  In a list sorted by a key, the elements whose key is at most (or below) a bound are exactly
  the longest prefix of such elements.
\<close>

lemma takeWhile_eq_filter_sorted:
  assumes "sorted (map k xs)" and "\<And>x y. P y \<Longrightarrow> k x \<le> k y \<Longrightarrow> P x"
  shows "takeWhile P xs = filter P xs"
  using assms(1)
proof (induction xs)
  case (Cons a xs)
  show ?case
  proof (cases "P a")
    case True
    with Cons show ?thesis by simp
  next
    case False
    then have "\<forall>x \<in> set xs. \<not> P x"
      using Cons.prems assms(2) by auto
    with False show ?thesis by simp
  qed
qed simp

lemma dropWhile_eq_filter_sorted:
  assumes "sorted (map k xs)" and "\<And>x y. P y \<Longrightarrow> k x \<le> k y \<Longrightarrow> P x"
  shows "dropWhile P xs = filter (\<lambda>x. \<not> P x) xs"
  using assms(1)
proof (induction xs)
  case (Cons a xs)
  show ?case
  proof (cases "P a")
    case True
    with Cons show ?thesis by simp
  next
    case False
    then have "\<forall>x \<in> set xs. \<not> P x"
      using Cons.prems assms(2) by auto
    with False show ?thesis by simp
  qed
qed simp

lemma subseq_set: "subseq xs ys \<Longrightarrow> set xs \<subseteq> set ys"
  by (induction rule: list_emb.induct) auto

lemma subseq_distinct: "subseq xs ys \<Longrightarrow> distinct ys \<Longrightarrow> distinct xs"
  by (induction rule: list_emb.induct) (auto dest: list_emb_set)

lemma subseq_sorted_map: "subseq xs ys \<Longrightarrow> sorted (map k ys) \<Longrightarrow> sorted (map k xs)"
  by (induction rule: list_emb.induct) (auto dest: list_emb_set)

end
