(* ===== verification/Spinlock.thy ===== *)
theory Spinlock
  imports Prelude
begin

text \<open>
  Processors and spin locks: \<^verbatim>\<open>spinlock.c\<close>, \<^verbatim>\<open>spinlock.h\<close>, \<^verbatim>\<open>struct cpu\<close> of \<^verbatim>\<open>proc.h\<close> and
  \<^verbatim>\<open>cpuid\<close>/\<^verbatim>\<open>mycpu\<close> of \<^verbatim>\<open>proc.c\<close>.

  The record \<open>mach\<close> is the part of the kernel state every operation shares: the table of
  processors, the spin locks, and two registers of the processor that executes: its local APIC
  id and the interrupt flag of its EFLAGS.  A lock is named by the object it protects.
  A lock taken by another processor makes \<open>acquire\<close> spin: nothing in a run of one processor
  can free it, so the outcome is \<open>Diverge\<close>; interleavings of several processors are the
  event sequences of the second half of the theory.  The call stacks \<^verbatim>\<open>lk->pcs\<close> recorded for
  debugging are left out.
\<close>

section \<open>Locks and processors\<close>

datatype sleepid = BufLock nat | InodeLock nat

datatype lockid =
    PtableLock | KmemLock | TicksLock | LogLock | BcacheLock | IcacheLock | FtableLock
  | ConsLock | IdeLock | PipeLock addr | SleepGuard sleepid

record spinlock =
  l_locked :: bool
  l_name :: string
  l_cpu :: "nat option"

record cpu =
  c_apicid :: nat
  c_ncli :: int
  c_intena :: bool
  c_proc :: "nat option"

record mach =
  cpus :: "cpu list"
  ncpu :: nat
  lapicid :: nat
  fl_if :: bool
  locks :: "lockid \<Rightarrow> spinlock"

definition upd_cpu :: "nat \<Rightarrow> (cpu \<Rightarrow> cpu) \<Rightarrow> 'a mach_scheme \<Rightarrow> 'a mach_scheme" where
  "upd_cpu i f s = s\<lparr>cpus := (cpus s)[i := f (cpus s ! i)]\<rparr>"

definition upd_lock :: "lockid \<Rightarrow> (spinlock \<Rightarrow> spinlock) \<Rightarrow> 'a mach_scheme \<Rightarrow> 'a mach_scheme" where
  "upd_lock l f s = s\<lparr>locks := (locks s)(l := f (locks s l))\<rparr>"

definition cpu_index :: "'a mach_scheme \<Rightarrow> nat option" where
  "cpu_index s = find (\<lambda>i. c_apicid (cpus s ! i) = lapicid s) [0..<ncpu s]"

definition mycpu :: "'a mach_scheme \<Rightarrow> (nat, 'a mach_scheme) outcome" where
  "mycpu s =
     (if fl_if s then Panic (''mycpu called with interrupts enabled'' @ [CHR 0x0A])
      else case cpu_index s of
             Some i \<Rightarrow> Ok i s
           | None \<Rightarrow> Panic (''unknown apicid'' @ [CHR 0x0A]))"

definition cpuid :: "'a mach_scheme \<Rightarrow> (nat, 'a mach_scheme) outcome" where
  "cpuid s = bindo (mycpu s) (\<lambda>i s. Ok i s)"

definition pushcli :: "'a mach_scheme \<Rightarrow> (unit, 'a mach_scheme) outcome" where
  "pushcli s =
     (let eflags = fl_if s in
      bindo (mycpu (s\<lparr>fl_if := False\<rparr>)) (\<lambda>i s.
        let s = (if c_ncli (cpus s ! i) = 0
                 then upd_cpu i (\<lambda>c. c\<lparr>c_intena := eflags\<rparr>) s else s)
        in Ok () (upd_cpu i (\<lambda>c. c\<lparr>c_ncli := c_ncli c + 1\<rparr>) s)))"

definition popcli :: "'a mach_scheme \<Rightarrow> (unit, 'a mach_scheme) outcome" where
  "popcli s =
     (if fl_if s then Panic ''popcli - interruptible''
      else bindo (mycpu s) (\<lambda>i s.
        let s = upd_cpu i (\<lambda>c. c\<lparr>c_ncli := c_ncli c - 1\<rparr>) s in
        if c_ncli (cpus s ! i) < 0 then Panic ''popcli''
        else if c_ncli (cpus s ! i) = 0 \<and> c_intena (cpus s ! i)
        then Ok () (s\<lparr>fl_if := True\<rparr>)
        else Ok () s))"

definition holding :: "lockid \<Rightarrow> 'a mach_scheme \<Rightarrow> (bool, 'a mach_scheme) outcome" where
  "holding l s =
     bindo (pushcli s) (\<lambda>_ s.
     bindo (mycpu s) (\<lambda>i s.
       let r = (l_locked (locks s l) \<and> l_cpu (locks s l) = Some i) in
     bindo (popcli s) (\<lambda>_ s. Ok r s)))"

definition initlock :: "lockid \<Rightarrow> string \<Rightarrow> 'a mach_scheme \<Rightarrow> (unit, 'a mach_scheme) outcome" where
  "initlock l name s =
     Ok () (upd_lock l (\<lambda>_. \<lparr>l_locked = False, l_name = name, l_cpu = None\<rparr>) s)"

definition acquire :: "lockid \<Rightarrow> 'a mach_scheme \<Rightarrow> (unit, 'a mach_scheme) outcome" where
  "acquire l s =
     bindo (pushcli s) (\<lambda>_ s.
     bindo (holding l s) (\<lambda>h s.
       if h then Panic ''acquire''
       else if l_locked (locks s l) then Diverge
       else let s = upd_lock l (\<lambda>k. k\<lparr>l_locked := True\<rparr>) s in
     bindo (mycpu s) (\<lambda>i s.
       Ok () (upd_lock l (\<lambda>k. k\<lparr>l_cpu := Some i\<rparr>) s))))"

definition release :: "lockid \<Rightarrow> 'a mach_scheme \<Rightarrow> (unit, 'a mach_scheme) outcome" where
  "release l s =
     bindo (holding l s) (\<lambda>h s.
       if \<not> h then Panic ''release''
       else let s = upd_lock l (\<lambda>k. k\<lparr>l_cpu := None\<rparr>) s;
                s = upd_lock l (\<lambda>k. k\<lparr>l_locked := False\<rparr>) s
            in popcli s)"

section \<open>One processor: acquire and release in closed form\<close>

text \<open>
  \<open>cpu_ok\<close> is what the kernel maintains between two statements: the executing processor is in
  the table, its nesting depth is not negative, interrupts are off while the depth is positive,
  and at depth zero the saved flag agrees with the register.
\<close>

definition cpu_ok :: "'a mach_scheme \<Rightarrow> bool" where
  "cpu_ok s =
     (case cpu_index s of
        None \<Rightarrow> False
      | Some i \<Rightarrow> i < length (cpus s) \<and> 0 \<le> c_ncli (cpus s ! i) \<and>
          (if c_ncli (cpus s ! i) = 0 then c_intena (cpus s ! i) = fl_if s else \<not> fl_if s))"

definition my :: "'a mach_scheme \<Rightarrow> nat" where
  "my s = the (cpu_index s)"

definition lock_free :: "lockid \<Rightarrow> 'a mach_scheme \<Rightarrow> bool" where
  "lock_free l s = (\<not> l_locked (locks s l) \<and> l_cpu (locks s l) = None)"

definition lock_mine :: "lockid \<Rightarrow> 'a mach_scheme \<Rightarrow> bool" where
  "lock_mine l s = (l_locked (locks s l) \<and> l_cpu (locks s l) = Some (my s))"

definition acq :: "lockid \<Rightarrow> 'a mach_scheme \<Rightarrow> 'a mach_scheme" where
  "acq l s = s\<lparr>fl_if := False,
     cpus := (cpus s)[my s := (cpus s ! my s)\<lparr>c_ncli := c_ncli (cpus s ! my s) + 1\<rparr>],
     locks := (locks s)(l := (locks s l)\<lparr>l_locked := True, l_cpu := Some (my s)\<rparr>)\<rparr>"

definition rel :: "lockid \<Rightarrow> 'a mach_scheme \<Rightarrow> 'a mach_scheme" where
  "rel l s = s\<lparr>
     fl_if := (c_ncli (cpus s ! my s) = 1 \<and> c_intena (cpus s ! my s)),
     cpus := (cpus s)[my s := (cpus s ! my s)\<lparr>c_ncli := c_ncli (cpus s ! my s) - 1\<rparr>],
     locks := (locks s)(l := (locks s l)\<lparr>l_cpu := None, l_locked := False\<rparr>)\<rparr>"

lemma find_cong_upt:
  "(\<And>i. i < n \<Longrightarrow> P i = Q i) \<Longrightarrow> find P [0..<n] = find Q [0..<n]"
  by (rule find_cong) auto

lemma cpu_index_upd:
  assumes "\<And>c. c_apicid (f c) = c_apicid c"
  shows "find (\<lambda>j. c_apicid (cs[i := f (cs ! i)] ! j) = a) [0..<n] =
         find (\<lambda>j. c_apicid (cs ! j) = a) [0..<n]"
proof (rule find_cong_upt)
  fix j
  show "(c_apicid (cs[i := f (cs ! i)] ! j) = a) = (c_apicid (cs ! j) = a)"
    by (cases "i < length cs") (auto simp: assms nth_list_update list_update_beyond)
qed

lemma cpu_index_upd_cpu [simp]:
  "(\<And>c. c_apicid (f c) = c_apicid c) \<Longrightarrow>
   cpu_index (s\<lparr>cpus := (cpus s)[i := f (cpus s ! i)]\<rparr>) = cpu_index s"
  by (simp add: cpu_index_def cpu_index_upd)

lemma cpu_index_field [simp]:
  "cpu_index (s\<lparr>fl_if := b\<rparr>) = cpu_index s"
  "cpu_index (s\<lparr>locks := k\<rparr>) = cpu_index s"
  by (simp_all add: cpu_index_def)

lemma cpu_index_ncli [simp]:
  "cpu_index (s\<lparr>cpus := (cpus s)[i := (cpus s ! i)\<lparr>c_ncli := n\<rparr>]\<rparr>) = cpu_index s"
  "cpu_index (s\<lparr>cpus := (cpus s)[i := (cpus s ! i)\<lparr>c_ncli := n, c_intena := b\<rparr>]\<rparr>) = cpu_index s"
  "cpu_index (s\<lparr>cpus := (cpus s)[i := (cpus s ! i)\<lparr>c_intena := b\<rparr>]\<rparr>) = cpu_index s"
  "cpu_index (s\<lparr>cpus := (cpus s)[i := (cpus s ! i)\<lparr>c_proc := q\<rparr>]\<rparr>) = cpu_index s"
  using cpu_index_upd [of "\<lambda>c. c\<lparr>c_ncli := n\<rparr>" "cpus s" i "lapicid s" "ncpu s"]
    cpu_index_upd [of "\<lambda>c. c\<lparr>c_ncli := n, c_intena := b\<rparr>" "cpus s" i "lapicid s" "ncpu s"]
    cpu_index_upd [of "\<lambda>c. c\<lparr>c_intena := b\<rparr>" "cpus s" i "lapicid s" "ncpu s"]
    cpu_index_upd [of "\<lambda>c. c\<lparr>c_proc := q\<rparr>" "cpus s" i "lapicid s" "ncpu s"]
  by (simp_all add: cpu_index_def)

lemma cpu_okD:
  assumes "cpu_ok s"
  shows "cpu_index s = Some (my s)" "my s < length (cpus s)" "0 \<le> c_ncli (cpus s ! my s)"
    "c_ncli (cpus s ! my s) = 0 \<Longrightarrow> c_intena (cpus s ! my s) = fl_if s"
    "c_ncli (cpus s ! my s) \<noteq> 0 \<Longrightarrow> \<not> fl_if s"
  using assms by (auto simp: cpu_ok_def my_def split: option.splits if_splits)

definition psh :: "'a mach_scheme \<Rightarrow> 'a mach_scheme" where
  "psh s = s\<lparr>fl_if := False,
     cpus := (cpus s)[my s := (cpus s ! my s)\<lparr>c_ncli := c_ncli (cpus s ! my s) + 1\<rparr>]\<rparr>"

lemma my_simps [simp]:
  "my (s\<lparr>fl_if := b\<rparr>) = my s"
  "my (s\<lparr>locks := k\<rparr>) = my s"
  "my (s\<lparr>cpus := (cpus s)[i := (cpus s ! i)\<lparr>c_ncli := n\<rparr>]\<rparr>) = my s"
  "my (s\<lparr>cpus := (cpus s)[i := (cpus s ! i)\<lparr>c_proc := q\<rparr>]\<rparr>) = my s"
  by (simp_all add: my_def)

lemma cpu_index_psh [simp]: "cpu_index (psh s) = cpu_index s"
  by (simp add: psh_def cpu_index_def cpu_index_upd [of "\<lambda>c. c\<lparr>c_ncli := n\<rparr>" for n, simplified])

lemma my_psh [simp]: "my (psh s) = my s"
  by (simp add: my_def)

lemma psh_fields [simp]:
  "fl_if (psh s) = False" "locks (psh s) = locks s" "ncpu (psh s) = ncpu s"
  "lapicid (psh s) = lapicid s" "length (cpus (psh s)) = length (cpus s)"
  "my s < length (cpus s) \<Longrightarrow> cpus (psh s) ! my s = (cpus s ! my s)\<lparr>c_ncli := c_ncli (cpus s ! my s) + 1\<rparr>"
  by (simp_all add: psh_def)

lemma intena_same: "c_intena c = b \<Longrightarrow> c\<lparr>c_intena := b, c_ncli := n\<rparr> = c\<lparr>c_ncli := n\<rparr>"
  by (cases c) simp

lemma pushcli_ok:
  assumes "cpu_ok s"
  shows "pushcli s = Ok () (psh s)"
proof -
  note i = cpu_okD [OF assms]
  show ?thesis
  proof (cases "c_ncli (cpus s ! my s) = 0")
    case True
    note same = intena_same [OF i(4) [OF True], of 1]
    show ?thesis
      using i(1,2) True by (simp add: pushcli_def mycpu_def upd_cpu_def psh_def Let_def same)
  next
    case False
    then show ?thesis
      using i(1,2) by (simp add: pushcli_def mycpu_def upd_cpu_def psh_def Let_def)
  qed
qed

lemma cpu_ok_psh [simp]: "cpu_ok s \<Longrightarrow> cpu_ok (psh s)"
  by (frule cpu_okD(1), frule cpu_okD(2), drule cpu_okD(3)) (simp add: cpu_ok_def)

definition pop :: "'a mach_scheme \<Rightarrow> 'a mach_scheme" where
  "pop s = s\<lparr>
     fl_if := (c_ncli (cpus s ! my s) = 1 \<and> c_intena (cpus s ! my s)),
     cpus := (cpus s)[my s := (cpus s ! my s)\<lparr>c_ncli := c_ncli (cpus s ! my s) - 1\<rparr>]\<rparr>"

lemma popcli_ok:
  assumes "cpu_ok s" "1 \<le> c_ncli (cpus s ! my s)"
  shows "popcli s = Ok () (pop s)"
proof -
  note i = cpu_okD [OF assms(1)]
  from i(5) assms(2) have "\<not> fl_if s" by auto
  with i assms(2) show ?thesis
    by (auto simp: popcli_def mycpu_def upd_cpu_def pop_def Let_def)
qed

lemma pop_psh: "cpu_ok s \<Longrightarrow> pop (psh s) = s"
proof -
  assume ok: "cpu_ok s"
  note i = cpu_okD [OF ok]
  have "(c_ncli (cpus s ! my s) = 0 \<and> c_intena (cpus s ! my s)) = fl_if s"
    using i by auto
  with i show ?thesis
    by (simp add: pop_def psh_def my_psh [unfolded psh_def])
qed

lemma holding_ok:
  assumes "cpu_ok s"
  shows "holding l s = Ok (lock_mine l s) s"
proof -
  note i = cpu_okD [OF assms]
  have "popcli (psh s) = Ok () s"
    using popcli_ok [of "psh s"] i assms by (simp add: pop_psh)
  with i assms show ?thesis
    by (simp add: holding_def pushcli_ok mycpu_def lock_mine_def Let_def)
qed

lemma acq_as_psh:
  "acq l s = (psh s)\<lparr>locks := (locks s)(l := (locks s l)\<lparr>l_locked := True, l_cpu := Some (my s)\<rparr>)\<rparr>"
  by (simp add: acq_def psh_def)

lemma acquire_ok [lock_rules]:
  assumes "cpu_ok s" "lock_free l s"
  shows "acquire l s = Ok () (acq l s)"
  using assms cpu_okD [OF assms(1)]
  by (simp add: acquire_def pushcli_ok holding_ok lock_mine_def lock_free_def upd_lock_def
      mycpu_def acq_as_psh Let_def)

lemma acquire_reentrant:
  assumes "cpu_ok s" "lock_mine l s"
  shows "acquire l s = Panic ''acquire''"
  using assms cpu_okD [OF assms(1)]
  by (simp add: acquire_def pushcli_ok holding_ok lock_mine_def)

lemma acquire_spins:
  assumes "cpu_ok s" "l_locked (locks s l)" "\<not> lock_mine l s"
  shows "acquire l s = Diverge"
  using assms cpu_okD [OF assms(1)]
  by (simp add: acquire_def pushcli_ok holding_ok lock_mine_def)


lemma cpu_ok_cong:
  "cpus s = cpus t \<Longrightarrow> ncpu s = ncpu t \<Longrightarrow> lapicid s = lapicid t \<Longrightarrow> fl_if s = fl_if t \<Longrightarrow>
   cpu_ok s = cpu_ok t"
  by (simp add: cpu_ok_def cpu_index_def cong: option.case_cong)

lemma acq_fields [simp]:
  "fl_if (acq l s) = False" "ncpu (acq l s) = ncpu s" "lapicid (acq l s) = lapicid s"
  "length (cpus (acq l s)) = length (cpus s)"
  "cpu_index (acq l s) = cpu_index s" "my (acq l s) = my s"
  "locks (acq l s) = (locks s)(l := (locks s l)\<lparr>l_locked := True, l_cpu := Some (my s)\<rparr>)"
  by (simp_all add: acq_as_psh my_def)

lemma acq_cpu [simp]:
  "my s < length (cpus s) \<Longrightarrow>
   cpus (acq l s) ! my s = (cpus s ! my s)\<lparr>c_ncli := c_ncli (cpus s ! my s) + 1\<rparr>"
  by (simp add: acq_def)

lemma acq_ncli [simp]: "cpu_ok s \<Longrightarrow> 1 \<le> c_ncli (cpus (acq l s) ! my s)"
  using cpu_okD [of s] by simp

lemma cpu_ok_acq [simp]: "cpu_ok s \<Longrightarrow> cpu_ok (acq l s)"
  using cpu_ok_psh [of s] cpu_ok_cong [of "acq l s" "psh s"] by (simp add: acq_as_psh)

lemma lock_mine_acq [simp]: "lock_mine l (acq l s)"
  by (simp add: lock_mine_def)

lemma lock_acq_other [simp]:
  "k \<noteq> l \<Longrightarrow> lock_mine k (acq l s) = lock_mine k s"
  "k \<noteq> l \<Longrightarrow> lock_free k (acq l s) = lock_free k s"
  by (simp_all add: lock_mine_def lock_free_def)

text \<open>The lock is released by its holder only, and only at a positive depth.\<close>

lemma release_ok [lock_rules]:
  assumes "cpu_ok s" "lock_mine l s" "1 \<le> c_ncli (cpus s ! my s)"
  shows "release l s = Ok () (rel l s)"
proof -
  define t where "t = s\<lparr>locks := (locks s)(l := (locks s l)\<lparr>l_cpu := None, l_locked := False\<rparr>)\<rparr>"
  have "cpu_ok t"
    using assms(1) cpu_ok_cong [of t s] by (simp add: t_def)
  moreover have "my t = my s" "cpus t = cpus s"
    by (simp_all add: t_def)
  ultimately have "popcli t = Ok () (pop t)"
    using popcli_ok [of t] assms(3) by simp
  moreover have "pop t = rel l s"
    by (simp add: pop_def rel_def t_def)
  ultimately show ?thesis
    using assms(1,2) by (simp add: release_def holding_ok upd_lock_def t_def Let_def)
qed

lemma release_not_held:
  assumes "cpu_ok s" "\<not> lock_mine l s"
  shows "release l s = Panic ''release''"
  using assms by (simp add: release_def holding_ok)

lemma rel_acq: "cpu_ok s \<Longrightarrow> lock_free l s \<Longrightarrow> rel l (acq l s) = s"
proof -
  assume ok: "cpu_ok s" and free: "lock_free l s"
  note i = cpu_okD [OF ok]
  have "(locks s l)\<lparr>l_cpu := None, l_locked := False\<rparr> = locks s l"
    using free by (cases "locks s l") (simp add: lock_free_def)
  then have "locks (rel l (acq l s)) = locks s"
    by (auto simp: rel_def)
  moreover have "fl_if (rel l (acq l s)) = fl_if s"
    using i by (auto simp: rel_def)
  moreover have "cpus (rel l (acq l s)) = cpus s"
    using i(2) by (simp add: rel_def) (simp add: acq_def)
  ultimately show ?thesis
    by (simp add: rel_def acq_def)
qed


section \<open>Several processors\<close>

text \<open>
  The processors share the processor table and the locks; each has its own interrupt flag.
  An event is one processor completing \<^verbatim>\<open>acquire\<close> or \<^verbatim>\<open>release\<close> of one lock; \<open>exec_event\<close> runs
  the code above from the view of that processor, and has no result when the code panics or
  spins.  A run is a list of events in any interleaving.
\<close>

record glob =
  g_mach :: mach
  g_if :: "nat \<Rightarrow> bool"

datatype lock_event = EAcq nat lockid | ERel nat lockid

definition view :: "nat \<Rightarrow> glob \<Rightarrow> mach" where
  "view c g = (g_mach g)\<lparr>lapicid := c_apicid (cpus (g_mach g) ! c), fl_if := g_if g c\<rparr>"

definition put_view :: "nat \<Rightarrow> mach \<Rightarrow> glob \<Rightarrow> glob" where
  "put_view c s g = \<lparr>g_mach = s, g_if = (g_if g)(c := fl_if s)\<rparr>"

fun after :: "nat \<Rightarrow> glob \<Rightarrow> (unit, mach) outcome \<Rightarrow> glob option" where
  "after c g (Ok u s) = Some (put_view c s g)"
| "after c g _ = None"

fun exec_event :: "lock_event \<Rightarrow> glob \<Rightarrow> glob option" where
  "exec_event (EAcq c l) g =
     (if c < ncpu (g_mach g) then after c g (acquire l (view c g)) else None)"
| "exec_event (ERel c l) g =
     (if c < ncpu (g_mach g) then after c g (release l (view c g)) else None)"

fun run_events :: "lock_event list \<Rightarrow> glob \<Rightarrow> glob option" where
  "run_events [] g = Some g"
| "run_events (e # es) g = Option.bind (exec_event e g) (run_events es)"

text \<open>The events on one lock alternate: taken by a processor, given back by the same one.\<close>

fun alternates :: "lockid \<Rightarrow> nat option \<Rightarrow> lock_event list \<Rightarrow> bool" where
  "alternates l ow [] = True"
| "alternates l ow (EAcq c k # es) =
     (if k = l then ow = None \<and> alternates l (Some c) es else alternates l ow es)"
| "alternates l ow (ERel c k # es) =
     (if k = l then ow = Some c \<and> alternates l None es else alternates l ow es)"

definition held_by :: "nat \<Rightarrow> glob \<Rightarrow> lockid set" where
  "held_by c g = {l. l_cpu (locks (g_mach g) l) = Some c}"

definition glob_ok :: "glob \<Rightarrow> bool" where
  "glob_ok g =
     (ncpu (g_mach g) \<le> length (cpus (g_mach g)) \<and>
      inj_on (\<lambda>c. c_apicid (cpus (g_mach g) ! c)) {..<ncpu (g_mach g)} \<and>
      (\<forall>l. l_locked (locks (g_mach g) l) = (l_cpu (locks (g_mach g) l) \<noteq> None)) \<and>
      (\<forall>c<ncpu (g_mach g).
         finite (held_by c g) \<and>
         c_ncli (cpus (g_mach g) ! c) = int (card (held_by c g)) \<and>
         (if held_by c g = {} then c_intena (cpus (g_mach g) ! c) = g_if g c else \<not> g_if g c)))"

lemma view_fields [simp]:
  "cpus (view c g) = cpus (g_mach g)" "ncpu (view c g) = ncpu (g_mach g)"
  "locks (view c g) = locks (g_mach g)" "fl_if (view c g) = g_if g c"
  "lapicid (view c g) = c_apicid (cpus (g_mach g) ! c)"
  by (simp_all add: view_def)

lemma my_view:
  assumes "glob_ok g" "c < ncpu (g_mach g)"
  shows "cpu_index (view c g) = Some c" "my (view c g) = c"
proof -
  have "c_apicid (cpus (g_mach g) ! j) \<noteq> c_apicid (cpus (g_mach g) ! c)" if "j < c" for j
    using assms that inj_onD [of "\<lambda>c. c_apicid (cpus (g_mach g) ! c)" "{..<ncpu (g_mach g)}" j c]
    by (auto simp: glob_ok_def)
  then have "find (\<lambda>i. c_apicid (cpus (g_mach g) ! i) = c_apicid (cpus (g_mach g) ! c))
      [0..<ncpu (g_mach g)] = Some c"
    using assms(2) by (auto simp: find_Some_iff intro!: exI [of _ c])
  then show "cpu_index (view c g) = Some c" "my (view c g) = c"
    by (simp_all add: cpu_index_def my_def)
qed

lemma ncli_view:
  "glob_ok g \<Longrightarrow> c < ncpu (g_mach g) \<Longrightarrow>
   c_ncli (cpus (g_mach g) ! c) = int (card (held_by c g)) \<and> finite (held_by c g)"
  by (simp add: glob_ok_def)

lemma cpu_ok_view:
  assumes "glob_ok g" "c < ncpu (g_mach g)"
  shows "cpu_ok (view c g)"
proof -
  have "(int (card (held_by c g)) = 0) = (held_by c g = {})"
    using ncli_view [OF assms] by simp
  with assms ncli_view [OF assms] my_view [OF assms] show ?thesis
    by (auto simp: cpu_ok_def glob_ok_def)
qed

text \<open>
  What one event does, read off the closed forms: a lock is taken only when it is free and
  given back only by the processor recorded in it.
\<close>

lemma exec_acq:
  assumes ok: "glob_ok g" and ex: "exec_event (EAcq c l) g = Some g'"
  shows "c < ncpu (g_mach g)" "lock_free l (view c g)" "g' = put_view c (acq l (view c g)) g"
proof -
  from ex show c: "c < ncpu (g_mach g)" by (auto split: if_splits)
  have v: "cpu_ok (view c g)" using ok c by (rule cpu_ok_view)
  have wf: "l_locked (locks (g_mach g) l) = (l_cpu (locks (g_mach g) l) \<noteq> None)"
    using ok by (simp add: glob_ok_def)
  show free: "lock_free l (view c g)"
  proof (rule ccontr)
    assume "\<not> lock_free l (view c g)"
    then have "l_locked (locks (view c g) l)" using wf by (simp add: lock_free_def)
    then show False
      using ex c acquire_reentrant [OF v, of l] acquire_spins [OF v, of l]
      by (cases "lock_mine l (view c g)") auto
  qed
  from ex c show "g' = put_view c (acq l (view c g)) g"
    by (simp add: acquire_ok [OF v free])
qed

lemma exec_rel:
  assumes ok: "glob_ok g" and ex: "exec_event (ERel c l) g = Some g'"
  shows "c < ncpu (g_mach g)" "l_cpu (locks (g_mach g) l) = Some c"
    "g' = put_view c (rel l (view c g)) g"
proof -
  from ex show c: "c < ncpu (g_mach g)" by (auto split: if_splits)
  have v: "cpu_ok (view c g)" using ok c by (rule cpu_ok_view)
  have mine: "lock_mine l (view c g)"
    using ex c release_not_held [OF v, of l] by (cases "lock_mine l (view c g)") auto
  then show h: "l_cpu (locks (g_mach g) l) = Some c"
    by (simp add: lock_mine_def my_view [OF ok c])
  then have "l \<in> held_by c g" by (simp add: held_by_def)
  then have "1 \<le> c_ncli (cpus (view c g) ! my (view c g))"
    using ncli_view [OF ok c] card_gt_0_iff [of "held_by c g"] by (auto simp: my_view [OF ok c])
  from ex c show "g' = put_view c (rel l (view c g)) g"
    by (simp add: release_ok [OF v mine \<open>1 \<le> _\<close>])
qed


lemma glob_ok_acq:
  assumes ok: "glob_ok g" and c: "c < ncpu (g_mach g)" and free: "lock_free l (view c g)"
  shows "glob_ok (put_view c (acq l (view c g)) g)"
proof -
  let ?g = "put_view c (acq l (view c g)) g"
  have held: "held_by d ?g = (if d = c then insert l (held_by d g) else held_by d g)" for d
    using free by (auto simp: held_by_def put_view_def my_view [OF ok c] lock_free_def)
  have new: "l \<notin> held_by c g"
    using free by (simp add: held_by_def lock_free_def)
  have len: "c < length (cpus (g_mach g))"
    using ok c by (simp add: glob_ok_def)
  have cpu: "cpus (g_mach ?g) ! d =
      (if d = c then (cpus (g_mach g) ! d)\<lparr>c_ncli := c_ncli (cpus (g_mach g) ! d) + 1\<rparr>
       else cpus (g_mach g) ! d)" for d
    using len by (simp add: put_view_def acq_def my_view [OF ok c])
  have rest: "ncpu (g_mach ?g) = ncpu (g_mach g)" "length (cpus (g_mach ?g)) = length (cpus (g_mach g))"
      "g_if ?g = (g_if g)(c := False)"
      "locks (g_mach ?g) = (locks (g_mach g))(l := (locks (g_mach g) l)\<lparr>l_locked := True, l_cpu := Some c\<rparr>)"
    by (simp_all add: put_view_def my_view [OF ok c])
  have apic: "(\<lambda>d. c_apicid (cpus (g_mach ?g) ! d)) = (\<lambda>d. c_apicid (cpus (g_mach g) ! d))"
    by (auto simp: cpu)
  show ?thesis
    using ok unfolding glob_ok_def rest apic
    by (auto simp: held cpu new)
qed

lemma glob_ok_rel:
  assumes ok: "glob_ok g" and c: "c < ncpu (g_mach g)" and mine: "l_cpu (locks (g_mach g) l) = Some c"
  shows "glob_ok (put_view c (rel l (view c g)) g)"
proof -
  let ?g = "put_view c (rel l (view c g)) g"
  have held: "held_by d ?g = (if d = c then held_by d g - {l} else held_by d g)" for d
    using mine by (auto simp: held_by_def put_view_def rel_def)
  have old: "l \<in> held_by c g"
    using mine by (simp add: held_by_def)
  have len: "c < length (cpus (g_mach g))"
    using ok c by (simp add: glob_ok_def)
  have cpu: "cpus (g_mach ?g) ! d =
      (if d = c then (cpus (g_mach g) ! d)\<lparr>c_ncli := c_ncli (cpus (g_mach g) ! d) - 1\<rparr>
       else cpus (g_mach g) ! d)" for d
    using len by (simp add: put_view_def rel_def my_view [OF ok c])
  have n: "c_ncli (cpus (g_mach g) ! c) = int (card (held_by c g))" "finite (held_by c g)"
    using ncli_view [OF ok c] by simp_all
  have one: "(c_ncli (cpus (g_mach g) ! c) = 1) = (held_by c g - {l} = {})"
    using n(2) unfolding n(1) card_Suc_Diff1 [OF n(2) old, symmetric]
    by (simp add: card_eq_0_iff)
  have rest: "ncpu (g_mach ?g) = ncpu (g_mach g)" "length (cpus (g_mach ?g)) = length (cpus (g_mach g))"
      "g_if ?g = (g_if g)(c := held_by c g - {l} = {} \<and> c_intena (cpus (g_mach g) ! c))"
      "locks (g_mach ?g) = (locks (g_mach g))(l := (locks (g_mach g) l)\<lparr>l_cpu := None, l_locked := False\<rparr>)"
    by (simp_all add: put_view_def rel_def my_view [OF ok c] one)
  have apic: "(\<lambda>d. c_apicid (cpus (g_mach ?g) ! d)) = (\<lambda>d. c_apicid (cpus (g_mach g) ! d))"
    by (auto simp: cpu)
  have size: "int (card (held_by c g - {l})) = int (card (held_by c g)) - 1"
    using card_Suc_Diff1 [OF n(2) old] by linarith
  have single: "card (held_by c g) = Suc 0" if "held_by c g \<subseteq> {l}"
    using subset_singletonD [OF that] old by auto
  show ?thesis
    using ok unfolding glob_ok_def rest apic
    by (auto simp: held cpu size single)
qed


lemma exec_event_ok:
  assumes "glob_ok g" "exec_event e g = Some g'"
  shows "glob_ok g'"
proof (cases e)
  case (EAcq c l)
  note x = exec_acq [OF assms(1) assms(2) [unfolded EAcq]]
  show ?thesis
    using glob_ok_acq [OF assms(1) x(1,2)] x(3) by simp
next
  case (ERel c l)
  note x = exec_rel [OF assms(1) assms(2) [unfolded ERel]]
  show ?thesis
    using glob_ok_rel [OF assms(1) x(1,2)] x(3) by simp
qed

lemma run_events_ok: "glob_ok g \<Longrightarrow> run_events es g = Some g' \<Longrightarrow> glob_ok g'"
proof (induction es arbitrary: g)
  case (Cons e es)
  from Cons.prems(2) obtain h where h: "exec_event e g = Some h" "run_events es h = Some g'"
    by (cases "exec_event e g") simp_all
  show ?case
    by (rule Cons.IH [OF exec_event_ok [OF Cons.prems(1) h(1)] h(2)])
qed simp

lemma l_cpu_acq:
  assumes "glob_ok g" "exec_event (EAcq c k) g = Some g'"
  shows "l_cpu (locks (g_mach g') l) = (if l = k then Some c else l_cpu (locks (g_mach g) l))"
    "l_cpu (locks (g_mach g) k) = None"
proof -
  note x = exec_acq [OF assms]
  show "l_cpu (locks (g_mach g') l) = (if l = k then Some c else l_cpu (locks (g_mach g) l))"
    using x(3) by (simp add: put_view_def my_view [OF assms(1) x(1)])
  show "l_cpu (locks (g_mach g) k) = None"
    using x(2) by (simp add: lock_free_def)
qed

lemma l_cpu_rel:
  assumes "glob_ok g" "exec_event (ERel c k) g = Some g'"
  shows "l_cpu (locks (g_mach g') l) = (if l = k then None else l_cpu (locks (g_mach g) l))"
    "l_cpu (locks (g_mach g) k) = Some c"
proof -
  note x = exec_rel [OF assms]
  show "l_cpu (locks (g_mach g') l) = (if l = k then None else l_cpu (locks (g_mach g) l))"
    using x(3) by (simp add: put_view_def rel_def)
  show "l_cpu (locks (g_mach g) k) = Some c"
    by (rule x(2))
qed

lemma alternates_run:
  "glob_ok g \<Longrightarrow> run_events es g = Some g' \<Longrightarrow> alternates l (l_cpu (locks (g_mach g) l)) es"
proof (induction es arbitrary: g)
  case (Cons e es)
  from Cons.prems(2) obtain h where h: "exec_event e g = Some h" "run_events es h = Some g'"
    by (cases "exec_event e g") simp_all
  note IH = Cons.IH [OF exec_event_ok [OF Cons.prems(1) h(1)] h(2)]
  show ?case
  proof (cases e)
    case (EAcq c k)
    note x = l_cpu_acq [OF Cons.prems(1) h(1) [unfolded EAcq]]
    show ?thesis
      using IH x(2) by (simp add: EAcq x(1) split: if_splits)
  next
    case (ERel c k)
    note x = l_cpu_rel [OF Cons.prems(1) h(1) [unfolded ERel]]
    show ?thesis
      using IH x(2) by (simp add: ERel x(1) split: if_splits)
  qed
qed simp

section \<open>Boot state and properties\<close>

text \<open>Two processors right after \<^verbatim>\<open>initlock\<close> of every lock, interrupts still off.\<close>

definition boot_locks :: "lockid \<Rightarrow> spinlock" where
  "boot_locks l = \<lparr>l_locked = False, l_name = ''lock'', l_cpu = None\<rparr>"

definition boot_glob :: "glob" where
  "boot_glob = \<lparr>g_mach =
       \<lparr>cpus = [\<lparr>c_apicid = 0, c_ncli = 0, c_intena = False, c_proc = None\<rparr>,
                \<lparr>c_apicid = 4, c_ncli = 0, c_intena = False, c_proc = None\<rparr>],
        ncpu = 2, lapicid = 0, fl_if = False, locks = boot_locks\<rparr>,
     g_if = (\<lambda>_. False)\<rparr>"

lemma glob_ok_boot: "glob_ok boot_glob"
  by (auto simp: glob_ok_def boot_glob_def boot_locks_def held_by_def inj_on_def less_2_cases_iff
      numeral_2_eq_2 less_Suc_eq)


definition demo_events :: "lock_event list" where
  "demo_events = [EAcq 0 PtableLock, EAcq 1 KmemLock, EAcq 0 LogLock, ERel 1 KmemLock,
     EAcq 1 IdeLock, ERel 0 PtableLock, ERel 0 LogLock, EAcq 0 PtableLock]"

lemma demo_run: "\<not> Option.is_none (run_events demo_events boot_glob)"
  by code_simp


end
