(* ===== verification/Memory.thy ===== *)
theory Memory
  imports Spinlock
begin

text \<open>
  Physical memory and its allocator: \<^verbatim>\<open>kalloc.c\<close>, and the address arithmetic of \<^verbatim>\<open>mmu.h\<close> and
  \<^verbatim>\<open>memlayout.h\<close>.

  Memory is a function from page addresses (kernel virtual addresses) to the object that
  currently lives in the page.  A free page holds \<^verbatim>\<open>struct run\<close>, that is the link to the next
  free page, and junk.  \<^verbatim>\<open>kalloc\<close> hands out a page that still holds the old link and the
  junk bytes 1 of \<^verbatim>\<open>kfree\<close>'s \<^verbatim>\<open>memset\<close> (\<open>RawPage\<close>); the first store of the client turns it into
  the client's object.  Using a page that is free, or an address that is no page, is a \<open>Fault\<close>.
  The state \<open>kmem\<close> extends the machine with the fields of the C struct \<^verbatim>\<open>kmem\<close>, the memory and
  the address \<^verbatim>\<open>end\<close> the linker puts after the kernel.
\<close>

section \<open>Address arithmetic\<close>

definition PGSIZE :: addr where "PGSIZE = 4096"
definition KERNBASE :: addr where "KERNBASE = 0x80000000"
definition PHYSTOP :: addr where "PHYSTOP = 0xE000000"
definition EXTMEM :: addr where "EXTMEM = 0x100000"
definition DEVSPACE :: addr where "DEVSPACE = 0xFE000000"
definition KERNLINK :: addr where "KERNLINK = KERNBASE + EXTMEM"

definition PGROUNDUP :: "addr \<Rightarrow> addr" where
  "PGROUNDUP sz = (sz + PGSIZE - 1) AND NOT (PGSIZE - 1)"

definition PGROUNDDOWN :: "addr \<Rightarrow> addr" where
  "PGROUNDDOWN a = a AND NOT (PGSIZE - 1)"

definition PDX :: "addr \<Rightarrow> addr" where
  "PDX va = drop_bit 22 va AND 0x3FF"

definition PTX :: "addr \<Rightarrow> addr" where
  "PTX va = drop_bit 12 va AND 0x3FF"

definition PGADDR :: "addr \<Rightarrow> addr \<Rightarrow> addr \<Rightarrow> addr" where
  "PGADDR d t off = push_bit 22 d OR push_bit 12 t OR off"

definition PTE_ADDR :: "addr \<Rightarrow> addr" where
  "PTE_ADDR pte = pte AND NOT 0xFFF"

definition PTE_FLAGS :: "addr \<Rightarrow> addr" where
  "PTE_FLAGS pte = pte AND 0xFFF"

definition V2P :: "addr \<Rightarrow> 's \<Rightarrow> (addr, 's) outcome" where
  "V2P a s =
     (if a < KERNBASE
      then Panic (''V2P on address < KERNBASE '' @
                  ''(not a kernel virtual address; consider walking page '' @
                  ''table to determine physical address of a user virtual address)'')
      else Ok (a - KERNBASE) s)"

definition P2V :: "addr \<Rightarrow> 's \<Rightarrow> (addr, 's) outcome" where
  "P2V a s = (if a > KERNBASE then Panic ''P2V on address > KERNBASE'' else Ok (a + KERNBASE) s)"

section \<open>Pages\<close>

record node =
  n_pid :: int
  n_vd :: int
  n_prev :: addr
  n_next :: addr
  n_forward :: addr

record pipe =
  p_data :: "byte list"
  p_nread :: "32 word"
  p_nwrite :: "32 word"
  p_readopen :: bool
  p_writeopen :: bool

datatype page =
    NoPage
  | FreePage addr
  | RawPage addr
  | NodePage node
  | SkipPage int addr
  | WordPage "nat \<Rightarrow> addr"
  | BytePage "nat \<Rightarrow> byte"
  | PipePage pipe

definition junk :: addr where "junk = 0x01010101"

record kmem = mach +
  mem :: "addr \<Rightarrow> page"
  freelist :: addr
  use_lock :: bool
  kend :: addr

definition put_page :: "addr \<Rightarrow> page \<Rightarrow> 'a kmem_scheme \<Rightarrow> 'a kmem_scheme" where
  "put_page a p s = s\<lparr>mem := (mem s)(a := p)\<rparr>"

section \<open>Words in pages\<close>

definition NULL :: addr where "NULL = 0"

fun words_of :: "page \<Rightarrow> (nat \<Rightarrow> addr) option" where
  "words_of (WordPage w) = Some w"
| "words_of (RawPage w) = Some (\<lambda>i. if i = 0 then w else junk)"
| "words_of _ = None"

definition load_word :: "addr \<Rightarrow> nat \<Rightarrow> 'a kmem_scheme \<Rightarrow> (addr, 'a kmem_scheme) outcome" where
  "load_word a i s =
     (case words_of (mem s a) of
        None \<Rightarrow> Fault ''word pointer''
      | Some w \<Rightarrow> if a = NULL then Fault ''word pointer'' else Ok (w i) s)"

definition store_word :: "addr \<Rightarrow> nat \<Rightarrow> addr \<Rightarrow> 'a kmem_scheme \<Rightarrow> (unit, 'a kmem_scheme) outcome" where
  "store_word a i v s =
     (case words_of (mem s a) of
        None \<Rightarrow> Fault ''word pointer''
      | Some w \<Rightarrow> if a = NULL then Fault ''word pointer'' else Ok () (put_page a (WordPage (w(i := v))) s))"

section \<open>The allocator\<close>

definition kfree :: "addr \<Rightarrow> 'a kmem_scheme \<Rightarrow> (unit, 'a kmem_scheme) outcome" where
  "kfree v s =
     (if v mod PGSIZE \<noteq> 0 \<or> v < kend s then Panic ''kfree''
      else bindo (V2P v s) (\<lambda>pa s.
        if pa \<ge> PHYSTOP then Panic ''kfree''
        else
        let s = put_page v (RawPage junk) s in
      bindo (if use_lock s then acquire KmemLock s else Ok () s) (\<lambda>_ s.
        let s = put_page v (FreePage (freelist s)) s;
            s = s\<lparr>freelist := v\<rparr>
        in if use_lock s then release KmemLock s else Ok () s)))"

definition kalloc :: "'a kmem_scheme \<Rightarrow> (addr, 'a kmem_scheme) outcome" where
  "kalloc s =
     bindo (if use_lock s then acquire KmemLock s else Ok () s) (\<lambda>_ s.
       let r = freelist s in
     bindo (if r \<noteq> 0
            then (case mem s r of
                    FreePage nx \<Rightarrow> Ok () (put_page r (RawPage nx) (s\<lparr>freelist := nx\<rparr>))
                  | _ \<Rightarrow> Fault ''kalloc: free list'')
            else Ok () s) (\<lambda>_ s.
     bindo (if use_lock s then release KmemLock s else Ok () s) (\<lambda>_ s. Ok r s)))"

partial_function (option) freerange_loop ::
  "addr \<Rightarrow> addr \<Rightarrow> 'a kmem_scheme \<Rightarrow> (unit, 'a kmem_scheme) outcome option" where
  "freerange_loop p vend s =
     (if p + PGSIZE \<le> vend
      then (case kfree p s of
              Ok u s \<Rightarrow> freerange_loop (p + PGSIZE) vend s
            | Switch s \<Rightarrow> Some (Switch s)
            | Panic m \<Rightarrow> Some (Panic m)
            | Fault m \<Rightarrow> Some (Fault m)
            | Diverge \<Rightarrow> Some Diverge)
      else Some (Ok () s))"

definition freerange :: "addr \<Rightarrow> addr \<Rightarrow> 'a kmem_scheme \<Rightarrow> (unit, 'a kmem_scheme) outcome" where
  "freerange vstart vend s =
     (if vend < vstart then Panic ''freerange''
      else returns (freerange_loop (PGROUNDUP vstart) vend s))"

definition kinit1 :: "addr \<Rightarrow> addr \<Rightarrow> 'a kmem_scheme \<Rightarrow> (unit, 'a kmem_scheme) outcome" where
  "kinit1 vstart vend s =
     bindo (initlock KmemLock ''kmem'' s) (\<lambda>_ s.
       freerange vstart vend (s\<lparr>use_lock := False\<rparr>))"

definition kinit2 :: "addr \<Rightarrow> addr \<Rightarrow> 'a kmem_scheme \<Rightarrow> (unit, 'a kmem_scheme) outcome" where
  "kinit2 vstart vend s =
     bindo (freerange vstart vend s) (\<lambda>_ s. Ok () (s\<lparr>use_lock := True\<rparr>))"


section \<open>The free list as a list of pages\<close>

fun flist :: "(addr \<Rightarrow> page) \<Rightarrow> addr \<Rightarrow> addr list \<Rightarrow> bool" where
  "flist m a [] = (a = 0)"
| "flist m a (b # bs) = (a = b \<and> a \<noteq> 0 \<and> (\<exists>nx. m a = FreePage nx \<and> flist m nx bs))"

fun is_free :: "page \<Rightarrow> bool" where
  "is_free (FreePage nx) = True"
| "is_free _ = False"

definition phys_page :: "'a kmem_scheme \<Rightarrow> addr \<Rightarrow> bool" where
  "phys_page s v = (v mod PGSIZE = 0 \<and> kend s \<le> v \<and> KERNBASE \<le> v \<and> v - KERNBASE < PHYSTOP \<and> v \<noteq> 0)"

definition kmem_ok :: "addr list \<Rightarrow> 'a kmem_scheme \<Rightarrow> bool" where
  "kmem_ok fs s =
     (flist (mem s) (freelist s) fs \<and> distinct fs \<and> (\<forall>v. is_free (mem s v) = (v \<in> set fs)) \<and>
      (\<forall>v \<in> set fs. phys_page s v))"

definition kmem_lockable :: "'a kmem_scheme \<Rightarrow> bool" where
  "kmem_lockable s = (use_lock s \<longrightarrow> cpu_ok s \<and> lock_free KmemLock s)"

subsection \<open>Fields the processor part does not see\<close>

lemma mach_kmem_frame [simp]:
  "my (s\<lparr>mem := m\<rparr>) = my s" "my (s\<lparr>freelist := a\<rparr>) = my s"
  "cpu_ok (s\<lparr>mem := m\<rparr>) = cpu_ok s" "cpu_ok (s\<lparr>freelist := a\<rparr>) = cpu_ok s"
  "lock_free l (s\<lparr>mem := m\<rparr>) = lock_free l s" "lock_free l (s\<lparr>freelist := a\<rparr>) = lock_free l s"
  "lock_mine l (s\<lparr>mem := m\<rparr>) = lock_mine l s" "lock_mine l (s\<lparr>freelist := a\<rparr>) = lock_mine l s"
  by (simp_all add: my_def cpu_ok_def cpu_index_def lock_free_def lock_mine_def cong: option.case_cong)

lemma rel_kmem_frame [simp]:
  "acq l (s\<lparr>mem := m\<rparr>) = (acq l s)\<lparr>mem := m\<rparr>"
  "acq l (s\<lparr>freelist := a\<rparr>) = (acq l s)\<lparr>freelist := a\<rparr>"
  "rel l (s\<lparr>mem := m\<rparr>) = (rel l s)\<lparr>mem := m\<rparr>"
  "rel l (s\<lparr>freelist := a\<rparr>) = (rel l s)\<lparr>freelist := a\<rparr>"
  by (simp_all add: rel_def acq_def)

lemma acq_kmem_fields [simp]:
  "mem (acq l s) = mem s" "freelist (acq l s) = freelist s" "use_lock (acq l s) = use_lock s"
  "kend (acq l s) = kend s"
  by (simp_all add: acq_def)

subsection \<open>Closed forms\<close>

lemma kalloc_step:
  assumes "kmem_lockable s" "kmem_ok (a # fs) s"
  shows "\<exists>nx. mem s a = FreePage nx \<and> freelist s = a \<and>
    kalloc s = Ok a (s\<lparr>freelist := nx, mem := (mem s)(a := RawPage nx)\<rparr>)"
proof -
  from assms(2) obtain nx where nx: "mem s a = FreePage nx" "freelist s = a" "a \<noteq> 0"
    by (auto simp: kmem_ok_def)
  show ?thesis
  proof (cases "use_lock s")
    case True
    with assms(1) have ok: "cpu_ok s" "lock_free KmemLock s" by (simp_all add: kmem_lockable_def)
    with nx True show ?thesis
      by (simp add: kalloc_def acquire_ok [OF ok] release_ok rel_acq [OF ok] ok put_page_def Let_def)
  next
    case False
    with nx show ?thesis by (simp add: kalloc_def put_page_def Let_def)
  qed
qed

lemma kalloc_empty:
  assumes "kmem_lockable s" "freelist s = 0"
  shows "kalloc s = Ok 0 s"
proof (cases "use_lock s")
  case True
  with assms(1) have ok: "cpu_ok s" "lock_free KmemLock s" by (simp_all add: kmem_lockable_def)
  with assms(2) True show ?thesis
    by (simp add: kalloc_def acquire_ok [OF ok] release_ok rel_acq [OF ok] ok Let_def)
next
  case False
  with assms(2) show ?thesis by (simp add: kalloc_def Let_def)
qed

lemma kfree_step:
  assumes "kmem_lockable s" "phys_page s v"
  shows "kfree v s = Ok () (s\<lparr>mem := (mem s)(v := FreePage (freelist s)), freelist := v\<rparr>)"
proof -
  from assms(2) have v: "v mod PGSIZE = 0" "\<not> v < kend s" "\<not> v < KERNBASE" "\<not> PHYSTOP \<le> v - KERNBASE"
    by (simp_all add: phys_page_def not_le not_less)
  show ?thesis
  proof (cases "use_lock s")
    case True
    with assms(1) have ok: "cpu_ok s" "lock_free KmemLock s" by (simp_all add: kmem_lockable_def)
    with v True show ?thesis
      by (simp add: kfree_def V2P_def acquire_ok release_ok rel_acq ok put_page_def Let_def)
  next
    case False
    with v show ?thesis by (simp add: kfree_def V2P_def put_page_def Let_def)
  qed
qed

lemma flist_upd: "v \<notin> set fs \<Longrightarrow> flist (m(v := p)) a fs = flist m a fs"
  by (induction fs arbitrary: a) auto

lemma flist_cong: "(\<And>v. v \<in> set fs \<Longrightarrow> m' v = m v) \<Longrightarrow> flist m' a fs = flist m a fs"
  by (induction fs arbitrary: a) auto

lemma phys_page_frame [simp]:
  "phys_page (s\<lparr>mem := m\<rparr>) = phys_page s" "phys_page (s\<lparr>freelist := a\<rparr>) = phys_page s"
  by (simp_all add: phys_page_def fun_eq_iff)

lemma kmem_lockable_frame [simp]:
  "kmem_lockable (s\<lparr>mem := m\<rparr>) = kmem_lockable s" "kmem_lockable (s\<lparr>freelist := a\<rparr>) = kmem_lockable s"
  by (simp_all add: kmem_lockable_def)

lemma kmem_ok_kalloc:
  assumes "kmem_lockable s" "kmem_ok (a # fs) s" "kalloc s = Ok r t"
  shows "r = a" "kmem_ok fs t" "mem t = (mem s)(a := mem t a)" "\<not> is_free (mem t a)"
    "phys_page t a" "a \<notin> set fs" "kmem_lockable t" "phys_page t = phys_page s"
proof -
  from kalloc_step [OF assms(1,2)] obtain nx where
    nx: "mem s a = FreePage nx" "r = a" "t = s\<lparr>freelist := nx, mem := (mem s)(a := RawPage nx)\<rparr>"
    using assms(3) by auto
  have fs: "flist (mem s) nx fs" "a \<notin> set fs" "phys_page s a"
    using assms(2) nx(1) by (auto simp: kmem_ok_def)
  show "r = a" "mem t = (mem s)(a := mem t a)" "\<not> is_free (mem t a)" "phys_page t a" "a \<notin> set fs"
    "kmem_lockable t" "phys_page t = phys_page s"
    using nx fs assms(1) by simp_all
  show "kmem_ok fs t"
    using assms(2) fs(1,2) by (simp add: nx(3) kmem_ok_def flist_upd)
qed

lemma kmem_ok_kfree:
  assumes "kmem_lockable s" "kmem_ok fs s" "phys_page s v" "\<not> is_free (mem s v)" "kfree v s = Ok u t"
  shows "kmem_ok (v # fs) t" "\<forall>w. w \<noteq> v \<longrightarrow> mem t w = mem s w" "kmem_lockable t" "phys_page t = phys_page s"
proof -
  have t: "t = s\<lparr>mem := (mem s)(v := FreePage (freelist s)), freelist := v\<rparr>"
    using kfree_step [OF assms(1,3)] assms(5) by simp
  then show "\<forall>w. w \<noteq> v \<longrightarrow> mem t w = mem s w" "kmem_lockable t" "phys_page t = phys_page s"
    using assms(1) by simp_all
  have "v \<notin> set fs" "v \<noteq> 0"
    using assms(2,3,4) by (auto simp: kmem_ok_def phys_page_def)
  then show "kmem_ok (v # fs) t"
    using assms(2,3) by (simp add: t kmem_ok_def flist_upd)
qed


lemma kmem_ok_mem:
  assumes "kmem_ok fs s" "\<And>v. is_free (m v) = is_free (mem s v)" "\<And>v. v \<in> set fs \<Longrightarrow> m v = mem s v"
  shows "kmem_ok fs (s\<lparr>mem := m\<rparr>)"
  using assms flist_cong [of fs m "mem s"] by (simp add: kmem_ok_def)


subsection \<open>Building the free list at boot\<close>

definition pages_from :: "addr \<Rightarrow> nat \<Rightarrow> addr list" where
  "pages_from p n = map (\<lambda>i. p + of_nat i * PGSIZE) [0..<n]"

lemma pages_from_Suc: "pages_from p (Suc n) = p # pages_from (p + PGSIZE) n"
proof -
  have "map (\<lambda>i. p + of_nat i * PGSIZE) [1..<Suc n] = map (\<lambda>i. p + of_nat (Suc i) * PGSIZE) [0..<n]"
    by (simp add: map_Suc_upt [symmetric] del: upt_Suc of_nat_Suc)
  then show ?thesis
    by (simp add: pages_from_def upt_conv_Cons algebra_simps del: upt_Suc)
qed

lemma page_step:
  assumes "unat vend + 4096 < 4294967296" "unat p \<le> unat vend"
  shows "(p + PGSIZE \<le> vend) = (unat p + 4096 \<le> unat vend)" "unat (p + PGSIZE) = unat p + 4096"
proof -
  show u: "unat (p + PGSIZE) = unat p + 4096"
    using assms by (subst unat_add_lem [THEN iffD1]) (simp_all add: PGSIZE_def)
  show "(p + PGSIZE \<le> vend) = (unat p + 4096 \<le> unat vend)"
    by (simp add: word_le_nat_alt u)
qed

lemma freerange_loop_ok:
  assumes "unat p + n * 4096 \<le> unat vend" "unat vend < unat p + (n + 1) * 4096"
    and "unat vend + 4096 < 4294967296"
    and "kmem_lockable s" "kmem_ok fs s" "distinct (pages_from p n)"
    and "\<forall>v \<in> set (pages_from p n). phys_page s v \<and> \<not> is_free (mem s v)"
  shows "\<exists>t. freerange_loop p vend s = Some (Ok () t) \<and> kmem_ok (rev (pages_from p n) @ fs) t \<and>
    kmem_lockable t \<and> use_lock t = use_lock s"
  using assms
proof (induction n arbitrary: p s fs)
  case 0
  then have "unat p \<le> unat vend" by simp
  note st = page_step [OF 0(3) this]
  from 0 show ?case
    by (simp add: freerange_loop.simps st pages_from_def)
next
  case (Suc n)
  then have "unat p \<le> unat vend" by simp
  note st = page_step [OF Suc.prems(3) this]
  have pv: "phys_page s p" "\<not> is_free (mem s p)"
    using Suc.prems(7) by (simp_all add: pages_from_Suc)
  let ?t = "s\<lparr>mem := (mem s)(p := FreePage (freelist s)), freelist := p\<rparr>"
  have step: "kfree p s = Ok () ?t"
    by (rule kfree_step [OF Suc.prems(4) pv(1)])
  note t = kmem_ok_kfree [OF Suc.prems(4,5) pv step]
  have "\<exists>t. freerange_loop (p + PGSIZE) vend ?t = Some (Ok () t) \<and>
      kmem_ok (rev (pages_from (p + PGSIZE) n) @ p # fs) t \<and> kmem_lockable t \<and> use_lock t = use_lock ?t"
    by (rule Suc.IH) (use Suc.prems st t in \<open>auto simp: pages_from_Suc\<close>)
  with Suc.prems(1) st step show ?case
    by (subst freerange_loop.simps) (simp add: pages_from_Suc)
qed

subsection \<open>Pages in an interval of memory\<close>

lemma unat_page:
  assumes "unat p + i * 4096 < 4294967296"
  shows "unat (p + of_nat i * PGSIZE) = unat p + i * 4096"
proof -
  have i: "i * 4096 < 4294967296" using assms by simp
  then have "unat (of_nat i * PGSIZE) = i * 4096"
    by (simp add: PGSIZE_def unat_word_ariths unat_of_nat take_bit_eq_mod)
  then show ?thesis
    using assms by (subst unat_add_lem [THEN iffD1]) simp_all
qed

lemma pages_from_props:
  assumes "unat p + n * 4096 \<le> 4294967296" "v \<in> set (pages_from p n)"
  obtains i where "i < n" "v = p + of_nat i * PGSIZE" "unat v = unat p + i * 4096"
proof -
  from assms(2) obtain i where i: "i < n" "v = p + of_nat i * PGSIZE" by (auto simp: pages_from_def)
  have "unat p + i * 4096 < 4294967296" using i(1) assms(1) by simp
  then have "unat v = unat p + i * 4096" using unat_page i(2) by simp
  with i that show ?thesis by blast
qed

lemma distinct_pages_from:
  assumes "unat p + n * 4096 \<le> 4294967296"
  shows "distinct (pages_from p n)"
  unfolding pages_from_def distinct_map
proof (intro conjI inj_onI)
  fix i j assume ij: "i \<in> set [0..<n]" "j \<in> set [0..<n]" "p + of_nat i * PGSIZE = p + of_nat j * PGSIZE"
  have "unat p + i * 4096 < 4294967296" "unat p + j * 4096 < 4294967296" using ij(1,2) assms by simp_all
  then have "unat p + i * 4096 = unat p + j * 4096" using unat_page ij(3) by metis
  then show "i = j" by simp
qed simp

lemma phys_page_unat:
  "phys_page s v = (unat v mod 4096 = 0 \<and> unat (kend s) \<le> unat v \<and> 2147483648 \<le> unat v \<and> unat v < 2382364672)"
proof -
  have "(v - KERNBASE < PHYSTOP) = (unat v < 2382364672)" if "KERNBASE \<le> v"
  proof -
    have "unat (v - KERNBASE) = unat v - 2147483648"
      using that by (subst unat_sub) (simp_all add: KERNBASE_def)
    moreover have "2147483648 \<le> unat v" using that by (simp add: word_le_nat_alt KERNBASE_def)
    ultimately show ?thesis by (auto simp: word_less_nat_alt PHYSTOP_def)
  qed
  moreover have "(v mod PGSIZE = 0) = (unat v mod 4096 = 0)"
    by (simp add: word_unat_eq_iff unat_mod_distrib PGSIZE_def)
  moreover have "(KERNBASE \<le> v) = (2147483648 \<le> unat v)" by (simp add: word_le_nat_alt KERNBASE_def)
  moreover have "2147483648 \<le> unat v \<Longrightarrow> v \<noteq> 0" by auto
  ultimately show ?thesis by (auto simp: phys_page_def word_le_nat_alt)
qed

lemma phys_pages_from:
  assumes "unat p mod 4096 = 0" "unat (kend s) \<le> unat p" "2147483648 \<le> unat p" "unat p + n * 4096 \<le> 2382364672"
    and "v \<in> set (pages_from p n)"
  shows "phys_page s v"
proof -
  from assms(4,5) obtain i where "i < n" "unat v = unat p + i * 4096"
    by (auto elim: pages_from_props [rotated])
  with assms show ?thesis by (auto simp: phys_page_unat mod_simps)
qed

text \<open>A memory whose free list runs through the given pages.\<close>

fun chain :: "addr list \<Rightarrow> addr \<Rightarrow> page" where
  "chain [] = (\<lambda>_. NoPage)"
| "chain (a # as) = (chain as)(a := FreePage (hd (as @ [0])))"

lemma chain_free: "is_free (chain as v) = (v \<in> set as)"
  by (induction as) auto

lemma chain_flist: "distinct as \<Longrightarrow> 0 \<notin> set as \<Longrightarrow> flist (chain as) (hd (as @ [0])) as"
proof (induction as)
  case (Cons a as)
  then have "flist (chain (a # as)) (hd (as @ [0])) as = flist (chain as) (hd (as @ [0])) as"
    by (intro flist_cong) auto
  with Cons show ?case by (simp add: fun_upd_def)
qed simp

lemma chain_kmem_ok:
  assumes "distinct as" "\<forall>v \<in> set as. phys_page s v" "mem s = chain as" "freelist s = hd (as @ [0])"
  shows "kmem_ok as s"
proof -
  have "0 \<notin> set as" using assms(2) by (auto simp: phys_page_def)
  with assms show ?thesis by (simp add: kmem_ok_def chain_free chain_flist)
qed

lemma and_not_low: "(a :: 32 word) AND NOT 4095 = push_bit 12 (drop_bit 12 a)"
proof -
  have m: "(4095 :: 32 word) = mask 12" by (simp add: mask_eq_exp_minus_1)
  show ?thesis unfolding m by (rule bit_word_eqI) (auto simp: bit_simps)
qed

lemma unat_PGROUNDDOWN: "unat (PGROUNDDOWN a) = unat a div 4096 * 4096"
proof -
  have "unat a div 4096 * 4096 < 4294967296"
    using unsigned_less [of a, where 'a = nat] div_times_less_eq_dividend [of "unat a" 4096] by simp
  moreover have "PGROUNDDOWN a = push_bit 12 (drop_bit 12 a)"
    using and_not_low [of a] by (simp add: PGROUNDDOWN_def PGSIZE_def)
  ultimately show ?thesis
    by (simp add: push_bit_eq_mult drop_bit_eq_div unat_word_ariths unat_div_distrib)
qed

lemma PGROUNDDOWN_le: "PGROUNDDOWN a \<le> a"
  by (simp add: word_le_nat_alt unat_PGROUNDDOWN)

lemma unat_page_offset: "unat (a - PGROUNDDOWN a) = unat a mod 4096"
  using PGROUNDDOWN_le [of a] by (simp add: unat_sub unat_PGROUNDDOWN minus_div_mult_eq_mod)

lemma unat_page_rest: "unat (PGSIZE - (a - PGROUNDDOWN a)) = 4096 - unat a mod 4096"
proof -
  have "unat a mod 4096 < 4096" by simp
  then have "a - PGROUNDDOWN a \<le> PGSIZE"
    by (simp add: word_le_nat_alt unat_page_offset PGSIZE_def del: mod_less_divisor)
  then show ?thesis by (simp add: unat_sub unat_page_offset) (simp add: PGSIZE_def)
qed

lemma unat_PGROUNDUP:
  assumes "unat a + 4095 < 4294967296"
  shows "unat (PGROUNDUP a) = (unat a + 4095) div 4096 * 4096"
proof -
  have "unat (a + 4095) = unat a + 4095" using assms by (subst unat_add_lem [THEN iffD1]) simp_all
  then show ?thesis
    using unat_PGROUNDDOWN [of "a + 4095"] by (simp add: PGROUNDUP_def PGROUNDDOWN_def PGSIZE_def add.commute)
qed

section \<open>The allocator's contract\<close>

text \<open>
  What clients rely on: an allocator that keeps a set of free pages hands out a page of the set
  and takes it out of the set, answers 0 when the set is empty, and puts a page back.
\<close>

locale page_allocator =
  fixes avail :: "addr set \<Rightarrow> 's \<Rightarrow> bool"
    and returnable :: "'s \<Rightarrow> addr \<Rightarrow> bool"
    and alloc :: "'s \<Rightarrow> (addr, 's) outcome"
    and give_back :: "addr \<Rightarrow> 's \<Rightarrow> (unit, 's) outcome"
  assumes avail_finite: "avail F s \<Longrightarrow> finite F \<and> 0 \<notin> F"
    and alloc_law: "avail F s \<Longrightarrow> F \<noteq> {} \<Longrightarrow> \<exists>a t. alloc s = Ok a t \<and> a \<in> F \<and> avail (F - {a}) t"
    and alloc_empty: "avail {} s \<Longrightarrow> alloc s = Ok 0 s"
    and give_back_law: "avail F s \<Longrightarrow> returnable s a \<Longrightarrow> a \<notin> F \<Longrightarrow> \<exists>t. give_back a s = Ok () t \<and> avail (insert a F) t"
begin

fun alloc_many :: "nat \<Rightarrow> 's \<Rightarrow> (addr list, 's) outcome" where
  "alloc_many 0 s = Ok [] s"
| "alloc_many (Suc n) s = bindo (alloc s) (\<lambda>a s. bindo (alloc_many n s) (\<lambda>as s. Ok (a # as) s))"

lemma alloc_many_distinct:
  "avail F s \<Longrightarrow> n \<le> card F \<Longrightarrow>
   \<exists>as t. alloc_many n s = Ok as t \<and> length as = n \<and> distinct as \<and> set as \<subseteq> F \<and> avail (F - set as) t"
proof (induction n arbitrary: F s)
  case (Suc n)
  then have "F \<noteq> {}" by auto
  from alloc_law [OF Suc.prems(1) this] obtain a t where
    t: "alloc s = Ok a t" "a \<in> F" "avail (F - {a}) t" by blast
  have "n \<le> card (F - {a})" using Suc.prems(2) t(2) avail_finite [OF Suc.prems(1)] by simp
  from Suc.IH [OF t(3) this] obtain as u where
    u: "alloc_many n t = Ok as u" "length as = n" "distinct as" "set as \<subseteq> F - {a}" "avail (F - {a} - set as) u"
    by blast
  have "F - {a} - set as = F - set (a # as)" by auto
  then show ?case
    using t u by (intro exI [of _ "a # as"] exI [of _ u]) auto
qed simp

text \<open>Once all pages are handed out, the next request is answered with 0.\<close>

lemma alloc_exhausted:
  assumes "avail F s" shows "\<exists>as t. alloc_many (card F) s = Ok as t \<and> set as = F \<and> alloc t = Ok 0 t"
proof -
  from alloc_many_distinct [OF assms, of "card F"] obtain as t where
    t: "alloc_many (card F) s = Ok as t" "length as = card F" "distinct as" "set as \<subseteq> F" "avail (F - set as) t" by auto
  have "set as = F"
    using t(2-4) avail_finite [OF assms] by (metis card_subset_eq distinct_card)
  then show ?thesis using t alloc_empty by auto
qed

end

definition kavail :: "addr set \<Rightarrow> 'a kmem_scheme \<Rightarrow> bool" where
  "kavail F s = (kmem_lockable s \<and> (\<exists>fs. kmem_ok fs s \<and> set fs = F))"

lemma kavailI: "kmem_lockable s \<Longrightarrow> kmem_ok fs s \<Longrightarrow> kavail (set fs) s"
  by (auto simp: kavail_def)

interpretation pages: page_allocator kavail phys_page kalloc kfree
proof
  fix F :: "addr set" and s :: "'a kmem_scheme" and a
  show "finite F \<and> 0 \<notin> F" if "kavail F s"
    using that by (auto simp: kavail_def kmem_ok_def phys_page_def)
  show "\<exists>a t. kalloc s = Ok a t \<and> a \<in> F \<and> kavail (F - {a}) t" if av: "kavail F s" "F \<noteq> {}"
  proof -
    obtain fs where fs: "kmem_lockable s" "kmem_ok fs s" "set fs = F" using av(1) by (auto simp: kavail_def)
    then obtain a gs where as: "fs = a # gs" using av(2) by (cases fs) auto
    from kalloc_step [OF fs(1) fs(2) [unfolded as]] obtain t where t: "kalloc s = Ok a t" by blast
    note k = kmem_ok_kalloc [OF fs(1) fs(2) [unfolded as] t]
    have "F - {a} = set gs" using fs(3) as k(6) by auto
    then show ?thesis using t kavailI [OF k(7,2)] fs(3) as by auto
  qed
  show "kalloc s = Ok 0 s" if "kavail {} s"
  proof -
    obtain fs where "kmem_lockable s" "kmem_ok fs s" "set fs = {}" using \<open>kavail {} s\<close> by (auto simp: kavail_def)
    then show ?thesis by (intro kalloc_empty) (auto simp: kmem_ok_def)
  qed
  show "\<exists>t. kfree a s = Ok () t \<and> kavail (insert a F) t" if av: "kavail F s" "phys_page s a" "a \<notin> F"
  proof -
    obtain fs where fs: "kmem_lockable s" "kmem_ok fs s" "set fs = F" using av(1) by (auto simp: kavail_def)
    have nf: "\<not> is_free (mem s a)" using fs av(3) by (auto simp: kmem_ok_def)
    note t = kfree_step [OF fs(1) av(2)]
    note k = kmem_ok_kfree [OF fs(1,2) av(2) nf t]
    show ?thesis using t kavailI [OF k(3,1)] fs(3) by auto
  qed
qed

section \<open>Properties\<close>

fun kalloc_many :: "nat \<Rightarrow> 'a kmem_scheme \<Rightarrow> (addr list, 'a kmem_scheme) outcome" where
  "kalloc_many 0 s = Ok [] s"
| "kalloc_many (Suc n) s = bindo (kalloc s) (\<lambda>a s. bindo (kalloc_many n s) (\<lambda>as s. Ok (a # as) s))"

lemma kalloc_many_eq: "kalloc_many n s = pages.alloc_many n s"
  by (induction n arbitrary: s) simp_all

text \<open>C31: Successive calls of \<^verbatim>\<open>kalloc\<close> return pairwise different pages of the free list, as many as
  there are; when all are handed out the next call returns 0 and changes nothing.\<close>

theorem kalloc_distinct_pages:
  assumes "kmem_ok fs s" "kmem_lockable s"
  shows "(\<forall>n \<le> length fs. \<exists>as t. kalloc_many n s = Ok as t \<and> length as = n \<and> distinct as \<and> set as \<subseteq> set fs \<and>
      (\<exists>gs. kmem_ok gs t \<and> set gs = set fs - set as)) \<and>
    (\<exists>as t. kalloc_many (length fs) s = Ok as t \<and> set as = set fs \<and> kalloc t = Ok 0 t)"
proof -
  have av: "kavail (set fs) s" by (rule kavailI [OF assms(2,1)])
  have card: "card (set fs) = length fs" using assms(1) by (simp add: kmem_ok_def distinct_card)
  show ?thesis
    using pages.alloc_many_distinct [OF av] pages.alloc_exhausted [OF av]
    unfolding kalloc_many_eq card kavail_def by blast
qed

text \<open>A page that is freed is the next one to be allocated, and the free list is what it was
  before; the page comes back holding the old link.\<close>

lemma kfree_kalloc_roundtrip:
  assumes "kmem_ok fs s" "kmem_lockable s" "phys_page s v" "\<not> is_free (mem s v)"
  shows "\<exists>t u. kfree v s = Ok () t \<and> kmem_ok (v # fs) t \<and> kalloc t = Ok v u \<and> kmem_ok fs u \<and>
    mem u = (mem s)(v := RawPage (freelist s)) \<and> freelist u = freelist s"
proof -
  let ?t = "s\<lparr>mem := (mem s)(v := FreePage (freelist s)), freelist := v\<rparr>"
  have t: "kfree v s = Ok () ?t" by (rule kfree_step [OF assms(2,3)])
  note k = kmem_ok_kfree [OF assms(2,1,3,4) t]
  from kalloc_step [OF k(3,1)] obtain nx where
    u: "mem ?t v = FreePage nx" "kalloc ?t = Ok v (?t\<lparr>freelist := nx, mem := (mem ?t)(v := RawPage nx)\<rparr>)" by blast
  note k2 = kmem_ok_kalloc [OF k(3,1) u(2)]
  show ?thesis using t k(1) u k2(2) by auto
qed

text \<open>\<^verbatim>\<open>kfree\<close> panics on every address that is not a page of the memory behind the kernel, and on
  no other one when its lock can be taken.\<close>

lemma kfree_panics_iff:
  assumes "kmem_lockable s"
  shows "(\<exists>m. kfree v s = Panic m) = (\<not> phys_page s v)"
proof (cases "phys_page s v")
  case True
  then show ?thesis using kfree_step [OF assms True] by simp
next
  case False
  have "v = 0 \<Longrightarrow> v < KERNBASE" by (simp add: KERNBASE_def)
  with False show ?thesis by (auto simp: phys_page_def kfree_def V2P_def not_le not_less)
qed

text \<open>\<^verbatim>\<open>freerange\<close> puts exactly the whole pages of the interval on the free list.\<close>

lemma freerange_pages:
  assumes "kmem_ok fs s" "kmem_lockable s" "unat (kend s) \<le> unat vstart" "2147483648 \<le> unat vstart"
    and "unat vend \<le> 2382364672"
    and "base = (unat vstart + 4095) div 4096 * 4096" "base \<le> unat vend" "n = (unat vend - base) div 4096"
    and "\<forall>v \<in> set (pages_from (PGROUNDUP vstart) n). \<not> is_free (mem s v)"
  shows "\<exists>t. freerange vstart vend s = Ok () t \<and> kmem_ok (rev (pages_from (PGROUNDUP vstart) n) @ fs) t"
proof -
  have "unat vstart \<le> base" 
    unfolding assms(6) using div_mult_mod_eq [of "unat vstart + 4095" 4096] mod_less_divisor [of 4096 "unat vstart + 4095"] by linarith
  then have le: "vstart \<le> vend" using assms(7) by (simp add: word_le_nat_alt)
  then have "unat vstart + 4095 < 4294967296" using assms(5) by (simp add: word_le_nat_alt)
  then have base: "unat (PGROUNDUP vstart) = base" using unat_PGROUNDUP assms(6) by simp
  have n: "base + n * 4096 \<le> unat vend" "unat vend < base + (n + 1) * 4096"
    unfolding assms(8) using assms(7) div_mult_mod_eq [of "unat vend - base" 4096]
      mod_less_divisor [of 4096 "unat vend - base"] by (simp_all only: add_mult_distrib)
  have "phys_page s v" if "v \<in> set (pages_from (PGROUNDUP vstart) n)" for v
  proof (rule phys_pages_from [OF _ _ _ _ that])
    show "unat (PGROUNDUP vstart) mod 4096 = 0" using base assms(6) by simp
    show "unat (kend s) \<le> unat (PGROUNDUP vstart)" "2147483648 \<le> unat (PGROUNDUP vstart)"
      using base assms(3,4) \<open>unat vstart \<le> base\<close> by simp_all
    show "unat (PGROUNDUP vstart) + n * 4096 \<le> 2382364672" using base n(1) assms(5) by simp
  qed
  moreover have "distinct (pages_from (PGROUNDUP vstart) n)"
    using base n(1) assms(5) by (intro distinct_pages_from) simp
  ultimately show ?thesis
    using freerange_loop_ok [of "PGROUNDUP vstart" n vend s fs] assms(1,2,5,9) n base le
    by (auto simp: freerange_def not_less)
qed
section \<open>A concrete machine\<close>

text \<open>One processor, no lock taken, and \<open>n\<close> free pages behind the kernel.\<close>

definition demo_pages :: "nat \<Rightarrow> addr list" where
  "demo_pages n = pages_from 0x80400000 n"

definition demo_kmem :: "nat \<Rightarrow> kmem" where
  "demo_kmem n =
     \<lparr>cpus = [\<lparr>c_apicid = 0, c_ncli = 0, c_intena = False, c_proc = None\<rparr>], ncpu = 1, lapicid = 0, fl_if = False,
      locks = (\<lambda>_. \<lparr>l_locked = False, l_name = [], l_cpu = None\<rparr>),
      mem = chain (demo_pages n), freelist = hd (demo_pages n @ [0]), use_lock = True, kend = 0x80400000\<rparr>"

lemma demo_pages_phys:
  assumes "n \<le> 50000" "kend s = 0x80400000" "v \<in> set (demo_pages n)"
  shows "phys_page s v"
  using assms unfolding demo_pages_def by (intro phys_pages_from [of "0x80400000" s n v]) simp_all

lemma demo_pages_distinct: "n \<le> 50000 \<Longrightarrow> distinct (demo_pages n)"
  unfolding demo_pages_def by (rule distinct_pages_from) simp

lemma demo_kmem_ok: "n \<le> 50000 \<Longrightarrow> kmem_ok (demo_pages n) (demo_kmem n)"
  by (rule chain_kmem_ok) (auto simp: demo_kmem_def demo_pages_distinct intro: demo_pages_phys)

lemma demo_kmem_lockable: "kmem_lockable (demo_kmem n)"
  by (simp add: kmem_lockable_def demo_kmem_def cpu_ok_def cpu_index_def lock_free_def)

lemma length_demo_pages [simp]: "length (demo_pages n) = n"
  by (simp add: demo_pages_def pages_from_def)

theorem kalloc_distinct_pages_witness:
  "kmem_ok (demo_pages 8) (demo_kmem 8) \<and> kmem_lockable (demo_kmem 8) \<and>
   (\<exists>as t. kalloc_many 3 (demo_kmem 8) = Ok as t \<and> length as = 3 \<and> distinct as \<and> set as \<subseteq> set (demo_pages 8)) \<and>
   (\<exists>as t. kalloc_many 8 (demo_kmem 8) = Ok as t \<and> set as = set (demo_pages 8) \<and> kalloc t = Ok 0 t)"
proof -
  have ok: "kmem_ok (demo_pages 8) (demo_kmem 8)" by (rule demo_kmem_ok) simp
  show ?thesis
    using ok demo_kmem_lockable
      kalloc_distinct_pages [OF ok demo_kmem_lockable, unfolded length_demo_pages, THEN conjunct1, rule_format, of 3]
      kalloc_distinct_pages [OF ok demo_kmem_lockable, unfolded length_demo_pages, THEN conjunct2]
    by auto
qed

end
