(* ===== verification/Printf.thy ===== *)
theory Printf
  imports Memory
begin

text \<open>
  Formatted output: \<^verbatim>\<open>printint\<close> and \<^verbatim>\<open>cprintf\<close> of \<^verbatim>\<open>console.c\<close> and their user-space twins in
  \<^verbatim>\<open>printf.c\<close>.  The variadic arguments are a list of words and string pointers (\<open>None\<close> is the
  null pointer).  The kernel's characters go to \<open>outbuf\<close>, the text sent to the console so far;
  as in the source, where the calls of \<^verbatim>\<open>acquire\<close> and \<^verbatim>\<open>release\<close> are commented out, \<open>cprintf\<close>
  takes no lock;
  the user's \<^verbatim>\<open>putc\<close> calls are the list of characters written to the descriptor.
  \<open>digs\<close> is the body of the \<^verbatim>\<open>do\<close>-\<^verbatim>\<open>while\<close> loop that fills \<^verbatim>\<open>buf\<close>, least significant digit
  first; both callers use the bases 10 and 16.
\<close>

record kout = kmem +
  cons_locking :: bool
  outbuf :: string

datatype carg = CInt "32 word" | CStr "string option"

definition hexdigits :: string where
  "hexdigits = ''0123456789abcdef''"

definition HEXDIGITS :: string where
  "HEXDIGITS = ''0123456789ABCDEF''"

function digs :: "string \<Rightarrow> nat \<Rightarrow> nat \<Rightarrow> string" where
  "digs tab base x =
     (if base < 2 then []
      else tab ! (x mod base) # (if x div base \<noteq> 0 then digs tab base (x div base) else []))"
  by pat_completeness auto
termination
  by (relation "measure (\<lambda>(tab, base, x). x)") (auto simp: div_greater_zero_iff)

definition printint_buf :: "string \<Rightarrow> 32 word \<Rightarrow> nat \<Rightarrow> bool \<Rightarrow> string" where
  "printint_buf tab xx base sign =
     (let neg = (sign \<and> sint xx < 0);
          x = (if neg then - xx else xx);
          buf = digs tab base (unat x)
      in if neg then buf @ ''-'' else buf)"

definition printint :: "32 word \<Rightarrow> nat \<Rightarrow> bool \<Rightarrow> string" where
  "printint xx base sign = rev (printint_buf hexdigits xx base sign)"

fun cprintf_text :: "string \<Rightarrow> carg list \<Rightarrow> string option" where
  "cprintf_text [] args = Some []"
| "cprintf_text (c # fmt) args =
     (if c \<noteq> CHR ''%'' then map_option (\<lambda>t. c # t) (cprintf_text fmt args)
      else case fmt of
        [] \<Rightarrow> Some []
      | d # fmt \<Rightarrow>
          if d = CHR ''d'' then
            (case args of
               CInt x # args \<Rightarrow> map_option (\<lambda>t. printint x 10 True @ t) (cprintf_text fmt args)
             | _ \<Rightarrow> None)
          else if d = CHR ''x'' \<or> d = CHR ''p'' then
            (case args of
               CInt x # args \<Rightarrow> map_option (\<lambda>t. printint x 16 False @ t) (cprintf_text fmt args)
             | _ \<Rightarrow> None)
          else if d = CHR ''s'' then
            (case args of
               CStr p # args \<Rightarrow>
                 map_option (\<lambda>t. (case p of None \<Rightarrow> ''(null)'' | Some q \<Rightarrow> q) @ t) (cprintf_text fmt args)
             | _ \<Rightarrow> None)
          else if d = CHR ''%'' then map_option (\<lambda>t. CHR ''%'' # t) (cprintf_text fmt args)
          else map_option (\<lambda>t. CHR ''%'' # d # t) (cprintf_text fmt args))"

definition cprintf :: "string \<Rightarrow> carg list \<Rightarrow> 'a kout_scheme \<Rightarrow> (unit, 'a kout_scheme) outcome" where
  "cprintf fmt args s =
     (case cprintf_text fmt args of
        None \<Rightarrow> Fault ''cprintf: argument''
      | Some t \<Rightarrow> Ok () (s\<lparr>outbuf := outbuf s @ t\<rparr>))"

definition user_printint :: "32 word \<Rightarrow> nat \<Rightarrow> bool \<Rightarrow> string" where
  "user_printint xx base sg = rev (printint_buf HEXDIGITS xx base sg)"

fun user_printf :: "bool \<Rightarrow> string \<Rightarrow> carg list \<Rightarrow> string option" where
  "user_printf state [] args = Some []"
| "user_printf state (c # fmt) args =
     (if \<not> state then
        (if c = CHR ''%'' then user_printf True fmt args
         else map_option (\<lambda>t. c # t) (user_printf False fmt args))
      else if c = CHR ''d'' then
        (case args of
           CInt x # args \<Rightarrow> map_option (\<lambda>t. user_printint x 10 True @ t) (user_printf False fmt args)
         | _ \<Rightarrow> None)
      else if c = CHR ''x'' \<or> c = CHR ''p'' then
        (case args of
           CInt x # args \<Rightarrow> map_option (\<lambda>t. user_printint x 16 False @ t) (user_printf False fmt args)
         | _ \<Rightarrow> None)
      else if c = CHR ''s'' then
        (case args of
           CStr p # args \<Rightarrow>
             map_option (\<lambda>t. (case p of None \<Rightarrow> ''(null)'' | Some q \<Rightarrow> q) @ t) (user_printf False fmt args)
         | _ \<Rightarrow> None)
      else if c = CHR ''c'' then
        (case args of
           CInt x # args \<Rightarrow> map_option (\<lambda>t. char_of (unat x) # t) (user_printf False fmt args)
         | _ \<Rightarrow> None)
      else if c = CHR ''%'' then map_option (\<lambda>t. c # t) (user_printf False fmt args)
      else map_option (\<lambda>t. CHR ''%'' # c # t) (user_printf False fmt args))"


section \<open>Lemmas\<close>

declare digs.simps [simp del]

fun digit_index :: "string \<Rightarrow> char \<Rightarrow> nat" where
  "digit_index [] c = 0"
| "digit_index (d # ds) c = (if d = c then 0 else Suc (digit_index ds c))"

fun digits_value :: "string \<Rightarrow> nat \<Rightarrow> string \<Rightarrow> nat" where
  "digits_value tab base [] = 0"
| "digits_value tab base (c # cs) = digit_index tab c + base * digits_value tab base cs"

lemma digit_index_nth: "distinct tab \<Longrightarrow> i < length tab \<Longrightarrow> digit_index tab (tab ! i) = i"
proof (induction tab arbitrary: i)
  case (Cons d ds)
  then show ?case by (cases i) auto
qed simp

lemma digits_value_digs:
  assumes "2 \<le> base" "base \<le> length tab" "distinct tab"
  shows "digits_value tab base (digs tab base x) = x"
proof (induction x rule: less_induct)
  case (less x)
  have "x mod base < length tab" using assms mod_less_divisor [of base x] by linarith
  then have d: "digit_index tab (tab ! (x mod base)) = x mod base"
    by (rule digit_index_nth [OF assms(3)])
  show ?case
  proof (cases "x div base = 0")
    case True
    then show ?thesis using assms d by (subst digs.simps) (simp add: div_eq_0_iff)
  next
    case False
    then have "x div base < x" using assms by (simp add: div_greater_zero_iff)
    then show ?thesis
      using False assms d less.IH [of "x div base"] by (subst digs.simps) simp
  qed
qed

lemma digs_nonempty: "2 \<le> base \<Longrightarrow> digs tab base x \<noteq> []"
  by (subst digs.simps) simp

lemma length_digs: "2 \<le> base \<Longrightarrow> x < base ^ n \<Longrightarrow> 0 < n \<Longrightarrow> length (digs tab base x) \<le> n"
proof (induction n arbitrary: x)
  case (Suc n)
  show ?case
  proof (cases "x div base = 0")
    case True
    then show ?thesis using Suc.prems(1) by (subst digs.simps) simp
  next
    case False
    have n: "0 < n"
      using False Suc.prems(1,2) by (cases n) auto
    have "x div base < base ^ n"
      using Suc.prems(1,2) by (simp add: less_mult_imp_div_less mult.commute)
    then show ?thesis
      using False Suc.IH [OF Suc.prems(1) _ n] Suc.prems(1) by (subst digs.simps) simp
  qed
qed simp

lemma length_printint_buf:
  assumes "base = 10 \<or> base = 16"
  shows "length (printint_buf tab xx base sg) \<le> 11"
proof -
  have "unat w < base ^ 10" for w :: "32 word"
  proof -
    have "unat w < 2 ^ LENGTH(32)" by (rule unsigned_less)
    with assms show ?thesis by auto
  qed
  then have "length (digs tab base (unat w)) \<le> 10" for w :: "32 word"
    using assms by (intro length_digs) auto
  then show ?thesis
    by (auto simp: printint_buf_def Let_def intro: le_trans [of _ 10])
qed

lemma mach_kout_frame [simp]:
  "my (s\<lparr>outbuf := t\<rparr>) = my s" "cpu_ok (s\<lparr>outbuf := t\<rparr>) = cpu_ok s"
  "lock_free l (s\<lparr>outbuf := t\<rparr>) = lock_free l s" "lock_mine l (s\<lparr>outbuf := t\<rparr>) = lock_mine l s"
  "rel l (s\<lparr>outbuf := t\<rparr>) = (rel l s)\<lparr>outbuf := t\<rparr>" "acq l (s\<lparr>outbuf := t\<rparr>) = (acq l s)\<lparr>outbuf := t\<rparr>"
  "outbuf (acq l s) = outbuf s" "outbuf (rel l s) = outbuf s"
  "phys_page (s\<lparr>outbuf := t\<rparr>) = phys_page s" "kmem_lockable (s\<lparr>outbuf := t\<rparr>) = kmem_lockable s"
  "kmem_ok fs (s\<lparr>outbuf := t\<rparr>) = kmem_ok fs s"
  by (simp_all add: my_def cpu_ok_def cpu_index_def lock_free_def lock_mine_def rel_def acq_def
      phys_page_def kmem_lockable_def kmem_ok_def fun_eq_iff cong: option.case_cong)

lemma cprintf_step:
  "cprintf_text fmt args = Some t \<Longrightarrow> cprintf fmt args s = Ok () (s\<lparr>outbuf := outbuf s @ t\<rparr>)"
  by (simp add: cprintf_def)

end
