(* ===== verification/Vm.thy ===== *)
theory Vm
  imports Printf
begin

text \<open>
  Virtual memory: \<^verbatim>\<open>vm.c\<close>.

  A page directory and a page table are pages of 1024 words; user memory is pages of bytes.
  A \<^verbatim>\<open>pte_t *\<close> is the page table's address with the index of the entry, \<open>None\<close> is the null
  pointer.  The state \<open>kvm\<close> adds the linker symbol \<^verbatim>\<open>data\<close>, the variable \<^verbatim>\<open>kpgdir\<close>, the page
  table register of the executing processor and the kernel stack pointer in each processor's task
  state segment.  The segment descriptors have constant contents and are left out.
  \<^verbatim>\<open>loaduvm\<close>, which reads a file, is in the theory of \<^verbatim>\<open>exec\<close>; \<^verbatim>\<open>switchuvm\<close> is in the theory of
  the process table.
\<close>

definition PTE_P :: addr where "PTE_P = 0x001"
definition PTE_W :: addr where "PTE_W = 0x002"
definition PTE_U :: addr where "PTE_U = 0x004"
definition NPDENTRIES :: nat where "NPDENTRIES = 1024"

record kvm = kout +
  kdata :: addr
  kpgdir :: addr
  cr3 :: addr
  tss_esp0 :: "nat \<Rightarrow> addr"

section \<open>Page tables\<close>

definition walkpgdir ::
  "addr \<Rightarrow> addr \<Rightarrow> bool \<Rightarrow> 'a kmem_scheme \<Rightarrow> ((addr \<times> nat) option, 'a kmem_scheme) outcome" where
  "walkpgdir pgdir va alloc s =
     bindo (load_word pgdir (unat (PDX va)) s) (\<lambda>pde s.
       if pde AND PTE_P \<noteq> 0 then
         bindo (P2V (PTE_ADDR pde) s) (\<lambda>pgtab s. Ok (Some (pgtab, unat (PTX va))) s)
       else if \<not> alloc then Ok None s
       else bindo (kalloc s) (\<lambda>pgtab s.
         if pgtab = NULL then Ok None s
         else
           let s = put_page pgtab (WordPage (\<lambda>_. 0)) s in
         bindo (V2P pgtab s) (\<lambda>pa s.
         bindo (store_word pgdir (unat (PDX va)) (pa OR PTE_P OR PTE_W OR PTE_U) s) (\<lambda>_ s.
           Ok (Some (pgtab, unat (PTX va))) s))))"

definition map_page ::
  "addr \<Rightarrow> addr \<Rightarrow> addr \<Rightarrow> addr \<Rightarrow> 'a kmem_scheme \<Rightarrow> (bool, 'a kmem_scheme) outcome" where
  "map_page pgdir a pa perm s =
     bindo (walkpgdir pgdir a True s) (\<lambda>pte s.
       case pte of
         None \<Rightarrow> Ok False s
       | Some (t, i) \<Rightarrow>
           bindo (load_word t i s) (\<lambda>e s.
             if e AND PTE_P \<noteq> 0 then Panic ''remap''
             else bindo (store_word t i (pa OR perm OR PTE_P) s) (\<lambda>_ s. Ok True s)))"

partial_function (option) mappages_loop ::
  "addr \<Rightarrow> addr \<Rightarrow> addr \<Rightarrow> addr \<Rightarrow> addr \<Rightarrow> 'a kmem_scheme \<Rightarrow> (int, 'a kmem_scheme) outcome option" where
  "mappages_loop pgdir a lst pa perm s =
     (case map_page pgdir a pa perm s of
        Ok mapped s \<Rightarrow>
          if \<not> mapped then Some (Ok (- 1) s)
          else if a = lst then Some (Ok 0 s)
          else mappages_loop pgdir (a + PGSIZE) lst (pa + PGSIZE) perm s
      | Switch s \<Rightarrow> Some (Switch s)
      | Panic e \<Rightarrow> Some (Panic e)
      | Fault e \<Rightarrow> Some (Fault e)
      | Diverge \<Rightarrow> Some Diverge)"

definition mappages ::
  "addr \<Rightarrow> addr \<Rightarrow> addr \<Rightarrow> addr \<Rightarrow> addr \<Rightarrow> 'a kmem_scheme \<Rightarrow> (int, 'a kmem_scheme) outcome" where
  "mappages pgdir va sz pa perm s =
     returns (mappages_loop pgdir (PGROUNDDOWN va) (PGROUNDDOWN (va + sz - 1)) pa perm s)"

definition dealloc_page :: "addr \<Rightarrow> addr \<Rightarrow> 'a kmem_scheme \<Rightarrow> (addr, 'a kmem_scheme) outcome" where
  "dealloc_page pgdir a s =
     bindo (walkpgdir pgdir a False s) (\<lambda>pte s.
       case pte of
         None \<Rightarrow> Ok (PGADDR (PDX a + 1) 0 0 - PGSIZE) s
       | Some (t, i) \<Rightarrow>
           bindo (load_word t i s) (\<lambda>e s.
             if e AND PTE_P \<noteq> 0 then
               let pa = PTE_ADDR e in
               if pa = 0 then Panic ''kfree''
               else bindo (P2V pa s) (\<lambda>v s.
                    bindo (kfree v s) (\<lambda>_ s.
                    bindo (store_word t i 0 s) (\<lambda>_ s. Ok a s)))
             else Ok a s))"

partial_function (option) deallocuvm_loop ::
  "addr \<Rightarrow> addr \<Rightarrow> addr \<Rightarrow> 'a kmem_scheme \<Rightarrow> (unit, 'a kmem_scheme) outcome option" where
  "deallocuvm_loop pgdir a oldsz s =
     (if a < oldsz then
        (case dealloc_page pgdir a s of
           Ok a' s \<Rightarrow> deallocuvm_loop pgdir (a' + PGSIZE) oldsz s
         | Switch s \<Rightarrow> Some (Switch s)
         | Panic e \<Rightarrow> Some (Panic e)
         | Fault e \<Rightarrow> Some (Fault e)
         | Diverge \<Rightarrow> Some Diverge)
      else Some (Ok () s))"

definition deallocuvm :: "addr \<Rightarrow> addr \<Rightarrow> addr \<Rightarrow> 'a kmem_scheme \<Rightarrow> (addr, 'a kmem_scheme) outcome" where
  "deallocuvm pgdir oldsz newsz s =
     (if newsz \<ge> oldsz then Ok oldsz s
      else bindo (returns (deallocuvm_loop pgdir (PGROUNDUP newsz) oldsz s)) (\<lambda>_ s. Ok newsz s))"

definition freevm :: "addr \<Rightarrow> 'a kmem_scheme \<Rightarrow> (unit, 'a kmem_scheme) outcome" where
  "freevm pgdir s =
     (if pgdir = NULL then Panic ''freevm: no pgdir''
      else bindo (deallocuvm pgdir KERNBASE 0 s) (\<lambda>_ s.
           bindo (for_list (\<lambda>i s.
                    bindo (load_word pgdir i s) (\<lambda>pde s.
                      if pde AND PTE_P \<noteq> 0 then
                        bindo (P2V (PTE_ADDR pde) s) (\<lambda>v s. kfree v s)
                      else Ok () s)) [0..<NPDENTRIES] s) (\<lambda>_ s.
             kfree pgdir s)))"

definition kmap :: "addr \<Rightarrow> (addr \<times> addr \<times> addr \<times> addr) list" where
  "kmap data =
     [(KERNBASE, 0, EXTMEM, PTE_W),
      (KERNLINK, KERNLINK - KERNBASE, data - KERNBASE, 0),
      (data, data - KERNBASE, PHYSTOP, PTE_W),
      (DEVSPACE, DEVSPACE, 0, PTE_W)]"

fun map_kmap ::
  "addr \<Rightarrow> (addr \<times> addr \<times> addr \<times> addr) list \<Rightarrow> 'a kmem_scheme \<Rightarrow> (bool, 'a kmem_scheme) outcome" where
  "map_kmap pgdir [] s = Ok True s"
| "map_kmap pgdir ((virt, phys_start, phys_end, perm) # ks) s =
     bindo (mappages pgdir virt (phys_end - phys_start) phys_start perm s) (\<lambda>r s.
       if r < 0 then Ok False s else map_kmap pgdir ks s)"

definition setupkvm :: "'a kvm_scheme \<Rightarrow> (addr, 'a kvm_scheme) outcome" where
  "setupkvm s =
     bindo (kalloc s) (\<lambda>pgdir s.
       if pgdir = NULL then Ok NULL s
       else
         let s = put_page pgdir (WordPage (\<lambda>_. 0)) s in
       bindo (P2V PHYSTOP s) (\<lambda>top s.
         if top > DEVSPACE then Panic ''PHYSTOP too high''
         else
       bindo (map_kmap pgdir (kmap (kdata s)) s) (\<lambda>ok s.
         if ok then Ok pgdir s
         else bindo (freevm pgdir s) (\<lambda>_ s. Ok NULL s))))"

definition switchkvm :: "'a kvm_scheme \<Rightarrow> (unit, 'a kvm_scheme) outcome" where
  "switchkvm s = bindo (V2P (kpgdir s) s) (\<lambda>pa s. Ok () (s\<lparr>cr3 := pa\<rparr>))"

definition kvmalloc :: "'a kvm_scheme \<Rightarrow> (unit, 'a kvm_scheme) outcome" where
  "kvmalloc s = bindo (setupkvm s) (\<lambda>d s. switchkvm (s\<lparr>kpgdir := d\<rparr>))"

section \<open>User memory\<close>

definition page_bytes :: "byte list \<Rightarrow> nat \<Rightarrow> (nat \<Rightarrow> byte) \<Rightarrow> nat \<Rightarrow> byte" where
  "page_bytes bs off f = (\<lambda>i. if off \<le> i \<and> i < off + length bs then bs ! (i - off) else f i)"

definition write_bytes :: "addr \<Rightarrow> nat \<Rightarrow> byte list \<Rightarrow> 'a kmem_scheme \<Rightarrow> (unit, 'a kmem_scheme) outcome" where
  "write_bytes a off bs s =
     (case mem s a of
        BytePage f \<Rightarrow> Ok () (put_page a (BytePage (page_bytes bs off f)) s)
      | _ \<Rightarrow> Fault ''data page'')"

definition inituvm :: "addr \<Rightarrow> byte list \<Rightarrow> 'a kmem_scheme \<Rightarrow> (unit, 'a kmem_scheme) outcome" where
  "inituvm pgdir init s =
     (if length init \<ge> 4096 then Panic ''inituvm: more than a page''
      else bindo (kalloc s) (\<lambda>a s.
        if a = NULL then Fault ''inituvm: null page''
        else
          let s = put_page a (BytePage (\<lambda>_. 0)) s in
        bindo (V2P a s) (\<lambda>pa s.
        bindo (mappages pgdir 0 PGSIZE pa (PTE_W OR PTE_U) s) (\<lambda>_ s.
          write_bytes a 0 init s))))"

definition alloc_page ::
  "addr \<Rightarrow> addr \<Rightarrow> addr \<Rightarrow> addr \<Rightarrow> 'a kout_scheme \<Rightarrow> (bool, 'a kout_scheme) outcome" where
  "alloc_page pgdir a oldsz newsz s =
     bindo (kalloc s) (\<lambda>page s.
        if page = NULL then
          bindo (cprintf (''allocuvm out of memory'' @ [CHR 0x0A]) [] s) (\<lambda>_ s.
          bindo (deallocuvm pgdir newsz oldsz s) (\<lambda>_ s. Ok False s))
        else
          let s = put_page page (BytePage (\<lambda>_. 0)) s in
          bindo (V2P page s) (\<lambda>pa s.
          bindo (mappages pgdir a PGSIZE pa (PTE_W OR PTE_U) s) (\<lambda>r s.
            if r < 0 then
              bindo (cprintf (''allocuvm out of memory (2)'' @ [CHR 0x0A]) [] s) (\<lambda>_ s.
              bindo (deallocuvm pgdir newsz oldsz s) (\<lambda>_ s.
              bindo (kfree page s) (\<lambda>_ s. Ok False s)))
            else Ok True s)))"

partial_function (option) allocuvm_loop ::
  "addr \<Rightarrow> addr \<Rightarrow> addr \<Rightarrow> addr \<Rightarrow> 'a kout_scheme \<Rightarrow> (addr, 'a kout_scheme) outcome option" where
  "allocuvm_loop pgdir a oldsz newsz s =
     (if a < newsz then
        (case alloc_page pgdir a oldsz newsz s of
           Ok go s \<Rightarrow>
             if go then allocuvm_loop pgdir (a + PGSIZE) oldsz newsz s else Some (Ok 0 s)
         | Switch s \<Rightarrow> Some (Switch s)
         | Panic e \<Rightarrow> Some (Panic e)
         | Fault e \<Rightarrow> Some (Fault e)
         | Diverge \<Rightarrow> Some Diverge)
      else Some (Ok newsz s))"

definition allocuvm :: "addr \<Rightarrow> addr \<Rightarrow> addr \<Rightarrow> 'a kout_scheme \<Rightarrow> (addr, 'a kout_scheme) outcome" where
  "allocuvm pgdir oldsz newsz s =
     (if newsz \<ge> KERNBASE then Ok 0 s
      else if newsz < oldsz then Ok oldsz s
      else returns (allocuvm_loop pgdir (PGROUNDUP oldsz) oldsz newsz s))"

definition clearpteu :: "addr \<Rightarrow> addr \<Rightarrow> 'a kmem_scheme \<Rightarrow> (unit, 'a kmem_scheme) outcome" where
  "clearpteu pgdir uva s =
     bindo (walkpgdir pgdir uva False s) (\<lambda>pte s.
       case pte of
         None \<Rightarrow> Panic ''clearpteu''
       | Some (t, i) \<Rightarrow> bindo (load_word t i s) (\<lambda>e s. store_word t i (e AND NOT PTE_U) s))"

definition copy_page ::
  "addr \<Rightarrow> addr \<Rightarrow> addr \<Rightarrow> 'a kmem_scheme \<Rightarrow> (bool, 'a kmem_scheme) outcome" where
  "copy_page pgdir d i s =
     bindo (walkpgdir pgdir i False s) (\<lambda>pte s.
        case pte of
          None \<Rightarrow> Panic ''copyuvm: pte should exist''
        | Some (t, k) \<Rightarrow>
            bindo (load_word t k s) (\<lambda>e s.
              if e AND PTE_P = 0 then Panic ''copyuvm: page not present''
              else
                let pa = PTE_ADDR e; flags = PTE_FLAGS e in
                bindo (kalloc s) (\<lambda>page s.
                  if page = NULL then Ok False s
                  else
                bindo (P2V pa s) (\<lambda>src s.
                  case mem s src of
                    BytePage f \<Rightarrow>
                      let s = put_page page (BytePage f) s in
                      bindo (V2P page s) (\<lambda>npa s.
                      bindo (mappages d i PGSIZE npa flags s) (\<lambda>r s.
                        if r < 0 then bindo (kfree page s) (\<lambda>_ s. Ok False s)
                        else Ok True s))
                  | _ \<Rightarrow> Fault ''data page''))))"

partial_function (option) copyuvm_loop ::
  "addr \<Rightarrow> addr \<Rightarrow> addr \<Rightarrow> addr \<Rightarrow> 'a kmem_scheme \<Rightarrow> (bool, 'a kmem_scheme) outcome option" where
  "copyuvm_loop pgdir d i sz s =
     (if i < sz then
        (case copy_page pgdir d i s of
           Ok go s \<Rightarrow>
             if go then copyuvm_loop pgdir d (i + PGSIZE) sz s else Some (Ok False s)
         | Switch s \<Rightarrow> Some (Switch s)
         | Panic e \<Rightarrow> Some (Panic e)
         | Fault e \<Rightarrow> Some (Fault e)
         | Diverge \<Rightarrow> Some Diverge)
      else Some (Ok True s))"

definition copyuvm :: "addr \<Rightarrow> addr \<Rightarrow> 'a kvm_scheme \<Rightarrow> (addr, 'a kvm_scheme) outcome" where
  "copyuvm pgdir sz s =
     bindo (setupkvm s) (\<lambda>d s.
       if d = NULL then Ok NULL s
       else bindo (returns (copyuvm_loop pgdir d 0 sz s)) (\<lambda>ok s.
         if ok then Ok d s
         else bindo (freevm d s) (\<lambda>_ s. Ok NULL s)))"

definition uva2ka :: "addr \<Rightarrow> addr \<Rightarrow> 'a kmem_scheme \<Rightarrow> (addr, 'a kmem_scheme) outcome" where
  "uva2ka pgdir uva s =
     bindo (walkpgdir pgdir uva False s) (\<lambda>pte s.
       case pte of
         None \<Rightarrow> Fault ''uva2ka: null pte''
       | Some (t, i) \<Rightarrow>
           bindo (load_word t i s) (\<lambda>e s.
             if e AND PTE_P = 0 then Ok NULL s
             else if e AND PTE_U = 0 then Ok NULL s
             else P2V (PTE_ADDR e) s))"

function copyout :: "addr \<Rightarrow> addr \<Rightarrow> byte list \<Rightarrow> 'a kmem_scheme \<Rightarrow> (int, 'a kmem_scheme) outcome" where
  "copyout pgdir va buf s =
     (if buf \<noteq> [] then
        let va0 = PGROUNDDOWN va in
        bindo (uva2ka pgdir va0 s) (\<lambda>pa0 s.
          if pa0 = NULL then Ok (- 1) s
          else
            let n = unat (PGSIZE - (va - va0));
                n = (if n > length buf then length buf else n)
            in bindo (write_bytes pa0 (unat (va - va0)) (take n buf) s) (\<lambda>_ s.
                 copyout pgdir (va0 + PGSIZE) (drop n buf) s))
      else Ok 0 s)"
  by pat_completeness auto
termination
  by (relation "measure (\<lambda>(pgdir, va, buf, s). length buf)") (simp_all add: unat_page_rest)

section \<open>Fields the lower layers do not see\<close>

lemma kvm_frame [simp]:
  "my (s\<lparr>kpgdir := v0\<rparr>) = my s"
  "cpu_ok (s\<lparr>kpgdir := v0\<rparr>) = cpu_ok s"
  "lock_free l (s\<lparr>kpgdir := v0\<rparr>) = lock_free l s"
  "lock_mine l (s\<lparr>kpgdir := v0\<rparr>) = lock_mine l s"
  "acq l (s\<lparr>kpgdir := v0\<rparr>) = (acq l s)\<lparr>kpgdir := v0\<rparr>"
  "rel l (s\<lparr>kpgdir := v0\<rparr>) = (rel l s)\<lparr>kpgdir := v0\<rparr>"
  "phys_page (s\<lparr>kpgdir := v0\<rparr>) = phys_page s"
  "kmem_lockable (s\<lparr>kpgdir := v0\<rparr>) = kmem_lockable s"
  "kmem_ok fs (s\<lparr>kpgdir := v0\<rparr>) = kmem_ok fs s"
  "kpgdir (acq l s) = kpgdir s"
  "kpgdir (rel l s) = kpgdir s"
  "my (s\<lparr>cr3 := v1\<rparr>) = my s"
  "cpu_ok (s\<lparr>cr3 := v1\<rparr>) = cpu_ok s"
  "lock_free l (s\<lparr>cr3 := v1\<rparr>) = lock_free l s"
  "lock_mine l (s\<lparr>cr3 := v1\<rparr>) = lock_mine l s"
  "acq l (s\<lparr>cr3 := v1\<rparr>) = (acq l s)\<lparr>cr3 := v1\<rparr>"
  "rel l (s\<lparr>cr3 := v1\<rparr>) = (rel l s)\<lparr>cr3 := v1\<rparr>"
  "phys_page (s\<lparr>cr3 := v1\<rparr>) = phys_page s"
  "kmem_lockable (s\<lparr>cr3 := v1\<rparr>) = kmem_lockable s"
  "kmem_ok fs (s\<lparr>cr3 := v1\<rparr>) = kmem_ok fs s"
  "cr3 (acq l s) = cr3 s"
  "cr3 (rel l s) = cr3 s"
  "my (s\<lparr>tss_esp0 := v2\<rparr>) = my s"
  "cpu_ok (s\<lparr>tss_esp0 := v2\<rparr>) = cpu_ok s"
  "lock_free l (s\<lparr>tss_esp0 := v2\<rparr>) = lock_free l s"
  "lock_mine l (s\<lparr>tss_esp0 := v2\<rparr>) = lock_mine l s"
  "acq l (s\<lparr>tss_esp0 := v2\<rparr>) = (acq l s)\<lparr>tss_esp0 := v2\<rparr>"
  "rel l (s\<lparr>tss_esp0 := v2\<rparr>) = (rel l s)\<lparr>tss_esp0 := v2\<rparr>"
  "phys_page (s\<lparr>tss_esp0 := v2\<rparr>) = phys_page s"
  "kmem_lockable (s\<lparr>tss_esp0 := v2\<rparr>) = kmem_lockable s"
  "kmem_ok fs (s\<lparr>tss_esp0 := v2\<rparr>) = kmem_ok fs s"
  "tss_esp0 (acq l s) = tss_esp0 s"
  "tss_esp0 (rel l s) = tss_esp0 s"
  by (simp_all add: my_def cpu_ok_def cpu_index_def lock_free_def lock_mine_def rel_def acq_def
      phys_page_def kmem_lockable_def kmem_ok_def fun_eq_iff cong: option.case_cong)

end
