(* ===== verification/Process.thy ===== *)
theory Process
  imports Vm
begin

text \<open>
  The process table: \<^verbatim>\<open>struct proc\<close>, \<^verbatim>\<open>enum procstate\<close> of \<^verbatim>\<open>proc.h\<close>, \<^verbatim>\<open>struct trapframe\<close> of
  \<^verbatim>\<open>x86.h\<close>, the constants of \<^verbatim>\<open>param.h\<close> and \<^verbatim>\<open>bfs.h\<close>, and the globals of \<^verbatim>\<open>proc.c\<close> and
  \<^verbatim>\<open>trap.c\<close>.  A \<^verbatim>\<open>struct proc *\<close> is an index into \<open>procs\<close> (\<open>None\<close> is the null pointer), a
  \<^verbatim>\<open>struct file *\<close> an index into the file table and a \<^verbatim>\<open>struct inode *\<close> an index into the inode
  cache.  The trap frame and the saved context, which live at the top of the kernel stack, are
  kept by value; of the saved context only where it resumes matters to C code.  A sleep
  channel is named by the object whose address the C code uses.
\<close>

definition NPROC :: nat where "NPROC = 64"
definition NOFILE :: nat where "NOFILE = 16"
definition KSTACKSIZE :: addr where "KSTACKSIZE = 4096"
definition BFS_DEFAULT_QUANTUM :: int where "BFS_DEFAULT_QUANTUM = 50"
definition BFS_NICE_FIRST_LEVEL :: int where "BFS_NICE_FIRST_LEVEL = - 20"
definition BFS_NICE_LAST_LEVEL :: int where "BFS_NICE_LAST_LEVEL = 19"

datatype procstate = UNUSED | EMBRYO | SLEEPING | RUNNABLE | RUNNING | ZOMBIE

datatype chan =
    ChanProc nat | ChanTicks | ChanLog | ChanSleep sleepid | ChanBuf nat
  | ChanPipeRead addr | ChanPipeWrite addr | ChanInput

datatype resume = Forkret | InSched bool

record trapframe =
  tf_edi :: addr
  tf_esi :: addr
  tf_ebp :: addr
  tf_ebx :: addr
  tf_edx :: addr
  tf_ecx :: addr
  tf_eax :: addr
  tf_gs :: addr
  tf_fs :: addr
  tf_es :: addr
  tf_ds :: addr
  tf_trapno :: addr
  tf_err :: addr
  tf_eip :: addr
  tf_cs :: addr
  tf_eflags :: addr
  tf_esp :: addr
  tf_ss :: addr

record proc =
  sz :: addr
  pgdir :: addr
  kstack :: addr
  pstate :: procstate
  pid :: int
  parent :: "nat option"
  tf :: trapframe
  kctx :: resume
  pchan :: "chan option"
  killed :: bool
  ofile :: "nat option list"
  cwd :: "nat option"
  pname :: string
  ticks_left :: int
  nice_value :: int
  virtual_deadline :: int
  max_level :: int

record kproc = kvm +
  procs :: "proc list"
  skl :: addr
  seed :: "32 word"
  nextpid :: int
  initproc :: "nat option"
  ticks :: "32 word"
  schedlog_active :: bool
  schedlog_lasttick :: int
  forkret_first :: bool

definition upd_proc :: "nat \<Rightarrow> (proc \<Rightarrow> proc) \<Rightarrow> 'a kproc_scheme \<Rightarrow> 'a kproc_scheme" where
  "upd_proc i f s = s\<lparr>procs := (procs s)[i := f (procs s ! i)]\<rparr>"

section \<open>Fields the lower layers do not see\<close>

lemma kproc_frame [simp]:
  "my (s\<lparr>procs := v0\<rparr>) = my s"
  "cpu_ok (s\<lparr>procs := v0\<rparr>) = cpu_ok s"
  "lock_free l (s\<lparr>procs := v0\<rparr>) = lock_free l s"
  "lock_mine l (s\<lparr>procs := v0\<rparr>) = lock_mine l s"
  "acq l (s\<lparr>procs := v0\<rparr>) = (acq l s)\<lparr>procs := v0\<rparr>"
  "rel l (s\<lparr>procs := v0\<rparr>) = (rel l s)\<lparr>procs := v0\<rparr>"
  "phys_page (s\<lparr>procs := v0\<rparr>) = phys_page s"
  "kmem_lockable (s\<lparr>procs := v0\<rparr>) = kmem_lockable s"
  "kmem_ok fs (s\<lparr>procs := v0\<rparr>) = kmem_ok fs s"
  "procs (acq l s) = procs s"
  "procs (rel l s) = procs s"
  "my (s\<lparr>seed := v1\<rparr>) = my s"
  "cpu_ok (s\<lparr>seed := v1\<rparr>) = cpu_ok s"
  "lock_free l (s\<lparr>seed := v1\<rparr>) = lock_free l s"
  "lock_mine l (s\<lparr>seed := v1\<rparr>) = lock_mine l s"
  "acq l (s\<lparr>seed := v1\<rparr>) = (acq l s)\<lparr>seed := v1\<rparr>"
  "rel l (s\<lparr>seed := v1\<rparr>) = (rel l s)\<lparr>seed := v1\<rparr>"
  "phys_page (s\<lparr>seed := v1\<rparr>) = phys_page s"
  "kmem_lockable (s\<lparr>seed := v1\<rparr>) = kmem_lockable s"
  "kmem_ok fs (s\<lparr>seed := v1\<rparr>) = kmem_ok fs s"
  "seed (acq l s) = seed s"
  "seed (rel l s) = seed s"
  "my (s\<lparr>nextpid := v2\<rparr>) = my s"
  "cpu_ok (s\<lparr>nextpid := v2\<rparr>) = cpu_ok s"
  "lock_free l (s\<lparr>nextpid := v2\<rparr>) = lock_free l s"
  "lock_mine l (s\<lparr>nextpid := v2\<rparr>) = lock_mine l s"
  "acq l (s\<lparr>nextpid := v2\<rparr>) = (acq l s)\<lparr>nextpid := v2\<rparr>"
  "rel l (s\<lparr>nextpid := v2\<rparr>) = (rel l s)\<lparr>nextpid := v2\<rparr>"
  "phys_page (s\<lparr>nextpid := v2\<rparr>) = phys_page s"
  "kmem_lockable (s\<lparr>nextpid := v2\<rparr>) = kmem_lockable s"
  "kmem_ok fs (s\<lparr>nextpid := v2\<rparr>) = kmem_ok fs s"
  "nextpid (acq l s) = nextpid s"
  "nextpid (rel l s) = nextpid s"
  "my (s\<lparr>initproc := v3\<rparr>) = my s"
  "cpu_ok (s\<lparr>initproc := v3\<rparr>) = cpu_ok s"
  "lock_free l (s\<lparr>initproc := v3\<rparr>) = lock_free l s"
  "lock_mine l (s\<lparr>initproc := v3\<rparr>) = lock_mine l s"
  "acq l (s\<lparr>initproc := v3\<rparr>) = (acq l s)\<lparr>initproc := v3\<rparr>"
  "rel l (s\<lparr>initproc := v3\<rparr>) = (rel l s)\<lparr>initproc := v3\<rparr>"
  "phys_page (s\<lparr>initproc := v3\<rparr>) = phys_page s"
  "kmem_lockable (s\<lparr>initproc := v3\<rparr>) = kmem_lockable s"
  "kmem_ok fs (s\<lparr>initproc := v3\<rparr>) = kmem_ok fs s"
  "initproc (acq l s) = initproc s"
  "initproc (rel l s) = initproc s"
  "my (s\<lparr>ticks := v4\<rparr>) = my s"
  "cpu_ok (s\<lparr>ticks := v4\<rparr>) = cpu_ok s"
  "lock_free l (s\<lparr>ticks := v4\<rparr>) = lock_free l s"
  "lock_mine l (s\<lparr>ticks := v4\<rparr>) = lock_mine l s"
  "acq l (s\<lparr>ticks := v4\<rparr>) = (acq l s)\<lparr>ticks := v4\<rparr>"
  "rel l (s\<lparr>ticks := v4\<rparr>) = (rel l s)\<lparr>ticks := v4\<rparr>"
  "phys_page (s\<lparr>ticks := v4\<rparr>) = phys_page s"
  "kmem_lockable (s\<lparr>ticks := v4\<rparr>) = kmem_lockable s"
  "kmem_ok fs (s\<lparr>ticks := v4\<rparr>) = kmem_ok fs s"
  "ticks (acq l s) = ticks s"
  "ticks (rel l s) = ticks s"
  "my (s\<lparr>skl := v5\<rparr>) = my s"
  "cpu_ok (s\<lparr>skl := v5\<rparr>) = cpu_ok s"
  "lock_free l (s\<lparr>skl := v5\<rparr>) = lock_free l s"
  "lock_mine l (s\<lparr>skl := v5\<rparr>) = lock_mine l s"
  "acq l (s\<lparr>skl := v5\<rparr>) = (acq l s)\<lparr>skl := v5\<rparr>"
  "rel l (s\<lparr>skl := v5\<rparr>) = (rel l s)\<lparr>skl := v5\<rparr>"
  "phys_page (s\<lparr>skl := v5\<rparr>) = phys_page s"
  "kmem_lockable (s\<lparr>skl := v5\<rparr>) = kmem_lockable s"
  "kmem_ok fs (s\<lparr>skl := v5\<rparr>) = kmem_ok fs s"
  "skl (acq l s) = skl s"
  "skl (rel l s) = skl s"
  "my (s\<lparr>schedlog_active := v6\<rparr>) = my s"
  "cpu_ok (s\<lparr>schedlog_active := v6\<rparr>) = cpu_ok s"
  "lock_free l (s\<lparr>schedlog_active := v6\<rparr>) = lock_free l s"
  "lock_mine l (s\<lparr>schedlog_active := v6\<rparr>) = lock_mine l s"
  "acq l (s\<lparr>schedlog_active := v6\<rparr>) = (acq l s)\<lparr>schedlog_active := v6\<rparr>"
  "rel l (s\<lparr>schedlog_active := v6\<rparr>) = (rel l s)\<lparr>schedlog_active := v6\<rparr>"
  "phys_page (s\<lparr>schedlog_active := v6\<rparr>) = phys_page s"
  "kmem_lockable (s\<lparr>schedlog_active := v6\<rparr>) = kmem_lockable s"
  "kmem_ok fs (s\<lparr>schedlog_active := v6\<rparr>) = kmem_ok fs s"
  "schedlog_active (acq l s) = schedlog_active s"
  "schedlog_active (rel l s) = schedlog_active s"
  "my (s\<lparr>schedlog_lasttick := v7\<rparr>) = my s"
  "cpu_ok (s\<lparr>schedlog_lasttick := v7\<rparr>) = cpu_ok s"
  "lock_free l (s\<lparr>schedlog_lasttick := v7\<rparr>) = lock_free l s"
  "lock_mine l (s\<lparr>schedlog_lasttick := v7\<rparr>) = lock_mine l s"
  "acq l (s\<lparr>schedlog_lasttick := v7\<rparr>) = (acq l s)\<lparr>schedlog_lasttick := v7\<rparr>"
  "rel l (s\<lparr>schedlog_lasttick := v7\<rparr>) = (rel l s)\<lparr>schedlog_lasttick := v7\<rparr>"
  "phys_page (s\<lparr>schedlog_lasttick := v7\<rparr>) = phys_page s"
  "kmem_lockable (s\<lparr>schedlog_lasttick := v7\<rparr>) = kmem_lockable s"
  "kmem_ok fs (s\<lparr>schedlog_lasttick := v7\<rparr>) = kmem_ok fs s"
  "schedlog_lasttick (acq l s) = schedlog_lasttick s"
  "schedlog_lasttick (rel l s) = schedlog_lasttick s"
  "my (s\<lparr>forkret_first := v8\<rparr>) = my s"
  "cpu_ok (s\<lparr>forkret_first := v8\<rparr>) = cpu_ok s"
  "lock_free l (s\<lparr>forkret_first := v8\<rparr>) = lock_free l s"
  "lock_mine l (s\<lparr>forkret_first := v8\<rparr>) = lock_mine l s"
  "acq l (s\<lparr>forkret_first := v8\<rparr>) = (acq l s)\<lparr>forkret_first := v8\<rparr>"
  "rel l (s\<lparr>forkret_first := v8\<rparr>) = (rel l s)\<lparr>forkret_first := v8\<rparr>"
  "phys_page (s\<lparr>forkret_first := v8\<rparr>) = phys_page s"
  "kmem_lockable (s\<lparr>forkret_first := v8\<rparr>) = kmem_lockable s"
  "kmem_ok fs (s\<lparr>forkret_first := v8\<rparr>) = kmem_ok fs s"
  "forkret_first (acq l s) = forkret_first s"
  "forkret_first (rel l s) = forkret_first s"
  by (simp_all add: my_def cpu_ok_def cpu_index_def lock_free_def lock_mine_def rel_def acq_def
      phys_page_def kmem_lockable_def kmem_ok_def fun_eq_iff cong: option.case_cong)

end
