(* ===== verification/SkipList.thy ===== *)
theory SkipList
  imports Process
begin

text \<open>
  The run queue: the skip list of \<^verbatim>\<open>proc.c\<close> (lines 12 to 198).

  Four doubly linked lists of pages, one per level, ordered by virtual deadline; a node on a
  level points with \<^verbatim>\<open>forward\<close> to the node of the same process one level below.  The code works
  on pages of \<open>mem\<close> through pointers.  Loops over pointers are \<^theory_text>\<open>partial_function\<close>s, since on a
  cyclic heap they do not stop: their value is \<open>None\<close> when they loop, \<open>Some None\<close> when they follow
  a bad pointer, and \<open>Some (Some c)\<close> when they end at \<open>c\<close>.  The array \<^verbatim>\<open>prev_nodes\<close> on the
  stack is a partial function; reading an entry that was never written is a \<open>Fault\<close>.
\<close>

definition SKIPLIST_LEVELS :: nat where "SKIPLIST_LEVELS = 4"

section \<open>Access to pages through pointers\<close>

fun node_of :: "page \<Rightarrow> node option" where
  "node_of (NodePage n) = Some n"
| "node_of (RawPage w) =
     Some \<lparr>n_pid = sint w, n_vd = sint junk, n_prev = junk, n_next = junk, n_forward = junk\<rparr>"
| "node_of _ = None"

definition nd :: "(addr \<Rightarrow> page) \<Rightarrow> addr \<Rightarrow> node option" where
  "nd m a = (if a = NULL then None else node_of (m a))"

definition load_node :: "addr \<Rightarrow> 'a kmem_scheme \<Rightarrow> (node, 'a kmem_scheme) outcome" where
  "load_node a s = (case nd (mem s) a of None \<Rightarrow> Fault ''node pointer'' | Some n \<Rightarrow> Ok n s)"

definition store_node :: "addr \<Rightarrow> (node \<Rightarrow> node) \<Rightarrow> 'a kmem_scheme \<Rightarrow> (unit, 'a kmem_scheme) outcome" where
  "store_node a f s =
     (case nd (mem s) a of
        None \<Rightarrow> Fault ''node pointer''
      | Some n \<Rightarrow> Ok () (put_page a (NodePage (f n)) s))"

definition load_skip :: "addr \<Rightarrow> 'a kmem_scheme \<Rightarrow> (int \<times> addr, 'a kmem_scheme) outcome" where
  "load_skip a s =
     (if a = NULL then Fault ''skiplist pointer''
      else case mem s a of SkipPage lv h \<Rightarrow> Ok (lv, h) s | _ \<Rightarrow> Fault ''skiplist pointer'')"

definition store_skip :: "addr \<Rightarrow> int \<Rightarrow> addr \<Rightarrow> 'a kmem_scheme \<Rightarrow> (unit, 'a kmem_scheme) outcome" where
  "store_skip a lv h s =
     (if a = NULL then Fault ''skiplist pointer''
      else case mem s a of
             SkipPage lv' h' \<Rightarrow> Ok () (put_page a (SkipPage lv h) s)
           | RawPage w \<Rightarrow> Ok () (put_page a (SkipPage lv h) s)
           | _ \<Rightarrow> Fault ''skiplist pointer'')"

definition walked :: "addr option option \<Rightarrow> 's \<Rightarrow> (addr, 's) outcome" where
  "walked r s =
     (case r of
        None \<Rightarrow> Diverge
      | Some None \<Rightarrow> Fault ''node pointer''
      | Some (Some c) \<Rightarrow> Ok c s)"

section \<open>Operations\<close>

definition init_header :: "addr \<Rightarrow> nat \<Rightarrow> 'a kmem_scheme \<Rightarrow> (unit, 'a kmem_scheme) outcome" where
  "init_header sk i s =
     bindo (load_skip sk s) (\<lambda>(lv, h) s.
     bindo (kalloc s) (\<lambda>a s.
     bindo (store_word h i a s) (\<lambda>_ s.
     bindo (store_node a (\<lambda>n. n\<lparr>n_pid := - 1, n_vd := - 1, n_next := NULL, n_prev := NULL\<rparr>) s) (\<lambda>_ s.
       if i > 0 then
         bindo (load_word h (i - 1) s) (\<lambda>b s. store_node a (\<lambda>n. n\<lparr>n_forward := b\<rparr>) s)
       else Ok () s))))"

definition init_skiplist :: "'a kmem_scheme \<Rightarrow> (addr, 'a kmem_scheme) outcome" where
  "init_skiplist s =
     bindo (kalloc s) (\<lambda>sk s.
     bindo (store_skip sk (int SKIPLIST_LEVELS) junk s) (\<lambda>_ s.
     bindo (kalloc s) (\<lambda>h s.
     bindo (store_skip sk (int SKIPLIST_LEVELS) h s) (\<lambda>_ s.
     bindo (for_list (init_header sk) [0..<SKIPLIST_LEVELS] s) (\<lambda>_ s. Ok sk s)))))"

definition insert_to_level ::
  "int \<Rightarrow> int \<Rightarrow> addr \<Rightarrow> addr \<Rightarrow> 'a kmem_scheme \<Rightarrow> (addr, 'a kmem_scheme) outcome" where
  "insert_to_level ppid vd prev_node fwd s =
     bindo (kalloc s) (\<lambda>new_node s.
     bindo (store_node new_node (\<lambda>n. n\<lparr>n_pid := ppid, n_vd := vd\<rparr>) s) (\<lambda>_ s.
     bindo (load_node prev_node s) (\<lambda>pn s.
       let next_node = n_next pn in
     bindo (store_node prev_node (\<lambda>n. n\<lparr>n_next := new_node\<rparr>) s) (\<lambda>_ s.
     bindo (store_node new_node
              (\<lambda>n. n\<lparr>n_prev := prev_node, n_next := next_node, n_forward := fwd\<rparr>) s) (\<lambda>_ s.
     bindo (if next_node \<noteq> NULL then store_node next_node (\<lambda>n. n\<lparr>n_prev := new_node\<rparr>) s
            else Ok () s) (\<lambda>_ s. Ok new_node s))))))"

definition xorshift :: "32 word \<Rightarrow> 32 word" where
  "xorshift x0 =
     (let x1 = x0 XOR push_bit 17 x0;
          x2 = x1 XOR signed_drop_bit 7 x1;
          x3 = x2 XOR push_bit 5 x2
      in x3)"

definition random :: "int \<Rightarrow> 'a kproc_scheme \<Rightarrow> (32 word, 'a kproc_scheme) outcome" where
  "random mx s =
     (let sd = xorshift (seed s) in
      Ok (word_of_int (sint sd smod mx)) (s\<lparr>seed := sd\<rparr>))"

function randomize_loop :: "int \<Rightarrow> int \<Rightarrow> 'a kproc_scheme \<Rightarrow> (int, 'a kproc_scheme) outcome" where
  "randomize_loop lvl mx s =
     (if lvl \<le> mx then
        bindo (random 4 s) (\<lambda>x s. if sint x = 0 then randomize_loop (lvl + 1) mx s else Ok lvl s)
      else Ok lvl s)"
  by pat_completeness auto
termination
  by (relation "measure (\<lambda>(lvl, mx, s). nat (mx + 1 - lvl))") auto

definition randomize_max_level :: "int \<Rightarrow> 'a kproc_scheme \<Rightarrow> (int, 'a kproc_scheme) outcome" where
  "randomize_max_level mx s = randomize_loop 0 mx s"

partial_function (option) insert_walk :: "(addr \<Rightarrow> page) \<Rightarrow> int \<Rightarrow> addr \<Rightarrow> addr option option" where
  "insert_walk m vd c =
     (case nd m c of
        None \<Rightarrow> Some None
      | Some n \<Rightarrow>
          if n_next n \<noteq> NULL then
            (case nd m (n_next n) of
               None \<Rightarrow> Some None
             | Some k \<Rightarrow> if vd \<ge> n_vd k then insert_walk m vd (n_next n) else Some (Some c))
          else Some (Some c))"

fun find_prevs ::
  "int \<Rightarrow> int \<Rightarrow> nat \<Rightarrow> addr \<Rightarrow> (nat \<Rightarrow> addr option) \<Rightarrow> 'a kmem_scheme \<Rightarrow>
   (nat \<Rightarrow> addr option, 'a kmem_scheme) outcome" where
  "find_prevs vd ml 0 c prevs s = Ok prevs s"
| "find_prevs vd ml (Suc cl) c prevs s =
     bindo (walked (insert_walk (mem s) vd c) s) (\<lambda>c s.
       let prevs = (if ml \<ge> int cl then prevs(cl := Some c) else prevs) in
     bindo (load_node c s) (\<lambda>n s. find_prevs vd ml cl (n_forward n) prevs s))"

fun insert_levels ::
  "int \<Rightarrow> int \<Rightarrow> (nat \<Rightarrow> addr option) \<Rightarrow> nat list \<Rightarrow> addr \<Rightarrow> 'a kmem_scheme \<Rightarrow>
   (addr, 'a kmem_scheme) outcome" where
  "insert_levels ppid vd prevs [] fwd s = Ok fwd s"
| "insert_levels ppid vd prevs (cl # cls) fwd s =
     (case prevs cl of
        None \<Rightarrow> Fault ''prev_nodes: uninitialised''
      | Some q \<Rightarrow> bindo (insert_to_level ppid vd q fwd s) (\<lambda>a s. insert_levels ppid vd prevs cls a s))"

definition insert_node :: "addr \<Rightarrow> nat \<Rightarrow> 'a kproc_scheme \<Rightarrow> (unit, 'a kproc_scheme) outcome" where
  "insert_node sk p s =
     bindo (load_skip sk s) (\<lambda>(lv, h) s.
     bindo (randomize_max_level (lv - 1) s) (\<lambda>ml s.
       let s = upd_proc p (\<lambda>q. q\<lparr>max_level := ml\<rparr>) s;
           ppid = pid (procs s ! p);
           vd = virtual_deadline (procs s ! p)
       in
     bindo (load_word h (nat (lv - 1)) s) (\<lambda>c s.
     bindo (find_prevs vd ml (nat lv) c (\<lambda>_. None) s) (\<lambda>prevs s.
     bindo (insert_levels ppid vd prevs [0..<nat (ml + 1)] NULL s) (\<lambda>_ s.
       cprintf (''inserted|[%d]%d'' @ [CHR 0x0A]) [CInt (word_of_int ppid), CInt (word_of_int ml)] s)))))"

partial_function (option) delete_from_levels_loop ::
  "addr \<Rightarrow> 'a kmem_scheme \<Rightarrow> (unit, 'a kmem_scheme) outcome option" where
  "delete_from_levels_loop c s =
     (if c \<noteq> NULL then
        (case bindo (load_node c s) (\<lambda>n s.
              bindo (store_node (n_prev n) (\<lambda>q. q\<lparr>n_next := n_next n\<rparr>) s) (\<lambda>_ s.
              bindo (if n_next n \<noteq> NULL then store_node (n_next n) (\<lambda>q. q\<lparr>n_prev := n_prev n\<rparr>) s
                     else Ok () s) (\<lambda>_ s.
              bindo (kfree c s) (\<lambda>_ s. Ok (n_forward n) s)))) of
           Ok next_to_delete s \<Rightarrow> delete_from_levels_loop next_to_delete s
         | Switch s \<Rightarrow> Some (Switch s)
         | Panic e \<Rightarrow> Some (Panic e)
         | Fault e \<Rightarrow> Some (Fault e)
         | Diverge \<Rightarrow> Some Diverge)
      else Some (Ok () s))"

definition delete_from_levels :: "addr \<Rightarrow> 'a kmem_scheme \<Rightarrow> (unit, 'a kmem_scheme) outcome" where
  "delete_from_levels c s = returns (delete_from_levels_loop c s)"

partial_function (option) delete_walk :: "(addr \<Rightarrow> page) \<Rightarrow> int \<Rightarrow> int \<Rightarrow> addr \<Rightarrow> addr option option" where
  "delete_walk m ppid vd c =
     (case nd m c of
        None \<Rightarrow> Some None
      | Some n \<Rightarrow>
          if n_vd n < vd \<and> n_pid n \<noteq> ppid then
            if n_vd n > vd \<or> n_next n = NULL then Some (Some c)
            else delete_walk m ppid vd (n_next n)
          else Some (Some c))"

partial_function (option) back_walk :: "(addr \<Rightarrow> page) \<Rightarrow> int \<Rightarrow> addr \<Rightarrow> addr option option" where
  "back_walk m vd c =
     (case nd m c of
        None \<Rightarrow> Some None
      | Some n \<Rightarrow> if n_vd n \<ge> vd then back_walk m vd (n_prev n) else Some (Some c))"

fun delete_search ::
  "int \<Rightarrow> int \<Rightarrow> nat \<Rightarrow> addr \<Rightarrow> 'a kmem_scheme \<Rightarrow> ((nat \<times> addr) option, 'a kmem_scheme) outcome" where
  "delete_search ppid vd 0 c s = Ok None s"
| "delete_search ppid vd (Suc cl) c s =
     bindo (walked (delete_walk (mem s) ppid vd c) s) (\<lambda>c s.
     bindo (load_node c s) (\<lambda>n s.
       if n_pid n = ppid \<and> n_vd n = vd then Ok (Some (cl, c)) s
       else
     bindo (walked (back_walk (mem s) vd c) s) (\<lambda>c s.
     bindo (load_node c s) (\<lambda>n s. delete_search ppid vd cl (n_forward n) s))))"

definition delete_node :: "addr \<Rightarrow> nat \<Rightarrow> 'a kproc_scheme \<Rightarrow> (unit, 'a kproc_scheme) outcome" where
  "delete_node sk p s =
     (let ppid = pid (procs s ! p); vd = virtual_deadline (procs s ! p) in
     bindo (load_skip sk s) (\<lambda>(lv, h) s.
     bindo (load_word h (nat (lv - 1)) s) (\<lambda>c s.
     bindo (delete_search ppid vd (nat lv) c s) (\<lambda>r s.
     bindo (case r of
              None \<Rightarrow> Ok () s
            | Some (cl, c) \<Rightarrow>
                bindo (delete_from_levels c s) (\<lambda>_ s.
                  cprintf (''removed|[%d]%d'' @ [CHR 0x0A])
                    [CInt (word_of_int ppid), CInt (word_of_int (int cl))] s)) (\<lambda>_ s.
       Ok () (upd_proc p (\<lambda>q. q\<lparr>max_level := - 1\<rparr>) s))))))"

definition get_minimum :: "addr \<Rightarrow> 'a kmem_scheme \<Rightarrow> (int, 'a kmem_scheme) outcome" where
  "get_minimum sk s =
     bindo (load_skip sk s) (\<lambda>(lv, h) s.
     bindo (load_word h 0 s) (\<lambda>a s.
     bindo (load_node a s) (\<lambda>n s.
       if n_next n \<noteq> NULL then bindo (load_node (n_next n) s) (\<lambda>k s. Ok (n_pid k) s)
       else Ok (- 69) s)))"

partial_function (option) print_level ::
  "addr \<Rightarrow> 'a kout_scheme \<Rightarrow> (unit, 'a kout_scheme) outcome option" where
  "print_level c s =
     (if c \<noteq> NULL then
        (case bindo (load_node c s) (\<lambda>n s.
              bindo (cprintf ''%d(pid:%d) -> '' [CInt (word_of_int (n_vd n)), CInt (word_of_int (n_pid n))] s)
                (\<lambda>_ s. Ok (n_next n) s)) of
           Ok d s \<Rightarrow> print_level d s
         | Switch s \<Rightarrow> Some (Switch s)
         | Panic e \<Rightarrow> Some (Panic e)
         | Fault e \<Rightarrow> Some (Fault e)
         | Diverge \<Rightarrow> Some Diverge)
      else Some (Ok () s))"

definition print_skiplist :: "addr \<Rightarrow> 'a kout_scheme \<Rightarrow> (unit, 'a kout_scheme) outcome" where
  "print_skiplist sk s =
     bindo (load_skip sk s) (\<lambda>(lv, h) s.
       for_list (\<lambda>cl s.
         bindo (load_word h cl s) (\<lambda>c s.
         bindo (cprintf ''level %d: '' [CInt (word_of_int (int cl))] s) (\<lambda>_ s.
         bindo (returns (print_level c s)) (\<lambda>_ s.
           cprintf [CHR 0x0A] [] s)))) (rev [0..<nat lv]) s)"

end
