(* ===== verification/RunQueue.thy ===== *)
theory RunQueue
  imports SkipList
begin

text \<open>
  Correctness of the skip list.

  \<open>sl_ok\<close> is the shape the list must have: on every level a doubly linked list that starts at
  the header, sorted by virtual deadline, whose \<^verbatim>\<open>forward\<close> pointers run along a subsequence of
  the level below and lead to nodes of the same process.  Its abstraction \<open>sl_queue\<close> is the
  sequence of (pid, virtual deadline) pairs on level 0.  The operations keep the shape and act on
  the abstraction as on a queue sorted by deadline, first come first served among equal deadlines.
\<close>

section \<open>Doubly linked lists in memory\<close>

definition nof :: "(addr \<Rightarrow> page) \<Rightarrow> addr \<Rightarrow> node" where
  "nof m x = (case m x of NodePage n \<Rightarrow> n
     | _ \<Rightarrow> \<lparr>n_pid = 0, n_vd = 0, n_prev = 0, n_next = 0, n_forward = 0\<rparr>)"

fun is_node :: "page \<Rightarrow> bool" where
  "is_node (NodePage n) = True"
| "is_node _ = False"

fun seg :: "(addr \<Rightarrow> page) \<Rightarrow> addr \<Rightarrow> addr list \<Rightarrow> addr \<Rightarrow> bool" where
  "seg m p [] q = True"
| "seg m p (x # xs) q =
     (x \<noteq> 0 \<and> is_node (m x) \<and> n_prev (nof m x) = p \<and> n_next (nof m x) = hd (xs @ [q]) \<and> seg m x xs q)"

abbreviation vdv :: "(addr \<Rightarrow> page) \<Rightarrow> addr \<Rightarrow> int" where
  "vdv m x \<equiv> n_vd (nof m x)"

abbreviation fwd :: "(addr \<Rightarrow> page) \<Rightarrow> addr \<Rightarrow> addr" where
  "fwd m x \<equiv> n_forward (nof m x)"

definition key :: "(addr \<Rightarrow> page) \<Rightarrow> addr \<Rightarrow> int \<times> int" where
  "key m x = (n_pid (nof m x), n_vd (nof m x))"

lemma is_nodeE: "is_node p \<Longrightarrow> (\<And>n. p = NodePage n \<Longrightarrow> R) \<Longrightarrow> R"
  by (cases p) auto

lemma nof_NodePage [simp]: "m x = NodePage n \<Longrightarrow> nof m x = n"
  by (simp add: nof_def)

lemma nof_upd [simp]: "nof (m(a := NodePage n)) x = (if x = a then n else nof m x)"
  by (simp add: nof_def)

lemma nof_upd_other: "x \<noteq> a \<Longrightarrow> nof (m(a := p)) x = nof m x"
  by (simp add: nof_def)

lemma nd_node: "is_node (m x) \<Longrightarrow> x \<noteq> 0 \<Longrightarrow> nd m x = Some (nof m x)"
  by (erule is_nodeE) (simp add: nd_def NULL_def nof_def)

lemma node_page_nof: "is_node (m x) \<Longrightarrow> m x = NodePage (nof m x)"
  by (erule is_nodeE) simp

lemma seg_append:
  "seg m p (xs @ ys) q = (seg m p xs (hd (ys @ [q])) \<and> seg m (last (p # xs)) ys q)"
proof (induction xs arbitrary: p)
  case (Cons x xs)
  then show ?case by (cases xs) auto
qed simp

lemma seg_frame:
  assumes "\<And>x. x \<in> set xs \<Longrightarrow> m' x = m x"
  shows "seg m' p xs q = seg m p xs q"
  using assms
proof (induction xs arbitrary: p)
  case (Cons x xs)
  then have "m' x = m x" by simp
  then have "nof m' x = nof m x" by (simp add: nof_def)
  with Cons \<open>m' x = m x\<close> show ?case by simp
qed simp

lemma seg_node: "seg m p xs q \<Longrightarrow> x \<in> set xs \<Longrightarrow> is_node (m x) \<and> x \<noteq> 0"
  by (induction xs arbitrary: p) auto

lemma neq_hd: "x \<notin> set ys \<Longrightarrow> x \<noteq> z \<Longrightarrow> x \<noteq> hd (ys @ [z])"
  by (cases ys) auto

text \<open>Linking a new node \<open>a\<close> in behind \<open>b\<close>, and unlinking it again.\<close>

definition link_in :: "addr \<Rightarrow> addr \<Rightarrow> node \<Rightarrow> (addr \<Rightarrow> page) \<Rightarrow> addr \<Rightarrow> page" where
  "link_in a b n m =
     (let nx = n_next (nof m b);
          m1 = m(b := NodePage ((nof m b)\<lparr>n_next := a\<rparr>), a := NodePage (n\<lparr>n_prev := b, n_next := nx\<rparr>))
      in if nx = 0 then m1 else m1(nx := NodePage ((nof m1 nx)\<lparr>n_prev := a\<rparr>)))"

definition link_out :: "addr \<Rightarrow> (addr \<Rightarrow> page) \<Rightarrow> addr \<Rightarrow> page" where
  "link_out a m =
     (let nx = n_next (nof m a); pv = n_prev (nof m a);
          m1 = m(pv := NodePage ((nof m pv)\<lparr>n_next := nx\<rparr>))
      in if nx = 0 then m1 else m1(nx := NodePage ((nof m1 nx)\<lparr>n_prev := pv\<rparr>)))"

lemma link_in_seg:
  assumes sg: "seg m p (xs @ b # ys) 0" and d: "distinct (xs @ b # ys)"
    and a: "a \<notin> set (xs @ b # ys)" "a \<noteq> 0"
  shows "seg (link_in a b n m) p (xs @ b # a # ys) 0"
proof -
  let ?m = "link_in a b n m"
  have pre: "seg m p xs b" and bn: "is_node (m b)" "b \<noteq> 0" "n_next (nof m b) = hd (ys @ [0])"
    "n_prev (nof m b) = last (p # xs)" and post: "seg m b ys 0"
    using sg by (simp_all add: seg_append)
  have frame: "?m x = m x" if "x \<noteq> a" "x \<noteq> b" "x \<noteq> hd (ys @ [0])" for x
    using that bn(3) by (simp add: link_in_def Let_def)
  have "seg ?m p xs b"
  proof (subst seg_frame [of xs _ m])
    fix x assume "x \<in> set xs"
    with d a seg_node [OF pre, of x] show "?m x = m x"
      by (intro frame neq_hd) auto
  qed (rule pre)
  moreover have "seg ?m b (a # ys) 0"
  proof (cases ys)
    case Nil
    with a bn show ?thesis by (simp add: link_in_def Let_def)
  next
    case (Cons y zs)
    have "seg ?m y zs 0"
    proof (subst seg_frame [of zs _ m])
      fix x assume "x \<in> set zs"
      with d a Cons show "?m x = m x" by (intro frame) auto
    qed (use post Cons in simp)
    with Cons a bn d post show ?thesis by (auto simp: link_in_def Let_def)
  qed
  moreover have "is_node (?m b)" "n_prev (nof ?m b) = last (p # xs)" "n_next (nof ?m b) = a"
    using a bn d seg_node [OF sg] by (cases ys; auto simp: link_in_def Let_def)+
  ultimately show ?thesis
    using bn a by (simp add: seg_append)
qed

lemma link_in_nof:
  assumes "a \<noteq> b" "n_next (nof m b) \<noteq> a" "n_next (nof m b) \<noteq> b"
  shows "x \<noteq> a \<Longrightarrow> key (link_in a b n m) x = key m x" "x \<noteq> a \<Longrightarrow> fwd (link_in a b n m) x = fwd m x"
    "key (link_in a b n m) a = (n_pid n, n_vd n)" "fwd (link_in a b n m) a = n_forward n"
  using assms by (auto simp: link_in_def Let_def key_def)

lemma link_out_seg:
  assumes sg: "seg m p (xs @ b # a # ys) 0" and d: "distinct (xs @ b # a # ys)"
  shows "seg (link_out a m) p (xs @ b # ys) 0"
proof -
  let ?m = "link_out a m"
  have pre: "seg m p xs b" and bn: "is_node (m b)" "b \<noteq> 0" "n_prev (nof m b) = last (p # xs)"
    and an: "n_prev (nof m a) = b" "n_next (nof m a) = hd (ys @ [0])" and post: "seg m a ys 0"
    using sg by (simp_all add: seg_append)
  have frame: "?m x = m x" if "x \<noteq> b" "x \<noteq> hd (ys @ [0])" for x
    using that an by (simp add: link_out_def Let_def)
  have "seg ?m p xs b"
  proof (subst seg_frame [of xs _ m])
    fix x assume "x \<in> set xs"
    with d seg_node [OF pre, of x] show "?m x = m x"
      by (intro frame neq_hd) auto
  qed (rule pre)
  moreover have "seg ?m b ys 0"
  proof (cases ys)
    case (Cons y zs)
    have "seg ?m y zs 0"
    proof (subst seg_frame [of zs _ m])
      fix x assume "x \<in> set zs"
      with d Cons show "?m x = m x" by (intro frame) auto
    qed (use post Cons in simp)
    with Cons an d post show ?thesis by (auto simp: link_out_def Let_def)
  qed simp
  moreover have "is_node (?m b)" "n_prev (nof ?m b) = last (p # xs)" "n_next (nof ?m b) = hd (ys @ [0])"
    using an bn d seg_node [OF sg] by (cases ys; auto simp: link_out_def Let_def)+
  ultimately show ?thesis
    using bn by (simp add: seg_append)
qed

lemma link_out_nof: "key (link_out a m) x = key m x" "fwd (link_out a m) x = fwd m x"
  by (simp_all add: link_out_def Let_def key_def)

section \<open>The shape of the skip list\<close>

definition sl_ok ::
  "(addr \<Rightarrow> page) \<Rightarrow> addr \<Rightarrow> addr \<Rightarrow> addr list \<Rightarrow> addr list list \<Rightarrow> bool" where
  "sl_ok m sk ha hs ls =
     (length hs = 4 \<and> length ls = 4 \<and> sk \<noteq> 0 \<and> m sk = SkipPage 4 ha \<and> ha \<noteq> 0 \<and>
      (\<exists>w. m ha = WordPage w \<and> map w [0..<4] = hs) \<and>
      (\<forall>i<4. seg m 0 (hs ! i # ls ! i) 0 \<and> distinct (hs ! i # ls ! i) \<and> key m (hs ! i) = (- 1, - 1) \<and>
         sorted (map (vdv m) (ls ! i))) \<and>
      (\<forall>i<4. \<forall>j<4. i \<noteq> j \<longrightarrow> set (hs ! i # ls ! i) \<inter> set (hs ! j # ls ! j) = {}) \<and>
      (\<forall>i<3. fwd m (hs ! Suc i) = hs ! i \<and> subseq (map (fwd m) (ls ! Suc i)) (ls ! i) \<and>
         (\<forall>x \<in> set (ls ! Suc i). key m (fwd m x) = key m x)) \<and>
      (\<forall>x \<in> set (ls ! 0). fwd m x = 0))"

definition sl_queue :: "(addr \<Rightarrow> page) \<Rightarrow> addr list list \<Rightarrow> (int \<times> int) list" where
  "sl_queue m ls = map (key m) (ls ! 0)"

lemma sl_okD:
  assumes "sl_ok m sk ha hs ls"
  shows "length hs = 4" "length ls = 4" "sk \<noteq> 0" "m sk = SkipPage 4 ha" "ha \<noteq> 0"
    "\<exists>w. m ha = WordPage w \<and> map w [0..<4] = hs"
    "i < 4 \<Longrightarrow> seg m 0 (hs ! i # ls ! i) 0" "i < 4 \<Longrightarrow> distinct (hs ! i # ls ! i)"
    "i < 4 \<Longrightarrow> key m (hs ! i) = (- 1, - 1)" "i < 4 \<Longrightarrow> sorted (map (vdv m) (ls ! i))"
    "i < 4 \<Longrightarrow> j < 4 \<Longrightarrow> i \<noteq> j \<Longrightarrow> set (hs ! i # ls ! i) \<inter> set (hs ! j # ls ! j) = {}"
    "i < 3 \<Longrightarrow> fwd m (hs ! Suc i) = hs ! i" "i < 3 \<Longrightarrow> subseq (map (fwd m) (ls ! Suc i)) (ls ! i)"
    "i < 3 \<Longrightarrow> x \<in> set (ls ! Suc i) \<Longrightarrow> key m (fwd m x) = key m x"
    "x \<in> set (ls ! 0) \<Longrightarrow> fwd m x = 0"
  using assms unfolding sl_ok_def by blast+

lemma sl_ok_node:
  assumes "sl_ok m sk ha hs ls" "i < 4" "x \<in> set (hs ! i # ls ! i)"
  shows "is_node (m x)" "x \<noteq> 0"
  using seg_node [OF sl_okD(7) [OF assms(1,2)] assms(3)] by simp_all

lemma sl_ok_fwd_in:
  assumes "sl_ok m sk ha hs ls" "i < 3" "x \<in> set (ls ! Suc i)"
  shows "fwd m x \<in> set (ls ! i)"
proof -
  have "fwd m x \<in> set (map (fwd m) (ls ! Suc i))" using assms(3) by simp
  then show ?thesis
    using list_emb_set [OF sl_okD(13) [OF assms(1,2)]] by auto
qed

lemma load_skip_ok: "sl_ok (mem s) sk ha hs ls \<Longrightarrow> load_skip sk s = Ok (4, ha) s"
  by (simp add: load_skip_def NULL_def sl_okD)

lemma load_word_ok: "sl_ok (mem s) sk ha hs ls \<Longrightarrow> i < 4 \<Longrightarrow> load_word ha i s = Ok (hs ! i) s"
proof -
  assume ok: "sl_ok (mem s) sk ha hs ls" and i: "i < 4"
  obtain w where "mem s ha = WordPage w" "map w [0..<4] = hs" using sl_okD(6) [OF ok] by blast
  with i sl_okD(5) [OF ok] show ?thesis
    by (auto simp: load_word_def NULL_def)
qed

lemma load_node_ok: "is_node (mem s x) \<Longrightarrow> x \<noteq> 0 \<Longrightarrow> load_node x s = Ok (nof (mem s) x) s"
  by (simp add: load_node_def nd_node)

lemma store_node_ok:
  "is_node (mem s x) \<Longrightarrow> x \<noteq> 0 \<Longrightarrow>
   store_node x f s = Ok () (s\<lparr>mem := (mem s)(x := NodePage (f (nof (mem s) x)))\<rparr>)"
  by (simp add: store_node_def nd_node put_page_def)

section \<open>Searching\<close>

lemma insert_walk_seg:
  "seg m p (c # ys) 0 \<Longrightarrow>
   insert_walk m v c = Some (Some (last (c # takeWhile (\<lambda>x. vdv m x \<le> v) ys)))"
proof (induction ys arbitrary: c p)
  case Nil
  then show ?case by (subst insert_walk.simps) (simp add: nd_node NULL_def)
next
  case (Cons y ys)
  then show ?case by (subst insert_walk.simps) (auto simp: nd_node NULL_def)
qed

lemma takeWhile_vd: "sorted (map (vdv m) xs) \<Longrightarrow> takeWhile (\<lambda>x. vdv m x \<le> v) xs = filter (\<lambda>x. vdv m x \<le> v) xs"
  by (rule takeWhile_eq_filter_sorted [where k = "vdv m"]) simp_all

lemma insert_walk_ok:
  assumes sg: "seg m 0 (h # xs) 0" and so: "sorted (map (vdv m) xs)"
    and c: "c = h \<or> (c \<in> set xs \<and> vdv m c \<le> v)"
  shows "insert_walk m v c = Some (Some (last (h # filter (\<lambda>x. vdv m x \<le> v) xs)))"
  using c
proof
  assume "c = h"
  then show ?thesis
    using insert_walk_seg [OF sg] so by (simp add: takeWhile_vd)
next
  assume c: "c \<in> set xs \<and> vdv m c \<le> v"
  then obtain as bs where xs: "xs = as @ c # bs" by (auto dest: split_list)
  have "seg m (last (h # as)) (c # bs) 0" using sg by (simp add: xs seg_append)
  then have "insert_walk m v c = Some (Some (last (c # takeWhile (\<lambda>x. vdv m x \<le> v) bs)))"
    by (rule insert_walk_seg)
  moreover have "sorted (map (vdv m) bs)" using so by (simp add: xs sorted_append)
  ultimately show ?thesis
    using c by (simp add: xs takeWhile_vd)
qed

text \<open>
  The last node of a level that satisfies a property of its key leads to the header of the level
  below or to a node of the same key.
\<close>

lemma descend:
  assumes ok: "sl_ok m sk ha hs ls" and i: "i < 3"
    and c: "c = last (hs ! Suc i # filter (\<lambda>x. Q (key m x)) (ls ! Suc i))"
  shows "fwd m c = hs ! i \<or> (fwd m c \<in> set (ls ! i) \<and> Q (key m (fwd m c)))"
proof (cases "filter (\<lambda>x. Q (key m x)) (ls ! Suc i)")
  case Nil
  then show ?thesis using sl_okD(12) [OF ok i] c by simp
next
  case (Cons y ys)
  then have "c \<in> set (filter (\<lambda>x. Q (key m x)) (ls ! Suc i))"
    unfolding c Cons by simp
  then show ?thesis
    using sl_ok_fwd_in [OF ok i] sl_okD(14) [OF ok i] by auto
qed

lemma last_filter_in: "last (h # filter P xs) \<in> set (h # xs)"
  by (cases "filter P xs = []") (auto dest: last_in_set)

lemma find_prevs_ok:
  assumes ok: "sl_ok (mem s) sk ha hs ls"
    and "n \<le> 4" "n > 0 \<Longrightarrow> c = hs ! (n - 1) \<or> (c \<in> set (ls ! (n - 1)) \<and> vdv (mem s) c \<le> v)"
  shows "find_prevs v ml n c prevs s =
    Ok (\<lambda>i. if i < n \<and> int i \<le> ml then Some (last (hs ! i # filter (\<lambda>x. vdv (mem s) x \<le> v) (ls ! i)))
           else prevs i) s"
  using assms(2,3)
proof (induction n arbitrary: c prevs)
  case 0
  then show ?case by simp
next
  case (Suc n)
  let ?c = "last (hs ! n # filter (\<lambda>x. vdv (mem s) x \<le> v) (ls ! n))"
  have n: "n < 4" using Suc.prems by simp
  have w: "insert_walk (mem s) v c = Some (Some ?c)"
    using Suc.prems(2) by (intro insert_walk_ok sl_okD [OF ok] n) auto
  have l: "load_node ?c s = Ok (nof (mem s) ?c) s"
    using sl_ok_node [OF ok n last_filter_in] by (rule load_node_ok)
  have "n > 0 \<Longrightarrow> fwd (mem s) ?c = hs ! (n - 1) \<or>
      (fwd (mem s) ?c \<in> set (ls ! (n - 1)) \<and> vdv (mem s) (fwd (mem s) ?c) \<le> v)"
    using descend [OF ok, of "n - 1" ?c "\<lambda>k. snd k \<le> v"] n by (simp add: key_def)
  from Suc.IH [OF _ this] n w l show ?case
    by (auto simp: walked_def Let_def fun_eq_iff less_Suc_eq)
qed

section \<open>Linking a node in keeps the shape\<close>

lemma link_in_other:
  "x \<noteq> a \<Longrightarrow> x \<noteq> b \<Longrightarrow> x \<noteq> n_next (nof m b) \<Longrightarrow> link_in a b n m x = m x"
  by (simp add: link_in_def Let_def)

lemma sl_ok_split:
  assumes "sl_ok m sk ha hs ls" "k < 4"
  shows "ls ! k = filter (\<lambda>x. vdv m x \<le> v) (ls ! k) @ filter (\<lambda>x. \<not> vdv m x \<le> v) (ls ! k)"
proof -
  have "dropWhile (\<lambda>x. vdv m x \<le> v) (ls ! k) = filter (\<lambda>x. \<not> vdv m x \<le> v) (ls ! k)"
    by (rule dropWhile_eq_filter_sorted [where k = "vdv m"]) (use sl_okD(10) [OF assms] in simp_all)
  then show ?thesis
    using takeWhile_vd [OF sl_okD(10) [OF assms], of v] takeWhile_dropWhile_id by metis
qed

lemma sl_ok_change_level:
  assumes ok: "sl_ok m sk ha hs ls" and k: "k < 4"
    and nodes: "set xs \<subseteq> insert a (set (ls ! k))" "\<And>i. i < 4 \<Longrightarrow> a \<notin> set (hs ! i # ls ! i) \<or> a \<in> set (ls ! k)"
    and sg: "seg m' 0 (hs ! k # xs) 0" and dx: "distinct (hs ! k # xs)" and sx: "sorted (map (vdv m') xs)"
    and other: "\<And>i x. i < 4 \<Longrightarrow> i \<noteq> k \<Longrightarrow> x \<in> set (hs ! i # ls ! i) \<Longrightarrow> m' x = m x"
    and hdr: "key m' (hs ! k) = key m (hs ! k)" "fwd m' (hs ! k) = fwd m (hs ! k)"
    and sk: "m' sk = m sk" "m' ha = m ha"
    and below: "k > 0 \<Longrightarrow> subseq (map (fwd m') xs) (ls ! (k - 1))"
      "\<And>x. k > 0 \<Longrightarrow> x \<in> set xs \<Longrightarrow> key m' (fwd m' x) = key m' x"
      "\<And>x. k = 0 \<Longrightarrow> x \<in> set xs \<Longrightarrow> fwd m' x = 0"
    and above: "k < 3 \<Longrightarrow> subseq (map (fwd m) (ls ! Suc k)) xs"
      "\<And>x. k < 3 \<Longrightarrow> x \<in> set (ls ! Suc k) \<Longrightarrow> key m' (fwd m x) = key m (fwd m x)"
  shows "sl_ok m' sk ha hs (ls[k := xs])"
proof -
  have same: "key m' x = key m x" "nof m' x = nof m x" if "i < 4" "i \<noteq> k" "x \<in> set (hs ! i # ls ! i)" for i x
    using other [OF that] by (simp_all add: key_def nof_def)
  have seg_i: "seg m' 0 (hs ! i # ls ! i) 0" if "i < 4" "i \<noteq> k" for i
    using sl_okD(7) [OF ok that(1)] other [OF that] by (subst seg_frame [of _ _ m]) auto
  have srt: "sorted (map (vdv m') (ls ! i))" if "i < 4" "i \<noteq> k" for i
  proof -
    have eq: "map (vdv m') (ls ! i) = map (vdv m) (ls ! i)" using same(2) [OF that] by simp
    show ?thesis unfolding eq by (rule sl_okD(10) [OF ok that(1)])
  qed
  have disj: "set (hs ! k # xs) \<inter> set (hs ! i # ls ! i) = {}" if "i < 4" "i \<noteq> k" for i
    using sl_okD(11) [OF ok k that(1)] that nodes(1) nodes(2) [OF that(1)] by auto
  have len: "length ls = 4" by (rule sl_okD(2) [OF ok])
  have lo: "subseq (map (fwd m') (ls ! Suc i)) (ls[k := xs] ! i) \<and>
      (\<forall>x \<in> set (ls ! Suc i). key m' (fwd m' x) = key m' x) \<and> fwd m' (hs ! Suc i) = hs ! i"
    if i: "i < 3" "Suc i \<noteq> k" for i
  proof -
    have s4: "Suc i < 4" using i by simp
    note sm = same(2) [OF s4 i(2)] same(1) [OF s4 i(2)]
    have mp: "map (fwd m') (ls ! Suc i) = map (fwd m) (ls ! Suc i)" using sm by simp
    have "subseq (map (fwd m') (ls ! Suc i)) (ls[k := xs] ! i)"
      unfolding mp using above(1) sl_okD(13) [OF ok i(1)] i len k by (cases "i = k") auto
    moreover have "key m' (fwd m' x) = key m' x" if x: "x \<in> set (ls ! Suc i)" for x
    proof -
      have fx: "fwd m x \<in> set (ls ! i)" by (rule sl_ok_fwd_in [OF ok i(1) x])
      have "key m' (fwd m x) = key m (fwd m x)"
        using above(2) fx x same(1) [of i "fwd m x"] i by (cases "i = k") auto
      then show ?thesis using sm x sl_okD(14) [OF ok i(1) x] by simp
    qed
    ultimately show ?thesis using sm sl_okD(12) [OF ok i(1)] by simp
  qed
  have at: "fwd m' (hs ! Suc i) = hs ! i \<and> subseq (map (fwd m') (ls[k := xs] ! Suc i)) (ls[k := xs] ! i) \<and>
      (\<forall>x \<in> set (ls[k := xs] ! Suc i). key m' (fwd m' x) = key m' x)" if i: "i < 3" for i
  proof (cases "Suc i = k")
    case True
    then show ?thesis using below hdr sl_okD(12) [OF ok i] len k by auto
  next
    case False
    then show ?thesis using lo [OF i False] by simp
  qed
  have zero: "\<forall>x \<in> set (ls[k := xs] ! 0). fwd m' x = 0"
    using below(3) sl_okD(15) [OF ok] same(2) [of 0] len by (cases "k = 0") auto
  have own: "seg m' 0 (hs ! i # ls[k := xs] ! i) 0 \<and> distinct (hs ! i # ls[k := xs] ! i) \<and>
      key m' (hs ! i) = (- 1, - 1) \<and> sorted (map (vdv m') (ls[k := xs] ! i))" if i: "i < 4" for i
  proof (cases "i = k")
    case True
    then show ?thesis using sg dx sx hdr sl_okD(9) [OF ok k] len k by simp
  next
    case False
    then show ?thesis
      using seg_i [OF i False] sl_okD(8,9) [OF ok i] srt [OF i False] same(1) [OF i False, of "hs ! i"] by simp
  qed
  have djs: "set (hs ! i # ls[k := xs] ! i) \<inter> set (hs ! j # ls[k := xs] ! j) = {}"
    if "i < 4" "j < 4" "i \<noteq> j" for i j
    using disj [of i] disj [of j] sl_okD(11) [OF ok that] that len k
    by (cases "i = k"; cases "j = k") auto
  show ?thesis
    unfolding sl_ok_def
    using sl_okD(1-6) [OF ok] own djs at zero sk by simp
qed

lemma subseq_insert: "subseq zs (xs @ ys) \<Longrightarrow> subseq zs (xs @ a # ys)"
  by (erule subseq_order.trans) (rule list_emb_append_mono, auto)

lemma sl_ok_link_in:
  assumes ok: "sl_ok m sk ha hs ls" and k: "k < 4"
    and a: "\<And>i. i < 4 \<Longrightarrow> a \<notin> set (hs ! i # ls ! i)" "a \<noteq> sk" "a \<noteq> ha" "a \<noteq> 0"
    and A: "A = filter (\<lambda>x. vdv m x \<le> n_vd n) (ls ! k)" and B: "B = filter (\<lambda>x. \<not> vdv m x \<le> n_vd n) (ls ! k)"
    and b: "b = last (hs ! k # A)"
    and zero: "k = 0 \<Longrightarrow> n_forward n = 0"
    and below: "k > 0 \<Longrightarrow> ls ! (k - 1) = A0 @ n_forward n # B0" "k > 0 \<Longrightarrow> subseq (map (fwd m) A) A0"
      "k > 0 \<Longrightarrow> subseq (map (fwd m) B) B0" "k > 0 \<Longrightarrow> key m (n_forward n) = (n_pid n, n_vd n)"
  shows "sl_ok (link_in a b n m) sk ha hs (ls[k := A @ a # B])"
proof -
  let ?m = "link_in a b n m"
  have split: "ls ! k = A @ B" unfolding A B by (rule sl_ok_split [OF ok k])
  define xs where "xs = butlast (hs ! k # A)"
  have lv: "hs ! k # A = xs @ [b]" unfolding xs_def b by simp
  have lvl: "hs ! k # ls ! k = xs @ b # B" using lv split by (metis append_Cons append_assoc append_Nil)
  have lvl': "hs ! k # A @ a # B = xs @ b # a # B" using lv by (metis append_Cons append_assoc append_Nil)
  have sg: "seg m 0 (xs @ b # B) 0" and ds: "distinct (xs @ b # B)"
    using sl_okD(7,8) [OF ok k] by (simp_all add: lvl)
  have ax: "a \<notin> set (xs @ b # B)" using a(1) [OF k] unfolding lvl .
  have nx: "n_next (nof m b) = hd (B @ [0])" using sg by (simp add: seg_append)
  have hdB: "x \<noteq> hd (B @ [0])" if "x \<notin> set B" "x \<noteq> 0" for x using that by (rule neq_hd)
  have nof: "x \<noteq> a \<Longrightarrow> key ?m x = key m x" "x \<noteq> a \<Longrightarrow> fwd ?m x = fwd m x"
    "key ?m a = (n_pid n, n_vd n)" "fwd ?m a = n_forward n" for x
    by (rule link_in_nof; use nx ax ds a(4) sg hdB [of a] hdB [of b] in \<open>auto simp: seg_append\<close>)+
  have inlv: "b \<in> set (hs ! k # ls ! k)" "set B \<subseteq> set (hs ! k # ls ! k)" unfolding lvl by auto
  have other: "?m x = m x" if "i < 4" "i \<noteq> k" "x \<in> set (hs ! i # ls ! i)" for i x
  proof -
    have "x \<notin> set (hs ! k # ls ! k)" using sl_okD(11) [OF ok that(1) k that(2)] that(3) by blast
    moreover have "x \<noteq> 0" by (rule sl_ok_node [OF ok that(1,3)])
    ultimately show ?thesis
      using inlv a(1) [OF that(1)] that(3) nx by (intro link_in_other) (auto dest!: hdB)
  qed
  have nonnode: "?m x = m x" if "\<not> is_node (m x)" "x \<noteq> a" "x \<noteq> 0" for x
    using that sl_ok_node [OF ok k, of x] inlv nx by (intro link_in_other) (auto dest!: hdB)
  have inA: "x \<noteq> a" if "x \<in> set A \<or> x \<in> set B" for x using that a(1) [OF k] split by auto
  have "vdv ?m x = vdv m x" if "x \<noteq> a" for x using nof(1) [OF that] by (simp add: key_def)
  then have keyA: "map (vdv ?m) A = map (vdv m) A" "map (vdv ?m) B = map (vdv m) B"
    "map (fwd ?m) A = map (fwd m) A" "map (fwd ?m) B = map (fwd m) B"
    by (simp_all add: inA nof(2))
  have srt: "sorted (map (vdv m) (A @ B))" using sl_okD(10) [OF ok k] split by simp
  show ?thesis
  proof (rule sl_ok_change_level [OF ok k, of _ a])
    show "set (A @ a # B) \<subseteq> insert a (set (ls ! k))" using split by auto
    show "seg ?m 0 (hs ! k # A @ a # B) 0" unfolding lvl' by (rule link_in_seg [OF sg ds ax a(4)])
    show "distinct (hs ! k # A @ a # B)" unfolding lvl' using ds ax by auto
    have va: "vdv ?m a = n_vd n" using nof(3) by (simp add: key_def)
    have "\<forall>x \<in> set A. vdv m x \<le> n_vd n" "\<forall>x \<in> set B. n_vd n \<le> vdv m x" by (auto simp: A B)
    then show "sorted (map (vdv ?m) (A @ a # B))"
      unfolding map_append list.map keyA va using srt by (auto simp: sorted_append)
    show "key ?m (hs ! k) = key m (hs ! k)" "fwd ?m (hs ! k) = fwd m (hs ! k)"
      using a(1) [OF k] by (auto intro: nof)
    show "?m sk = m sk" "?m ha = m ha"
      by (rule nonnode; use sl_okD(3-6) [OF ok] a(2,3) in auto)+
    show "subseq (map (fwd ?m) (A @ a # B)) (ls ! (k - 1))" if "k > 0"
      unfolding map_append list.map keyA nof(4) below(1) [OF that]
      by (rule list_emb_append_mono) (simp_all add: below(2,3) [OF that])
    show "key ?m (fwd ?m x) = key ?m x" if "k > 0" "x \<in> set (A @ a # B)" for x
    proof (cases "x = a")
      case True
      have "n_forward n \<in> set (ls ! (k - 1))" using below(1) [OF that(1)] by simp
      then have "n_forward n \<noteq> a" using a(1) [of "k - 1"] k by auto
      then show ?thesis using True nof below(4) [OF that(1)] by simp
    next
      case False
      then have xk: "x \<in> set (ls ! Suc (k - 1))" using that split by auto
      have k1: "k - 1 < 3" using k that by simp
      have "fwd m x \<noteq> a" using sl_ok_fwd_in [OF ok k1 xk] a(1) [of "k - 1"] k by auto
      then show ?thesis using False nof(1,2) sl_okD(14) [OF ok k1 xk] by simp
    qed
    show "fwd ?m x = 0" if "k = 0" "x \<in> set (A @ a # B)" for x
      using that zero nof(2) [of x] nof(4) sl_okD(15) [OF ok, of x] split by (cases "x = a") auto
    show "subseq (map (fwd m) (ls ! Suc k)) (A @ a # B)" if "k < 3"
      using sl_okD(13) [OF ok that] split by (simp add: subseq_insert)
    show "key ?m (fwd m x) = key m (fwd m x)" if "k < 3" "x \<in> set (ls ! Suc k)" for x
      using sl_ok_fwd_in [OF ok that] a(1) [OF k] by (intro nof) auto
  qed (use a(1) other in \<open>blast+\<close>)
qed

lemma sl_ok_link_out:
  assumes ok: "sl_ok m sk ha hs ls" and k: "k < 4" and split: "ls ! k = A @ a # B"
    and top: "k < 3 \<Longrightarrow> a \<notin> fwd m ` set (ls ! Suc k)"
  shows "sl_ok ((link_out a m)(a := pg)) sk ha hs (ls[k := A @ B])"
    and "x \<noteq> a \<Longrightarrow> key ((link_out a m)(a := pg)) x = key m x"
    and "x \<noteq> a \<Longrightarrow> fwd ((link_out a m)(a := pg)) x = fwd m x"
proof -
  let ?m = "(link_out a m)(a := pg)"
  show nof: "key ?m x = key m x" "fwd ?m x = fwd m x" if "x \<noteq> a" for x
    using that link_out_nof [of a m x] by (simp_all add: key_def nof_upd_other)
  define xs where "xs = butlast (hs ! k # A)"
  define b where "b = last (hs ! k # A)"
  have lv: "hs ! k # A = xs @ [b]" unfolding xs_def b_def by simp
  have lvl: "hs ! k # ls ! k = xs @ b # a # B" using lv split by (metis append_Cons append_assoc append_Nil)
  have lvl': "hs ! k # A @ B = xs @ b # B" using lv by (metis append_Cons append_assoc append_Nil)
  have sg: "seg m 0 (xs @ b # a # B) 0" and ds: "distinct (xs @ b # a # B)"
    using sl_okD(7,8) [OF ok k] by (simp_all add: lvl)
  have nx: "n_next (nof m a) = hd (B @ [0])" "n_prev (nof m a) = b" using sg by (simp_all add: seg_append)
  have hdB: "x \<noteq> hd (B @ [0])" if "x \<notin> set B" "x \<noteq> 0" for x using that by (rule neq_hd)
  have out: "?m x = m x" if "x \<noteq> a" "x \<noteq> b" "x \<notin> set B" "x \<noteq> 0" for x
    using that hdB [of x] nx by (simp add: link_out_def Let_def)
  have inlv: "b \<in> set (hs ! k # ls ! k)" "a \<in> set (hs ! k # ls ! k)" "set B \<subseteq> set (hs ! k # ls ! k)"
    unfolding lvl by auto
  have other: "?m x = m x" if "i < 4" "i \<noteq> k" "x \<in> set (hs ! i # ls ! i)" for i x
  proof -
    have "x \<notin> set (hs ! k # ls ! k)" using sl_okD(11) [OF ok that(1) k that(2)] that(3) by blast
    moreover have "x \<noteq> 0" by (rule sl_ok_node [OF ok that(1,3)])
    ultimately show ?thesis using inlv by (intro out) auto
  qed
  have nonnode: "?m x = m x" if "\<not> is_node (m x)" "x \<noteq> 0" for x
    using that sl_ok_node [OF ok k, of x] inlv by (intro out) auto
  have na: "x \<noteq> a" if "x \<in> set (A @ B)" for x using that sl_okD(8) [OF ok k] by (auto simp: split)
  have "vdv ?m x = vdv m x" if "x \<noteq> a" for x using nof(1) [OF that] by (simp add: key_def)
  then have keyA: "map (vdv ?m) (A @ B) = map (vdv m) (A @ B)" "map (fwd ?m) (A @ B) = map (fwd m) (A @ B)"
    by (simp_all add: na nof(2))
  show "sl_ok ?m sk ha hs (ls[k := A @ B])"
  proof (rule sl_ok_change_level [OF ok k, of _ a])
    show "set (A @ B) \<subseteq> insert a (set (ls ! k))" using split by auto
    show "a \<notin> set (hs ! i # ls ! i) \<or> a \<in> set (ls ! k)" for i using split by simp
    have "seg (link_out a m) 0 (xs @ b # B) 0" by (rule link_out_seg [OF sg ds])
    then show "seg ?m 0 (hs ! k # A @ B) 0"
      unfolding lvl' using ds by (subst seg_frame [of _ _ "link_out a m"]) auto
    show "distinct (hs ! k # A @ B)" unfolding lvl' using ds by auto
    have "sorted (map (vdv m) (A @ B))"
      using sl_okD(10) [OF ok k] split by (auto simp: sorted_append)
    then show "sorted (map (vdv ?m) (A @ B))" unfolding keyA .
    have ha: "hs ! k \<noteq> a" using sl_okD(8) [OF ok k] split by auto
    then show "key ?m (hs ! k) = key m (hs ! k)" "fwd ?m (hs ! k) = fwd m (hs ! k)" by (rule nof)+
    show "?m sk = m sk" "?m ha = m ha"
      by (rule nonnode; use sl_okD(3-6) [OF ok] in auto)+
    have sub: "subseq (A @ B) (ls ! k)" unfolding split by (rule subseq_insert) simp
    show "subseq (map (fwd ?m) (A @ B)) (ls ! (k - 1))" if "k > 0"
      using subseq_map [OF sub, of "fwd m"] sl_okD(13) [OF ok, of "k - 1"] k that subseq_order.trans
      unfolding keyA by fastforce
    show "key ?m (fwd ?m x) = key ?m x" if "k > 0" "x \<in> set (A @ B)" for x
    proof -
      have xk: "x \<in> set (ls ! Suc (k - 1))" using that split by auto
      have k1: "k - 1 < 3" using k that by simp
      have "fwd m x \<in> set (hs ! (k - 1) # ls ! (k - 1))" using sl_ok_fwd_in [OF ok k1 xk] by simp
      moreover have "k - 1 < 4" "k \<noteq> k - 1" using k that by auto
      ultimately have "fwd m x \<noteq> a" using sl_okD(11) [OF ok k, of "k - 1"] inlv(2) by blast
      then show ?thesis using na [OF that(2)] nof sl_okD(14) [OF ok k1 xk] by simp
    qed
    show "fwd ?m x = 0" if "k = 0" "x \<in> set (A @ B)" for x
      using that na [OF that(2)] nof(2) [of x] sl_okD(15) [OF ok, of x] split by auto
    show "subseq (map (fwd m) (ls ! Suc k)) (A @ B)" if "k < 3"
    proof -
      have "filter (\<lambda>y. y \<noteq> a) (map (fwd m) (ls ! Suc k)) = map (fwd m) (ls ! Suc k)"
        using top [OF that] by (auto simp: filter_id_conv)
      moreover have "filter (\<lambda>y. y \<noteq> a) (ls ! k) = A @ B"
        using na by (simp add: split filter_id_conv)
      ultimately show ?thesis
        using subseq_filter [OF sl_okD(13) [OF ok that], of "\<lambda>y. y \<noteq> a"] by simp
    qed
    show "key ?m (fwd m x) = key m (fwd m x)" if "k < 3" "x \<in> set (ls ! Suc k)" for x
      using top [OF that(1)] that(2) by (intro nof) auto
  qed (use other in blast)
qed

section \<open>Insertion\<close>

definition enq :: "int \<times> int \<Rightarrow> (int \<times> int) list \<Rightarrow> (int \<times> int) list" where
  "enq e q = filter (\<lambda>x. snd x \<le> snd e) q @ e # filter (\<lambda>x. \<not> snd x \<le> snd e) q"

definition rq_mem ::
  "addr list \<Rightarrow> addr \<Rightarrow> addr \<Rightarrow> addr list \<Rightarrow> addr list list \<Rightarrow> 'a kmem_scheme \<Rightarrow> bool" where
  "rq_mem fs sk ha hs ls s =
     (kmem_ok fs s \<and> kmem_lockable s \<and> sl_ok (mem s) sk ha hs ls \<and>
      (\<forall>i<4. \<forall>x \<in> set (ls ! i). phys_page s x))"

text \<open>Pages that belong neither to the free list nor to a list of nodes keep their contents.\<close>

definition rest_same :: "'a kmem_scheme \<Rightarrow> 'a kmem_scheme \<Rightarrow> bool" where
  "rest_same s t = (\<forall>x. \<not> is_free (mem s x) \<longrightarrow> \<not> is_node (mem s x) \<longrightarrow> mem t x = mem s x)"

lemma node_not_free: "is_node p \<Longrightarrow> \<not> is_free p"
  by (cases p) auto

definition new_node :: "int \<Rightarrow> int \<Rightarrow> addr \<Rightarrow> node" where
  "new_node p v f = \<lparr>n_pid = p, n_vd = v, n_prev = 0, n_next = 0, n_forward = f\<rparr>"

lemma link_in_free:
  assumes "is_node (m q)" "n_next (nof m q) = 0 \<or> is_node (m (n_next (nof m q)))"
  shows "is_free (link_in a q n m v) = (v \<noteq> a \<and> is_free (m v))"
    "\<not> is_node (m v) \<Longrightarrow> v \<noteq> a \<Longrightarrow> link_in a q n m v = m v"
    "is_node (m v) \<Longrightarrow> is_node (link_in a q n m v)"
  using assms node_not_free [of "m q"] node_not_free [of "m (n_next (nof m q))"]
  by (auto simp: link_in_def Let_def)

lemma insert_to_level_step:
  assumes k: "kmem_lockable s" "kmem_ok (a # fs) s"
    and q: "is_node (mem s q)" "q \<noteq> 0"
    and n: "n_next (nof (mem s) q) = 0 \<or> is_node (mem s (n_next (nof (mem s) q)))"
  shows "\<exists>nx t. insert_to_level p v q f s = Ok a t \<and>
    t = s\<lparr>freelist := nx, mem := link_in a q (new_node p v f) (mem s)\<rparr> \<and> kmem_ok fs t"
proof -
  from kalloc_step [OF k] obtain nx where nx: "mem s a = FreePage nx" "freelist s = a"
    "kalloc s = Ok a (s\<lparr>freelist := nx, mem := (mem s)(a := RawPage nx)\<rparr>)" by blast
  let ?s = "s\<lparr>freelist := nx, mem := (mem s)(a := RawPage nx)\<rparr>"
  let ?b = "n_next (nof (mem s) q)"
  let ?m = "link_in a q (new_node p v f) (mem s)"
  have a: "a \<noteq> 0" "a \<noteq> q" "a \<noteq> ?b" using k(2) q n nx(1) by (auto simp: kmem_ok_def)
  obtain nq where nq: "mem s q = NodePage nq" using q(1) by (auto elim: is_nodeE)
  have run: "insert_to_level p v q f s = Ok a (s\<lparr>freelist := nx, mem := ?m\<rparr>)"
  proof (cases "?b = 0")
    case True
    then show ?thesis
      using a q nq by (simp add: insert_to_level_def nx(3) store_node_def load_node_def nd_def NULL_def
        put_page_def Let_def link_in_def new_node_def fun_upd_twist)
  next
    case False
    then obtain nb where nb: "mem s ?b = NodePage nb" using n by (auto elim: is_nodeE)
    then show ?thesis
      using False a q nq
      by (cases "?b = q") (simp_all add: insert_to_level_def nx(3) store_node_def load_node_def nd_def NULL_def
        put_page_def Let_def link_in_def new_node_def fun_upd_twist)
  qed
  have "kmem_ok fs ?s" by (rule kmem_ok_kalloc [OF k nx(3)])
  then have "kmem_ok fs (?s\<lparr>mem := ?m\<rparr>)"
  proof (rule kmem_ok_mem)
    show "is_free (?m v) = is_free (mem ?s v)" for v
      by (simp add: link_in_free [OF q(1) n])
    fix v assume "v \<in> set fs"
    then have "is_free (mem s v)" "v \<noteq> a" using k(2) by (auto simp: kmem_ok_def)
    then show "?m v = mem ?s v" using link_in_free(2) [OF q(1) n, of v a] node_not_free by auto
  qed
  then have ok: "kmem_ok fs (s\<lparr>freelist := nx, mem := ?m\<rparr>)" by simp
  show ?thesis by (intro exI conjI, rule run, rule refl, rule ok)
qed

lemma fwd_filter:
  assumes ok: "sl_ok m sk ha hs ls" and i: "i < 3"
  shows "subseq (map (fwd m) (filter (\<lambda>x. Q (key m x)) (ls ! Suc i))) (filter (\<lambda>x. Q (key m x)) (ls ! i))"
proof -
  have "filter (\<lambda>x. Q (key m x)) (map (fwd m) (ls ! Suc i)) = map (fwd m) (filter (\<lambda>x. Q (key m x)) (ls ! Suc i))"
    using sl_okD(14) [OF ok i] by (simp add: filter_map o_def cong: filter_cong)
  then show ?thesis using subseq_filter [OF sl_okD(13) [OF ok i], of "\<lambda>x. Q (key m x)"] by simp
qed

lemma last_filter_next:
  assumes ok: "sl_ok m sk ha hs ls" and k: "k < 4" and q: "q \<in> set (hs ! k # ls ! k)"
  shows "n_next (nof m q) = 0 \<or> is_node (m (n_next (nof m q)))"
proof -
  from split_list [OF q] obtain xs ys where l: "hs ! k # ls ! k = xs @ q # ys" by blast
  have "n_next (nof m q) = hd (ys @ [0])" "seg m q ys 0"
    using sl_okD(7) [OF ok k] by (simp_all add: l seg_append)
  then show ?thesis by (cases ys) auto
qed

lemma rq_memD:
  assumes "rq_mem fs sk ha hs ls s"
  shows "kmem_ok fs s" "kmem_lockable s" "sl_ok (mem s) sk ha hs ls"
    "i < 4 \<Longrightarrow> x \<in> set (ls ! i) \<Longrightarrow> phys_page s x"
  using assms by (auto simp: rq_mem_def)

lemma rq_insert_level:
  assumes rq: "rq_mem (a # fs) sk ha hs ls s" and k: "k < 4"
    and A: "A = filter (\<lambda>x. vdv (mem s) x \<le> v) (ls ! k)" and B: "B = filter (\<lambda>x. \<not> vdv (mem s) x \<le> v) (ls ! k)"
    and q: "q = last (hs ! k # A)"
    and zero: "k = 0 \<Longrightarrow> f = 0"
    and below: "k > 0 \<Longrightarrow> ls ! (k - 1) = A0 @ f # B0" "k > 0 \<Longrightarrow> subseq (map (fwd (mem s)) A) A0"
      "k > 0 \<Longrightarrow> subseq (map (fwd (mem s)) B) B0" "k > 0 \<Longrightarrow> key (mem s) f = (p, v)"
  obtains t nx where "insert_to_level p v q f s = Ok a t" "t = s\<lparr>freelist := nx, mem := mem t\<rparr>"
    "rq_mem fs sk ha hs (ls[k := A @ a # B]) t" "\<And>i. i < 4 \<Longrightarrow> a \<notin> set (hs ! i # ls ! i)"
    "\<And>x. x \<noteq> a \<Longrightarrow> key (mem t) x = key (mem s) x" "\<And>x. x \<noteq> a \<Longrightarrow> fwd (mem t) x = fwd (mem s) x"
    "key (mem t) a = (p, v)" "rest_same s t" "is_free (mem s a)" "mem t = link_in a q (new_node p v f) (mem s)"
proof -
  note D = rq_memD [OF rq]
  have qin: "q \<in> set (hs ! k # ls ! k)" unfolding q A by (rule last_filter_in)
  note qn = sl_ok_node [OF D(3) k qin] and nxt = last_filter_next [OF D(3) k qin]
  from insert_to_level_step [OF D(2,1) qn nxt] obtain nx t where
    t: "insert_to_level p v q f s = Ok a t" "t = s\<lparr>freelist := nx, mem := link_in a q (new_node p v f) (mem s)\<rparr>"
      "kmem_ok fs t" by blast
  have mt: "mem t = link_in a q (new_node p v f) (mem s)" by (simp add: t(2))
  have fr: "is_free (mem s a)" "phys_page s a" "a \<noteq> 0" using D(1) by (auto simp: kmem_ok_def)
  have new: "a \<notin> set (hs ! i # ls ! i)" if "i < 4" for i
    using sl_ok_node [OF D(3) that] node_not_free fr(1) by blast
  have nn: "n_vd (new_node p v f) = v" "n_pid (new_node p v f) = p" "n_forward (new_node p v f) = f"
    by (simp_all add: new_node_def)
  have ns: "a \<noteq> sk" "a \<noteq> ha" using fr(1) sl_okD(4,6) [OF D(3)] by auto
  have ok: "sl_ok (mem t) sk ha hs (ls[k := A @ a # B])"
    unfolding mt
  proof (rule sl_ok_link_in [OF D(3) k new ns fr(3), where ?A0.0 = A0 and ?B0.0 = B0], unfold nn)
  qed (assumption | rule A B q zero below; assumption)+
  have "n_next (nof (mem s) q) \<noteq> q"
  proof -
    from split_list [OF qin] obtain xs ys where l: "hs ! k # ls ! k = xs @ q # ys" by blast
    have "n_next (nof (mem s) q) = hd (ys @ [0])" "q \<notin> set ys"
      using sl_okD(7,8) [OF D(3) k] by (simp_all add: l seg_append)
    then show ?thesis using qn(2) neq_hd by metis
  qed
  moreover have "n_next (nof (mem s) q) \<noteq> a" using nxt fr node_not_free by auto
  moreover have "a \<noteq> q" using new [OF k] qin by auto
  ultimately have nof: "x \<noteq> a \<Longrightarrow> key (mem t) x = key (mem s) x" "x \<noteq> a \<Longrightarrow> fwd (mem t) x = fwd (mem s) x"
    "key (mem t) a = (p, v)" for x
    unfolding mt by (simp_all add: link_in_nof nn)
  have "phys_page t = phys_page s" by (simp add: t(2))
  moreover have "set (ls[k := A @ a # B] ! i) \<subseteq> insert a (set (ls ! i))" for i
    using A B sl_okD(2) [OF D(3)] k by (cases "i = k") auto
  ultimately have "\<forall>i<4. \<forall>x \<in> set (ls[k := A @ a # B] ! i). phys_page t x"
    using fr(2) D(4) by (auto dest!: subsetD)
  moreover have "kmem_lockable t" using D(2) by (simp add: t(2))
  ultimately have rqt: "rq_mem fs sk ha hs (ls[k := A @ a # B]) t"
    using t(3) ok by (simp add: rq_mem_def)
  have "rest_same s t"
    unfolding rest_same_def mt using fr(1) by (auto intro!: link_in_free(2) [OF qn(1) nxt])
  moreover have "t = s\<lparr>freelist := nx, mem := mem t\<rparr>" by (simp add: t(2))
  ultimately show ?thesis using that t(1) rqt new nof fr(1) mt by blast
qed

lemma rest_same_trans:
  assumes "rest_same s t" "rest_same t u" shows "rest_same s u"
  unfolding rest_same_def
proof (intro allI impI)
  fix x assume x: "\<not> is_free (mem s x)" "\<not> is_node (mem s x)"
  then have "mem t x = mem s x" using assms(1) by (simp add: rest_same_def)
  with x show "mem u x = mem s x" using assms(2) by (simp add: rest_same_def)
qed

lemma insert_levels_ok:
  assumes "rq_mem fs sk ha hs ls s" "k + n \<le> 4" "n \<le> length fs"
    and "\<And>i. k \<le> i \<Longrightarrow> i < k + n \<Longrightarrow>
      prevs i = Some (last (hs ! i # filter (\<lambda>x. vdv (mem s) x \<le> v) (ls ! i)))"
    and "k = 0 \<Longrightarrow> f = 0"
    and "n > 0 \<Longrightarrow> k > 0 \<Longrightarrow> \<exists>A0 B0. ls ! (k - 1) = A0 @ f # B0 \<and>
      subseq (map (fwd (mem s)) (filter (\<lambda>x. vdv (mem s) x \<le> v) (ls ! k))) A0 \<and>
      subseq (map (fwd (mem s)) (filter (\<lambda>x. \<not> vdv (mem s) x \<le> v) (ls ! k))) B0 \<and> key (mem s) f = (p, v)"
  shows "\<exists>g t nx ls'. insert_levels p v prevs [k..<k + n] f s = Ok g t \<and>
    t = s\<lparr>freelist := nx, mem := mem t\<rparr> \<and> rq_mem (drop n fs) sk ha hs ls' t \<and> rest_same s t \<and>
    sl_queue (mem t) ls' = (if k = 0 \<and> n > 0 then enq (p, v) (sl_queue (mem s) ls) else sl_queue (mem s) ls)"
  using assms
proof (induction n arbitrary: k f s fs ls)
  case 0
  then show ?case
    by (intro exI [of _ f] exI [of _ s] exI [of _ "freelist s"] exI [of _ ls]) (simp add: rest_same_def)
next
  case (Suc n)
  from Suc.prems(3) obtain a fs' where fs: "fs = a # fs'" by (cases fs) auto
  let ?P = "\<lambda>x. vdv (mem s) x \<le> v"
  define A where "A = filter ?P (ls ! k)"
  define B where "B = filter (\<lambda>x. \<not> ?P x) (ls ! k)"
  define q where "q = last (hs ! k # A)"
  have k: "k < 4" using Suc.prems(2) by simp
  note rq = Suc.prems(1) [unfolded fs] and D = rq_memD [OF Suc.prems(1)]
  obtain A0 B0 where low: "k > 0 \<Longrightarrow> ls ! (k - 1) = A0 @ f # B0" "k > 0 \<Longrightarrow> subseq (map (fwd (mem s)) A) A0"
      "k > 0 \<Longrightarrow> subseq (map (fwd (mem s)) B) B0" "k > 0 \<Longrightarrow> key (mem s) f = (p, v)"
    unfolding A_def B_def using Suc.prems(6) by (cases "k = 0") auto
  obtain t nx where t: "insert_to_level p v q f s = Ok a t" "t = s\<lparr>freelist := nx, mem := mem t\<rparr>"
    "rq_mem fs' sk ha hs (ls[k := A @ a # B]) t" "\<And>i. i < 4 \<Longrightarrow> a \<notin> set (hs ! i # ls ! i)"
    "\<And>x. x \<noteq> a \<Longrightarrow> key (mem t) x = key (mem s) x" "\<And>x. x \<noteq> a \<Longrightarrow> fwd (mem t) x = fwd (mem s) x"
    "key (mem t) a = (p, v)" "rest_same s t"
    using rq_insert_level [OF rq k A_def B_def q_def Suc.prems(5) low] by metis
  have vd: "vdv (mem t) x = vdv (mem s) x" if "x \<noteq> a" for x using t(5) [OF that] by (simp add: key_def)
  have len: "length ls = 4" by (rule sl_okD(2) [OF D(3)])
  have lsi: "filter (\<lambda>x. vdv (mem t) x \<le> v) (ls[k := A @ a # B] ! i) = filter ?P (ls ! i)"
    "filter (\<lambda>x. \<not> vdv (mem t) x \<le> v) (ls[k := A @ a # B] ! i) = filter (\<lambda>x. \<not> ?P x) (ls ! i)"
    "map (fwd (mem t)) (filter R (ls ! i)) = map (fwd (mem s)) (filter R (ls ! i))"
    if "i < 4" "i \<noteq> k" for i R
  proof -
    have ne: "x \<noteq> a" if "x \<in> set (ls ! i)" for x using that t(4) [OF \<open>i < 4\<close>] by auto
    show "filter (\<lambda>x. vdv (mem t) x \<le> v) (ls[k := A @ a # B] ! i) = filter ?P (ls ! i)"
      "filter (\<lambda>x. \<not> vdv (mem t) x \<le> v) (ls[k := A @ a # B] ! i) = filter (\<lambda>x. \<not> ?P x) (ls ! i)"
      "map (fwd (mem t)) (filter R (ls ! i)) = map (fwd (mem s)) (filter R (ls ! i))"
      using that by (simp_all add: ne vd t(6) cong: filter_cong)
  qed
  have "\<exists>g u nx ls'. insert_levels p v prevs [Suc k..<Suc k + n] a t = Ok g u \<and>
    u = t\<lparr>freelist := nx, mem := mem u\<rparr> \<and> rq_mem (drop n fs') sk ha hs ls' u \<and> rest_same t u \<and>
    sl_queue (mem u) ls' = (if Suc k = 0 \<and> n > 0 then enq (p, v) (sl_queue (mem t) (ls[k := A @ a # B]))
      else sl_queue (mem t) (ls[k := A @ a # B]))"
  proof (rule Suc.IH [OF t(3)])
    show "Suc k + n \<le> 4" "n \<le> length fs'" using Suc.prems(2,3) fs by simp_all
    show "prevs i = Some (last (hs ! i # filter (\<lambda>x. vdv (mem t) x \<le> v) (ls[k := A @ a # B] ! i)))"
      if "Suc k \<le> i" "i < Suc k + n" for i
      using that Suc.prems(2,4) lsi(1) [of i] by simp
    assume n: "n > 0"
    then have k3: "k < 3" and sk: "Suc k < 4" "Suc k \<noteq> k" using Suc.prems(2) by simp_all
    show "\<exists>A0 B0. ls[k := A @ a # B] ! (Suc k - 1) = A0 @ a # B0 \<and>
      subseq (map (fwd (mem t)) (filter (\<lambda>x. vdv (mem t) x \<le> v) (ls[k := A @ a # B] ! Suc k))) A0 \<and>
      subseq (map (fwd (mem t)) (filter (\<lambda>x. \<not> vdv (mem t) x \<le> v) (ls[k := A @ a # B] ! Suc k))) B0 \<and>
      key (mem t) a = (p, v)"
      unfolding lsi(1,2) [OF sk] lsi(3) [OF sk]
      using fwd_filter [OF D(3) k3, of "\<lambda>x. snd x \<le> v"] fwd_filter [OF D(3) k3, of "\<lambda>x. \<not> snd x \<le> v"]
        k len t(7)
      by (intro exI [of _ A, OF exI [of _ B]]) (simp add: A_def B_def key_def)
  qed simp
  then obtain g u nx' ls' where u: "insert_levels p v prevs [Suc k..<Suc k + n] a t = Ok g u"
    "u = t\<lparr>freelist := nx', mem := mem u\<rparr>" "rq_mem (drop n fs') sk ha hs ls' u" "rest_same t u"
    "sl_queue (mem u) ls' = sl_queue (mem t) (ls[k := A @ a # B])" by auto
  have qt: "sl_queue (mem t) (ls[k := A @ a # B]) =
      (if k = 0 then enq (p, v) (sl_queue (mem s) ls) else sl_queue (mem s) ls)"
  proof (cases "k = 0")
    case True
    have "x \<noteq> a" if "x \<in> set (ls ! k)" for x using that t(4) [OF k] by auto
    then have "map (key (mem t)) A = map (key (mem s)) A" "map (key (mem t)) B = map (key (mem s)) B"
      by (simp_all add: A_def B_def t(5))
    then have "map (key (mem t)) (A @ a # B) = map (key (mem s)) A @ (p, v) # map (key (mem s)) B"
      unfolding map_append list.map t(7) by simp
    with True len show ?thesis
      by (simp add: sl_queue_def enq_def A_def B_def filter_map o_def key_def)
  next
    case False
    have "x \<noteq> a" if "x \<in> set (ls ! 0)" for x using that t(4) [of 0] by auto
    with False show ?thesis by (simp add: sl_queue_def t(5))
  qed
  have "prevs k = Some q" using Suc.prems(4) [of k] by (simp add: q_def A_def)
  then have run: "insert_levels p v prevs [k..<k + Suc n] f s = Ok g u"
    using t(1) u(1) by (simp add: upt_conv_Cons del: upt_Suc)
  have frame: "u = s\<lparr>freelist := nx', mem := mem u\<rparr>"
    by (subst u(2), subst t(2)) simp
  show ?case
    using run frame u(3,5) qt rest_same_trans [OF t(8) u(4)] unfolding fs by auto
qed

end
