(* ===== verification/RunQueueOps.thy ===== *)
theory RunQueueOps
  imports RunQueue
begin

text \<open>
  The operations of the skip list refine a queue of (pid, virtual deadline) pairs: a fresh list is
  empty, \<^verbatim>\<open>insert_node\<close> is \<open>enq\<close>, \<^verbatim>\<open>get_minimum\<close> reads the head, and \<^verbatim>\<open>delete_node\<close> removes the
  process, provided that no process of the same deadline stands before it.
\<close>

section \<open>Keys on the levels\<close>

lemma keys_subseq:
  assumes ok: "sl_ok m sk ha hs ls"
  shows "i < 4 \<Longrightarrow> subseq (map (key m) (ls ! i)) (sl_queue m ls)"
proof (induction i)
  case (Suc i)
  have i: "i < 3" using Suc.prems by simp
  have "map (key m) (ls ! Suc i) = map (key m) (map (fwd m) (ls ! Suc i))"
    using sl_okD(14) [OF ok i] by simp
  also have "subseq \<dots> (map (key m) (ls ! i))"
    by (rule subseq_map [OF sl_okD(13) [OF ok i]])
  finally show ?case using Suc.IH i subseq_order.trans by fastforce
qed (simp add: sl_queue_def)

lemma sl_queue_sorted: "sl_ok m sk ha hs ls \<Longrightarrow> sorted (map snd (sl_queue m ls))"
  using sl_okD(10) [of m sk ha hs ls 0] by (simp add: sl_queue_def o_def key_def)

text \<open>
  Process \<open>p\<close> with deadline \<open>v\<close> can be found: its pid occurs at most once, with deadline \<open>v\<close>, and
  no other process of deadline \<open>v\<close> stands before it.
\<close>

definition findable :: "int \<Rightarrow> int \<Rightarrow> (int \<times> int) list \<Rightarrow> bool" where
  "findable p v q =
     ((\<forall>k \<in> set q. snd k < v \<longrightarrow> fst k \<noteq> p) \<and>
      (case filter (\<lambda>k. \<not> snd k < v) q of
         [] \<Rightarrow> True
       | k # ks \<Rightarrow> (fst k = p \<longrightarrow> snd k = v) \<and> (\<forall>j \<in> set ks. fst j \<noteq> p)))"

lemma findable_subseq:
  assumes "findable p v q" "subseq r q"
  shows "findable p v r"
proof -
  have sub: "subseq (filter (\<lambda>k. \<not> snd k < v) r) (filter (\<lambda>k. \<not> snd k < v) q)"
    by (rule subseq_filter [OF assms(2)])
  have "set r \<subseteq> set q" using assms(2) by (rule subseq_set)
  then have lo: "\<forall>k \<in> set r. snd k < v \<longrightarrow> fst k \<noteq> p"
    using assms(1) by (auto simp: findable_def)
  show ?thesis
  proof (cases "filter (\<lambda>k. \<not> snd k < v) r")
    case Nil
    with lo show ?thesis by (simp add: findable_def)
  next
    case (Cons k ks)
    with sub obtain k' ks' where q: "filter (\<lambda>k. \<not> snd k < v) q = k' # ks'"
      by (cases "filter (\<lambda>k. \<not> snd k < v) q") auto
    have F: "fst k' = p \<longrightarrow> snd k' = v" "\<forall>j \<in> set ks'. fst j \<noteq> p"
      using assms(1) q by (auto simp: findable_def)
    have kk: "(k = k' \<and> subseq ks ks') \<or> subseq (k # ks) ks'"
      using sub q Cons by (auto split: if_splits)
    have "(fst k = p \<longrightarrow> snd k = v) \<and> (\<forall>j \<in> set ks. fst j \<noteq> p)"
      using kk
    proof
      assume "k = k' \<and> subseq ks ks'"
      then show ?thesis using F subseq_set [of ks ks'] by auto
    next
      assume "subseq (k # ks) ks'"
      then have "set (k # ks) \<subseteq> set ks'" by (rule subseq_set)
      then show ?thesis using F by auto
    qed
    with lo Cons show ?thesis by (simp add: findable_def)
  qed
qed

lemma findable_head: "sorted (map snd ((p, v) # q)) \<Longrightarrow> p \<notin> fst ` set q \<Longrightarrow> findable p v ((p, v) # q)"
proof -
  assume so: "sorted (map snd ((p, v) # q))" and p: "p \<notin> fst ` set q"
  then have "filter (\<lambda>k. \<not> snd k < v) q = q" by (auto simp: filter_id_conv not_less)
  with p show ?thesis by (auto simp: findable_def)
qed

section \<open>Searching for deletion\<close>

lemma takeWhile_lt: "sorted (map (vdv m) xs) \<Longrightarrow> takeWhile (\<lambda>x. vdv m x < v) xs = filter (\<lambda>x. vdv m x < v) xs"
  by (rule takeWhile_eq_filter_sorted [where k = "vdv m"]) simp_all

lemma dropWhile_lt: "sorted (map (vdv m) xs) \<Longrightarrow> dropWhile (\<lambda>x. vdv m x < v) xs = filter (\<lambda>x. \<not> vdv m x < v) xs"
  by (rule dropWhile_eq_filter_sorted [where k = "vdv m"]) simp_all

lemma delete_walk_seg:
  "seg m pr (c # ys) 0 \<Longrightarrow> \<forall>x \<in> set (c # takeWhile (\<lambda>x. vdv m x < v) ys). n_pid (nof m x) \<noteq> p \<Longrightarrow> vdv m c < v \<Longrightarrow>
   delete_walk m p v c = Some (Some (case dropWhile (\<lambda>x. vdv m x < v) ys of [] \<Rightarrow> last (c # ys) | y # _ \<Rightarrow> y))"
proof (induction ys arbitrary: c pr)
  case Nil
  then show ?case by (subst delete_walk.simps) (simp add: nd_node NULL_def)
next
  case (Cons y ys)
  have y: "y \<noteq> 0" "is_node (m y)" using Cons.prems(1) by auto
  have step: "delete_walk m p v c = delete_walk m p v y"
    using Cons.prems by (subst delete_walk.simps) (simp add: nd_node NULL_def)
  show ?case
  proof (cases "vdv m y < v")
    case True
    have "delete_walk m p v y = Some (Some (case dropWhile (\<lambda>x. vdv m x < v) ys of [] \<Rightarrow> last (y # ys) | y # _ \<Rightarrow> y))"
      by (rule Cons.IH [of c]) (use Cons.prems True in auto)
    with True step show ?thesis by (simp del: dropWhile_eq_Nil_conv split: list.split)
  next
    case False
    then have "delete_walk m p v y = Some (Some y)"
      using y by (subst delete_walk.simps) (simp add: nd_node)
    with False step show ?thesis by simp
  qed
qed

lemma back_walk_seg:
  assumes sg: "seg m pr (xs @ c # ys) 0" and c: "vdv m c < v" and ys: "\<forall>y \<in> set ys. \<not> vdv m y < v"
  shows "back_walk m v (case ys of [] \<Rightarrow> c | y # _ \<Rightarrow> y) = Some (Some c)"
proof -
  have "c \<noteq> 0" "is_node (m c)" using sg by (simp_all add: seg_append)
  then have bc: "back_walk m v c = Some (Some c)"
    using c by (subst back_walk.simps) (simp add: nd_node)
  show ?thesis
  proof (cases ys)
    case (Cons y zs)
    have "y \<noteq> 0" "is_node (m y)" "n_prev (nof m y) = c" using sg by (simp_all add: Cons seg_append)
    then show ?thesis using Cons ys bc by (subst back_walk.simps) (simp add: nd_node)
  qed (simp add: bc)
qed

lemma walks_ok:
  assumes sg: "seg m 0 (h # xs) 0" and so: "sorted (map (vdv m) xs)"
    and h: "vdv m h < v" "n_pid (nof m h) \<noteq> p"
    and lo: "\<forall>x \<in> set xs. vdv m x < v \<longrightarrow> n_pid (nof m x) \<noteq> p"
    and c: "c = h \<or> (c \<in> set xs \<and> vdv m c < v)"
    and A: "A = filter (\<lambda>x. vdv m x < v) xs" and B: "B = filter (\<lambda>x. \<not> vdv m x < v) xs"
    and d: "d = (case B of [] \<Rightarrow> last (h # A) | y # _ \<Rightarrow> y)"
  shows "delete_walk m p v c = Some (Some d)" "back_walk m v d = Some (Some (last (h # A)))"
proof -
  have xs: "xs = A @ B" unfolding A B takeWhile_lt [OF so, symmetric] dropWhile_lt [OF so, symmetric] by simp
  have "c \<in> set (h # xs)" using c by auto
  from split_list [OF this] obtain as bs where l: "h # xs = as @ c # bs" by blast
  have sgc: "seg m (last (0 # as)) (c # bs) 0" using sg unfolding l seg_append by simp
  have ch: "c \<in> set (h # A)" "vdv m c < v" using c h(1) by (auto simp: A)
  have sb: "sorted (map (vdv m) bs)"
  proof (cases as)
    case Nil with l so show ?thesis by simp
  next
    case (Cons a as') with l so show ?thesis by (auto simp: sorted_append)
  qed
  have tb: "takeWhile (\<lambda>x. vdv m x < v) bs = filter (\<lambda>x. vdv m x < v) bs"
    "dropWhile (\<lambda>x. vdv m x < v) bs = filter (\<lambda>x. \<not> vdv m x < v) bs"
    by (rule takeWhile_lt [OF sb], rule dropWhile_lt [OF sb])
  have fb: "filter (\<lambda>x. \<not> vdv m x < v) (h # xs) = B" using h(1) by (simp add: B)
  have asl: "filter (\<lambda>x. \<not> vdv m x < v) as = []"
  proof (cases as)
    case (Cons a as')
    with l have "xs = as' @ c # bs" "a = h" by auto
    with so ch(2) h(1) Cons show ?thesis by (auto simp: sorted_append filter_empty_conv)
  qed simp
  then have Bb: "filter (\<lambda>x. \<not> vdv m x < v) bs = B" using fb ch(2) unfolding l by simp
  have lo': "\<forall>x \<in> set (h # xs). vdv m x < v \<longrightarrow> n_pid (nof m x) \<noteq> p" using lo h by simp
  have "\<forall>x \<in> set (c # takeWhile (\<lambda>x. vdv m x < v) bs). n_pid (nof m x) \<noteq> p"
    using lo' ch(2) unfolding l tb by auto
  from delete_walk_seg [OF sgc this ch(2)]
  have "delete_walk m p v c = Some (Some (case B of [] \<Rightarrow> last (c # bs) | y # _ \<Rightarrow> y))"
    by (simp add: tb Bb)
  moreover have "last (c # bs) = last (h # A)" if "B = []"
    using arg_cong [OF l, of last] xs that by simp
  ultimately show "delete_walk m p v c = Some (Some d)"
    unfolding d by (auto split: list.split)
  define us where "us = butlast (h # A)"
  have us: "h # A = us @ [last (h # A)]" unfolding us_def by simp
  have "h # xs = (h # A) @ B" using xs by simp
  then have "h # xs = us @ last (h # A) # B" by (subst (asm) us) simp
  then have "seg m 0 (us @ last (h # A) # B) 0" using sg by simp
  moreover have "vdv m (last (h # A)) < v"
    using h(1) last_in_set [of A] by (auto simp: A)
  moreover have "\<forall>y \<in> set B. \<not> vdv m y < v" by (auto simp: B)
  ultimately show "back_walk m v d = Some (Some (last (h # A)))"
    unfolding d by (rule back_walk_seg)
qed

definition absent :: "(addr \<Rightarrow> page) \<Rightarrow> int \<Rightarrow> addr list \<Rightarrow> bool" where
  "absent m p xs = (\<forall>x \<in> set xs. n_pid (nof m x) \<noteq> p)"

lemma level_findable:
  assumes ok: "sl_ok m sk ha hs ls" and f: "findable p v (sl_queue m ls)" and i: "i < 4"
    and B: "B = filter (\<lambda>x. \<not> vdv m x < v) (ls ! i)"
  shows "\<forall>x \<in> set (ls ! i). vdv m x < v \<longrightarrow> n_pid (nof m x) \<noteq> p"
    "B = [] \<Longrightarrow> absent m p (ls ! i)"
    "B = y # ys \<Longrightarrow> n_pid (nof m y) = p \<Longrightarrow> vdv m y = v \<and> absent m p ys"
    "B = y # ys \<Longrightarrow> n_pid (nof m y) \<noteq> p \<Longrightarrow> absent m p (ls ! i)"
proof -
  have fi: "findable p v (map (key m) (ls ! i))"
    by (rule findable_subseq [OF f keys_subseq [OF ok i]])
  then show lo: "\<forall>x \<in> set (ls ! i). vdv m x < v \<longrightarrow> n_pid (nof m x) \<noteq> p"
    by (auto simp: findable_def key_def)
  have flt: "filter (\<lambda>k. \<not> snd k < v) (map (key m) (ls ! i)) = map (key m) B"
    by (simp add: B filter_map o_def key_def)
  have mem: "x \<in> set B \<or> vdv m x < v" if "x \<in> set (ls ! i)" for x using that by (auto simp: B)
  show "B = [] \<Longrightarrow> absent m p (ls ! i)" using lo mem by (auto simp: absent_def)
  assume By: "B = y # ys"
  have hd: "(n_pid (nof m y) = p \<longrightarrow> vdv m y = v) \<and> (\<forall>x \<in> set ys. n_pid (nof m x) \<noteq> p)"
    using fi flt By by (auto simp: findable_def key_def)
  then show "n_pid (nof m y) = p \<Longrightarrow> vdv m y = v \<and> absent m p ys" by (simp add: absent_def)
  show "absent m p (ls ! i)" if "n_pid (nof m y) \<noteq> p"
    using that hd lo mem By by (auto simp: absent_def)
qed

lemma delete_search_ok:
  assumes ok: "sl_ok (mem s) sk ha hs ls" and f: "findable p v (sl_queue (mem s) ls)"
    and v: "- 1 < v" and p: "p \<noteq> - 1"
    and "n \<le> 4" "n > 0 \<Longrightarrow> c = hs ! (n - 1) \<or> (c \<in> set (ls ! (n - 1)) \<and> vdv (mem s) c < v)"
  shows "\<exists>r. delete_search p v n c s = Ok r s \<and>
    (case r of
       None \<Rightarrow> \<forall>i<n. absent (mem s) p (ls ! i)
     | Some (cl, y) \<Rightarrow> cl < n \<and> y \<in> set (ls ! cl) \<and> key (mem s) y = (p, v) \<and>
         (\<forall>i<n. cl < i \<longrightarrow> absent (mem s) p (ls ! i)))"
  using assms(5,6)
proof (induction n arbitrary: c)
  case 0
  then show ?case by simp
next
  case (Suc n)
  let ?m = "mem s"
  define A where "A = filter (\<lambda>x. vdv ?m x < v) (ls ! n)"
  define B where "B = filter (\<lambda>x. \<not> vdv ?m x < v) (ls ! n)"
  define d where "d = (case B of [] \<Rightarrow> last (hs ! n # A) | y # _ \<Rightarrow> y)"
  have n: "n < 4" using Suc.prems by simp
  note lf = level_findable [OF ok f n B_def]
  have h: "vdv ?m (hs ! n) < v" "n_pid (nof ?m (hs ! n)) \<noteq> p"
    using sl_okD(9) [OF ok n] v p by (auto simp: key_def)
  have start: "c = hs ! n \<or> (c \<in> set (ls ! n) \<and> vdv ?m c < v)" using Suc.prems(2) by simp
  note w = walks_ok [OF sl_okD(7) [OF ok n] sl_okD(10) [OF ok n] h lf(1) start A_def B_def d_def]
  have lastin: "last (hs ! n # A) \<in> set (hs ! n # ls ! n)" unfolding A_def by (rule last_filter_in)
  have "d \<in> set (hs ! n # ls ! n)"
  proof (cases B)
    case Nil with lastin show ?thesis by (simp add: d_def)
  next
    case (Cons y ys)
    then have "y \<in> set B" by simp
    then have "y \<in> set (ls ! n)" by (simp add: B_def)
    with Cons show ?thesis by (simp add: d_def)
  qed
  then have ld: "load_node d s = Ok (nof ?m d) s" by (intro load_node_ok sl_ok_node [OF ok n])
  have ll: "load_node (last (hs ! n # A)) s = Ok (nof ?m (last (hs ! n # A))) s"
    by (intro load_node_ok sl_ok_node [OF ok n lastin])
  show ?case
  proof (cases "n_pid (nof ?m d) = p \<and> vdv ?m d = v")
    case True
    have "vdv ?m (last (hs ! n # A)) < v" using h(1) last_in_set [of A] by (auto simp: A_def)
    with True obtain y ys where By: "B = y # ys" "d = y" by (cases B) (auto simp: d_def)
    then have "y \<in> set B" by simp
    then have yn: "y \<in> set (ls ! n)" by (simp add: B_def)
    have "delete_search p v (Suc n) c s = Ok (Some (n, d)) s"
      using True w(1) ld by (simp add: walked_def)
    with yn By True show ?thesis by (intro exI [of _ "Some (n, d)"]) (auto simp: key_def)
  next
    case False
    have ab: "absent ?m p (ls ! n)"
    proof (cases B)
      case Nil then show ?thesis by (rule lf(2))
    next
      case (Cons y ys)
      then show ?thesis using lf(3) [OF Cons] lf(4) [OF Cons] False by (auto simp: d_def)
    qed
    have run: "delete_search p v (Suc n) c s = delete_search p v n (fwd ?m (last (hs ! n # A))) s"
      using False w ld ll by (auto simp: walked_def)
    have "n > 0 \<Longrightarrow> fwd ?m (last (hs ! n # A)) = hs ! (n - 1) \<or>
       (fwd ?m (last (hs ! n # A)) \<in> set (ls ! (n - 1)) \<and> vdv ?m (fwd ?m (last (hs ! n # A))) < v)"
      using descend [OF ok, of "n - 1" "last (hs ! n # A)" "\<lambda>k. snd k < v"] n by (simp add: key_def A_def)
    from Suc.IH [OF _ this] n obtain r where r: "delete_search p v n (fwd ?m (last (hs ! n # A))) s = Ok r s"
      "case r of None \<Rightarrow> \<forall>i<n. absent (mem s) p (ls ! i)
       | Some (cl, y) \<Rightarrow> cl < n \<and> y \<in> set (ls ! cl) \<and> key (mem s) y = (p, v) \<and>
         (\<forall>i<n. cl < i \<longrightarrow> absent (mem s) p (ls ! i))" by auto
    show ?thesis
      unfolding run using r ab by (intro exI [of _ r]) (auto split: option.splits simp: less_Suc_eq)
  qed
qed

section \<open>Unlinking\<close>

lemma delete_step:
  assumes rq: "rq_mem fs sk ha hs ls s" and k: "k < 4" and sp: "ls ! k = A @ a # B"
    and top: "k < 3 \<Longrightarrow> a \<notin> fwd (mem s) ` set (ls ! Suc k)"
  obtains t where "delete_from_levels_loop a s = delete_from_levels_loop (fwd (mem s) a) t"
    "t = s\<lparr>mem := (link_out a (mem s))(a := FreePage (freelist s)), freelist := a\<rparr>"
    "rq_mem (a # fs) sk ha hs (ls[k := A @ B]) t" "rest_same s t"
proof -
  note D = rq_memD [OF rq]
  let ?m = "mem s"
  let ?m' = "(link_out a ?m)(a := FreePage (freelist s))"
  let ?t = "s\<lparr>mem := ?m', freelist := a\<rparr>"
  have ain: "a \<in> set (hs ! k # ls ! k)" using sp by simp
  note an = sl_ok_node [OF D(3) k ain]
  define us where "us = butlast (hs ! k # A)"
  define b where "b = last (hs ! k # A)"
  have "hs ! k # A = us @ [b]" unfolding us_def b_def by simp
  then have lv: "hs ! k # ls ! k = us @ b # a # B" unfolding sp by (metis append_Cons append_assoc append_Nil)
  note sg = sl_okD(7) [OF D(3) k, unfolded lv] and ds = sl_okD(8) [OF D(3) k, unfolded lv]
  have bn: "is_node (?m b)" "b \<noteq> 0" "n_prev (nof ?m a) = b" "n_next (nof ?m a) = hd (B @ [0])" "seg ?m a B 0" "a \<noteq> b"
    using sg ds by (auto simp: seg_append)
  have nx: "n_next (nof ?m a) = 0 \<or> is_node (?m (n_next (nof ?m a)))" "n_next (nof ?m a) \<noteq> a" "n_next (nof ?m a) \<noteq> b"
    using bn(4,5) ds an(2) bn(2) by (cases B; auto)+
  have pa: "phys_page s a" using D(4) [OF k, of a] sp by simp
  have kf: "kmem_lockable (s\<lparr>mem := m\<rparr>)" "phys_page (s\<lparr>mem := m\<rparr>) a" for m using D(2) pa by simp_all
  have step: "bindo (load_node a s) (\<lambda>n s.
      bindo (store_node (n_prev n) (\<lambda>q. q\<lparr>n_next := n_next n\<rparr>) s) (\<lambda>_ s.
      bindo (if n_next n \<noteq> NULL then store_node (n_next n) (\<lambda>q. q\<lparr>n_prev := n_prev n\<rparr>) s
             else Ok () s) (\<lambda>_ s.
      bindo (kfree a s) (\<lambda>_ s. Ok (n_forward n) s)))) = Ok (fwd ?m a) ?t"
  proof (cases "n_next (nof ?m a) = 0")
    case True
    then show ?thesis
      using an bn(1-3) nx by (simp add: load_node_ok store_node_ok NULL_def kfree_step [OF kf] link_out_def Let_def)
  next
    case False
    then show ?thesis
      using an bn(1-3) nx by (simp add: load_node_ok store_node_ok NULL_def kfree_step [OF kf] link_out_def Let_def)
  qed
  have run: "delete_from_levels_loop a s = delete_from_levels_loop (fwd ?m a) ?t"
    by (subst delete_from_levels_loop.simps) (use step an in \<open>simp add: NULL_def\<close>)
  have free: "is_free (?m' v) = (v = a \<or> is_free (?m v))" "\<not> is_node (?m v) \<Longrightarrow> v \<noteq> a \<Longrightarrow> ?m' v = ?m v" for v
    using bn nx node_not_free [of "?m b"] node_not_free [of "?m (n_next (nof ?m a))"]
    by (auto simp: link_out_def Let_def)
  have afs: "a \<notin> set fs" using D(1) node_not_free [OF an(1)] by (auto simp: kmem_ok_def)
  have same: "?m' v = ?m v" if "v \<in> set fs" for v
  proof -
    have "is_free (?m v)" using that D(1) by (auto simp: kmem_ok_def)
    then show ?thesis using that afs free(2) [of v] node_not_free by auto
  qed
  have "flist ?m' (freelist s) fs" using D(1) flist_cong [of fs ?m' ?m] same by (auto simp: kmem_ok_def)
  then have "kmem_ok (a # fs) ?t"
    using D(1) free(1) afs pa an(2) by (auto simp: kmem_ok_def)
  moreover have "set (ls[k := A @ B] ! i) \<subseteq> set (ls ! i)" for i
    using sp sl_okD(2) [OF D(3)] k by (cases "i = k") auto
  ultimately have "rq_mem (a # fs) sk ha hs (ls[k := A @ B]) ?t"
    using D(2,4) sl_ok_link_out(1) [OF D(3) k sp top] by (auto simp: rq_mem_def dest!: subsetD)
  moreover have "rest_same s ?t" unfolding rest_same_def using free(2) an(1) by auto
  ultimately show ?thesis using that run by blast
qed

lemma pid_unique:
  assumes ok: "sl_ok m sk ha hs ls" and f: "findable p v (sl_queue m ls)" and i: "i < 4"
    and x: "x \<in> set (ls ! i)" "n_pid (nof m x) = p" and y: "y \<in> set (ls ! i)" "n_pid (nof m y) = p"
  shows "x = y"
proof -
  define B where "B = filter (\<lambda>x. \<not> vdv m x < v) (ls ! i)"
  note lf = level_findable [OF ok f i B_def]
  have xy: "x \<in> set B" "y \<in> set B" using x y lf(1) by (auto simp: B_def)
  then obtain b bs where B: "B = b # bs" by (cases B) auto
  have "n_pid (nof m b) = p" using lf(4) [OF B] x by (auto simp: absent_def)
  then have "absent m p bs" using lf(3) [OF B] by blast
  with xy x y B show ?thesis by (auto simp: absent_def)
qed

lemma delete_from_levels_ok:
  assumes "rq_mem fs sk ha hs ls s" "k < 4" "y \<in> set (ls ! k)" "key (mem s) y = (p, v)"
    and "findable p v (sl_queue (mem s) ls)" "k < 3 \<Longrightarrow> absent (mem s) p (ls ! Suc k)"
  shows "\<exists>t fs' ls'. delete_from_levels_loop y s = Some (Ok () t) \<and>
    t = s\<lparr>mem := mem t, freelist := freelist t\<rparr> \<and> rq_mem fs' sk ha hs ls' t \<and> rest_same s t \<and>
    length fs' = length fs + k + 1 \<and> sl_queue (mem t) ls' = filter (\<lambda>e. fst e \<noteq> p) (sl_queue (mem s) ls)"
  using assms
proof (induction k arbitrary: y s fs ls)
  case (0 y s fs ls)
  note D = rq_memD [OF 0(1)]
  obtain A B where sp: "ls ! 0 = A @ y # B" using split_list [OF 0(3)] by blast
  have "y \<notin> fwd (mem s) ` set (ls ! Suc 0)"
    using 0(4,6) sl_okD(14) [OF D(3), of 0] by (auto simp: absent_def key_def)
  then obtain t where t: "delete_from_levels_loop y s = delete_from_levels_loop (fwd (mem s) y) t"
    "t = s\<lparr>mem := (link_out y (mem s))(y := FreePage (freelist s)), freelist := y\<rparr>"
    "rq_mem (y # fs) sk ha hs (ls[0 := A @ B]) t" "rest_same s t"
    using delete_step [OF 0(1,2) sp] by auto
  have "fwd (mem s) y = 0" using sl_okD(15) [OF D(3) 0(3)] .
  then have run: "delete_from_levels_loop y s = Some (Ok () t)"
    unfolding t(1) by (subst delete_from_levels_loop.simps) (simp add: NULL_def)
  have ny: "x \<noteq> y" if "x \<in> set (A @ B)" for x using that sl_okD(8) [OF D(3), of 0] sp by auto
  have np: "n_pid (nof (mem s) x) \<noteq> p" if "x \<in> set (A @ B)" for x
    using pid_unique [OF D(3) 0(5), of 0 x y] ny [OF that] that 0(3,4) sp by (auto simp: key_def)
  have "key (mem t) x = key (mem s) x" if "x \<noteq> y" for x
    using that link_out_nof [of y "mem s" x] by (simp add: t(2) key_def nof_upd_other)
  then have "map (key (mem t)) (A @ B) = map (key (mem s)) (A @ B)" using ny by (auto simp del: set_append map_append)
  also have "\<dots> = filter (\<lambda>e. fst e \<noteq> p) (map (key (mem s)) (A @ B))"
    by (rule filter_True [symmetric]) (use np in \<open>simp add: key_def ball_Un del: map_append\<close>)
  also have "\<dots> = filter (\<lambda>e. fst e \<noteq> p) (sl_queue (mem s) ls)"
    using 0(4) by (simp add: sl_queue_def sp)
  finally have "sl_queue (mem t) (ls[0 := A @ B]) = filter (\<lambda>e. fst e \<noteq> p) (sl_queue (mem s) ls)"
    using sl_okD(2) [OF D(3)] by (simp add: sl_queue_def)
  moreover have "t = s\<lparr>mem := mem t, freelist := freelist t\<rparr>" by (simp add: t(2))
  ultimately show ?case using run t(3,4) by (intro exI [of _ t] exI [of _ "y # fs"] exI [of _ "ls[0 := A @ B]"]) simp
next
  case (Suc k y s fs ls)
  note D = rq_memD [OF Suc.prems(1)]
  obtain A B where sp: "ls ! Suc k = A @ y # B" using split_list [OF Suc.prems(3)] by blast
  have k3: "k < 3" using Suc.prems(2) by simp
  have "Suc k < 3 \<Longrightarrow> y \<notin> fwd (mem s) ` set (ls ! Suc (Suc k))"
    using Suc.prems(4,6) sl_okD(14) [OF D(3), of "Suc k"] by (auto simp: absent_def key_def)
  then obtain t where t: "delete_from_levels_loop y s = delete_from_levels_loop (fwd (mem s) y) t"
    "t = s\<lparr>mem := (link_out y (mem s))(y := FreePage (freelist s)), freelist := y\<rparr>"
    "rq_mem (y # fs) sk ha hs (ls[Suc k := A @ B]) t" "rest_same s t"
    using delete_step [OF Suc.prems(1,2) sp] by metis
  let ?ls = "ls[Suc k := A @ B]"
  have len: "length ls = 4" by (rule sl_okD(2) [OF D(3)])
  have keys: "key (mem t) x = key (mem s) x" if "x \<noteq> y" for x
    using that link_out_nof [of y "mem s" x] by (simp add: t(2) key_def nof_upd_other)
  have other: "x \<noteq> y" if "x \<in> set (ls ! i)" "i < 4" "i \<noteq> Suc k" for x i
    using sl_okD(11) [OF D(3) that(2) Suc.prems(2) that(3)] that(1) Suc.prems(3) by auto
  have fy: "fwd (mem s) y \<in> set (ls ! k)" by (rule sl_ok_fwd_in [OF D(3) k3 Suc.prems(3)])
  have ny: "x \<noteq> y" if "x \<in> set (A @ B)" for x using that sl_okD(8) [OF D(3) Suc.prems(2)] sp by auto
  have q: "sl_queue (mem t) ?ls = sl_queue (mem s) ls"
    using other [of _ 0] keys by (simp add: sl_queue_def)
  have "\<exists>u fs' ls'. delete_from_levels_loop (fwd (mem s) y) t = Some (Ok () u) \<and>
    u = t\<lparr>mem := mem u, freelist := freelist u\<rparr> \<and> rq_mem fs' sk ha hs ls' u \<and> rest_same t u \<and>
    length fs' = length (y # fs) + k + 1 \<and> sl_queue (mem u) ls' = filter (\<lambda>e. fst e \<noteq> p) (sl_queue (mem t) ?ls)"
  proof (rule Suc.IH [OF t(3)])
    show "k < 4" using k3 by simp
    show "fwd (mem s) y \<in> set (?ls ! k)" using fy by simp
    show "key (mem t) (fwd (mem s) y) = (p, v)"
      using keys [OF other [OF fy]] k3 sl_okD(14) [OF D(3) k3 Suc.prems(3)] Suc.prems(4) by simp
    show "findable p v (sl_queue (mem t) ?ls)" using q Suc.prems(5) by simp
    have "n_pid (nof (mem t) x) \<noteq> p" if x: "x \<in> set (A @ B)" for x
    proof -
      have "n_pid (nof (mem s) x) \<noteq> p"
        using pid_unique [OF D(3) Suc.prems(5,2), of x y] ny [OF x] x Suc.prems(3,4) sp by (auto simp: key_def)
      then show ?thesis using keys [OF ny [OF x]] by (simp add: key_def)
    qed
    then show "absent (mem t) p (?ls ! Suc k)"
      using len Suc.prems(2) by (simp add: absent_def)
  qed
  then obtain u fs' ls' where u: "delete_from_levels_loop (fwd (mem s) y) t = Some (Ok () u)"
    "u = t\<lparr>mem := mem u, freelist := freelist u\<rparr>" "rq_mem fs' sk ha hs ls' u" "rest_same t u"
    "length fs' = length (y # fs) + k + 1" "sl_queue (mem u) ls' = filter (\<lambda>e. fst e \<noteq> p) (sl_queue (mem t) ?ls)"
    by blast
  have "u = s\<lparr>mem := mem u, freelist := freelist u\<rparr>" by (subst u(2), subst t(2)) simp
  with u t(1) q rest_same_trans [OF t(4) u(4)] show ?case
    by (intro exI [of _ u] exI [of _ fs'] exI [of _ ls']) simp
qed

section \<open>The represented queue\<close>

text \<open>
  The skip list at \<open>sk\<close> holds the queue \<open>q\<close>, and \<open>n\<close> pages are free.
\<close>

definition queue_rep :: "addr \<Rightarrow> (int \<times> int) list \<Rightarrow> nat \<Rightarrow> 'a kout_scheme \<Rightarrow> bool" where
  "queue_rep sk q n s =
     (\<exists>fs ha hs ls. rq_mem fs sk ha hs ls s \<and> sl_queue (mem s) ls = q \<and> length fs = n)"

lemma rq_mem_frame [simp]:
  "rq_mem fs sk ha hs ls (s0\<lparr>outbuf := v0\<rparr>) = rq_mem fs sk ha hs ls s0"
  "rq_mem fs sk ha hs ls (s1\<lparr>procs := v1\<rparr>) = rq_mem fs sk ha hs ls s1"
  "rq_mem fs sk ha hs ls (s1\<lparr>seed := v2\<rparr>) = rq_mem fs sk ha hs ls s1"
  "rq_mem fs sk ha hs ls (s1\<lparr>nextpid := v3\<rparr>) = rq_mem fs sk ha hs ls s1"
  "rq_mem fs sk ha hs ls (s1\<lparr>initproc := v4\<rparr>) = rq_mem fs sk ha hs ls s1"
  "rq_mem fs sk ha hs ls (s1\<lparr>ticks := v5\<rparr>) = rq_mem fs sk ha hs ls s1"
  "rq_mem fs sk ha hs ls (s1\<lparr>skl := v6\<rparr>) = rq_mem fs sk ha hs ls s1"
  "rq_mem fs sk ha hs ls (s1\<lparr>schedlog_active := v7\<rparr>) = rq_mem fs sk ha hs ls s1"
  "rq_mem fs sk ha hs ls (s1\<lparr>schedlog_lasttick := v8\<rparr>) = rq_mem fs sk ha hs ls s1"
  "rq_mem fs sk ha hs ls (s1\<lparr>forkret_first := v9\<rparr>) = rq_mem fs sk ha hs ls s1"
  "rq_mem fs sk ha hs ls (s2\<lparr>cr3 := v10\<rparr>) = rq_mem fs sk ha hs ls s2"
  "rq_mem fs sk ha hs ls (s2\<lparr>tss_esp0 := v11\<rparr>) = rq_mem fs sk ha hs ls s2"
  by (simp_all add: rq_mem_def)

lemma queue_rep_frame [simp]:
  "queue_rep sk q n (s0\<lparr>outbuf := v0\<rparr>) = queue_rep sk q n s0"
  "queue_rep sk q n (s1\<lparr>procs := v1\<rparr>) = queue_rep sk q n s1"
  "queue_rep sk q n (s1\<lparr>seed := v2\<rparr>) = queue_rep sk q n s1"
  "queue_rep sk q n (s1\<lparr>nextpid := v3\<rparr>) = queue_rep sk q n s1"
  "queue_rep sk q n (s1\<lparr>initproc := v4\<rparr>) = queue_rep sk q n s1"
  "queue_rep sk q n (s1\<lparr>ticks := v5\<rparr>) = queue_rep sk q n s1"
  "queue_rep sk q n (s1\<lparr>skl := v6\<rparr>) = queue_rep sk q n s1"
  "queue_rep sk q n (s1\<lparr>schedlog_active := v7\<rparr>) = queue_rep sk q n s1"
  "queue_rep sk q n (s1\<lparr>schedlog_lasttick := v8\<rparr>) = queue_rep sk q n s1"
  "queue_rep sk q n (s1\<lparr>forkret_first := v9\<rparr>) = queue_rep sk q n s1"
  "queue_rep sk q n (s2\<lparr>cr3 := v10\<rparr>) = queue_rep sk q n s2"
  "queue_rep sk q n (s2\<lparr>tss_esp0 := v11\<rparr>) = queue_rep sk q n s2"
  by (simp_all add: queue_rep_def)

lemma queue_repI:
  "rq_mem fs sk ha hs ls s \<Longrightarrow> queue_rep sk (sl_queue (mem s) ls) (length fs) s"
  by (auto simp: queue_rep_def)

lemma queue_rep_sorted: "queue_rep sk q n s \<Longrightarrow> sorted (map snd q)"
  by (auto simp: queue_rep_def rq_mem_def dest: sl_queue_sorted)

lemma rq_mem_acq:
  assumes "cpu_ok s" "l \<noteq> KmemLock" "rq_mem fs sk ha hs ls s"
  shows "rq_mem fs sk ha hs ls (acq l s)"
  using assms by (simp add: rq_mem_def kmem_lockable_def kmem_ok_def phys_page_def)

text \<open>What an operation of the run queue may change.\<close>

definition rq_frame :: "'a kproc_scheme \<Rightarrow> 'a kproc_scheme \<Rightarrow> bool" where
  "rq_frame s t = (t = s\<lparr>freelist := freelist t, mem := mem t, outbuf := outbuf t, procs := procs t, seed := seed t\<rparr>)"

declare randomize_loop.simps [simp del]

lemma randomize_loop_ok:
  "lvl \<le> mx + 1 \<Longrightarrow> \<exists>r sd. randomize_loop lvl mx s = Ok r (s\<lparr>seed := sd\<rparr>) \<and> lvl \<le> r \<and> r \<le> mx + 1"
proof (induction lvl mx s rule: randomize_loop.induct)
  case (1 lvl mx s)
  show ?case
  proof (cases "lvl \<le> mx")
    case True
    define x where "x = (word_of_int (sint (xorshift (seed s)) smod 4) :: 32 word)"
    define u where "u = s\<lparr>seed := xorshift (seed s)\<rparr>"
    have rnd: "random 4 s = Ok x u" by (simp add: random_def x_def u_def Let_def)
    show ?thesis
    proof (cases "sint x = 0")
      case True
      have "\<exists>r sd. randomize_loop (lvl + 1) mx u = Ok r (u\<lparr>seed := sd\<rparr>) \<and> lvl + 1 \<le> r \<and> r \<le> mx + 1"
        by (rule "1.IH" [of x u]) (use True rnd \<open>lvl \<le> mx\<close> in simp_all)
      then obtain r sd where r: "randomize_loop (lvl + 1) mx u = Ok r (u\<lparr>seed := sd\<rparr>)" "lvl + 1 \<le> r" "r \<le> mx + 1"
        by blast
      have "randomize_loop lvl mx s = Ok r (s\<lparr>seed := sd\<rparr>)"
        using True \<open>lvl \<le> mx\<close> rnd r(1) by (subst randomize_loop.simps) (simp add: u_def)
      with r(2,3) show ?thesis by (intro exI [of _ r] exI [of _ sd]) simp
    next
      case False
      then have "randomize_loop lvl mx s = Ok lvl (s\<lparr>seed := xorshift (seed s)\<rparr>)"
        using True rnd by (subst randomize_loop.simps) (simp add: u_def)
      then show ?thesis using True by (intro exI [of _ lvl] exI [of _ "xorshift (seed s)"]) simp
    qed
  next
    case False
    then have "randomize_loop lvl mx s = Ok lvl (s\<lparr>seed := seed s\<rparr>)" by (subst randomize_loop.simps) simp
    then show ?thesis using "1.prems" by (intro exI [of _ lvl] exI [of _ "seed s"]) simp
  qed
qed

lemma randomize_max_level_ok:
  assumes "randomize_max_level 3 s = Ok ml u"
  shows "u = s\<lparr>seed := seed u\<rparr>" "0 \<le> ml" "ml \<le> 4"
  using randomize_loop_ok [of 0 3 s] assms by (auto simp: randomize_max_level_def)

lemma inserted_text:
  "cprintf_text (''inserted|[%d]%d'' @ [CHR 0x0A]) [CInt a, CInt b] =
   Some (''inserted|['' @ printint a 10 True @ '']'' @ printint b 10 True @ [CHR 0x0A])"
  by simp

lemma removed_text:
  "cprintf_text (''removed|[%d]%d'' @ [CHR 0x0A]) [CInt a, CInt b] =
   Some (''removed|['' @ printint a 10 True @ '']'' @ printint b 10 True @ [CHR 0x0A])"
  by simp

section \<open>The operations on the represented queue\<close>

lemma get_minimum_ok:
  assumes "queue_rep sk q n s"
  shows "get_minimum sk s = Ok (case q of [] \<Rightarrow> - 69 | e # _ \<Rightarrow> fst e) s"
proof -
  from assms obtain fs ha hs ls where rq: "rq_mem fs sk ha hs ls s" and q: "sl_queue (mem s) ls = q"
    by (auto simp: queue_rep_def)
  note D = rq_memD [OF rq]
  have h: "is_node (mem s (hs ! 0))" "hs ! 0 \<noteq> 0" "n_next (nof (mem s) (hs ! 0)) = hd (ls ! 0 @ [0])"
    using sl_okD(7) [OF D(3), of 0] by simp_all
  show ?thesis
  proof (cases "ls ! 0")
    case Nil
    then show ?thesis
      using q h by (auto simp: get_minimum_def load_skip_ok [OF D(3)] load_word_ok [OF D(3)] load_node_ok
          NULL_def sl_queue_def)
  next
    case (Cons x xs)
    then have "is_node (mem s x)" "x \<noteq> 0" using sl_ok_node [OF D(3), of 0 x] by simp_all
    with Cons show ?thesis
      using q h by (auto simp: get_minimum_def load_skip_ok [OF D(3)] load_word_ok [OF D(3)] load_node_ok
          NULL_def sl_queue_def key_def)
  qed
qed

lemma upd_proc_simps [simp]:
  "mem (upd_proc p f s) = mem s" "freelist (upd_proc p f s) = freelist s" "seed (upd_proc p f s) = seed s"
  "length (procs (upd_proc p f s)) = length (procs s)"
  "queue_rep sk q n (upd_proc p f s) = queue_rep sk q n s"
  "rq_mem fs sk ha hs ls (upd_proc p f s) = rq_mem fs sk ha hs ls s"
  by (simp_all add: upd_proc_def)

text \<open>The array \<^verbatim>\<open>prev_nodes\<close> once the search is over.\<close>

definition preds ::
  "(addr \<Rightarrow> page) \<Rightarrow> addr list \<Rightarrow> addr list list \<Rightarrow> int \<Rightarrow> int \<Rightarrow> nat \<Rightarrow> addr option" where
  "preds m hs ls v ml =
     (\<lambda>i. if i < 4 \<and> int i \<le> ml then Some (last (hs ! i # filter (\<lambda>x. vdv m x \<le> v) (ls ! i))) else None)"

lemma rq_frameI:
  "t = s\<lparr>freelist := a, mem := m\<rparr> \<Longrightarrow> rq_frame s (t\<lparr>outbuf := b, procs := ps\<rparr>)"
  "t = s\<lparr>mem := m, freelist := a\<rparr> \<Longrightarrow> rq_frame s (t\<lparr>outbuf := b, procs := ps\<rparr>)"
  "t = s\<lparr>seed := sd, procs := ps, freelist := a, mem := m\<rparr> \<Longrightarrow> rq_frame s (t\<lparr>outbuf := b\<rparr>)"
  by (simp_all add: rq_frame_def)

lemma insert_node_prefix:
  assumes rq: "rq_mem fs sk ha hs ls s" and p: "p < length (procs s)"
    and ml: "randomize_max_level 3 s = Ok ml u"
    and v: "v = virtual_deadline (procs s ! p)" and pp: "pp = pid (procs s ! p)"
  shows "insert_node sk p s =
    bindo (insert_levels pp v
        (preds (mem s) hs ls v ml)
        [0..<nat (ml + 1)] 0 (upd_proc p (\<lambda>q. q\<lparr>max_level := ml\<rparr>) u))
      (\<lambda>_ s. cprintf (''inserted|[%d]%d'' @ [CHR 0x0A]) [CInt (word_of_int pp), CInt (word_of_int ml)] s)"
proof -
  note D = rq_memD [OF rq]
  let ?w = "upd_proc p (\<lambda>q. q\<lparr>max_level := ml\<rparr>) u"
  have u: "u = s\<lparr>seed := seed u\<rparr>" by (rule randomize_max_level_ok [OF ml])
  have pr: "procs u = procs s" and mu: "mem u = mem s" by (subst u, simp)+
  have ok: "sl_ok (mem ?w) sk ha hs ls" using D(3) mu by simp
  have pid: "pid (procs ?w ! p) = pp" "virtual_deadline (procs ?w ! p) = v"
    using p by (simp_all add: upd_proc_def pr v pp)
  have "find_prevs v ml 4 (hs ! 3) (\<lambda>_. None) ?w =
      Ok (preds (mem s) hs ls v ml) ?w"
    using find_prevs_ok [OF ok, of 4 "hs ! 3" v ml "\<lambda>_. None"]
    unfolding preds_def upd_proc_simps(1) mu by simp
  then show ?thesis
    by (simp add: insert_node_def load_skip_ok [OF D(3)] ml Let_def load_word_ok [OF ok] pid NULL_def)
qed

lemma insert_node_ok:
  assumes q: "queue_rep sk q n s" and p: "p < length (procs s)"
    and ml: "randomize_max_level 3 s = Ok ml u" "ml \<le> 3" "nat ml < n"
  shows "\<exists>t. insert_node sk p s = Ok () t \<and>
    queue_rep sk (enq (pid (procs s ! p), virtual_deadline (procs s ! p)) q) (n - nat ml - 1) t \<and>
    procs t = (procs s)[p := (procs s ! p)\<lparr>max_level := ml\<rparr>] \<and> seed t = seed u \<and>
    rest_same s t \<and> rq_frame s t"
proof -
  from q obtain fs ha hs ls where rq: "rq_mem fs sk ha hs ls s" and qs: "sl_queue (mem s) ls = q"
    and n: "length fs = n"
    by (auto simp: queue_rep_def)
  define v where "v = virtual_deadline (procs s ! p)"
  define pp where "pp = pid (procs s ! p)"
  let ?w = "upd_proc p (\<lambda>q. q\<lparr>max_level := ml\<rparr>) u"
  note pre = insert_node_prefix [OF rq p ml(1) v_def pp_def]
  note r = randomize_max_level_ok [OF ml(1)]
  have pr: "procs u = procs s" and mu: "mem u = mem s" by (subst r(1), simp)+
  have rqw: "rq_mem fs sk ha hs ls ?w" using rq by (subst r(1)) (simp add: upd_proc_def)
  have rng: "i < 4 \<and> int i \<le> ml" if "i < Suc (nat ml)" for i using that r(2) ml(2) by linarith
  have num: "nat (ml + 1) = 0 + (nat ml + 1)" using r(2) by simp
  have "\<exists>g t nx ls'. insert_levels pp v (preds (mem s) hs ls v ml) [0..<0 + (nat ml + 1)] 0 ?w = Ok g t \<and>
    t = ?w\<lparr>freelist := nx, mem := mem t\<rparr> \<and> rq_mem (drop (nat ml + 1) fs) sk ha hs ls' t \<and> rest_same ?w t \<and>
    sl_queue (mem t) ls' = (if 0 = (0::nat) \<and> nat ml + 1 > 0 then enq (pp, v) (sl_queue (mem ?w) ls)
      else sl_queue (mem ?w) ls)"
    by (rule insert_levels_ok [OF rqw]) (use ml r n rng in \<open>simp_all add: mu preds_def\<close>)
  then obtain g t nx ls' where t: "insert_levels pp v (preds (mem s) hs ls v ml) [0..<nat (ml + 1)] 0 ?w = Ok g t"
    "t = ?w\<lparr>freelist := nx, mem := mem t\<rparr>"
    "rq_mem (drop (nat ml + 1) fs) sk ha hs ls' t" "rest_same ?w t"
    "sl_queue (mem t) ls' = enq (pp, v) (sl_queue (mem s) ls)"
    unfolding num by (simp add: mu) blast
  let ?t = "t\<lparr>outbuf := outbuf t @ ''inserted|['' @ printint (word_of_int pp) 10 True @ '']'' @
     printint (word_of_int ml) 10 True @ [CHR 0x0A]\<rparr>"
  have run: "insert_node sk p s = Ok () ?t"
    unfolding pre t(1) bindo.simps by (rule cprintf_step [OF inserted_text])
  have "queue_rep sk (enq (pp, v) q) (n - nat ml - 1) ?t"
    using queue_repI [OF t(3)] t(5) qs n by simp
  moreover have "procs ?t = (procs s)[p := (procs s ! p)\<lparr>max_level := ml\<rparr>]" "seed ?t = seed u"
    by (simp, subst t(2), simp add: upd_proc_def pr)+
  moreover have "rest_same s ?t" using t(4) by (simp add: rest_same_def mu)
  moreover have "rq_frame s ?t"
  proof (rule rq_frameI(3))
    show "t = s\<lparr>seed := seed u, procs := (procs u)[p := (procs u ! p)\<lparr>max_level := ml\<rparr>], freelist := nx, mem := mem t\<rparr>"
      using t(2) unfolding upd_proc_def by (subst (asm) (2) r(1))
  qed
  ultimately show ?thesis using run unfolding v_def pp_def by blast
qed

lemma delete_node_ok:
  assumes q: "queue_rep sk q n s" and p: "p < length (procs s)"
    and pp: "pp = pid (procs s ! p)" "pp \<noteq> - 1" and v: "v = virtual_deadline (procs s ! p)" "- 1 < v"
    and f: "findable pp v q"
  shows "\<exists>t k. delete_node sk p s = Ok () t \<and> queue_rep sk (filter (\<lambda>e. fst e \<noteq> pp) q) (n + k) t \<and>
    (if pp \<in> fst ` set q then 1 \<le> k \<and> k \<le> 4 else k = 0) \<and>
    procs t = (procs s)[p := (procs s ! p)\<lparr>max_level := - 1\<rparr>] \<and> seed t = seed s \<and> rest_same s t \<and> rq_frame s t"
proof -
  from q obtain fs ha hs ls where rq: "rq_mem fs sk ha hs ls s" and qs: "sl_queue (mem s) ls = q"
    and n: "length fs = n"
    by (auto simp: queue_rep_def)
  note D = rq_memD [OF rq]
  from delete_search_ok [OF D(3) f [folded qs] v(2) pp(2), of 4 "hs ! 3"]
  obtain r where r: "delete_search pp v 4 (hs ! 3) s = Ok r s"
    "case r of None \<Rightarrow> \<forall>i<4. absent (mem s) pp (ls ! i)
     | Some (cl, y) \<Rightarrow> cl < 4 \<and> y \<in> set (ls ! cl) \<and> key (mem s) y = (pp, v) \<and>
        (\<forall>i<4. cl < i \<longrightarrow> absent (mem s) pp (ls ! i))" by auto
  let ?u = "upd_proc p (\<lambda>q. q\<lparr>max_level := - 1\<rparr>)"
  show ?thesis
  proof (cases r)
    case None
    then have "absent (mem s) pp (ls ! 0)" using r(2) by simp
    then have ab: "pp \<notin> fst ` set q" by (auto simp: absent_def qs [symmetric] sl_queue_def key_def)
    then have "filter (\<lambda>e. fst e \<noteq> pp) q = q" by (intro filter_True) auto
    moreover have "delete_node sk p s = Ok () (?u s)"
      using r(1) None by (simp add: delete_node_def load_skip_ok [OF D(3)] load_word_ok [OF D(3)] pp(1) v(1) Let_def)
    ultimately show ?thesis
      using q ab by (intro exI [of _ "?u s"] exI [of _ 0]) (simp add: rest_same_def rq_frame_def upd_proc_def)
  next
    case (Some cy)
    obtain cl y where cy: "cy = (cl, y)" by fastforce
    note r' = r(2) [unfolded Some cy, simplified]
    from delete_from_levels_ok [OF rq, of cl y pp v] obtain t fs' ls' where
      t: "delete_from_levels_loop y s = Some (Ok () t)" "t = s\<lparr>mem := mem t, freelist := freelist t\<rparr>"
        "rq_mem fs' sk ha hs ls' t" "rest_same s t" "length fs' = length fs + cl + 1"
        "sl_queue (mem t) ls' = filter (\<lambda>e. fst e \<noteq> pp) q"
      using r' f qs by auto
      let ?t = "?u (t\<lparr>outbuf := outbuf t @ ''removed|['' @ printint (word_of_int pp) 10 True @ '']'' @
       printint (word_of_int (int cl)) 10 True @ [CHR 0x0A]\<rparr>)"
    have run: "delete_node sk p s = Ok () ?t"
      using r(1) Some cy t(1) cprintf_step [OF removed_text, of "word_of_int pp" "word_of_int (int cl)" t]
      by (simp add: delete_node_def load_skip_ok [OF D(3)] load_word_ok [OF D(3)] pp(1) v(1) Let_def
          delete_from_levels_def del: cprintf_text.simps)
    have pt: "procs t = procs s" "seed t = seed s" by (subst t(2), simp)+
    have "queue_rep sk (filter (\<lambda>e. fst e \<noteq> pp) q) (n + (cl + 1)) ?t"
      using queue_repI [OF t(3)] t(5,6) n by simp
    moreover have "procs ?t = (procs s)[p := (procs s ! p)\<lparr>max_level := - 1\<rparr>]"
      by (simp add: upd_proc_def pt(1))
    moreover have "rest_same s ?t" using t(4) by (simp add: rest_same_def)
    moreover have "rq_frame s ?t"
      unfolding upd_proc_def using rq_frameI(2) [OF t(2)] by simp
    moreover have "pp \<in> fst ` set q"
    proof -
      have "key (mem s) y \<in> set (map (key (mem s)) (ls ! cl))" unfolding set_map using r' by blast
      then have "key (mem s) y \<in> set q"
        using subseq_set [OF keys_subseq [OF D(3), of cl]] r' qs by auto
      then show ?thesis using r' by force
    qed
    ultimately show ?thesis
      using run r' pt(2) by (intro exI [of _ ?t] exI [of _ "cl + 1"]) (simp add: upd_proc_def)
  qed
qed

end
