(* ===== verification/Levels.thy ===== *)
theory Levels
  imports RunQueueOps
begin

text \<open>
  The level of a new node: \<^verbatim>\<open>random\<close> and \<^verbatim>\<open>randomize_max_level\<close> of \<^verbatim>\<open>proc.c\<close> as a pure
  function of the seed, and the sequence of levels a freshly booted kernel draws.
  \<open>draw_level\<close> is the specification on 32-bit words; \<open>draw_int\<close> computes it on integers.
\<close>

section \<open>The draw as a function of the seed\<close>

fun draw_level :: "nat \<Rightarrow> 32 word \<Rightarrow> nat \<times> 32 word" where
  "draw_level 0 sd = (0, sd)"
| "draw_level (Suc k) sd =
     (if 4 dvd sint (xorshift sd)
      then (case draw_level k (xorshift sd) of (l, sd') \<Rightarrow> (Suc l, sd'))
      else (0, xorshift sd))"

text \<open>
  The seed after \<open>k\<close> insertions, provided that none of them drew a level beyond the headers.
\<close>

fun seed_after :: "nat \<Rightarrow> 32 word \<Rightarrow> 32 word option" where
  "seed_after 0 sd = Some sd"
| "seed_after (Suc k) sd =
     (case draw_level 4 sd of (l, sd') \<Rightarrow> if l \<le> 3 then seed_after k sd' else None)"

lemma smod_four: "(x smod 4 = 0) = (4 dvd x)" for x :: int
proof (cases "0 \<le> x")
  case True
  then show ?thesis by (simp add: signed_modulo_int_def signed_divide_int_def sgn_if minus_div_mult_eq_mod dvd_eq_mod_eq_0)
next
  case False
  then have "x smod 4 = - ((- x) mod 4)"
    by (simp add: signed_modulo_int_def signed_divide_int_def sgn_if minus_div_mult_eq_mod [symmetric])
  then show ?thesis by (simp add: dvd_eq_mod_eq_0 [symmetric])
qed

lemma random_zero: "(sint (word_of_int (x smod 4) :: 32 word) = 0) = (4 dvd x)"
proof -
  have "\<bar>x smod 4\<bar> < 4" using smod_int_range [of 4 x] by (auto simp: abs_less_iff)
  then show ?thesis by (simp add: s32_eq_sint [symmetric] s32_id smod_four)
qed

lemma randomize_loop_draw:
  "lvl + int k = mx + 1 \<Longrightarrow>
   randomize_loop lvl mx s =
     (case draw_level k (seed s) of (l, sd) \<Rightarrow> Ok (lvl + int l) (s\<lparr>seed := sd\<rparr>))"
proof (induction k arbitrary: lvl s)
  case 0
  then show ?case by (subst randomize_loop.simps) simp
next
  case (Suc k)
  let ?u = "s\<lparr>seed := xorshift (seed s)\<rparr>"
  have rnd: "random 4 s = Ok (word_of_int (sint (xorshift (seed s)) smod 4)) ?u"
    by (simp add: random_def Let_def)
  have "lvl \<le> mx" using Suc.prems by simp
  moreover have "randomize_loop (lvl + 1) mx ?u =
      (case draw_level k (xorshift (seed s)) of (l, sd) \<Rightarrow> Ok (lvl + 1 + int l) (s\<lparr>seed := sd\<rparr>))"
    using Suc.IH [of "lvl + 1" ?u] Suc.prems by simp
  ultimately show ?case
    by (subst randomize_loop.simps) (auto simp: rnd random_zero split: prod.split)
qed

lemma randomize_max_level_draw:
  "randomize_max_level 3 s =
     Ok (int (fst (draw_level 4 (seed s)))) (s\<lparr>seed := snd (draw_level 4 (seed s))\<rparr>)"
  unfolding randomize_max_level_def
  by (subst randomize_loop_draw [of 0 4]) (simp_all add: split_beta)

lemma draw_level_le: "fst (draw_level k sd) \<le> k"
  by (induction k arbitrary: sd) (simp_all add: split_beta)

section \<open>The same on integers\<close>

definition sx :: "int \<Rightarrow> int" where
  "sx x = (if x < 2147483648 then x else x - 4294967296)"

definition xs1 :: "int \<Rightarrow> int" where "xs1 x = (x XOR (x * 131072)) mod 4294967296"
definition xs2 :: "int \<Rightarrow> int" where "xs2 x = (x XOR (sx x div 128)) mod 4294967296"
definition xs3 :: "int \<Rightarrow> int" where "xs3 x = (x XOR (x * 32)) mod 4294967296"

fun bump :: "nat \<times> int \<Rightarrow> nat \<times> int" where
  "bump (l, z) = (Suc l, z)"

fun draw_int :: "nat \<Rightarrow> int \<Rightarrow> nat \<times> int"
and draw_test :: "nat \<Rightarrow> int \<Rightarrow> nat \<times> int" where
  "draw_int 0 x = (0, x)"
| "draw_int (Suc k) x = draw_test k (xs3 (xs2 (xs1 x)))"
| "draw_test k y = (if y mod 4 = 0 then bump (draw_int k y) else (0, y))"

fun after_int :: "nat \<Rightarrow> int \<Rightarrow> int option"
and after_test :: "nat \<Rightarrow> nat \<times> int \<Rightarrow> int option" where
  "after_int 0 x = Some x"
| "after_int (Suc k) x = after_test k (draw_int 4 x)"
| "after_test k (l, y) = (if l \<le> 3 then after_int k y else None)"

lemma xor_shl: "uint ((w :: 32 word) XOR push_bit n w) = (uint w XOR (uint w * 2 ^ n)) mod 4294967296"
proof -
  have "uint (w XOR push_bit n w) = take_bit 32 (uint w) XOR take_bit 32 (push_bit n (uint w))"
    by (simp add: unsigned_xor_eq unsigned_push_bit_eq bintr_uint)
  then show ?thesis
    unfolding take_bit_xor [symmetric] push_bit_eq_mult by (simp add: take_bit_eq_mod)
qed

lemma sint_sx: "sint (w :: 32 word) = sx (uint w)"
  by (simp add: sx_def sint_uint32)

lemma xor_sar: "uint ((w :: 32 word) XOR signed_drop_bit n w) = (uint w XOR (sint w div 2 ^ n)) mod 4294967296"
proof -
  have "uint (signed_drop_bit n w) = take_bit 32 (drop_bit n (sint w))"
    by (subst uint_sint) (simp add: sint_signed_drop_bit_eq)
  then have "uint (w XOR signed_drop_bit n w) = take_bit 32 (uint w) XOR take_bit 32 (drop_bit n (sint w))"
    by (simp add: unsigned_xor_eq bintr_uint)
  then show ?thesis
    unfolding take_bit_xor [symmetric] drop_bit_eq_div by (simp add: take_bit_eq_mod)
qed

lemma uint_xorshift: "uint (xorshift w) = xs3 (xs2 (xs1 (uint w)))"
  unfolding xorshift_def xs1_def xs2_def xs3_def Let_def xor_shl xor_sar sint_sx by simp

lemma dvd_sx: "(4 dvd sx x) = (x mod 4 = 0)"
proof -
  have "(4 dvd x - 4294967296) = (4 dvd x)"
    using dvd_diff_right_iff [of 4 4294967296 x] by (simp add: dvd_diff_left_iff)
  then show ?thesis by (simp add: sx_def dvd_eq_mod_eq_0 [symmetric])
qed

lemma draw_level_int: "draw_int k (uint sd) = (case draw_level k sd of (l, sd') \<Rightarrow> (l, uint sd'))"
  by (induction k arbitrary: sd)
    (auto simp: sint_sx dvd_sx uint_xorshift [symmetric] split: prod.split)

lemma seed_after_int: "map_option uint (seed_after k sd) = after_int k (uint sd)"
  by (induction k arbitrary: sd) (auto simp: draw_level_int split: prod.split)

lemma boot_levels_int: "after_int 416 1234567 = Some 411934683"
  by code_simp

end
