(* ===== verification/RunQueueSpec.thy ===== *)
theory RunQueueSpec
  imports Levels "HOL-Library.Multiset"
begin

text \<open>
  The contract of the run queue.  The locale \<open>run_queue\<close> lists what the scheduler relies on: the
  head is the entry with the least virtual deadline, removing the head leaves the rest, and an
  inserted process stands behind all entries of the same or a smaller deadline.  Its consequence,
  proved once in the locale, is that processes inserted in any order leave the queue in the order
  of a stable sort by deadline.  The skip list of \<^verbatim>\<open>proc.c\<close> is an instance.
\<close>

section \<open>The fresh skip list\<close>

lemma init_header_step:
  assumes k: "kmem_lockable s" "kmem_ok (c # fs) s"
    and sk: "mem s sk = SkipPage lv h" "sk \<noteq> 0" and h: "words_of (mem s h) = Some w" "h \<noteq> 0"
  shows "\<exists>nx t. init_header sk i s = Ok () t \<and>
    t = s\<lparr>freelist := nx, mem := (mem s)(h := WordPage (w(i := c)),
      c := NodePage \<lparr>n_pid = - 1, n_vd = - 1, n_prev = 0, n_next = 0,
                     n_forward = (if i > 0 then w (i - 1) else junk)\<rparr>)\<rparr> \<and> kmem_ok fs t"
proof -
  from kalloc_step [OF k] obtain nx where nx: "mem s c = FreePage nx" "freelist s = c"
    "kalloc s = Ok c (s\<lparr>freelist := nx, mem := (mem s)(c := RawPage nx)\<rparr>)" by blast
  let ?s = "s\<lparr>freelist := nx, mem := (mem s)(c := RawPage nx)\<rparr>"
  let ?m = "(mem s)(h := WordPage (w(i := c)),
      c := NodePage \<lparr>n_pid = - 1, n_vd = - 1, n_prev = 0, n_next = 0,
                     n_forward = (if i > 0 then w (i - 1) else junk)\<rparr>)"
  have c: "c \<noteq> 0" "c \<noteq> h" "c \<noteq> sk" "h \<noteq> sk" using k(2) h sk nx(1) by (auto simp: kmem_ok_def)
  have run: "init_header sk i s = Ok () (s\<lparr>freelist := nx, mem := ?m\<rparr>)"
    using c sk h by (simp add: init_header_def load_skip_def NULL_def nx(3) store_word_def load_word_def
        store_node_def nd_def put_page_def fun_upd_twist)
  have nf: "\<not> is_free (mem s h)" using h(1) by (cases "mem s h") auto
  have "kmem_ok fs ?s" by (rule kmem_ok_kalloc [OF k nx(3)])
  then have "kmem_ok fs (?s\<lparr>mem := ?m\<rparr>)"
  proof (rule kmem_ok_mem)
    show "is_free (?m v) = is_free (mem ?s v)" for v using nf by simp
    fix v assume "v \<in> set fs"
    then have "is_free (mem s v)" "v \<noteq> c" using k(2) by (auto simp: kmem_ok_def)
    then show "?m v = mem ?s v" using nf by auto
  qed
  then have ok: "kmem_ok fs (s\<lparr>freelist := nx, mem := ?m\<rparr>)" by simp
  show ?thesis by (intro exI conjI, rule run, rule refl, rule ok)
qed

abbreviation (input) header :: "addr \<Rightarrow> page" where
  "header f \<equiv> NodePage \<lparr>n_pid = - 1, n_vd = - 1, n_prev = 0, n_next = 0, n_forward = f\<rparr>"

lemma init_skiplist_ok:
  assumes k: "kmem_lockable s" "kmem_ok (sk # ha # h0 # h1 # h2 # h3 # fs) s"
  shows "\<exists>t. init_skiplist s = Ok sk t \<and> rq_mem fs sk ha [h0, h1, h2, h3] [[], [], [], []] t \<and>
    t = s\<lparr>freelist := freelist t, mem := mem t\<rparr> \<and>
    (\<forall>x. \<not> is_free (mem s x) \<longrightarrow> mem t x = mem s x)"
proof -
  have dist: "distinct [sk, ha, h0, h1, h2, h3]" and nz: "sk \<noteq> 0" "ha \<noteq> 0" "h0 \<noteq> 0" "h1 \<noteq> 0" "h2 \<noteq> 0" "h3 \<noteq> 0"
    and fr: "is_free (mem s sk)" "is_free (mem s ha)" "is_free (mem s h0)" "is_free (mem s h1)"
      "is_free (mem s h2)" "is_free (mem s h3)"
    using k(2) by (auto simp: kmem_ok_def phys_page_def)
  from kalloc_step [OF k] obtain n1 where n1: "kalloc s = Ok sk (s\<lparr>freelist := n1, mem := (mem s)(sk := RawPage n1)\<rparr>)"
    by blast
  define s1 where "s1 = s\<lparr>freelist := n1, mem := (mem s)(sk := SkipPage 4 junk)\<rparr>"
  have "kmem_ok (ha # h0 # h1 # h2 # h3 # fs) (s\<lparr>freelist := n1, mem := (mem s)(sk := RawPage n1)\<rparr>)"
    by (rule kmem_ok_kalloc [OF k n1])
  then have "kmem_ok (ha # h0 # h1 # h2 # h3 # fs)
      (s\<lparr>freelist := n1, mem := (mem s)(sk := RawPage n1)\<rparr>\<lparr>mem := (mem s)(sk := SkipPage 4 junk)\<rparr>)"
    by (rule kmem_ok_mem) (use k(2) in \<open>auto simp: kmem_ok_def\<close>)
  then have k1: "kmem_ok (ha # h0 # h1 # h2 # h3 # fs) s1" by (simp add: s1_def)
  have l1: "kmem_lockable s1" using k(1) by (simp add: s1_def)
  from kalloc_step [OF l1 k1] obtain n2 where n2: "kalloc s1 = Ok ha (s1\<lparr>freelist := n2, mem := (mem s1)(ha := RawPage n2)\<rparr>)"
    by blast
  define s2 where "s2 = s1\<lparr>freelist := n2, mem := (mem s1)(ha := RawPage n2, sk := SkipPage 4 ha)\<rparr>"
  have "kmem_ok (h0 # h1 # h2 # h3 # fs) (s1\<lparr>freelist := n2, mem := (mem s1)(ha := RawPage n2)\<rparr>)"
    by (rule kmem_ok_kalloc [OF l1 k1 n2])
  then have "kmem_ok (h0 # h1 # h2 # h3 # fs)
      (s1\<lparr>freelist := n2, mem := (mem s1)(ha := RawPage n2)\<rparr>\<lparr>mem := (mem s1)(ha := RawPage n2, sk := SkipPage 4 ha)\<rparr>)"
    by (rule kmem_ok_mem) (use k(2) dist in \<open>auto simp: kmem_ok_def s1_def\<close>)
  then have k2: "kmem_ok (h0 # h1 # h2 # h3 # fs) s2" by (simp add: s2_def)
  have l2: "kmem_lockable s2" using l1 by (simp add: s2_def)
  have m2: "mem s2 = (mem s)(sk := SkipPage 4 ha, ha := RawPage n2)"
    using dist by (auto simp: s2_def s1_def fun_eq_iff)
  define w where "w = (\<lambda>i::nat. if i = 0 then n2 else junk)"
  obtain n3 s3 where s3: "init_header sk 0 s2 = Ok () s3" "s3 = s2\<lparr>freelist := n3,
      mem := (mem s2)(ha := WordPage (w(0 := h0)), h0 := header junk)\<rparr>" "kmem_ok (h1 # h2 # h3 # fs) s3"
    using init_header_step [OF l2 k2, of sk 4 ha w 0] dist nz by (auto simp: m2 w_def)
  have l3: "kmem_lockable s3" using l2 by (simp add: s3(2))
  obtain n4 s4 where s4: "init_header sk 1 s3 = Ok () s4" "s4 = s3\<lparr>freelist := n4,
      mem := (mem s3)(ha := WordPage (w(0 := h0, 1 := h1)), h1 := header h0)\<rparr>" "kmem_ok (h2 # h3 # fs) s4"
    using init_header_step [OF l3 s3(3), of sk 4 ha "w(0 := h0)" 1] dist nz by (auto simp: m2 s3(2))
  have l4: "kmem_lockable s4" using l3 by (simp add: s4(2))
  obtain n5 s5 where s5: "init_header sk 2 s4 = Ok () s5" "s5 = s4\<lparr>freelist := n5,
      mem := (mem s4)(ha := WordPage (w(0 := h0, 1 := h1, 2 := h2)), h2 := header h1)\<rparr>" "kmem_ok (h3 # fs) s5"
    using init_header_step [OF l4 s4(3), of sk 4 ha "w(0 := h0, 1 := h1)" 2] dist nz
    by (auto simp: m2 s3(2) s4(2))
  have l5: "kmem_lockable s5" using l4 by (simp add: s5(2))
  obtain n6 s6 where s6: "init_header sk 3 s5 = Ok () s6" "s6 = s5\<lparr>freelist := n6,
      mem := (mem s5)(ha := WordPage (w(0 := h0, 1 := h1, 2 := h2, 3 := h3)), h3 := header h2)\<rparr>" "kmem_ok fs s6"
    using init_header_step [OF l5 s5(3), of sk 4 ha "w(0 := h0, 1 := h1, 2 := h2)" 3] dist nz
    by (auto simp: m2 s3(2) s4(2) s5(2))
  have l6: "kmem_lockable s6" using l5 by (simp add: s6(2))
  have "[0..<4] = [0, 1, 2, 3::nat]" by (simp add: upt_rec)
  then have loop: "for_list (init_header sk) [0..<SKIPLIST_LEVELS] s2 = Ok () s6"
    using s3(1) s4(1) s5(1) s6(1) by (simp add: SKIPLIST_LEVELS_def)
  have st1: "store_skip sk 4 junk (s\<lparr>freelist := n1, mem := (mem s)(sk := RawPage n1)\<rparr>) = Ok () s1"
    using nz by (simp add: store_skip_def NULL_def put_page_def s1_def)
  have st2: "store_skip sk 4 ha (s1\<lparr>freelist := n2, mem := (mem s1)(ha := RawPage n2)\<rparr>) = Ok () s2"
    using nz dist by (simp add: store_skip_def NULL_def put_page_def s2_def s1_def)
  have run: "init_skiplist s = Ok sk s6"
    using n1 st1 n2 st2 loop by (simp add: init_skiplist_def) (simp add: SKIPLIST_LEVELS_def)
  have m6: "mem s6 = (mem s)(sk := SkipPage 4 ha, ha := WordPage (w(0 := h0, 1 := h1, 2 := h2, 3 := h3)),
      h0 := header junk, h1 := header h0, h2 := header h1, h3 := header h2)"
    using dist by (auto simp: s3(2) s4(2) s5(2) s6(2) m2 fun_eq_iff)
  have less4: "(\<forall>i<4. P i) = (P 0 \<and> P 1 \<and> P 2 \<and> P (3::nat))" "(\<forall>i<3. P i) = (P 0 \<and> P 1 \<and> P (2::nat))" for P
    by (auto simp: numeral_eq_Suc less_Suc_eq)
  have "[0..<4] = [0, 1, 2, 3::nat]" by (simp add: upt_rec)
  then have "sl_ok (mem s6) sk ha [h0, h1, h2, h3] [[], [], [], []]"
    unfolding sl_ok_def less4 m6 using dist nz by (auto simp: nof_def key_def)
  then have "rq_mem fs sk ha [h0, h1, h2, h3] [[], [], [], []] s6"
    using s6(3) l6 unfolding rq_mem_def less4 by simp
  moreover have "s6 = s\<lparr>freelist := freelist s6, mem := mem s6\<rparr>"
    by (simp add: s6(2) s5(2) s4(2) s3(2) s2_def s1_def)
  moreover have "mem s6 x = mem s x" if "\<not> is_free (mem s x)" for x
    using that fr by (auto simp: m6)
  ultimately show ?thesis using run by blast
qed

lemma list_six: "6 \<le> length xs \<Longrightarrow> \<exists>a b c d e f ys. xs = a # b # c # d # e # f # ys"
  by (auto simp: Suc_le_length_iff numeral_eq_Suc)

section \<open>Sorting by repeated insertion\<close>

lemma enq_mset: "mset (enq e q) = add_mset e (mset q)"
  using multiset_partition [of "mset q" "\<lambda>x. snd x \<le> snd e"] by (simp add: enq_def)

lemma enq_sorted: "sorted (map snd q) \<Longrightarrow> sorted (map snd (enq e q))"
  by (auto simp: enq_def sorted_append sorted_wrt_filter sorted_map intro: sorted_wrt_filter)

lemma enq_stable:
  assumes "sorted (map snd q)"
  shows "filter (\<lambda>x. k = snd x) (enq e q) = filter (\<lambda>x. k = snd x) (q @ [e])"
proof -
  let ?P = "\<lambda>x. snd x \<le> snd e"
  have tw: "takeWhile ?P q = filter ?P q"
    by (rule takeWhile_eq_filter_sorted [OF assms]) (rule order_trans)
  have dw: "dropWhile ?P q = filter (\<lambda>x. \<not> ?P x) q"
    by (rule dropWhile_eq_filter_sorted [OF assms]) (rule order_trans)
  have "filter (\<lambda>x. k = snd x) q = filter (\<lambda>x. k = snd x) (takeWhile ?P q @ dropWhile ?P q)"
    by simp
  then have "filter (\<lambda>x. k = snd x) q = filter (\<lambda>x. k = snd x) (filter ?P q) @
      filter (\<lambda>x. k = snd x) (filter (\<lambda>x. \<not> ?P x) q)"
    unfolding tw dw filter_append .
  moreover have "k = snd e \<Longrightarrow> filter (\<lambda>x. k = snd x) (filter (\<lambda>x. \<not> snd x \<le> snd e) q) = []"
    by (auto simp: filter_empty_conv)
  ultimately show ?thesis by (simp add: enq_def)
qed

lemma foldl_enq:
  "sorted (map snd (foldl (\<lambda>q e. enq e q) [] xs)) \<and> mset (foldl (\<lambda>q e. enq e q) [] xs) = mset xs \<and>
   (\<forall>k. filter (\<lambda>x. k = snd x) (foldl (\<lambda>q e. enq e q) [] xs) = filter (\<lambda>x. k = snd x) xs)"
proof (induction xs rule: rev_induct)
  case (snoc e xs)
  let ?q = "foldl (\<lambda>q e. enq e q) [] xs"
  have "filter (\<lambda>x. k = snd x) (enq e ?q) = filter (\<lambda>x. k = snd x) (xs @ [e])" for k
    using enq_stable [of ?q k e] snoc by (simp del: filter_append add: filter_append [of _ _ "[e]"])
  then show ?case using snoc enq_sorted [of ?q e] by (simp add: enq_mset)
qed simp

lemma foldl_enq_sort: "foldl (\<lambda>q e. enq e q) [] xs = sort_key snd xs"
  using foldl_enq [of xs] by (intro properties_for_sort_key [symmetric]) auto

lemma map_insort_key: "map f (insort_key (\<lambda>x. g (f x)) x xs) = insort_key g (f x) (map f xs)"
  by (induction xs) auto

lemma map_sort_key: "map f (sort_key (\<lambda>x. g (f x)) xs) = sort_key g (map f xs)"
  by (induction xs) (simp_all add: map_insort_key)

section \<open>The interface\<close>

locale run_queue =
  fixes rep :: "(int \<times> int) list \<Rightarrow> nat \<Rightarrow> 's \<Rightarrow> bool"
    and entry :: "'s \<Rightarrow> nat \<Rightarrow> int \<times> int"
    and known :: "'s \<Rightarrow> nat \<Rightarrow> bool"
    and draws :: "'s \<Rightarrow> nat \<Rightarrow> bool"
    and ins :: "nat \<Rightarrow> 's \<Rightarrow> (unit, 's) outcome"
    and del :: "nat \<Rightarrow> 's \<Rightarrow> (unit, 's) outcome"
    and least :: "'s \<Rightarrow> (int, 's) outcome"
  assumes least_law: "rep q n s \<Longrightarrow> least s = Ok (case q of [] \<Rightarrow> - 69 | e # _ \<Rightarrow> fst e) s"
    and ins_law: "rep q n s \<Longrightarrow> known s p \<Longrightarrow> draws s (Suc k) \<Longrightarrow> 4 \<le> n \<Longrightarrow>
      \<exists>t n'. ins p s = Ok () t \<and> rep (enq (entry s p) q) n' t \<and> n \<le> n' + 4 \<and>
        entry t = entry s \<and> known t = known s \<and> draws t k"
    and del_law: "rep (entry s p # q) n s \<Longrightarrow> known s p \<Longrightarrow> fst (entry s p) \<notin> fst ` set q \<Longrightarrow>
      fst (entry s p) \<noteq> - 1 \<Longrightarrow> - 1 < snd (entry s p) \<Longrightarrow>
      \<exists>t n'. del p s = Ok () t \<and> rep q n' t \<and> n \<le> n' \<and> entry t = entry s \<and> known t = known s \<and> draws t = draws s"
begin

text \<open>Take the head of the queue, once for every process of the list, and report its pid.\<close>

fun serve :: "nat list \<Rightarrow> 's \<Rightarrow> (int list, 's) outcome" where
  "serve [] s = Ok [] s"
| "serve (p # ps) s =
     bindo (least s) (\<lambda>x s. bindo (del p s) (\<lambda>_ s. bindo (serve ps s) (\<lambda>xs s. Ok (x # xs) s)))"

lemma enter_all:
  assumes "rep q n s" "\<forall>p \<in> set ps. known s p" "draws s (length ps)" "4 * length ps \<le> n"
  shows "\<exists>t n'. for_list ins ps s = Ok () t \<and> rep (foldl (\<lambda>q e. enq e q) q (map (entry s) ps)) n' t \<and>
    entry t = entry s \<and> known t = known s"
  using assms
proof (induction ps arbitrary: q n s)
  case (Cons p ps)
  from ins_law [OF Cons.prems(1), of p "length ps"] Cons.prems obtain t n' where
    t: "ins p s = Ok () t" "rep (enq (entry s p) q) n' t" "n \<le> n' + 4" "entry t = entry s" "known t = known s"
      "draws t (length ps)" by auto
  have "\<exists>u n''. for_list ins ps t = Ok () u \<and>
      rep (foldl (\<lambda>q e. enq e q) (enq (entry s p) q) (map (entry t) ps)) n'' u \<and> entry u = entry t \<and> known u = known t"
    by (rule Cons.IH [OF t(2)]) (use Cons.prems t in auto)
  with t show ?case by auto
qed auto

lemma serve_all:
  assumes "rep (map (entry s) ps) n s" "\<forall>p \<in> set ps. known s p" "distinct (map (\<lambda>p. fst (entry s p)) ps)"
    and "\<forall>p \<in> set ps. fst (entry s p) \<noteq> - 1 \<and> - 1 < snd (entry s p)"
  shows "\<exists>t n'. serve ps s = Ok (map (\<lambda>p. fst (entry s p)) ps) t \<and> rep [] n' t"
  using assms
proof (induction ps arbitrary: n s)
  case (Cons p ps)
  have "fst (entry s p) \<notin> fst ` set (map (entry s) ps)" using Cons.prems(3) by (auto simp: image_image)
  with del_law [of s p "map (entry s) ps" n] Cons.prems obtain t n' where
    t: "del p s = Ok () t" "rep (map (entry s) ps) n' t" "entry t = entry s" "known t = known s" by auto
  have "\<exists>u n''. serve ps t = Ok (map (\<lambda>p. fst (entry t p)) ps) u \<and> rep [] n'' u"
    by (rule Cons.IH [of t n']) (use Cons.prems t in auto)
  with t least_law [OF Cons.prems(1)] show ?case by auto
qed auto

text \<open>Processes that enter an empty queue are served in the order of a stable sort by deadline.\<close>

lemma stable_order:
  assumes "rep [] n s" "\<forall>p \<in> set ps. known s p" "draws s (length ps)" "4 * length ps \<le> n"
    and "distinct (map (\<lambda>p. fst (entry s p)) ps)"
    and "\<forall>p \<in> set ps. fst (entry s p) \<noteq> - 1 \<and> - 1 < snd (entry s p)"
  shows "\<exists>t n'. bindo (for_list ins ps s) (\<lambda>_. serve (sort_key (\<lambda>p. snd (entry s p)) ps)) =
      Ok (map (\<lambda>p. fst (entry s p)) (sort_key (\<lambda>p. snd (entry s p)) ps)) t \<and> rep [] n' t"
proof -
  let ?ps = "sort_key (\<lambda>p. snd (entry s p)) ps"
  from enter_all [OF assms(1-4)] obtain t n' where
    t: "for_list ins ps s = Ok () t" "rep (sort_key snd (map (entry s) ps)) n' t" "entry t = entry s" "known t = known s"
    by (auto simp: foldl_enq_sort)
  have "rep (map (entry t) ?ps) n' t" using t(2,3) map_sort_key [of "entry s" snd ps] by simp
  moreover have "distinct (map (\<lambda>p. fst (entry t p)) ?ps)"
    using assms(5) mset_eq_imp_distinct_iff [of "map (\<lambda>p. fst (entry s p)) ?ps" "map (\<lambda>p. fst (entry s p)) ps"]
    by (simp add: t(3))
  ultimately have "\<exists>u n''. serve ?ps t = Ok (map (\<lambda>p. fst (entry t p)) ?ps) u \<and> rep [] n'' u"
    using serve_all [of t ?ps n'] assms(2,6) t(3,4) by auto
  with t show ?thesis by auto
qed

end

section \<open>The skip list is a run queue\<close>

definition rq_entry :: "'a kproc_scheme \<Rightarrow> nat \<Rightarrow> int \<times> int" where
  "rq_entry s p = (pid (procs s ! p), virtual_deadline (procs s ! p))"

lemma rq_entry_level: "procs t = (procs s)[p := (procs s ! p)\<lparr>max_level := l\<rparr>] \<Longrightarrow> rq_entry t = rq_entry s"
  by (rule ext, cases "p < length (procs s)") (auto simp: rq_entry_def nth_list_update list_update_beyond)

lemma known_level:
  "procs t = (procs s)[p := x] \<Longrightarrow> (\<lambda>i. i < length (procs t)) = (\<lambda>i. i < length (procs s))"
  by simp

interpretation skip_list: run_queue "queue_rep sk" rq_entry "\<lambda>s p. p < length (procs s)"
  "\<lambda>s k. seed_after k (seed s) \<noteq> None" "insert_node sk" "delete_node sk" "get_minimum sk" for sk
proof
  fix q n p k and s :: "'a kproc_scheme"
  show "get_minimum sk s = Ok (case q of [] \<Rightarrow> - 69 | e # _ \<Rightarrow> fst e) s" if "queue_rep sk q n s"
    by (rule get_minimum_ok [OF that])
  show "\<exists>t n'. insert_node sk p s = Ok () t \<and> queue_rep sk (enq (rq_entry s p) q) n' t \<and> n \<le> n' + 4 \<and>
      rq_entry t = rq_entry s \<and> (\<lambda>p. p < length (procs t)) = (\<lambda>p. p < length (procs s)) \<and> seed_after k (seed t) \<noteq> None"
    if q: "queue_rep sk q n s" and p: "p < length (procs s)" and d: "seed_after (Suc k) (seed s) \<noteq> None" and n: "4 \<le> n"
  proof -
    obtain l sd where l: "draw_level 4 (seed s) = (l, sd)" by fastforce
    have l3: "l \<le> 3" "seed_after k sd \<noteq> None" using d l by (auto split: if_splits)
    have ml: "randomize_max_level 3 s = Ok (int l) (s\<lparr>seed := sd\<rparr>)"
      using randomize_max_level_draw [of s] l by simp
    have "int l \<le> 3" "nat (int l) < n" using l3 n by simp_all
    from insert_node_ok [OF q p ml this] obtain t where
      t: "insert_node sk p s = Ok () t" "queue_rep sk (enq (rq_entry s p) q) (n - l - 1) t"
        "procs t = (procs s)[p := (procs s ! p)\<lparr>max_level := int l\<rparr>]" "seed t = sd"
      by (auto simp: rq_entry_def)
    show ?thesis
      using t(1,2) rq_entry_level [OF t(3)] known_level [OF t(3)] t(4) l3 n
      by (intro exI [of _ t] exI [of _ "n - l - 1"]) auto
  qed
  show "\<exists>t n'. delete_node sk p s = Ok () t \<and> queue_rep sk q n' t \<and> n \<le> n' \<and> rq_entry t = rq_entry s \<and>
      (\<lambda>p. p < length (procs t)) = (\<lambda>p. p < length (procs s)) \<and>
      (\<lambda>k. seed_after k (seed t) \<noteq> None) = (\<lambda>k. seed_after k (seed s) \<noteq> None)"
    if q: "queue_rep sk (rq_entry s p # q) n s" and p: "p < length (procs s)"
      and d: "fst (rq_entry s p) \<notin> fst ` set q" "fst (rq_entry s p) \<noteq> - 1" "- 1 < snd (rq_entry s p)"
  proof -
    have "findable (fst (rq_entry s p)) (snd (rq_entry s p)) (rq_entry s p # q)"
      using findable_head [of "fst (rq_entry s p)" "snd (rq_entry s p)" q] queue_rep_sorted [OF q] d(1) by simp
    from delete_node_ok [OF q p _ d(2) _ d(3) this] obtain t k where
      t: "delete_node sk p s = Ok () t"
        "queue_rep sk (filter (\<lambda>e. fst e \<noteq> fst (rq_entry s p)) (rq_entry s p # q)) (n + k) t"
        "procs t = (procs s)[p := (procs s ! p)\<lparr>max_level := - 1\<rparr>]" "seed t = seed s"
      by (auto simp: rq_entry_def)
    have "\<forall>e \<in> set q. fst e \<noteq> fst (rq_entry s p)" using d(1) by (metis imageI)
    then have "filter (\<lambda>e. fst e \<noteq> fst (rq_entry s p)) (rq_entry s p # q) = q" by (simp add: filter_id_conv)
    then show ?thesis
      using t(1,2) rq_entry_level [OF t(3)] known_level [OF t(3)] t(4) by (intro exI [of _ t] exI [of _ "n + k"]) auto
  qed
qed

fun serve_min :: "addr \<Rightarrow> nat list \<Rightarrow> 'a kproc_scheme \<Rightarrow> (int list, 'a kproc_scheme) outcome" where
  "serve_min sk [] s = Ok [] s"
| "serve_min sk (p # ps) s =
     bindo (get_minimum sk s) (\<lambda>x s. bindo (delete_node sk p s) (\<lambda>_ s.
     bindo (serve_min sk ps s) (\<lambda>xs s. Ok (x # xs) s)))"

lemma serve_min_eq: "serve_min sk ps = skip_list.serve sk ps"
proof (induction ps)
  case (Cons p ps)
  then show ?case by (intro ext) simp
qed (intro ext, simp)

section \<open>Drawing a level beyond the headers\<close>

lemma insert_levels_append:
  "insert_levels p v prevs (xs @ ys) f s =
   bindo (insert_levels p v prevs xs f s) (\<lambda>g t. insert_levels p v prevs ys g t)"
proof (induction xs arbitrary: f s)
  case (Cons x xs)
  show ?case
  proof (cases "prevs x")
    case (Some a)
    then show ?thesis by (cases "insert_to_level p v a f s") (simp_all add: Cons)
  qed simp
qed simp

lemma insert_node_overflow:
  assumes q: "queue_rep sk q n s" and p: "p < length (procs s)" and l: "fst (draw_level 4 (seed s)) = 4" and n: "4 \<le> n"
  shows "insert_node sk p s = Fault ''prev_nodes: uninitialised''"
proof -
  from q obtain fs ha hs ls where rq: "rq_mem fs sk ha hs ls s" and len: "length fs = n"
    by (auto simp: queue_rep_def)
  define v where "v = virtual_deadline (procs s ! p)"
  define pp where "pp = pid (procs s ! p)"
  define u where "u = s\<lparr>seed := snd (draw_level 4 (seed s))\<rparr>"
  have ml: "randomize_max_level 3 s = Ok 4 u"
    using randomize_max_level_draw [of s] l by (simp add: u_def)
  let ?w = "upd_proc p (\<lambda>q. q\<lparr>max_level := 4\<rparr>) u"
  have mu: "mem u = mem s" by (simp add: u_def)
  have rqw: "rq_mem fs sk ha hs ls ?w" using rq by (simp add: u_def)
  have "\<exists>g t nx ls'. insert_levels pp v (preds (mem s) hs ls v 4) [0..<0 + 4] 0 ?w = Ok g t \<and>
    t = ?w\<lparr>freelist := nx, mem := mem t\<rparr> \<and> rq_mem (drop 4 fs) sk ha hs ls' t \<and> rest_same ?w t \<and>
    sl_queue (mem t) ls' = (if 0 = (0::nat) \<and> (4::nat) > 0 then enq (pp, v) (sl_queue (mem ?w) ls)
      else sl_queue (mem ?w) ls)"
    by (rule insert_levels_ok [OF rqw]) (use n len in \<open>simp_all add: mu preds_def\<close>)
  then obtain g t where g: "insert_levels pp v (preds (mem s) hs ls v 4) [0..<4] 0 ?w = Ok g t" by auto
  have "[0..<nat (4 + 1)] = [0..<4] @ [4]" by (simp add: upt_rec)
  then have "insert_levels pp v (preds (mem s) hs ls v 4) [0..<nat (4 + 1)] 0 ?w = Fault ''prev_nodes: uninitialised''"
    using g by (simp only: insert_levels_append bindo.simps) (simp add: preds_def)
  then show ?thesis
    using insert_node_prefix [OF rq p ml v_def pp_def] by simp
qed

lemma boot_seed: "seed_after 416 1234567 = Some 411934683"
proof -
  have "map_option uint (seed_after 416 1234567) = Some 411934683"
    using seed_after_int [of 416 1234567] boot_levels_int by simp
  then obtain w where "seed_after 416 1234567 = Some w" "uint w = 411934683" by auto
  then show ?thesis by (metis of_int_numeral word_of_int_uint)
qed

lemma boot_overflow: "fst (draw_level 4 411934683) = 4"
proof -
  have "fst (draw_int 4 411934683) = 4" by code_simp
  then show ?thesis
    using draw_level_int [of 4 411934683] by (simp add: split_beta)
qed

lemma seed_after_append: "seed_after (j + k) sd = Option.bind (seed_after j sd) (seed_after k)"
  by (induction j arbitrary: sd) (auto split: prod.split)

lemma for_list_insert_seed:
  assumes "queue_rep sk q n s" "\<forall>p \<in> set ps. p < length (procs s)" "seed_after (length ps) (seed s) = Some sd" "4 * length ps \<le> n"
  shows "\<exists>t q' n'. for_list (insert_node sk) ps s = Ok () t \<and> queue_rep sk q' n' t \<and> n \<le> n' + 4 * length ps \<and>
    seed t = sd \<and> length (procs t) = length (procs s)"
  using assms
proof (induction ps arbitrary: q n s)
  case (Cons p ps)
  obtain l sd' where l: "draw_level 4 (seed s) = (l, sd')" by fastforce
  have l3: "l \<le> 3" "seed_after (length ps) sd' = Some sd" using Cons.prems(3) l by (auto split: if_splits)
  have ml: "randomize_max_level 3 s = Ok (int l) (s\<lparr>seed := sd'\<rparr>)"
    using randomize_max_level_draw [of s] l by simp
  have "p < length (procs s)" "int l \<le> 3" "nat (int l) < n" using l3 Cons.prems by simp_all
  from insert_node_ok [OF Cons.prems(1) this(1) ml this(2,3)] obtain t q' where
    t: "insert_node sk p s = Ok () t" "queue_rep sk q' (n - l - 1) t" "length (procs t) = length (procs s)" "seed t = sd'"
    by auto
  have "\<exists>u q'' n'. for_list (insert_node sk) ps t = Ok () u \<and> queue_rep sk q'' n' u \<and> n - l - 1 \<le> n' + 4 * length ps \<and>
    seed u = sd \<and> length (procs u) = length (procs t)"
    by (rule Cons.IH [OF t(2)]) (use Cons.prems t l3 in auto)
  then obtain u q'' n' where u: "for_list (insert_node sk) ps t = Ok () u" "queue_rep sk q'' n' u"
    "n - l - 1 \<le> n' + 4 * length ps" "seed u = sd" "length (procs u) = length (procs t)" by blast
  with t l3 show ?case by (intro exI [of _ u] exI [of _ q''] exI [of _ n']) auto
qed auto

lemma insert_node_enq:
  assumes "queue_rep sk q n s" "p < length (procs s)" "draw_level 4 (seed s) = (l, sd)" "l \<le> 3" "l < n"
  shows "\<exists>t. insert_node sk p s = Ok () t \<and>
    queue_rep sk (enq (pid (procs s ! p), virtual_deadline (procs s ! p)) q) (n - l - 1) t \<and>
    procs t = (procs s)[p := (procs s ! p)\<lparr>max_level := int l\<rparr>] \<and> seed t = sd \<and> rest_same s t \<and> rq_frame s t"
proof -
  have ml: "randomize_max_level 3 s = Ok (int l) (s\<lparr>seed := sd\<rparr>)"
    using randomize_max_level_draw [of s] assms(3) by simp
  show ?thesis using insert_node_ok [OF assms(1,2) ml] assms(4,5) by simp
qed

section \<open>Properties\<close>

text \<open>C9: Processes that enter an empty run queue one after the other leave it, when the scheduler
  repeatedly takes the minimum and deletes it, in the order of a stable sort by virtual deadline:
  earliest deadline first, first come first served among equal deadlines.  The queue is empty again
  afterwards.\<close>

theorem skiplist_stable_order:
  assumes "queue_rep sk [] n s" "\<forall>p \<in> set ps. p < length (procs s)" "seed_after (length ps) (seed s) \<noteq> None"
    and "4 * length ps \<le> n" "distinct (map (\<lambda>p. pid (procs s ! p)) ps)"
    and "\<forall>p \<in> set ps. pid (procs s ! p) \<noteq> - 1 \<and> - 1 < virtual_deadline (procs s ! p)"
    and "ps' = sort_key (\<lambda>p. virtual_deadline (procs s ! p)) ps"
  shows "\<exists>t n'. bindo (for_list (insert_node sk) ps s) (\<lambda>_. serve_min sk ps') =
      Ok (map (\<lambda>p. pid (procs s ! p)) ps') t \<and> queue_rep sk [] n' t"
  using skip_list.stable_order [OF assms(1-4)] assms(5-7) by (simp add: rq_entry_def serve_min_eq)

text \<open>C10: \<^verbatim>\<open>insert_node\<close> refines insertion into a queue sorted by virtual deadline, behind all entries of
  the same deadline: it succeeds, keeps the shape of the skip list, stores the level it drew in the
  process, uses one page per level, and leaves all other pages of memory alone.\<close>

theorem insert_node_refines_enq:
  assumes "queue_rep sk q n s" "p < length (procs s)" "draw_level 4 (seed s) = (l, sd)" "l \<le> 3" "l < n"
  shows "\<exists>t. insert_node sk p s = Ok () t \<and>
    queue_rep sk (enq (pid (procs s ! p), virtual_deadline (procs s ! p)) q) (n - l - 1) t \<and>
    procs t = (procs s)[p := (procs s ! p)\<lparr>max_level := int l\<rparr>] \<and> seed t = sd \<and> rest_same s t \<and> rq_frame s t"
  by (rule insert_node_enq [OF assms])

text \<open>C11: \<^verbatim>\<open>delete_node\<close> removes the process from the queue, frees the pages of its nodes (one to four)
  and keeps the shape, provided that its deadline is not negative and no other process of the same
  deadline stands before it; a process that is not in the queue is left alone.\<close>

theorem delete_node_refines_remove:
  assumes "queue_rep sk q n s" "p < length (procs s)" "pp = pid (procs s ! p)" "pp \<noteq> - 1"
    and "v = virtual_deadline (procs s ! p)" "- 1 < v" "findable pp v q"
  shows "\<exists>t k. delete_node sk p s = Ok () t \<and> queue_rep sk (filter (\<lambda>e. fst e \<noteq> pp) q) (n + k) t \<and>
    (if pp \<in> fst ` set q then 1 \<le> k \<and> k \<le> 4 else k = 0) \<and>
    procs t = (procs s)[p := (procs s ! p)\<lparr>max_level := - 1\<rparr>] \<and> seed t = seed s \<and> rest_same s t \<and> rq_frame s t"
  by (rule delete_node_ok [OF assms])

text \<open>\<^verbatim>\<open>get_minimum\<close> returns the pid of an entry with the least virtual deadline, the one that
  entered first among equals, and -69 when the queue is empty; it changes nothing.\<close>

lemma get_minimum_is_head:
  assumes "queue_rep sk q n s"
  shows "get_minimum sk s = Ok (case q of [] \<Rightarrow> - 69 | e # _ \<Rightarrow> fst e) s \<and>
    (\<forall>e \<in> set q. snd (hd q) \<le> snd e)"
  using get_minimum_ok [OF assms] queue_rep_sorted [OF assms] by (cases q) auto

text \<open>With six free pages \<^verbatim>\<open>init_skiplist\<close> builds an empty skip list with four headers.\<close>

lemma init_skiplist_empty:
  assumes "kmem_ok fs s" "kmem_lockable s" "6 \<le> length fs"
  shows "\<exists>t. init_skiplist s = Ok (hd fs) t \<and> queue_rep (hd fs) [] (length fs - 6) t \<and>
    (\<forall>x. \<not> is_free (mem s x) \<longrightarrow> mem t x = mem s x)"
proof -
  obtain sk ha h0 h1 h2 h3 gs where fs: "fs = sk # ha # h0 # h1 # h2 # h3 # gs"
    using list_six [OF assms(3)] by auto
  from init_skiplist_ok [OF assms(2) assms(1) [unfolded fs]] obtain t where
    t: "init_skiplist s = Ok sk t" "rq_mem gs sk ha [h0, h1, h2, h3] [[], [], [], []] t"
      "t = s\<lparr>freelist := freelist t, mem := mem t\<rparr>" "\<forall>x. \<not> is_free (mem s x) \<longrightarrow> mem t x = mem s x" by blast
  from queue_repI [OF t(2)] show ?thesis
    using t(1,4) by (simp add: fs sl_queue_def)
qed

text \<open>C12: \<^verbatim>\<open>randomize_max_level\<close> can return a level one above the topmost header, and then
  \<^verbatim>\<open>insert_node\<close> uses an entry of \<^verbatim>\<open>prev_nodes\<close> that was never written.  With the seed the kernel
  starts with this happens for the first time at the 417th insertion after boot.\<close>

theorem insertion_417_uses_uninitialised_pointer:
  assumes "queue_rep sk q n s" "seed s = 1234567" "length ps = 417" "\<forall>p \<in> set ps. p < length (procs s)" "4 * 417 \<le> n"
  shows "for_list (insert_node sk) ps s = Fault ''prev_nodes: uninitialised'' \<and>
    (\<exists>t. for_list (insert_node sk) (take 416 ps) s = Ok () t)"
proof -
  have ps: "ps = take 416 ps @ [ps ! 416]" using assms(3) by (simp add: take_Suc_conv_app_nth [symmetric])
  have "set (take 416 ps) \<subseteq> set ps" by (rule set_take_subset)
  then have "\<forall>p \<in> set (take 416 ps). p < length (procs s)" using assms(4) by blast
  from for_list_insert_seed [OF assms(1) this, of 411934683] boot_seed assms(2,3,5) obtain t q' n' where
    t: "for_list (insert_node sk) (take 416 ps) s = Ok () t" "queue_rep sk q' n' t" "n \<le> n' + 4 * 416"
      "seed t = 411934683" "length (procs t) = length (procs s)" by auto
  have "insert_node sk (ps ! 416) t = Fault ''prev_nodes: uninitialised''"
    by (rule insert_node_overflow [OF t(2)]) (use t assms boot_overflow in \<open>auto intro: bspec [OF _ nth_mem]\<close>)
  then show ?thesis
    using t(1) by (subst ps) (simp add: for_list_append)
qed

section \<open>A concrete run queue\<close>

definition demo_trapframe :: trapframe where
  "demo_trapframe = \<lparr>tf_edi = 0, tf_esi = 0, tf_ebp = 0, tf_ebx = 0, tf_edx = 0, tf_ecx = 0, tf_eax = 0, tf_gs = 0,
     tf_fs = 0, tf_es = 0, tf_ds = 0, tf_trapno = 0, tf_err = 0, tf_eip = 0, tf_cs = 0, tf_eflags = 0, tf_esp = 0, tf_ss = 0\<rparr>"

definition demo_proc :: "int \<Rightarrow> int \<Rightarrow> proc" where
  "demo_proc p v = \<lparr>sz = 0, pgdir = 0, kstack = 0, pstate = RUNNABLE, pid = p, parent = None, tf = demo_trapframe,
     kctx = InSched False, pchan = None, killed = False, ofile = replicate 16 None, cwd = None, pname = [],
     ticks_left = 0, nice_value = 0, virtual_deadline = v, max_level = - 1\<rparr>"

definition demo_kproc :: "nat \<Rightarrow> kproc" where
  "demo_kproc n = kproc.make (cpus (demo_kmem n)) (ncpu (demo_kmem n)) (lapicid (demo_kmem n)) (fl_if (demo_kmem n))
     (locks (demo_kmem n)) (mem (demo_kmem n)) (freelist (demo_kmem n)) (use_lock (demo_kmem n)) (kend (demo_kmem n))
     False [] 0x80108000 0 0 (\<lambda>_. 0) [demo_proc 1 1050, demo_proc 2 50, demo_proc 3 1050] 0 1234567 4 (Some 0) 0 False 0 True"

lemma demo_kproc_simps [simp]:
  "mem (demo_kproc n) = mem (demo_kmem n)" "freelist (demo_kproc n) = freelist (demo_kmem n)"
  "kend (demo_kproc n) = kend (demo_kmem n)" "seed (demo_kproc n) = 1234567"
  "procs (demo_kproc n) = [demo_proc 1 1050, demo_proc 2 50, demo_proc 3 1050]"
  by (simp_all add: demo_kproc_def kproc.defs)

lemma demo_kproc_ok: "n \<le> 50000 \<Longrightarrow> kmem_ok (demo_pages n) (demo_kproc n)"
  by (rule chain_kmem_ok) (auto simp: demo_kmem_def demo_pages_distinct intro: demo_pages_phys)

lemma demo_kproc_lockable: "kmem_lockable (demo_kproc n)"
  by (simp add: kmem_lockable_def demo_kproc_def kproc.defs demo_kmem_def cpu_ok_def
      cpu_index_def lock_free_def)

definition demo_rq :: "nat \<Rightarrow> kproc" where
  "demo_rq n = (case init_skiplist (demo_kproc n) of Ok a t \<Rightarrow> t | _ \<Rightarrow> demo_kproc n)"

definition demo_sk :: addr where "demo_sk = 0x80400000"

lemma demo_pages_Suc: "demo_pages (Suc n) = 0x80400000 # pages_from (0x80400000 + PGSIZE) n"
  unfolding demo_pages_def by (rule pages_from_Suc)

lemma demo_rq_props:
  assumes "6 \<le> n" "n \<le> 50000"
  shows "queue_rep demo_sk [] (n - 6) (demo_rq n)" "seed (demo_rq n) = 1234567"
    "procs (demo_rq n) = [demo_proc 1 1050, demo_proc 2 50, demo_proc 3 1050]"
proof -
  have hd: "hd (demo_pages n) = demo_sk"
    using assms(1) demo_pages_Suc [of "n - 1"] by (simp add: demo_sk_def)
  obtain sk ha h0 h1 h2 h3 gs where fs: "demo_pages n = sk # ha # h0 # h1 # h2 # h3 # gs"
    using list_six [of "demo_pages n"] assms(1) by auto
  from init_skiplist_ok [OF demo_kproc_lockable demo_kproc_ok [OF assms(2), unfolded fs]] obtain t where
    t: "init_skiplist (demo_kproc n) = Ok sk t" "rq_mem gs sk ha [h0, h1, h2, h3] [[], [], [], []] t"
      "t = (demo_kproc n)\<lparr>freelist := freelist t, mem := mem t\<rparr>" by blast
  have dt: "demo_rq n = t" by (simp add: demo_rq_def t(1))
  have "length gs = n - 6" using length_demo_pages [of n] fs by simp
  with queue_repI [OF t(2)] show "queue_rep demo_sk [] (n - 6) (demo_rq n)"
    using hd fs by (simp add: dt sl_queue_def)
  show "seed (demo_rq n) = 1234567" "procs (demo_rq n) = [demo_proc 1 1050, demo_proc 2 50, demo_proc 3 1050]"
    unfolding dt by (subst t(3), simp)+
qed

lemma demo_entries:
  "pid (demo_proc p v) = p" "virtual_deadline (demo_proc p v) = v"
  by (simp_all add: demo_proc_def)

lemma demo_draw: "draw_level 4 1234567 = (0, 446368362)"
proof -
  have "draw_int 4 1234567 = (0, 446368362)" by code_simp
  then have "(case draw_level 4 1234567 of (l, sd) \<Rightarrow> (l, uint sd)) = (0, 446368362)"
    using draw_level_int [of 4 1234567] by simp
  then obtain sd where "draw_level 4 1234567 = (0, sd)" "uint sd = 446368362" by (auto split: prod.splits)
  then show ?thesis by (metis of_int_numeral word_of_int_uint)
qed

theorem skiplist_stable_order_witness:
  "\<exists>t n'. bindo (for_list (insert_node demo_sk) [0, 1, 2] (demo_rq 100)) (\<lambda>_. serve_min demo_sk [1, 0, 2]) =
      Ok [2, 1, 3] t \<and> queue_rep demo_sk [] n' t"
proof -
  note d = demo_rq_props [of 100, simplified]
  have "seed_after (Suc (Suc (Suc 0)) + 413) 1234567 = Some 411934683" using boot_seed by simp
  then have "seed_after (Suc (Suc (Suc 0))) 1234567 \<noteq> None"
    unfolding seed_after_append by (auto simp: bind_eq_Some_conv simp del: seed_after.simps)
  then have "\<exists>t n'. bindo (for_list (insert_node demo_sk) [0, 1, 2] (demo_rq 100)) (\<lambda>_. serve_min demo_sk [1, 0, 2]) =
      Ok (map (\<lambda>p. pid (procs (demo_rq 100) ! p)) [1, 0, 2]) t \<and> queue_rep demo_sk [] n' t"
    by (intro skiplist_stable_order [OF d(1)]) (simp_all add: d(2,3) demo_entries del: seed_after.simps)
  then show ?thesis by (simp add: d(3) demo_entries)
qed

theorem insert_node_refines_enq_witness:
  "\<exists>t. insert_node demo_sk 1 (demo_rq 100) = Ok () t \<and> queue_rep demo_sk [(2, 50)] 93 t"
proof -
  note d = demo_rq_props [of 100, simplified]
  show ?thesis
    using insert_node_refines_enq [OF d(1), of 1 0 446368362] by (auto simp: d(2,3) demo_draw demo_entries enq_def)
qed

definition demo_rq1 :: kproc where
  "demo_rq1 = (case insert_node demo_sk 1 (demo_rq 100) of Ok a t \<Rightarrow> t | _ \<Rightarrow> demo_rq 100)"

lemma demo_rq1_props:
  "queue_rep demo_sk [(2, 50)] 93 demo_rq1" "procs demo_rq1 ! 1 = (demo_proc 2 50)\<lparr>max_level := 0\<rparr>"
  "length (procs demo_rq1) = 3"
proof -
  note d = demo_rq_props [of 100, simplified]
  have ml: "randomize_max_level 3 (demo_rq 100) = Ok 0 ((demo_rq 100)\<lparr>seed := 446368362\<rparr>)"
    using randomize_max_level_draw [of "demo_rq 100"] by (simp add: d(2) demo_draw)
  from insert_node_ok [OF d(1) _ ml, of 1] obtain t where
    "insert_node demo_sk 1 (demo_rq 100) = Ok () t" "queue_rep demo_sk [(2, 50)] 93 t"
    "procs t = (procs (demo_rq 100))[1 := (procs (demo_rq 100) ! 1)\<lparr>max_level := 0\<rparr>]"
    by (auto simp: d(3) demo_entries enq_def)
  then show "queue_rep demo_sk [(2, 50)] 93 demo_rq1" "procs demo_rq1 ! 1 = (demo_proc 2 50)\<lparr>max_level := 0\<rparr>"
    "length (procs demo_rq1) = 3"
    by (simp_all add: demo_rq1_def d(3))
qed

theorem delete_node_refines_remove_witness:
  "\<exists>t k. delete_node demo_sk 1 demo_rq1 = Ok () t \<and> queue_rep demo_sk [] (93 + k) t \<and> 1 \<le> k \<and> k \<le> 4"
proof -
  note d = demo_rq1_props
  have e: "pid (procs demo_rq1 ! 1) = 2" "virtual_deadline (procs demo_rq1 ! 1) = 50"
    unfolding d(2) by (simp_all add: demo_proc_def)
  show ?thesis
    using delete_node_refines_remove [OF d(1), of 1 2 50] e d(3) by (auto simp: findable_def)
qed

theorem insertion_417_uses_uninitialised_pointer_witness:
  "for_list (insert_node demo_sk) (replicate 417 0) (demo_rq 2000) = Fault ''prev_nodes: uninitialised''"
proof -
  note d = demo_rq_props [of 2000, simplified]
  have "\<forall>p \<in> set (replicate 417 0). p < length (procs (demo_rq 2000))"
    by (simp only: Ball_set_replicate d(3)) simp
  then show ?thesis
    by (intro insertion_417_uses_uninitialised_pointer [OF d(1,2), THEN conjunct1] length_replicate) simp_all
qed

end
