(* ===== verification/Sched.thy ===== *)
theory Sched
  imports RunQueueSpec
begin

text \<open>
  The scheduler and the process state machine: \<^verbatim>\<open>proc.c\<close> from \<^verbatim>\<open>compute_virtual_deadline\<close> to
  \<^verbatim>\<open>procdump\<close>, apart from the operations that use files (\<^verbatim>\<open>userinit\<close>, \<^verbatim>\<open>nicefork\<close>, \<^verbatim>\<open>exit\<close>,
  \<^verbatim>\<open>wait\<close>, \<^verbatim>\<open>forkret\<close>), and \<^verbatim>\<open>switchuvm\<close> of \<^verbatim>\<open>vm.c\<close>.

  A call of \<^verbatim>\<open>swtch\<close> ends the model of a function with \<open>Switch\<close> and the state at that moment.
  What the C function does when \<^verbatim>\<open>swtch\<close> returns to it is a function of its own, with the locals it
  still needs as arguments: \<open>sched_resume\<close>, \<open>yield_resume\<close>, \<open>sleep_resume\<close>, and
  \<open>scheduler_return\<close> for the scheduler's thread.
\<close>

section \<open>Small operations\<close>

definition compute_virtual_deadline :: "int \<Rightarrow> 'a kproc_scheme \<Rightarrow> int" where
  "compute_virtual_deadline nice s =
     (let priority_ratio = nice - BFS_NICE_FIRST_LEVEL + 1
      in sint (ticks s + word_of_int (BFS_DEFAULT_QUANTUM * priority_ratio)))"

definition schedlog :: "int \<Rightarrow> 'a kproc_scheme \<Rightarrow> (unit, 'a kproc_scheme) outcome" where
  "schedlog n s =
     Ok () (s\<lparr>schedlog_active := True, schedlog_lasttick := sint (ticks s + word_of_int n)\<rparr>)"

definition pinit :: "'a kproc_scheme \<Rightarrow> (unit, 'a kproc_scheme) outcome" where
  "pinit s =
     bindo (initlock PtableLock ''ptable'' s) (\<lambda>_ s.
     bindo (init_skiplist s) (\<lambda>a s. Ok () (s\<lparr>skl := a\<rparr>)))"

definition myproc :: "'a mach_scheme \<Rightarrow> (nat option, 'a mach_scheme) outcome" where
  "myproc s =
     bindo (pushcli s) (\<lambda>_ s.
     bindo (mycpu s) (\<lambda>i s.
       let p = c_proc (cpus s ! i) in
     bindo (popcli s) (\<lambda>_ s. Ok p s)))"

definition find_unused :: "'a kproc_scheme \<Rightarrow> nat option" where
  "find_unused s = find (\<lambda>i. pstate (procs s ! i) = UNUSED) [0..<NPROC]"

definition allocproc :: "'a kproc_scheme \<Rightarrow> (nat option, 'a kproc_scheme) outcome" where
  "allocproc s =
     bindo (acquire PtableLock s) (\<lambda>_ s.
       case find_unused s of
         None \<Rightarrow> bindo (release PtableLock s) (\<lambda>_ s. Ok None s)
       | Some p \<Rightarrow>
           let s = upd_proc p (\<lambda>q. q\<lparr>pstate := EMBRYO, pid := nextpid s\<rparr>) s;
               s = s\<lparr>nextpid := s32 (nextpid s + 1)\<rparr>
           in bindo (release PtableLock s) (\<lambda>_ s.
              bindo (kalloc s) (\<lambda>k s.
                let s = upd_proc p (\<lambda>q. q\<lparr>kstack := k\<rparr>) s in
                if k = NULL then Ok None (upd_proc p (\<lambda>q. q\<lparr>pstate := UNUSED\<rparr>) s)
                else Ok (Some p) (upd_proc p (\<lambda>q. q\<lparr>kctx := Forkret\<rparr>) s))))"

definition switchuvm :: "nat option \<Rightarrow> 'a kproc_scheme \<Rightarrow> (unit, 'a kproc_scheme) outcome" where
  "switchuvm p s =
     (case p of
        None \<Rightarrow> Panic ''switchuvm: no process''
      | Some p \<Rightarrow>
          if kstack (procs s ! p) = NULL then Panic ''switchuvm: no kstack''
          else if pgdir (procs s ! p) = NULL then Panic ''switchuvm: no pgdir''
          else bindo (pushcli s) (\<lambda>_ s.
               bindo (mycpu s) (\<lambda>i s.
                 let s = s\<lparr>tss_esp0 := (tss_esp0 s)(i := kstack (procs s ! p) + KSTACKSIZE)\<rparr> in
               bindo (V2P (pgdir (procs s ! p)) s) (\<lambda>pa s.
                 popcli (s\<lparr>cr3 := pa\<rparr>)))))"

section \<open>Giving up the processor\<close>

definition sched :: "'a kproc_scheme \<Rightarrow> (unit, 'a kproc_scheme) outcome" where
  "sched s =
     bindo (myproc s) (\<lambda>p s.
     bindo (holding PtableLock s) (\<lambda>h s.
       if \<not> h then Panic ''sched ptable.lock''
       else
     bindo (mycpu s) (\<lambda>i s.
       if c_ncli (cpus s ! i) \<noteq> 1 then Panic ''sched locks''
       else case p of
         None \<Rightarrow> Fault ''sched: null process''
       | Some p \<Rightarrow>
           if pstate (procs s ! p) = RUNNING then Panic ''sched running''
           else if fl_if s then Panic ''sched interruptible''
           else Switch (upd_proc p (\<lambda>q. q\<lparr>kctx := InSched (c_intena (cpus s ! i))\<rparr>) s))))"

definition sched_resume :: "nat \<Rightarrow> 'a kproc_scheme \<Rightarrow> (unit, 'a kproc_scheme) outcome" where
  "sched_resume p s =
     (case kctx (procs s ! p) of
        Forkret \<Rightarrow> Fault ''context''
      | InSched intena \<Rightarrow> bindo (mycpu s) (\<lambda>i s. Ok () (upd_cpu i (\<lambda>c. c\<lparr>c_intena := intena\<rparr>) s)))"

definition yield :: "'a kproc_scheme \<Rightarrow> (unit, 'a kproc_scheme) outcome" where
  "yield s =
     bindo (acquire PtableLock s) (\<lambda>_ s.
     bindo (myproc s) (\<lambda>p s.
       case p of
         None \<Rightarrow> Fault ''yield: null process''
       | Some p \<Rightarrow>
           bindo (sched (upd_proc p (\<lambda>q. q\<lparr>pstate := RUNNABLE\<rparr>) s)) (\<lambda>_ s. release PtableLock s)))"

definition yield_resume :: "nat \<Rightarrow> 'a kproc_scheme \<Rightarrow> (unit, 'a kproc_scheme) outcome" where
  "yield_resume p s = bindo (sched_resume p s) (\<lambda>_ s. release PtableLock s)"

definition sleep_tail :: "nat \<Rightarrow> lockid \<Rightarrow> 'a kproc_scheme \<Rightarrow> (unit, 'a kproc_scheme) outcome" where
  "sleep_tail p lk s =
     (let s = upd_proc p (\<lambda>q. q\<lparr>pchan := None\<rparr>) s in
      if lk \<noteq> PtableLock then bindo (release PtableLock s) (\<lambda>_ s. acquire lk s)
      else Ok () s)"

definition sleep :: "chan \<Rightarrow> lockid option \<Rightarrow> 'a kproc_scheme \<Rightarrow> (unit, 'a kproc_scheme) outcome" where
  "sleep ch lk s =
     bindo (myproc s) (\<lambda>p s.
       case p of
         None \<Rightarrow> Panic ''sleep''
       | Some p \<Rightarrow>
           (case lk of
              None \<Rightarrow> Panic ''sleep without lk''
            | Some lk \<Rightarrow>
                bindo (if lk \<noteq> PtableLock
                       then bindo (acquire PtableLock s) (\<lambda>_ s. release lk s)
                       else Ok () s) (\<lambda>_ s.
                bindo (sched (upd_proc p (\<lambda>q. q\<lparr>pchan := Some ch, pstate := SLEEPING\<rparr>) s)) (\<lambda>_ s.
                  sleep_tail p lk s))))"

definition sleep_resume :: "nat \<Rightarrow> lockid \<Rightarrow> 'a kproc_scheme \<Rightarrow> (unit, 'a kproc_scheme) outcome" where
  "sleep_resume p lk s = bindo (sched_resume p s) (\<lambda>_ s. sleep_tail p lk s)"

section \<open>Waking up\<close>

definition wake_one :: "nat \<Rightarrow> 'a kproc_scheme \<Rightarrow> (unit, 'a kproc_scheme) outcome" where
  "wake_one p s = insert_node (skl s) p (upd_proc p (\<lambda>q. q\<lparr>pstate := RUNNABLE\<rparr>) s)"

definition wakeup1 :: "chan option \<Rightarrow> 'a kproc_scheme \<Rightarrow> (unit, 'a kproc_scheme) outcome" where
  "wakeup1 ch s =
     for_list (\<lambda>p s.
       if pstate (procs s ! p) = SLEEPING \<and> pchan (procs s ! p) = ch then wake_one p s
       else Ok () s) [0..<NPROC] s"

definition wakeup :: "chan \<Rightarrow> 'a kproc_scheme \<Rightarrow> (unit, 'a kproc_scheme) outcome" where
  "wakeup ch s =
     bindo (acquire PtableLock s) (\<lambda>_ s.
     bindo (wakeup1 (Some ch) s) (\<lambda>_ s. release PtableLock s))"

fun kill_scan :: "int \<Rightarrow> nat list \<Rightarrow> 'a kproc_scheme \<Rightarrow> (int, 'a kproc_scheme) outcome" where
  "kill_scan k [] s = bindo (release PtableLock s) (\<lambda>_ s. Ok (- 1) s)"
| "kill_scan k (p # ps) s =
     (if pid (procs s ! p) = k then
        let s = upd_proc p (\<lambda>q. q\<lparr>killed := True\<rparr>) s in
        bindo (if pstate (procs s ! p) = SLEEPING then wake_one p s else Ok () s) (\<lambda>_ s.
        bindo (release PtableLock s) (\<lambda>_ s. Ok 0 s))
      else kill_scan k ps s)"

definition kill :: "int \<Rightarrow> 'a kproc_scheme \<Rightarrow> (int, 'a kproc_scheme) outcome" where
  "kill k s = bindo (acquire PtableLock s) (\<lambda>_ s. kill_scan k [0..<NPROC] s)"

section \<open>The scheduler thread\<close>

fun state_num :: "procstate \<Rightarrow> nat" where
  "state_num UNUSED = 0"
| "state_num EMBRYO = 1"
| "state_num SLEEPING = 2"
| "state_num RUNNABLE = 3"
| "state_num RUNNING = 4"
| "state_num ZOMBIE = 5"

definition highest_used :: "proc list \<Rightarrow> int" where
  "highest_used ps = fold (\<lambda>k h. if pstate (ps ! k) \<noteq> UNUSED then int k else h) [0..<NPROC] (- 1)"

definition print_slot :: "int \<Rightarrow> nat \<Rightarrow> 'a kproc_scheme \<Rightarrow> (unit, 'a kproc_scheme) outcome" where
  "print_slot highest k s =
     (let pp = procs s ! k in
      bindo (if pstate pp = UNUSED then cprintf ''[-]---:0:-(-)(-)(-)'' [] s
             else cprintf ''[%d]%s:%d:%d(%d)(%d)(%d)''
                    [CInt (word_of_int (pid pp)), CStr (Some (pname pp)), CInt (of_nat (state_num (pstate pp))),
                     CInt (word_of_int (nice_value pp)), CInt (word_of_int (max_level pp)),
                     CInt (word_of_int (virtual_deadline pp)), CInt (word_of_int (ticks_left pp))] s) (\<lambda>_ s.
        if int k \<le> highest - 1 then cprintf '','' [] s else Ok () s))"

definition print_schedlog :: "'a kproc_scheme \<Rightarrow> (unit, 'a kproc_scheme) outcome" where
  "print_schedlog s =
     (if schedlog_active s then
        if ticks s > word_of_int (schedlog_lasttick s) then Ok () (s\<lparr>schedlog_active := False\<rparr>)
        else
          bindo (cprintf ''%d|'' [CInt (ticks s)] s) (\<lambda>_ s.
            let highest = highest_used (procs s) in
          bindo (for_list (print_slot highest) [0..<nat (highest + 1)] s) (\<lambda>_ s.
            cprintf [CHR 0x0A] [] s))
      else Ok () s)"

definition run_process :: "nat \<Rightarrow> nat \<Rightarrow> 'a kproc_scheme \<Rightarrow> (unit, 'a kproc_scheme) outcome" where
  "run_process c p s =
     (let s = upd_cpu c (\<lambda>x. x\<lparr>c_proc := Some p\<rparr>) s in
      bindo (switchuvm (Some p) s) (\<lambda>_ s.
        let s = upd_proc p (\<lambda>q. q\<lparr>pstate := RUNNING, ticks_left := BFS_DEFAULT_QUANTUM\<rparr>) s in
      bindo (delete_node (skl s) p s) (\<lambda>_ s.
      bindo (print_schedlog s) (\<lambda>_ s. Switch s))))"

fun dispatch :: "nat \<Rightarrow> int \<Rightarrow> nat list \<Rightarrow> 'a kproc_scheme \<Rightarrow> (unit, 'a kproc_scheme) outcome" where
  "dispatch c next [] s = release PtableLock s"
| "dispatch c next (p # ps) s =
     (if pid (procs s ! p) \<noteq> next then dispatch c next ps s else run_process c p s)"

definition scheduler_start :: "'a kproc_scheme \<Rightarrow> (nat, 'a kproc_scheme) outcome" where
  "scheduler_start s = bindo (mycpu s) (\<lambda>c s. Ok c (upd_cpu c (\<lambda>x. x\<lparr>c_proc := None\<rparr>) s))"

definition scheduler_round :: "nat \<Rightarrow> 'a kproc_scheme \<Rightarrow> (unit, 'a kproc_scheme) outcome" where
  "scheduler_round c s =
     bindo (acquire PtableLock (s\<lparr>fl_if := True\<rparr>)) (\<lambda>_ s.
     bindo (get_minimum (skl s) s) (\<lambda>next s. dispatch c next [0..<NPROC] s))"

definition scheduler_return :: "nat \<Rightarrow> int \<Rightarrow> nat \<Rightarrow> 'a kproc_scheme \<Rightarrow> (unit, 'a kproc_scheme) outcome" where
  "scheduler_return c next p s =
     bindo (switchkvm s) (\<lambda>_ s.
     bindo (if pstate (procs s ! p) = RUNNABLE then
              let s = (if ticks_left (procs s ! p) = 0
                       then upd_proc p (\<lambda>q. q\<lparr>virtual_deadline := compute_virtual_deadline (nice_value q) s\<rparr>) s
                       else s)
              in insert_node (skl s) p s
            else Ok () s) (\<lambda>_ s.
       dispatch c next [Suc p..<NPROC] (upd_cpu c (\<lambda>x. x\<lparr>c_proc := None\<rparr>) s)))"

section \<open>Listing the processes\<close>

fun state_name :: "procstate \<Rightarrow> string" where
  "state_name UNUSED = ''unused''"
| "state_name EMBRYO = ''embryo''"
| "state_name SLEEPING = ''sleep ''"
| "state_name RUNNABLE = ''runble''"
| "state_name RUNNING = ''run   ''"
| "state_name ZOMBIE = ''zombie''"

text \<open>
  The return addresses \<^verbatim>\<open>getcallerpcs\<close> finds on the kernel stack of a sleeping process are an
  argument, since the model keeps no stacks.
\<close>

definition dump_slot :: "(nat \<Rightarrow> addr list) \<Rightarrow> nat \<Rightarrow> 'a kproc_scheme \<Rightarrow> (unit, 'a kproc_scheme) outcome" where
  "dump_slot getcallerpcs p s =
     (let q = procs s ! p in
      if pstate q = UNUSED then Ok () s
      else bindo (cprintf ''%d %s %s'' [CInt (word_of_int (pid q)), CStr (Some (state_name (pstate q))), CStr (Some (pname q))] s) (\<lambda>_ s.
           bindo (if pstate q = SLEEPING
                  then for_list (\<lambda>pc s. cprintf '' %p'' [CInt pc] s)
                         (takeWhile (\<lambda>pc. pc \<noteq> 0) (take 10 (getcallerpcs p))) s
                  else Ok () s) (\<lambda>_ s. cprintf [CHR 0x0A] [] s)))"

definition procdump :: "(nat \<Rightarrow> addr list) \<Rightarrow> 'a kproc_scheme \<Rightarrow> (unit, 'a kproc_scheme) outcome" where
  "procdump getcallerpcs s = for_list (dump_slot getcallerpcs) [0..<NPROC] s"

end
