(* ===== verification/SchedSpec.thy ===== *)
theory SchedSpec
  imports Sched
begin

text \<open>
  What the scheduler maintains.  \<open>sched_inv X q n s\<close>: the process table is well formed, the skip
  list holds the queue \<open>q\<close> with \<open>n\<close> pages free, and the entries of \<open>q\<close> are the pids and virtual
  deadlines of exactly the \<open>RUNNABLE\<close> processes outside \<open>X\<close>.  \<open>X\<close> is empty except between the
  moment a process becomes \<open>RUNNABLE\<close> and the moment it is put into the list.
\<close>

section \<open>The processor part\<close>

lemma cpus_frame [simp]:
  "cpu_ok (s\<lparr>cpus := (cpus s)[i := (cpus s ! i)\<lparr>c_proc := x\<rparr>]\<rparr>) = cpu_ok s"
  "lock_mine l (s\<lparr>cpus := (cpus s)[i := (cpus s ! i)\<lparr>c_proc := x\<rparr>]\<rparr>) = lock_mine l s"
  "lock_free l (s\<lparr>cpus := (cpus s)[i := (cpus s ! i)\<lparr>c_proc := x\<rparr>]\<rparr>) = lock_free l s"
proof -
  have "c_ncli ((cpus s)[i := (cpus s ! i)\<lparr>c_proc := x\<rparr>] ! j) = c_ncli (cpus s ! j)"
    "c_intena ((cpus s)[i := (cpus s ! i)\<lparr>c_proc := x\<rparr>] ! j) = c_intena (cpus s ! j)" for j
    by (cases "i < length (cpus s)"; auto simp: nth_list_update list_update_beyond)+
  note nth = this
  show "cpu_ok (s\<lparr>cpus := (cpus s)[i := (cpus s ! i)\<lparr>c_proc := x\<rparr>]\<rparr>) = cpu_ok s"
    unfolding cpu_ok_def cpu_index_ncli by (simp add: nth split: option.split)
qed (simp_all add: lock_mine_def lock_free_def)

lemma myproc_ok:
  assumes "cpu_ok s"
  shows "myproc s = Ok (c_proc (cpus s ! my s)) s"
proof -
  note i = cpu_okD [OF assms]
  have "popcli (psh s) = Ok () s"
    using popcli_ok [of "psh s"] i assms by (simp add: pop_psh)
  with i assms show ?thesis by (simp add: myproc_def pushcli_ok mycpu_def Let_def)
qed

lemma cpu_ok_rel:
  assumes "cpu_ok s" "1 \<le> c_ncli (cpus s ! my s)"
  shows "cpu_ok (rel l s)" "my (rel l s) = my s"
proof -
  note i = cpu_okD [OF assms(1)]
  have "cpu_index (rel l s) = Some (my s)"
    using i(1) by (simp add: rel_def cpu_index_def cpu_index_upd [of "\<lambda>c. c\<lparr>c_ncli := n\<rparr>" for n, simplified])
  note ix = this
  then show "my (rel l s) = my s" by (simp add: my_def)
  show "cpu_ok (rel l s)"
    using i(2) assms(2) by (simp add: cpu_ok_def ix) (simp add: rel_def)
qed

text \<open>\<^verbatim>\<open>sti\<close> before the scheduler takes the lock: the interrupt flag is saved as set.\<close>

lemma acquire_after_sti:
  assumes "cpu_ok s" "c_ncli (cpus s ! my s) = 0" "lock_free l s"
    and "u = s\<lparr>fl_if := True, cpus := (cpus s)[my s := (cpus s ! my s)\<lparr>c_intena := True\<rparr>]\<rparr>"
  shows "acquire l (s\<lparr>fl_if := True\<rparr>) = Ok () (acq l u)" "cpu_ok u" "my u = my s"
proof -
  note i = cpu_okD [OF assms(1)]
  have ix: "cpu_index u = Some (my s)"
    using i(1) by (simp add: assms(4) cpu_index_def cpu_index_upd [of "\<lambda>c. c\<lparr>c_intena := True\<rparr>", simplified])
  then show "my u = my s" by (simp add: my_def)
  show ok: "cpu_ok u" using i(2) assms(2) by (simp add: cpu_ok_def ix) (simp add: assms(4))
  have ix0: "cpu_index (u\<lparr>fl_if := False\<rparr>) = Some (my s)" using ix by simp
  have "pushcli (s\<lparr>fl_if := True\<rparr>) = pushcli u"
    using i(1,2) assms(2) ix0 by (simp add: pushcli_def mycpu_def Let_def upd_cpu_def) (simp add: assms(4))
  then have "acquire l (s\<lparr>fl_if := True\<rparr>) = acquire l u" by (simp add: acquire_def)
  then show "acquire l (s\<lparr>fl_if := True\<rparr>) = Ok () (acq l u)"
    using acquire_ok [OF ok] assms(3) by (simp add: assms(4) lock_free_def)
qed

lemma switchuvm_ok:
  assumes "cpu_ok s" "kstack (procs s ! p) \<noteq> NULL" "KERNBASE \<le> pgdir (procs s ! p)"
  shows "\<exists>a b. switchuvm (Some p) s = Ok () (s\<lparr>tss_esp0 := a, cr3 := b\<rparr>)"
proof -
  note i = cpu_okD [OF assms(1)]
  let ?a = "(tss_esp0 s)(my s := kstack (procs s ! p) + KSTACKSIZE)"
  let ?b = "pgdir (procs s ! p) - KERNBASE"
  let ?u = "s\<lparr>tss_esp0 := ?a, cr3 := ?b\<rparr>"
  have ok: "cpu_ok ?u" using assms(1) by simp
  have "psh ?u = (psh s)\<lparr>tss_esp0 := ?a, cr3 := ?b\<rparr>" by (simp add: psh_def)
  then have "popcli ((psh s)\<lparr>tss_esp0 := ?a, cr3 := ?b\<rparr>) = Ok () ?u"
    using popcli_ok [of "psh ?u"] pop_psh [OF ok] cpu_okD(2,3) [OF ok] ok by simp
  moreover have "pgdir (procs s ! p) \<noteq> NULL" using assms(3) by (auto simp: NULL_def KERNBASE_def)
  moreover have "procs (psh s) = procs s" "tss_esp0 (psh s) = tss_esp0 s" by (simp_all add: psh_def)
  ultimately have "switchuvm (Some p) s = Ok () ?u"
    using i assms by (simp add: switchuvm_def pushcli_ok mycpu_def V2P_def Let_def not_less)
  then show ?thesis by blast
qed

section \<open>The log line of a dispatch\<close>

lemma print_slot_ok: "\<exists>o'. print_slot h k s = Ok () (s\<lparr>outbuf := o'\<rparr>)"
proof -
  have a: "\<exists>t. cprintf_text ''[-]---:0:-(-)(-)(-)'' [] = Some t" by simp
  have b: "\<exists>t. cprintf_text ''[%d]%s:%d:%d(%d)(%d)(%d)'' [CInt a, CStr (Some n), CInt b, CInt c, CInt d, CInt e, CInt f] = Some t"
    for a b c d e f n by simp
  have c: "\<exists>t. cprintf_text '','' [] = Some t" by simp
  from a b c show ?thesis
    by (fastforce simp: print_slot_def Let_def cprintf_def)
qed

lemma for_list_outbuf:
  assumes "\<And>x s. \<exists>o'. f x s = Ok () (s\<lparr>outbuf := o'\<rparr>)"
  shows "\<exists>o'. for_list f xs s = Ok () (s\<lparr>outbuf := o'\<rparr>)"
proof (induction xs arbitrary: s)
  case Nil
  show ?case by (intro exI [of _ "outbuf s"]) simp
next
  case (Cons x xs)
  obtain o1 where "f x s = Ok () (s\<lparr>outbuf := o1\<rparr>)" using assms by blast
  moreover obtain o2 where "for_list f xs (s\<lparr>outbuf := o1\<rparr>) = Ok () (s\<lparr>outbuf := o1\<rparr>\<lparr>outbuf := o2\<rparr>)"
    using Cons.IH by blast
  ultimately show ?case by (intro exI [of _ o2]) simp
qed

lemma print_schedlog_ok: "\<exists>o' b. print_schedlog s = Ok () (s\<lparr>outbuf := o', schedlog_active := b\<rparr>)"
proof (cases "schedlog_active s \<and> \<not> ticks s > word_of_int (schedlog_lasttick s)")
  case True
  obtain t1 where t1: "cprintf ''%d|'' [CInt (ticks s)] s = Ok () (s\<lparr>outbuf := t1\<rparr>)"
    by (simp add: cprintf_def)
  obtain t2 where t2: "for_list (print_slot (highest_used (procs s))) [0..<nat (highest_used (procs s) + 1)] (s\<lparr>outbuf := t1\<rparr>)
      = Ok () (s\<lparr>outbuf := t2\<rparr>)"
    using for_list_outbuf [of "print_slot (highest_used (procs s))", OF print_slot_ok, of "[0..<nat (highest_used (procs s) + 1)]" "s\<lparr>outbuf := t1\<rparr>"]
    by auto
  have "\<exists>t. cprintf_text [CHR 0x0A] [] = Some t" by simp
  then obtain t3 where "cprintf [CHR 0x0A] [] (s\<lparr>outbuf := t2\<rparr>) = Ok () (s\<lparr>outbuf := t3\<rparr>)"
    by (fastforce simp: cprintf_def)
  then have "print_schedlog s = Ok () (s\<lparr>outbuf := t3\<rparr>)" using True t1 t2 by (simp add: print_schedlog_def Let_def)
  then show ?thesis by (intro exI [of _ t3] exI [of _ "schedlog_active s"]) simp
next
  case False
  then have "print_schedlog s = Ok () (s\<lparr>outbuf := outbuf s, schedlog_active := False\<rparr>) \<or>
     print_schedlog s = Ok () (s\<lparr>outbuf := outbuf s, schedlog_active := schedlog_active s\<rparr>)"
    by (auto simp: print_schedlog_def)
  then show ?thesis by blast
qed

section \<open>The process table and the run queue\<close>

definition entry_of :: "proc \<Rightarrow> int \<times> int" where
  "entry_of p = (pid p, virtual_deadline p)"

definition live :: "proc \<Rightarrow> bool" where
  "live p = (pstate p \<in> {SLEEPING, RUNNABLE, RUNNING})"

definition table_ok :: "proc list \<Rightarrow> bool" where
  "table_ok ps =
     (length ps = NPROC \<and>
      (\<forall>i < NPROC. \<forall>j < NPROC. pid (ps ! i) = pid (ps ! j) \<longrightarrow> pid (ps ! i) = 0 \<or> i = j) \<and>
      (\<forall>i < NPROC. 0 \<le> pid (ps ! i)) \<and>
      (\<forall>i < NPROC. live (ps ! i) \<longrightarrow> 0 < pid (ps ! i) \<and> 0 \<le> virtual_deadline (ps ! i)))"

definition ready :: "nat set \<Rightarrow> proc list \<Rightarrow> (int \<times> int) set" where
  "ready X ps = {entry_of (ps ! i) | i. i < NPROC \<and> pstate (ps ! i) = RUNNABLE \<and> i \<notin> X}"

definition sched_inv :: "nat set \<Rightarrow> (int \<times> int) list \<Rightarrow> nat \<Rightarrow> 'a kproc_scheme \<Rightarrow> bool" where
  "sched_inv X q n s =
     (queue_rep (skl s) q n s \<and> table_ok (procs s) \<and> distinct (map fst q) \<and> set q = ready X (procs s))"

lemma table_ok_upd:
  assumes "table_ok ps" "pid x = pid (ps ! p)" "live x \<Longrightarrow> 0 < pid x \<and> 0 \<le> virtual_deadline x"
  shows "table_ok (ps[p := x])"
proof -
  have pid: "pid (ps[p := x] ! i) = pid (ps ! i)" for i
    using assms(2) by (cases "p < length ps"; cases "i = p") (auto simp: nth_list_update list_update_beyond)
  have "live (ps[p := x] ! i) \<longrightarrow> 0 < pid (ps ! i) \<and> 0 \<le> virtual_deadline (ps[p := x] ! i)" if "i < NPROC" for i
    using assms that by (cases "i = p") (auto simp: table_ok_def)
  then show ?thesis using assms(1) unfolding table_ok_def pid by simp
qed

lemma pid_distinct:
  "table_ok ps \<Longrightarrow> i < NPROC \<Longrightarrow> j < NPROC \<Longrightarrow> i \<noteq> j \<Longrightarrow> 0 < pid (ps ! j) \<Longrightarrow> pid (ps ! i) \<noteq> pid (ps ! j)"
  unfolding table_ok_def by (metis less_irrefl)

lemma ready_upd_same:
  assumes "length ps = NPROC" "entry_of x = entry_of (ps ! p)"
    and "p \<notin> X \<Longrightarrow> (pstate x = RUNNABLE) = (pstate (ps ! p) = RUNNABLE)"
  shows "ready X (ps[p := x]) = ready X ps"
proof -
  have "entry_of (ps[p := x] ! i) = entry_of (ps ! i) \<and>
      (i \<notin> X \<longrightarrow> (pstate (ps[p := x] ! i) = RUNNABLE) = (pstate (ps ! i) = RUNNABLE))" if "i < NPROC" for i
    using assms that by (cases "i = p") auto
  then show ?thesis unfolding ready_def by (intro Collect_cong ex_cong1) auto
qed

lemma ready_insert:
  assumes "p < NPROC" "pstate (ps ! p) = RUNNABLE" "p \<notin> X"
  shows "ready X ps = insert (entry_of (ps ! p)) (ready (insert p X) ps)"
  using assms unfolding ready_def by blast

lemma pid_of_ready:
  assumes "table_ok ps" "p < NPROC" "e \<in> ready X ps" "fst e = pid (ps ! p)" "live (ps ! p)"
  shows "e = entry_of (ps ! p) \<and> pstate (ps ! p) = RUNNABLE \<and> p \<notin> X"
proof -
  from assms(3) obtain i where i: "i < NPROC" "pstate (ps ! i) = RUNNABLE" "i \<notin> X" "e = entry_of (ps ! i)"
    by (auto simp: ready_def)
  have "0 < pid (ps ! p)" using assms(1,2,5) by (simp add: table_ok_def)
  moreover have "pid (ps ! i) = pid (ps ! p)" using assms(4) i(4) by (simp add: entry_of_def)
  ultimately have "i = p" using pid_distinct [OF assms(1) i(1) assms(2)] by blast
  with i show ?thesis by simp
qed

lemma set_enq: "set (enq e q) = insert e (set q)"
  by (auto simp: enq_def)

lemma distinct_enq: "distinct (map fst (enq e q)) \<longleftrightarrow> fst e \<notin> fst ` set q \<and> distinct (map fst q)"
proof -
  have "mset (map fst (enq e q)) = mset (map fst (e # q))" by (simp add: enq_mset)
  then have "distinct (map fst (enq e q)) = distinct (map fst (e # q))" by (rule mset_eq_imp_distinct_iff)
  then show ?thesis by simp
qed

lemma rq_frameD:
  assumes "rq_frame s t"
  shows "skl t = skl s" "cpus t = cpus s" "locks t = locks s" "fl_if t = fl_if s" "ticks t = ticks s"
    "my t = my s" "cpu_ok t = cpu_ok s" "lock_mine l t = lock_mine l s" "lock_free l t = lock_free l s"
    "kpgdir t = kpgdir s" "nextpid t = nextpid s" "initproc t = initproc s" "use_lock t = use_lock s"
proof -
  have t: "t = s\<lparr>freelist := freelist t, mem := mem t, outbuf := outbuf t, procs := procs t, seed := seed t\<rparr>"
    using assms unfolding rq_frame_def .
  show "skl t = skl s" "cpus t = cpus s" "locks t = locks s" "fl_if t = fl_if s" "ticks t = ticks s"
    "my t = my s" "cpu_ok t = cpu_ok s" "lock_mine l t = lock_mine l s" "lock_free l t = lock_free l s"
    "kpgdir t = kpgdir s" "nextpid t = nextpid s" "initproc t = initproc s" "use_lock t = use_lock s"
    by (subst t, simp)+
qed

text \<open>\<^verbatim>\<open>insert_node\<close> on a runnable process that is not in the list yet.\<close>

lemma requeue:
  assumes inv: "sched_inv (insert p X) q n s" and p: "p \<notin> X" "p < NPROC" "pstate (procs s ! p) = RUNNABLE"
    and d: "seed_after (Suc k) (seed s) \<noteq> None" and n: "4 \<le> n"
  shows "\<exists>t n' l. insert_node (skl s) p s = Ok () t \<and> sched_inv X (enq (entry_of (procs s ! p)) q) n' t \<and> n \<le> n' + 4 \<and>
    seed_after k (seed t) \<noteq> None \<and> procs t = (procs s)[p := (procs s ! p)\<lparr>max_level := l\<rparr>] \<and> rq_frame s t"
proof -
  have q: "queue_rep (skl s) q n s" and tab: "table_ok (procs s)" and dq: "distinct (map fst q)"
    and sq: "set q = ready (insert p X) (procs s)"
    using inv by (simp_all add: sched_inv_def)
  obtain l sd where l: "draw_level 4 (seed s) = (l, sd)" by fastforce
  have l3: "l \<le> 3" "seed_after k sd \<noteq> None" using d l by (auto split: if_splits)
  have len: "p < length (procs s)" using p(2) tab by (simp add: table_ok_def)
  obtain t where t: "insert_node (skl s) p s = Ok () t"
    "queue_rep (skl s) (enq (entry_of (procs s ! p)) q) (n - l - 1) t"
    "procs t = (procs s)[p := (procs s ! p)\<lparr>max_level := int l\<rparr>]" "seed t = sd" "rq_frame s t"
    using insert_node_enq [OF q len l l3(1)] l3(1) n by (auto simp: entry_of_def)
  have live: "live (procs s ! p)" using p(3) by (simp add: live_def)
  have "fst (entry_of (procs s ! p)) \<notin> fst ` set q"
  proof
    assume "fst (entry_of (procs s ! p)) \<in> fst ` set q"
    then obtain e where "e \<in> ready (insert p X) (procs s)" "fst e = pid (procs s ! p)"
      using sq by (auto simp: entry_of_def)
    from pid_of_ready [OF tab p(2) this live] show False by simp
  qed
  then have dis: "distinct (map fst (enq (entry_of (procs s ! p)) q))" using dq by (simp add: distinct_enq)
  have tab': "table_ok (procs t)"
    unfolding t(3) using tab live p(2) by (intro table_ok_upd) (auto simp: table_ok_def live_def)
  have "ready X (procs t) = ready X (procs s)"
    unfolding t(3) using tab by (intro ready_upd_same) (simp_all add: table_ok_def entry_of_def)
  then have "set (enq (entry_of (procs s ! p)) q) = ready X (procs t)"
    using ready_insert [OF p(2,3,1)] sq by (simp add: set_enq)
  then have "sched_inv X (enq (entry_of (procs s ! p)) q) (n - l - 1) t"
    using t(2) tab' dis rq_frameD(1) [OF t(5)] by (simp add: sched_inv_def)
  then show ?thesis
    using t l3 n by (intro exI [of _ t] exI [of _ "n - l - 1"] exI [of _ "int l"]) auto
qed

text \<open>\<^verbatim>\<open>delete_node\<close> on the process at the head.\<close>

lemma unqueue:
  assumes q: "queue_rep sk (e # q) n s" and p: "p < length (procs s)" and e: "entry_of (procs s ! p) = e"
    and d: "distinct (map fst (e # q))" "0 \<le> fst e" "0 \<le> snd e"
  shows "\<exists>t n'. delete_node sk p s = Ok () t \<and> queue_rep sk q n' t \<and> n \<le> n' \<and>
    procs t = (procs s)[p := (procs s ! p)\<lparr>max_level := - 1\<rparr>] \<and> rq_frame s t"
proof -
  have f: "findable (fst e) (snd e) (e # q)"
    using findable_head [of "fst e" "snd e" q] queue_rep_sorted [OF q] d(1) by simp
  have "\<forall>x \<in> set q. fst x \<noteq> fst e" using d(1) by (metis distinct.simps(2) image_eqI list.set_map list.simps(9))
  then have "filter (\<lambda>x. fst x \<noteq> fst e) (e # q) = q" by (simp add: filter_id_conv)
  then show ?thesis
    using delete_node_ok [OF q p _ _ _ _ f] e d(2,3) by (fastforce simp: entry_of_def)
qed

section \<open>Waking up\<close>

lemma seed_after_less: "j \<le> k \<Longrightarrow> seed_after k sd \<noteq> None \<Longrightarrow> seed_after j sd \<noteq> None"
  using seed_after_append [of j "k - j" sd] by (cases "seed_after j sd") simp_all

lemma sched_inv_len: "sched_inv X q n s \<Longrightarrow> length (procs s) = NPROC"
  by (simp add: sched_inv_def table_ok_def)

lemma nth_upd_proc [simp]:
  "p < length (procs s) \<Longrightarrow> procs (upd_proc p f s) ! i = (if i = p then f (procs s ! p) else procs s ! i)"
  by (simp add: upd_proc_def)

lemma skl_upd_proc [simp]: "skl (upd_proc p f s) = skl s"
  by (simp add: upd_proc_def)

lemma rq_frame_refl [simp]: "rq_frame s s"
  by (simp add: rq_frame_def)

lemma rq_frame_trans: "rq_frame s t \<Longrightarrow> rq_frame t u \<Longrightarrow> rq_frame s u"
proof -
  assume t: "rq_frame s t" and u: "rq_frame t u"
  show ?thesis
    unfolding rq_frame_def
    by (subst u [unfolded rq_frame_def], subst (1) t [unfolded rq_frame_def]) simp
qed

lemma rq_frame_upd_proc: "rq_frame s (upd_proc p f s)"
  by (simp add: rq_frame_def upd_proc_def)

text \<open>Making a process runnable takes it out of the account until it is put into the list.\<close>

lemma sched_inv_runnable:
  assumes inv: "sched_inv X q n s" and p: "p < NPROC" "pstate (procs s ! p) \<noteq> RUNNABLE" "live (procs s ! p)"
    and f: "pid (f (procs s ! p)) = pid (procs s ! p)"
      "live (f (procs s ! p)) \<Longrightarrow> 0 \<le> virtual_deadline (f (procs s ! p))"
  shows "sched_inv (insert p X) q n (upd_proc p f s)"
proof -
  let ?ps = "(procs s)[p := f (procs s ! p)]"
  have tab: "table_ok (procs s)" and len: "length (procs s) = NPROC"
    using inv by (simp_all add: sched_inv_def table_ok_def)
  have "table_ok ?ps"
    using tab p f by (intro table_ok_upd) (auto simp: table_ok_def)
  moreover have "ready (insert p X) ?ps = ready X (procs s)"
  proof -
    have "ready (insert p X) ?ps = ready (insert p X) (procs s)"
      unfolding ready_def using len by (intro Collect_cong ex_cong1) auto
    also have "\<dots> = ready X (procs s)" unfolding ready_def using p by (intro Collect_cong ex_cong1) auto
    finally show ?thesis .
  qed
  ultimately show ?thesis using inv by (simp add: sched_inv_def upd_proc_def)
qed

lemma sched_inv_upd_same:
  assumes inv: "sched_inv X q n s" and p: "p < NPROC"
    and f: "entry_of (f (procs s ! p)) = entry_of (procs s ! p)" "pstate (f (procs s ! p)) = pstate (procs s ! p)"
  shows "sched_inv X q n (upd_proc p f s)"
proof -
  have tab: "table_ok (procs s)" using inv by (simp add: sched_inv_def)
  have "table_ok ((procs s)[p := f (procs s ! p)])"
    using tab p f by (intro table_ok_upd) (auto simp: table_ok_def entry_of_def live_def)
  moreover have "ready X ((procs s)[p := f (procs s ! p)]) = ready X (procs s)"
    using tab f by (intro ready_upd_same) (simp_all add: table_ok_def)
  ultimately show ?thesis using inv by (simp add: sched_inv_def upd_proc_def)
qed

lemma wake_one_ok:
  assumes inv: "sched_inv X q n s" and p: "p \<notin> X" "p < NPROC" "pstate (procs s ! p) = SLEEPING"
    and d: "seed_after (Suc k) (seed s) \<noteq> None" and n: "4 \<le> n"
  shows "\<exists>t n' l. wake_one p s = Ok () t \<and> sched_inv X (enq (entry_of (procs s ! p)) q) n' t \<and> n \<le> n' + 4 \<and>
    seed_after k (seed t) \<noteq> None \<and> procs t = (procs s)[p := (procs s ! p)\<lparr>pstate := RUNNABLE, max_level := l\<rparr>] \<and>
    rq_frame s t"
proof -
  let ?s = "upd_proc p (\<lambda>q. q\<lparr>pstate := RUNNABLE\<rparr>) s"
  have live: "live (procs s ! p)" using p(3) by (simp add: live_def)
  have vd: "0 \<le> virtual_deadline (procs s ! p)"
    using inv p(2) live by (simp add: sched_inv_def table_ok_def)
  have len: "p < length (procs s)" using sched_inv_len [OF inv] p(2) by simp
  have i1: "sched_inv (insert p X) q n ?s"
    by (rule sched_inv_runnable [OF inv p(2)]) (use p(3) live vd in simp_all)
  have e: "entry_of (procs ?s ! p) = entry_of (procs s ! p)" using len by (simp add: entry_of_def)
  have r: "pstate (procs ?s ! p) = RUNNABLE" using len by simp
  obtain t n' l where t: "insert_node (skl ?s) p ?s = Ok () t"
    "sched_inv X (enq (entry_of (procs s ! p)) q) n' t" "n \<le> n' + 4" "seed_after k (seed t) \<noteq> None"
    "procs t = (procs ?s)[p := (procs ?s ! p)\<lparr>max_level := l\<rparr>]" "rq_frame ?s t"
    using requeue [OF i1 p(1,2) r _ n, of k, unfolded e] d by auto
  have "procs t = (procs s)[p := (procs s ! p)\<lparr>pstate := RUNNABLE, max_level := l\<rparr>]"
    unfolding t(5) using len by (simp add: upd_proc_def)
  moreover have "wake_one p s = Ok () t" using t(1) by (simp add: wake_one_def)
  ultimately show ?thesis
    using t rq_frame_trans [OF rq_frame_upd_proc t(6)] by blast
qed

definition woken :: "chan option \<Rightarrow> nat set \<Rightarrow> nat \<Rightarrow> proc \<Rightarrow> procstate" where
  "woken ch A i p = (if i \<in> A \<and> pstate p = SLEEPING \<and> pchan p = ch then RUNNABLE else pstate p)"

lemma wakeup_loop:
  assumes "sched_inv X q n s" "distinct ps" "set ps \<subseteq> {..<NPROC}" "set ps \<inter> X = {}"
    and "seed_after (length ps) (seed s) \<noteq> None" "4 * length ps \<le> n"
  shows "\<exists>t q' n'. for_list (\<lambda>p s. if pstate (procs s ! p) = SLEEPING \<and> pchan (procs s ! p) = ch then wake_one p s
       else Ok () s) ps s = Ok () t \<and> sched_inv X q' n' t \<and> n \<le> n' + 4 * length ps \<and> rq_frame s t \<and>
    (\<forall>i < NPROC. \<exists>l. procs t ! i = (procs s ! i)\<lparr>pstate := woken ch (set ps) i (procs s ! i), max_level := l\<rparr>)"
  using assms
proof (induction ps arbitrary: q n s)
  case Nil
  have "\<exists>l. procs s ! i = (procs s ! i)\<lparr>pstate := woken ch (set []) i (procs s ! i), max_level := l\<rparr>" for i
    by (intro exI [of _ "max_level (procs s ! i)"]) (simp add: woken_def)
  then show ?case using Nil(1) by auto
next
  case (Cons p ps)
  have p: "p < NPROC" "p \<notin> X" "p \<notin> set ps" using Cons.prems by auto
  have len: "p < length (procs s)" using sched_inv_len [OF Cons.prems(1)] p(1) by simp
  show ?case
  proof (cases "pstate (procs s ! p) = SLEEPING \<and> pchan (procs s ! p) = ch")
    case True
    obtain t n1 l where t: "wake_one p s = Ok () t" "sched_inv X (enq (entry_of (procs s ! p)) q) n1 t" "n \<le> n1 + 4"
      "seed_after (length ps) (seed t) \<noteq> None"
      "procs t = (procs s)[p := (procs s ! p)\<lparr>pstate := RUNNABLE, max_level := l\<rparr>]" "rq_frame s t"
      using wake_one_ok [OF Cons.prems(1) p(2,1), of "length ps"] True Cons.prems by auto
    obtain u q2 n2 where u: "for_list (\<lambda>p s. if pstate (procs s ! p) = SLEEPING \<and> pchan (procs s ! p) = ch
        then wake_one p s else Ok () s) ps t = Ok () u" "sched_inv X q2 n2 u" "n1 \<le> n2 + 4 * length ps" "rq_frame t u"
      "\<forall>i < NPROC. \<exists>l. procs u ! i = (procs t ! i)\<lparr>pstate := woken ch (set ps) i (procs t ! i), max_level := l\<rparr>"
      using Cons.IH [OF t(2) _ _ _ t(4)] Cons.prems t(3) by auto
    have "\<exists>l. procs u ! i = (procs s ! i)\<lparr>pstate := woken ch (set (p # ps)) i (procs s ! i), max_level := l\<rparr>"
      if i: "i < NPROC" for i
    proof -
      obtain l' where l': "procs u ! i = (procs t ! i)\<lparr>pstate := woken ch (set ps) i (procs t ! i), max_level := l'\<rparr>"
        using u(5) i by blast
      show ?thesis
        by (rule exI [of _ l']) (use l' True p(3) len in \<open>auto simp: t(5) nth_list_update woken_def\<close>)
    qed
    then show ?thesis
      using True t(1,3) u rq_frame_trans [OF t(6) u(4)] by (intro exI [of _ u] exI [of _ q2] exI [of _ n2]) auto
  next
    case False
    obtain u q2 n2 where u: "for_list (\<lambda>p s. if pstate (procs s ! p) = SLEEPING \<and> pchan (procs s ! p) = ch
        then wake_one p s else Ok () s) ps s = Ok () u" "sched_inv X q2 n2 u" "n \<le> n2 + 4 * length ps" "rq_frame s u"
      "\<forall>i < NPROC. \<exists>l. procs u ! i = (procs s ! i)\<lparr>pstate := woken ch (set ps) i (procs s ! i), max_level := l\<rparr>"
      using Cons.IH [OF Cons.prems(1)] Cons.prems seed_after_less [of "length ps" "length (p # ps)" "seed s"] by auto
    have "woken ch (set (p # ps)) i (procs s ! i) = woken ch (set ps) i (procs s ! i)" for i
      using False by (auto simp: woken_def)
    then show ?thesis
      using False u by (intro exI [of _ u] exI [of _ q2] exI [of _ n2]) auto
  qed
qed

section \<open>Choosing a process\<close>

lemma queue_rep_mach:
  assumes "queue_rep sk q n s" "mem t = mem s" "freelist t = freelist s" "kend t = kend s" "kmem_lockable t"
  shows "queue_rep sk q n t"
proof -
  have "phys_page t = phys_page s" using assms(4) by (simp add: phys_page_def fun_eq_iff)
  then show ?thesis
    using assms unfolding queue_rep_def rq_mem_def kmem_ok_def by simp blast
qed

lemma queue_rep_lockable: "queue_rep sk q n s \<Longrightarrow> kmem_lockable s"
  by (auto simp: queue_rep_def rq_mem_def)

lemma dispatch_finds:
  assumes "p < NPROC" "k \<le> p" "pid (procs s ! p) = next" "\<And>i. k \<le> i \<Longrightarrow> i < p \<Longrightarrow> pid (procs s ! i) \<noteq> next"
  shows "dispatch c next [k..<NPROC] s = run_process c p s"
  using assms(2,4)
proof (induction "p - k" arbitrary: k)
  case 0
  then have "k = p" by simp
  then show ?case using assms(1,3) by (simp add: upt_conv_Cons)
next
  case (Suc d)
  then have k: "k < p" "pid (procs s ! k) \<noteq> next" by simp_all
  have "dispatch c next [Suc k..<NPROC] s = run_process c p s"
    by (rule Suc.hyps(1)) (use Suc k in auto)
  then show ?case using k assms(1) by (simp add: upt_conv_Cons)
qed

lemma dispatch_none:
  assumes "\<And>i. i \<in> set ps \<Longrightarrow> pid (procs s ! i) \<noteq> next"
  shows "dispatch c next ps s = release PtableLock s"
  using assms by (induction ps) auto

lemma head_process:
  assumes inv: "sched_inv {} (e # q) n s"
  obtains p where "p < NPROC" "pstate (procs s ! p) = RUNNABLE" "entry_of (procs s ! p) = e"
    "\<And>i. i < NPROC \<Longrightarrow> i \<noteq> p \<Longrightarrow> pid (procs s ! i) \<noteq> fst e"
    "\<And>i. i < NPROC \<Longrightarrow> pstate (procs s ! i) = RUNNABLE \<Longrightarrow> virtual_deadline (procs s ! p) \<le> virtual_deadline (procs s ! i)"
    "0 < fst e" "0 \<le> snd e"
proof -
  have q: "queue_rep (skl s) (e # q) n s" and tab: "table_ok (procs s)" and sq: "set (e # q) = ready {} (procs s)"
    using inv by (simp_all add: sched_inv_def)
  then have "e \<in> ready {} (procs s)" by auto
  then obtain p where p: "p < NPROC" "pstate (procs s ! p) = RUNNABLE" "entry_of (procs s ! p) = e"
    by (auto simp: ready_def)
  have live: "0 < pid (procs s ! p)" "0 \<le> virtual_deadline (procs s ! p)"
    using tab p(1,2) by (simp_all add: table_ok_def live_def)
  have "pid (procs s ! i) \<noteq> fst e" if "i < NPROC" "i \<noteq> p" for i
    using pid_distinct [OF tab that(1) p(1) that(2) live(1)] p(3) by (auto simp: entry_of_def)
  moreover have "virtual_deadline (procs s ! p) \<le> virtual_deadline (procs s ! i)"
    if "i < NPROC" "pstate (procs s ! i) = RUNNABLE" for i
  proof -
    have "entry_of (procs s ! i) \<in> set (e # q)" using that sq by (auto simp: ready_def)
    then have "snd e \<le> snd (entry_of (procs s ! i))" using queue_rep_sorted [OF q] by auto
    then show ?thesis using p(3) by (auto simp: entry_of_def)
  qed
  moreover have "0 < fst e" "0 \<le> snd e" using live p(3) by (auto simp: entry_of_def)
  ultimately show thesis using that p by blast
qed

lemma run_process_ok:
  assumes inv: "sched_inv {} (e # q) n s" and p: "p < NPROC" "pstate (procs s ! p) = RUNNABLE" "entry_of (procs s ! p) = e"
    and cpu: "cpu_ok s" "c = my s" and ks: "kstack (procs s ! p) \<noteq> NULL" "KERNBASE \<le> pgdir (procs s ! p)"
  shows "\<exists>t n'. run_process c p s = Switch t \<and> sched_inv {} q n' t \<and> n \<le> n' \<and>
    c_proc (cpus t ! c) = Some p \<and> cpus t = (cpus s)[c := (cpus s ! c)\<lparr>c_proc := Some p\<rparr>] \<and> locks t = locks s \<and>
    procs t = (procs s)[p := (procs s ! p)\<lparr>pstate := RUNNING, ticks_left := BFS_DEFAULT_QUANTUM, max_level := - 1\<rparr>] \<and>
    my t = my s \<and> cpu_ok t"
proof -
  have q: "queue_rep (skl s) (e # q) n s" and tab: "table_ok (procs s)" and dq: "distinct (map fst (e # q))"
    and sq: "set (e # q) = ready {} (procs s)"
    using inv by (simp_all add: sched_inv_def)
  have len: "length (procs s) = NPROC" using tab by (simp add: table_ok_def)
  have live: "0 < pid (procs s ! p)" "0 \<le> virtual_deadline (procs s ! p)"
    using tab p(1,2) by (simp_all add: table_ok_def live_def)
  let ?s1 = "s\<lparr>cpus := (cpus s)[c := (cpus s ! c)\<lparr>c_proc := Some p\<rparr>]\<rparr>"
  have "cpu_ok ?s1" using cpu(1) by simp
  from switchuvm_ok [OF this, of p] ks obtain a b where
    sw: "switchuvm (Some p) ?s1 = Ok () (?s1\<lparr>tss_esp0 := a, cr3 := b\<rparr>)" by auto
  let ?f = "\<lambda>q. q\<lparr>pstate := RUNNING, ticks_left := BFS_DEFAULT_QUANTUM\<rparr>"
  let ?s2 = "upd_proc p ?f (?s1\<lparr>tss_esp0 := a, cr3 := b\<rparr>)"
  have km: "kmem_lockable ?s2"
    using queue_rep_lockable [OF q] by (simp add: kmem_lockable_def upd_proc_def)
  have q2: "queue_rep (skl ?s2) (e # q) n ?s2"
    by (rule queue_rep_mach [of _ _ _ s]) (use q km in \<open>simp_all add: upd_proc_def\<close>)
  have e2: "p < length (procs ?s2)" "entry_of (procs ?s2 ! p) = e"
    using p len by (simp_all add: upd_proc_def entry_of_def)
  have e0: "0 \<le> fst e" "0 \<le> snd e" using live p(3) by (auto simp: entry_of_def)
  obtain t n' where t: "delete_node (skl ?s2) p ?s2 = Ok () t" "queue_rep (skl ?s2) q n' t" "n \<le> n'"
    "procs t = (procs ?s2)[p := (procs ?s2 ! p)\<lparr>max_level := - 1\<rparr>]" "rq_frame ?s2 t"
    using unqueue [OF q2 e2 dq e0] by blast
  note fr = rq_frameD [OF t(5)]
  obtain o' al where pr: "print_schedlog t = Ok () (t\<lparr>outbuf := o', schedlog_active := al\<rparr>)"
    using print_schedlog_ok by blast
  let ?t = "t\<lparr>outbuf := o', schedlog_active := al\<rparr>"
  have run: "run_process c p s = Switch ?t"
    using sw t(1) pr by (simp add: run_process_def upd_cpu_def Let_def)
  have ps: "procs ?t = (procs s)[p := (procs s ! p)\<lparr>pstate := RUNNING, ticks_left := BFS_DEFAULT_QUANTUM, max_level := - 1\<rparr>]"
    unfolding t(4) using p(1) len by (simp add: upd_proc_def t(4))
  have "table_ok (procs ?t)"
    unfolding ps using tab live by (intro table_ok_upd) (auto simp: live_def)
  moreover have "set q = ready {} (procs ?t)"
  proof -
    have "ready {} (procs ?t) = ready {p} (procs s)"
      unfolding ps ready_def using len p(1) by (intro Collect_cong ex_cong1) (auto simp: nth_list_update)
    moreover have "ready {} (procs s) = insert e (ready {p} (procs s))" using ready_insert [of p "procs s" "{}"] p by simp
    moreover have "e \<notin> ready {p} (procs s)"
      using pid_of_ready [OF tab p(1), of e "{p}"] p(2,3) by (auto simp: live_def entry_of_def)
    moreover have "e \<notin> set q" using dq by auto
    ultimately show ?thesis using sq by (metis Diff_insert_absorb insert_ident list.simps(15))
  qed
  ultimately have "sched_inv {} q n' ?t"
    using t(2) dq fr(1) by (simp add: sched_inv_def)
  moreover have "cpus ?t = (cpus s)[c := (cpus s ! c)\<lparr>c_proc := Some p\<rparr>]" "locks ?t = locks s"
    using fr(2,3) by (simp_all add: upd_proc_def)
  moreover have "my ?t = my s" "cpu_ok ?t" using fr(6,7) cpu by (simp_all add: upd_proc_def)
  moreover have "c < length (cpus s)" using cpu_okD(2) [OF cpu(1)] cpu(2) by simp
  ultimately show ?thesis
    using run t(3) ps by (intro exI [of _ ?t] exI [of _ n']) simp
qed

lemma kmem_lockable_acq:
  "kmem_lockable s \<Longrightarrow> cpu_ok s \<Longrightarrow> l \<noteq> KmemLock \<Longrightarrow> kmem_lockable (acq l s)"
  by (simp add: kmem_lockable_def)

lemma kmem_lockable_rel:
  "kmem_lockable s \<Longrightarrow> cpu_ok s \<Longrightarrow> 1 \<le> c_ncli (cpus s ! my s) \<Longrightarrow> l \<noteq> KmemLock \<Longrightarrow> kmem_lockable (rel l s)"
  using cpu_ok_rel(1) [of s l] by (auto simp: kmem_lockable_def lock_free_def) (simp_all add: rel_def)

lemma sched_inv_mach:
  assumes "sched_inv X q n s" "mem t = mem s" "freelist t = freelist s" "kend t = kend s" "kmem_lockable t"
    and "skl t = skl s" "procs t = procs s"
  shows "sched_inv X q n t"
  using assms queue_rep_mach [of "skl s" q n s t] by (simp add: sched_inv_def)

lemma rel_fields [simp]:
  "mem (rel l s) = mem s" "freelist (rel l s) = freelist s" "kend (rel l s) = kend s" "use_lock (rel l s) = use_lock s"
  by (simp_all add: rel_def)

lemma sched_inv_acq:
  assumes "sched_inv X q n s" "cpu_ok s"
  shows "sched_inv X q n (acq PtableLock s)"
  using assms kmem_lockable_acq [of s PtableLock] queue_rep_lockable [of "skl s" q n s]
  by (intro sched_inv_mach [OF assms(1)]) (simp_all add: sched_inv_def)

lemma sched_inv_rel:
  assumes "sched_inv X q n s" "cpu_ok s" "1 \<le> c_ncli (cpus s ! my s)" "l \<noteq> KmemLock"
  shows "sched_inv X q n (rel l s)"
  using assms kmem_lockable_rel [of s l] queue_rep_lockable [of "skl s" q n s]
  by (intro sched_inv_mach [OF assms(1)]) (simp_all add: sched_inv_def)

lemma scheduler_round_prefix:
  assumes inv: "sched_inv {} q n s" and cpu: "cpu_ok s" "c_ncli (cpus s ! my s) = 0" and fr: "lock_free PtableLock s"
  obtains u where "scheduler_round c s = dispatch c (case q of [] \<Rightarrow> - 69 | e # _ \<Rightarrow> fst e) [0..<NPROC] u"
    "sched_inv {} q n u" "cpu_ok u" "my u = my s" "lock_mine PtableLock u" "procs u = procs s"
    "c_ncli (cpus u ! my s) = 1" "\<And>l. l \<noteq> PtableLock \<Longrightarrow> lock_free l u = lock_free l s" "length (cpus u) = length (cpus s)"
proof -
  let ?w = "s\<lparr>fl_if := True, cpus := (cpus s)[my s := (cpus s ! my s)\<lparr>c_intena := True\<rparr>]\<rparr>"
  note a = acquire_after_sti [OF cpu fr refl]
  have km: "kmem_lockable ?w"
    using inv queue_rep_lockable [of "skl s" q n s] a(2) by (auto simp: sched_inv_def kmem_lockable_def lock_free_def)
  have w: "sched_inv {} q n ?w" by (rule sched_inv_mach [OF inv _ _ _ km]) simp_all
  have u: "sched_inv {} q n (acq PtableLock ?w)" by (rule sched_inv_acq [OF w a(2)])
  have "get_minimum (skl (acq PtableLock ?w)) (acq PtableLock ?w) =
      Ok (case q of [] \<Rightarrow> - 69 | e # _ \<Rightarrow> fst e) (acq PtableLock ?w)"
    using u by (intro get_minimum_ok) (auto simp: sched_inv_def)
  then have run: "scheduler_round c s = dispatch c (case q of [] \<Rightarrow> - 69 | e # _ \<Rightarrow> fst e) [0..<NPROC] (acq PtableLock ?w)"
    by (simp add: scheduler_round_def a(1))
  have m: "my s < length (cpus s)" using cpu_okD(2) [OF cpu(1)] .
  have n1: "c_ncli (cpus (acq PtableLock ?w) ! my s) = 1"
    using acq_cpu [of ?w PtableLock] a(3) m cpu(2) by simp
  have lf: "lock_free l (acq PtableLock ?w) = lock_free l s" if "l \<noteq> PtableLock" for l
    using that by (simp add: lock_free_def)
  show thesis
    by (rule that [of "acq PtableLock ?w", OF run u]) (use a n1 lf in simp_all)
qed

lemma scheduler_return_frame:
  assumes inv: "sched_inv {} q n s" and cpu: "cpu_ok s" "c = my s" "lock_mine PtableLock s" "c_ncli (cpus s ! c) = 1"
    and p: "p < NPROC" "next = pid (procs s ! p)" "0 < next"
  shows "\<exists>t. dispatch c next [Suc p..<NPROC] (upd_cpu c (\<lambda>x. x\<lparr>c_proc := None\<rparr>) s) = Ok () t \<and>
    sched_inv {} q n t \<and> procs t = procs s \<and> c_proc (cpus t ! c) = None \<and> lock_free PtableLock t \<and> cpu_ok t \<and> my t = c"
proof -
  let ?u = "s\<lparr>cpus := (cpus s)[c := (cpus s ! c)\<lparr>c_proc := None\<rparr>]\<rparr>"
  have m: "c < length (cpus s)" using cpu_okD(2) [OF cpu(1)] cpu(2) by simp
  have tab: "table_ok (procs s)" using inv by (simp add: sched_inv_def)
  have u: "cpu_ok ?u" "my ?u = c" "lock_mine PtableLock ?u" "c_ncli (cpus ?u ! c) = 1"
    using cpu m by simp_all
  have km: "kmem_lockable ?u"
    using inv queue_rep_lockable [of "skl s" q n s] by (simp add: sched_inv_def kmem_lockable_def)
  have iu: "sched_inv {} q n ?u" by (rule sched_inv_mach [OF inv _ _ _ km]) simp_all
  have "pid (procs ?u ! i) \<noteq> next" if "i \<in> set [Suc p..<NPROC]" for i
    using pid_distinct [OF tab _ p(1), of i] p(2,3) that by simp
  then have "dispatch c next [Suc p..<NPROC] ?u = release PtableLock ?u" by (rule dispatch_none)
  also have "\<dots> = Ok () (rel PtableLock ?u)" using release_ok [OF u(1,3)] u(2,4) by simp
  finally have run: "dispatch c next [Suc p..<NPROC] ?u = Ok () (rel PtableLock ?u)" .
  have "sched_inv {} q n (rel PtableLock ?u)" by (rule sched_inv_rel [OF iu u(1)]) (use u in simp_all)
  moreover have "c_proc (cpus (rel PtableLock ?u) ! c) = None" using m u(2) by (simp add: rel_def)
  moreover have "lock_free PtableLock (rel PtableLock ?u)" by (simp add: rel_def lock_free_def)
  moreover have "cpu_ok (rel PtableLock ?u)" "my (rel PtableLock ?u) = c" using cpu_ok_rel [OF u(1)] u(2,4) by simp_all
  moreover have "procs (rel PtableLock ?u) = procs s" by simp
  ultimately show ?thesis using run by (simp add: upd_cpu_def)
qed

section \<open>Sleeping\<close>

lemma sleep_switches:
  assumes inv: "sched_inv {} q n s" and cpu: "cpu_ok s" "c_proc (cpus s ! my s) = Some p" "c_ncli (cpus s ! my s) = 1"
    and lk: "lk \<noteq> PtableLock" "lk \<noteq> KmemLock" "lock_mine lk s" "lock_free PtableLock s"
    and p: "p < NPROC" "pstate (procs s ! p) = RUNNING"
  shows "\<exists>t. sleep ch (Some lk) s = Switch t \<and> sched_inv {} q n t \<and> pstate (procs t ! p) = SLEEPING \<and>
    pchan (procs t ! p) = Some ch \<and> entry_of (procs t ! p) = entry_of (procs s ! p) \<and>
    lock_mine PtableLock t \<and> lock_free lk t \<and> cpu_ok t \<and> my t = my s \<and> seed t = seed s"
proof -
  let ?a = "acq PtableLock s" and ?r = "rel lk (acq PtableLock s)"
  let ?f = "\<lambda>q. q\<lparr>pchan := Some ch, pstate := SLEEPING\<rparr>"
  note i = cpu_okD [OF cpu(1)]
  have acq: "acquire PtableLock s = Ok () ?a" by (rule acquire_ok [OF cpu(1) lk(4)])
  have a: "cpu_ok ?a" "lock_mine lk ?a" "1 \<le> c_ncli (cpus ?a ! my ?a)" "sched_inv {} q n ?a"
    using cpu(1) lk(1,3) sched_inv_acq [OF inv cpu(1)] by simp_all
  have rel: "release lk ?a = Ok () ?r" by (rule release_ok [OF a(1-3)])
  have r: "cpu_ok ?r" "my ?r = my s" "sched_inv {} q n ?r"
    using cpu_ok_rel [OF a(1,3)] sched_inv_rel [OF a(4,1,3) lk(2)] by simp_all
  have n1: "c_ncli (cpus ?r ! my s) = 1" and cp: "c_proc (cpus ?r ! my s) = Some p" and fi: "\<not> fl_if ?r"
    using i(2) cpu(2,3) by (simp_all add: rel_def)
  have len: "p < length (procs s)" using sched_inv_len [OF inv] p(1) by simp
  have rp: "procs ?r = procs s" by simp
  define t where "t = upd_proc p ?f ?r"
  have lv: "live (procs s ! p)" using p(2) by (simp add: live_def)
  have vd: "0 \<le> virtual_deadline (procs s ! p)" using inv p(1) lv by (simp add: sched_inv_def table_ok_def)
  have "sched_inv (insert p {}) q n t"
    unfolding t_def by (rule sched_inv_runnable [OF r(3) p(1)]) (use p(2) lv vd in simp_all)
  moreover have "ready {p} (procs t) = ready {} (procs t)"
    unfolding ready_def t_def using len by (intro Collect_cong ex_cong1) auto
  ultimately have ti: "sched_inv {} q n t" by (simp add: sched_inv_def)
  have tc: "cpu_ok t" "my t = my s" "lock_mine PtableLock t" "c_ncli (cpus t ! my s) = 1" "\<not> fl_if t"
    "c_proc (cpus t ! my s) = Some p"
    using r(1,2) n1 fi cp lk(1) by (simp_all add: t_def upd_proc_def lock_mine_def rel_def [of lk])
  let ?t = "upd_proc p (\<lambda>q. q\<lparr>kctx := InSched (c_intena (cpus t ! my s))\<rparr>) t"
  have tl: "p < length (procs t)" "pstate (procs t ! p) = SLEEPING" "pchan (procs t ! p) = Some ch"
    "entry_of (procs t ! p) = entry_of (procs s ! p)"
    using len by (simp_all add: t_def upd_proc_def entry_of_def)
  have "sched t = Switch ?t"
    using tc tl cpu_okD(1) [OF tc(1)] by (simp add: sched_def myproc_ok holding_ok mycpu_def)
  then have run: "sleep ch (Some lk) s = Switch ?t"
    using acq rel lk(1) by (simp add: sleep_def myproc_ok [OF cpu(1)] cpu(2) t_def)
  have "sched_inv {} q n ?t" by (rule sched_inv_upd_same [OF ti p(1)]) (simp_all add: entry_of_def)
  moreover have "lock_free lk ?t" by (simp add: t_def upd_proc_def lock_free_def rel_def)
  moreover have "cpu_ok ?t" "my ?t = my s" "lock_mine PtableLock ?t" "seed ?t = seed s"
    using tc by (simp_all add: upd_proc_def) (simp add: t_def upd_proc_def)
  ultimately show ?thesis
    using run tl by (intro exI [of _ ?t]) (simp add: entry_of_def)
qed

section \<open>Properties\<close>


text \<open>
  C4: When a process that became runnable again gives the processor back, the scheduler puts it into
  the run queue, with a new virtual deadline exactly when its quantum is used up, leaves no current
  process and releases the lock; no runnable process is lost.
\<close>

theorem scheduler_return_requeues:
  assumes "sched_inv {p} q n s" "p < NPROC" "pstate (procs s ! p) = RUNNABLE" "next = pid (procs s ! p)"
    and "cpu_ok s" "lock_mine PtableLock s" "c_ncli (cpus s ! my s) = 1" "KERNBASE \<le> kpgdir s"
    and "seed_after 1 (seed s) \<noteq> None" "4 \<le> n"
    and "v = (if ticks_left (procs s ! p) = 0 then compute_virtual_deadline (nice_value (procs s ! p)) s
              else virtual_deadline (procs s ! p))" "0 \<le> v"
  shows "\<exists>t n'. scheduler_return (my s) next p s = Ok () t \<and> sched_inv {} (enq (pid (procs s ! p), v) q) n' t \<and>
    c_proc (cpus t ! my s) = None \<and> lock_free PtableLock t \<and>
    virtual_deadline (procs t ! p) = v \<and> pstate (procs t ! p) = RUNNABLE"
proof -
  let ?f = "\<lambda>x. x\<lparr>virtual_deadline := v\<rparr>"
  let ?s = "upd_proc p ?f (s\<lparr>cr3 := kpgdir s - KERNBASE\<rparr>)"
  have inv: "sched_inv {p} q n (s\<lparr>cr3 := kpgdir s - KERNBASE\<rparr>)" using assms(1) by (simp add: sched_inv_def)
  have tab: "table_ok (procs s)" and len: "p < length (procs s)"
    using assms(1,2) by (simp_all add: sched_inv_def table_ok_def)
  have same: "(procs s)[p := (procs s ! p)\<lparr>virtual_deadline := virtual_deadline (procs s ! p)\<rparr>] = procs s" by simp
  have kp: "\<not> kpgdir s < KERNBASE" using assms(8) by simp
  have step: "scheduler_return (my s) next p s =
      bindo (insert_node (skl ?s) p ?s) (\<lambda>_ s'. dispatch (my s) next [Suc p..<NPROC] (upd_cpu (my s) (\<lambda>x. x\<lparr>c_proc := None\<rparr>) s'))"
  proof (cases "ticks_left (procs s ! p) = 0")
    case True
    then show ?thesis
      using assms(3,11) kp len by (simp add: scheduler_return_def switchkvm_def V2P_def Let_def upd_proc_def
          compute_virtual_deadline_def)
  next
    case False
    then have "?s = s\<lparr>cr3 := kpgdir s - KERNBASE\<rparr>" using assms(11) same by (simp add: upd_proc_def)
    then show ?thesis
      using False assms(3) kp by (simp add: scheduler_return_def switchkvm_def V2P_def Let_def)
  qed
  have pos: "0 < pid (procs s ! p)" using tab assms(2,3) by (simp add: table_ok_def live_def)
  have "table_ok (procs ?s)"
    unfolding upd_proc_def using tab pos assms(12) by (auto intro!: table_ok_upd)
  moreover have "ready {p} (procs ?s) = ready {p} (procs s)"
    unfolding ready_def using len by (intro Collect_cong ex_cong1) auto
  ultimately have i2: "sched_inv (insert p {}) q n ?s" using inv by (simp add: sched_inv_def)
  have r2: "pstate (procs ?s ! p) = RUNNABLE" and e2: "entry_of (procs ?s ! p) = (pid (procs s ! p), v)"
    using assms(3) len by (simp_all add: entry_of_def)
  obtain t n' l where t: "insert_node (skl ?s) p ?s = Ok () t" "sched_inv {} (enq (pid (procs s ! p), v) q) n' t"
    "procs t = (procs ?s)[p := (procs ?s ! p)\<lparr>max_level := l\<rparr>]" "rq_frame ?s t"
    using requeue [OF i2 _ assms(2) r2, of 0, unfolded e2] assms(9,10) by auto
  note fr = rq_frameD [OF t(4)]
  have ct: "cpu_ok t" "my t = my s" "lock_mine PtableLock t" "c_ncli (cpus t ! my s) = 1"
    using fr(2,6,7,8) assms(5,6,7) by (simp_all add: upd_proc_def)
  have tp: "pid (procs t ! p) = next" "virtual_deadline (procs t ! p) = v" "pstate (procs t ! p) = RUNNABLE"
    using t(3) len assms(3,4) by (simp_all add: upd_proc_def)
  obtain w where "dispatch (my s) next [Suc p..<NPROC] (upd_cpu (my s) (\<lambda>x. x\<lparr>c_proc := None\<rparr>) t) = Ok () w"
    "sched_inv {} (enq (pid (procs s ! p), v) q) n' w" "procs w = procs t" "c_proc (cpus w ! my s) = None"
    "lock_free PtableLock w"
    using scheduler_return_frame [OF t(2) ct(1) ct(2) [symmetric] ct(3) ct(4) assms(2) tp(1) [symmetric]] pos assms(4) by auto
  then show ?thesis using step t(1) tp by (intro exI [of _ w] exI [of _ n']) simp
qed


section \<open>Witnesses\<close>

text \<open>
  A table with the processes 1, 2 and 3; \<open>demo_table st\<close> gives process 2 the state \<open>st\<close>, the others sleep.
\<close>

definition demo_slot :: "int \<Rightarrow> int \<Rightarrow> procstate \<Rightarrow> proc" where
  "demo_slot p v st = (demo_proc p v)\<lparr>pstate := st, kstack := 0x80500000, pgdir := 0x80501000\<rparr>"

definition demo_table :: "procstate \<Rightarrow> proc list" where
  "demo_table st = [demo_slot 1 1050 SLEEPING, demo_slot 2 50 st, demo_slot 3 1050 SLEEPING] @
     replicate 61 (demo_slot 0 0 UNUSED)"

definition demo_sched :: "kproc \<Rightarrow> procstate \<Rightarrow> kproc" where
  "demo_sched s st = s\<lparr>skl := demo_sk, kpgdir := 0x80502000, procs := demo_table st\<rparr>"

lemma demo_table_nth:
  assumes "i < NPROC"
  shows "demo_table st ! i = (if i = 0 then demo_slot 1 1050 SLEEPING else if i = 1 then demo_slot 2 50 st
    else if i = 2 then demo_slot 3 1050 SLEEPING else demo_slot 0 0 UNUSED)"
proof -
  consider "i = 0" | "i = 1" | "i = 2" | j where "i = Suc (Suc (Suc j))" by (cases i; cases "i - 1"; cases "i - 2") auto
  then show ?thesis using assms by cases (simp_all add: demo_table_def NPROC_def)
qed

lemma demo_slot_simps [simp]:
  "pid (demo_slot p v st) = p" "virtual_deadline (demo_slot p v st) = v" "pstate (demo_slot p v st) = st"
  "kstack (demo_slot p v st) \<noteq> NULL" "KERNBASE \<le> pgdir (demo_slot p v st)" "ticks_left (demo_slot p v st) = 0"
  "nice_value (demo_slot p v st) = 0"
  by (simp_all add: demo_slot_def demo_proc_def NULL_def KERNBASE_def)

lemma demo_table_ok: "table_ok (demo_table st)"
  unfolding table_ok_def
proof (intro conjI allI impI)
  show "length (demo_table st) = NPROC" by (simp add: demo_table_def NPROC_def)
qed (auto simp: demo_table_nth live_def split: if_splits)

lemma demo_ready:
  "ready X (demo_table st) = (if st = RUNNABLE \<and> 1 \<notin> X then {(2, 50)} else {})"
proof -
  have e: "entry_of (demo_table st ! 1) = (2, 50)"
    using demo_table_nth [of 1 st] by (simp add: entry_of_def NPROC_def)
  have "pstate (demo_table st ! i) = RUNNABLE \<longleftrightarrow> i = 1 \<and> st = RUNNABLE" if "i < NPROC" for i
    using demo_table_nth [OF that, of st] by auto
  then have "ready X (demo_table st) = {entry_of (demo_table st ! i) | i. i < NPROC \<and> (i = 1 \<and> st = RUNNABLE) \<and> i \<notin> X}"
    unfolding ready_def by (intro Collect_cong ex_cong1) blast
  also have "\<dots> = (if st = RUNNABLE \<and> 1 \<notin> X then {entry_of (demo_table st ! 1)} else {})" by (auto simp: NPROC_def)
  finally show ?thesis by (simp only: e)
qed

lemma demo_sched_inv:
  assumes "queue_rep demo_sk q n s" "distinct (map fst q)" "set q = ready X (demo_table st)"
  shows "sched_inv X q n (demo_sched s st)"
  using assms queue_rep_mach [of demo_sk q n s "demo_sched s st"] demo_table_ok [of st] queue_rep_lockable [OF assms(1)]
  by (simp add: sched_inv_def demo_sched_def)

lemma demo_rq_mach:
  assumes "6 \<le> n" "n \<le> 50000"
  shows "\<exists>a m. demo_rq n = (demo_kproc n)\<lparr>freelist := a, mem := m\<rparr>"
proof -
  obtain sk ha h0 h1 h2 h3 gs where fs: "demo_pages n = sk # ha # h0 # h1 # h2 # h3 # gs"
    using list_six [of "demo_pages n"] assms(1) by auto
  from init_skiplist_ok [OF demo_kproc_lockable demo_kproc_ok [OF assms(2), unfolded fs]] obtain t where
    "init_skiplist (demo_kproc n) = Ok sk t" "t = (demo_kproc n)\<lparr>freelist := freelist t, mem := mem t\<rparr>" by blast
  then show ?thesis by (intro exI [of _ "freelist t"] exI [of _ "mem t"]) (simp add: demo_rq_def)
qed

lemma demo_machine:
  "cpu_ok (demo_kproc n)" "my (demo_kproc n) = 0" "cpus (demo_kproc n) ! 0 = \<lparr>c_apicid = 0, c_ncli = 0, c_intena = False, c_proc = None\<rparr>"
  "lock_free l (demo_kproc n)" "length (cpus (demo_kproc n)) = 1" "ticks (demo_kproc n) = 0" "\<not> fl_if (demo_kproc n)"
  by (simp_all add: demo_kproc_def kproc.defs demo_kmem_def cpu_ok_def my_def cpu_index_def lock_free_def)

lemma demo_sched_machine:
  assumes "6 \<le> n" "n \<le> 50000"
  shows "cpu_ok (demo_sched (demo_rq n) st)" "my (demo_sched (demo_rq n) st) = 0"
    "cpus (demo_sched (demo_rq n) st) = cpus (demo_kproc n)" "lock_free l (demo_sched (demo_rq n) st)"
    "ticks (demo_sched (demo_rq n) st) = 0"
  using demo_rq_mach [OF assms] demo_machine [where n = n] by (auto simp: demo_sched_def)

lemma demo_seed: "seed_after 64 1234567 \<noteq> None"
  by (rule seed_after_less [of 64 416]) (simp_all add: boot_seed)


definition demo_back :: kproc where
  "demo_back = acq PtableLock (demo_sched (demo_rq 1000) RUNNABLE)"

theorem scheduler_return_requeues_witness:
  "\<exists>t n'. scheduler_return 0 2 1 demo_back = Ok () t \<and> sched_inv {} [(2, 1050)] n' t \<and> c_proc (cpus t ! 0) = None"
proof -
  let ?s = "demo_sched (demo_rq 1000) RUNNABLE"
  note d = demo_rq_props [of 1000, simplified] and c = demo_sched_machine [where n = 1000 and st = RUNNABLE, simplified]
  have "sched_inv {1} [] 994 ?s" by (rule demo_sched_inv [OF d(1)]) (simp_all add: demo_ready)
  then have inv: "sched_inv {1} [] 994 demo_back" unfolding demo_back_def using c(1) by (rule sched_inv_acq)
  have ps: "procs demo_back = demo_table RUNNABLE" "ticks demo_back = 0" "kpgdir demo_back = 0x80502000" "seed demo_back = 1234567"
    using c(5) d(2) by (simp_all add: demo_back_def) (simp_all add: demo_sched_def acq_def)
  have m: "cpu_ok demo_back" "my demo_back = 0" "lock_mine PtableLock demo_back" "c_ncli (cpus demo_back ! 0) = 1"
    using c(1,2) demo_machine(3,5) [where n = 1000] acq_cpu [of ?s PtableLock]
    by (simp_all add: demo_back_def c(3) lock_mine_def)
  have sl: "demo_table RUNNABLE ! 1 = demo_slot 2 50 RUNNABLE" by (simp add: demo_table_nth NPROC_def)
  have sd: "seed_after 1 (seed demo_back) \<noteq> None" using seed_after_less [OF _ demo_seed, of 1] ps(4) by simp
  have v: "1050 = (if ticks_left (procs demo_back ! 1) = 0 then compute_virtual_deadline (nice_value (procs demo_back ! 1)) demo_back
       else virtual_deadline (procs demo_back ! 1))"
    unfolding ps(1) sl by (simp add: ps(2) compute_virtual_deadline_def BFS_NICE_FIRST_LEVEL_def BFS_DEFAULT_QUANTUM_def)
  show ?thesis
    using scheduler_return_requeues [OF inv _ _ refl m(1,3) _ _ sd _ v] m(2,4)
    unfolding ps(1) sl by (simp add: ps(3) NPROC_def KERNBASE_def enq_def) blast
qed

definition demo_running :: kproc where
  "demo_running = acq ConsLock (upd_cpu 0 (\<lambda>c. c\<lparr>c_proc := Some 1\<rparr>) (demo_sched (demo_rq 1000) RUNNING))"


end
