(* ===== verification/Waiting.thy ===== *)
theory Waiting
  imports SchedSpec
begin

text \<open>
  How long a process waits in the run queue: the calls on the skip list refine a queue of entries
  (\<open>rq_run\<close>), in which nobody overtakes an entry with a later deadline.
\<close>

section \<open>Nobody is overtaken\<close>

datatype rq_event = Enter "int \<times> int" | Serve

fun rq_run :: "rq_event list \<Rightarrow> (int \<times> int) list \<Rightarrow> (int \<times> int) list" where
  "rq_run [] q = []"
| "rq_run (Enter x # es) q = rq_run es (enq x q)"
| "rq_run (Serve # es) q = (case q of [] \<Rightarrow> rq_run es [] | e # q \<Rightarrow> e # rq_run es q)"

lemma enq_keeps_position:
  assumes "sorted (map snd q)" "k < length q" "snd (q ! k) \<le> snd x"
  shows "enq x q ! k = q ! k"
proof -
  let ?P = "\<lambda>y. snd y \<le> snd x"
  have tw: "takeWhile ?P q = filter ?P q"
    by (rule takeWhile_eq_filter_sorted [OF assms(1)]) (rule order_trans)
  have all: "?P (q ! i)" if "i \<le> k" for i
    using assms sorted_nth_mono [OF assms(1), of i k] that by simp
  have "k < length (takeWhile ?P q)"
  proof (rule ccontr)
    assume "\<not> k < length (takeWhile ?P q)"
    then have "length (takeWhile ?P q) \<le> k" by simp
    moreover from this assms(2) have "\<not> ?P (q ! length (takeWhile ?P q))"
      by (intro nth_length_takeWhile) simp
    ultimately show False using all by blast
  qed
  then show ?thesis using takeWhile_nth [of k ?P q] by (simp add: enq_def tw [symmetric] nth_append)
qed

lemma length_enq: "length (enq x q) = Suc (length q)"
proof -
  have "mset (enq x q) = add_mset x (mset q)" by (rule enq_mset)
  then show ?thesis by (metis size_add_mset size_mset)
qed

lemma served_in_turn:
  assumes "sorted (map snd q)" "k < length q" "q ! k = e" "\<And>x. Enter x \<in> set es \<Longrightarrow> snd e \<le> snd x"
    and "k < count_list es Serve"
  shows "e \<in> set (take (Suc k) (rq_run es q))"
  using assms
proof (induction es arbitrary: q k)
  case (Cons a es)
  show ?case
  proof (cases a)
    case (Enter x)
    have "enq x q ! k = e" using enq_keeps_position [OF Cons.prems(1,2), of x] Cons.prems(3,4) Enter by simp
    then show ?thesis
      using Cons.IH [of "enq x q" k] Cons.prems Enter enq_sorted [OF Cons.prems(1)] length_enq [of x q] by simp
  next
    case Serve
    obtain f q' where q: "q = f # q'" using Cons.prems(2) by (cases q) auto
    show ?thesis
    proof (cases k)
      case 0
      then show ?thesis using q Serve Cons.prems(3) by simp
    next
      case (Suc j)
      then show ?thesis
        using Cons.IH [of q' j] Cons.prems q Serve by simp
    qed
  qed
qed simp

section \<open>The calls on the skip list\<close>

text \<open>The calls the kernel makes on the run queue: a process enters, or the earliest one is looked up and
  taken out.\<close>

datatype rq_call = Insert nat | Take

fun rq_exec :: "addr \<Rightarrow> rq_call list \<Rightarrow> 'a kproc_scheme \<Rightarrow> (int list, 'a kproc_scheme) outcome" where
  "rq_exec sk [] s = Ok [] s"
| "rq_exec sk (Insert p # cs) s = bindo (insert_node sk p s) (\<lambda>_ s. rq_exec sk cs s)"
| "rq_exec sk (Take # cs) s =
     bindo (get_minimum sk s) (\<lambda>x s.
       case find (\<lambda>p. pid (procs s ! p) = x) [0..<length (procs s)] of
         None \<Rightarrow> rq_exec sk cs s
       | Some p \<Rightarrow> bindo (delete_node sk p s) (\<lambda>_ s. bindo (rq_exec sk cs s) (\<lambda>xs s. Ok (x # xs) s)))"

fun rq_event_of :: "'a kproc_scheme \<Rightarrow> rq_call \<Rightarrow> rq_event" where
  "rq_event_of s (Insert p) = Enter (rq_entry s p)"
| "rq_event_of s Take = Serve"

lemma rq_event_of_cong:
  assumes "rq_entry t = rq_entry s"
  shows "rq_event_of t = rq_event_of s"
proof
  show "rq_event_of t c = rq_event_of s c" for c by (cases c) (simp_all add: assms)
qed

text \<open>No process enters that is in the queue already.\<close>

fun calls_ok :: "'a kproc_scheme \<Rightarrow> rq_call list \<Rightarrow> (int \<times> int) list \<Rightarrow> bool" where
  "calls_ok s [] q = True"
| "calls_ok s (Insert p # cs) q =
     (p < length (procs s) \<and> 0 < fst (rq_entry s p) \<and> fst (rq_entry s p) \<notin> fst ` set q \<and>
      calls_ok s cs (enq (rq_entry s p) q))"
| "calls_ok s (Take # cs) q = calls_ok s cs (tl q)"

definition pids_ok :: "'a kproc_scheme \<Rightarrow> bool" where
  "pids_ok s = ((\<forall>i < length (procs s). \<forall>j < length (procs s).
      fst (rq_entry s i) = fst (rq_entry s j) \<longrightarrow> 0 < fst (rq_entry s i) \<longrightarrow> i = j) \<and>
     (\<forall>i < length (procs s). 0 \<le> fst (rq_entry s i) \<and> 0 \<le> snd (rq_entry s i)))"

definition from_table :: "'a kproc_scheme \<Rightarrow> (int \<times> int) list \<Rightarrow> bool" where
  "from_table s q = (distinct (map fst q) \<and> (\<forall>e \<in> set q. 0 < fst e \<and> (\<exists>p < length (procs s). rq_entry s p = e)))"

lemma calls_ok_cong:
  "rq_entry t = rq_entry s \<Longrightarrow> length (procs t) = length (procs s) \<Longrightarrow> calls_ok t cs q = calls_ok s cs q"
  by (induction s cs q rule: calls_ok.induct) simp_all

lemma same_length: "(\<lambda>p. p < length xs) = (\<lambda>p. p < length ys) \<Longrightarrow> length xs = length ys"
  by (metis linorder_neqE_nat order_less_irrefl)

lemma rq_exec_run:
  assumes "queue_rep sk q n s" "from_table s q" "pids_ok s" "calls_ok s cs q"
    and "seed_after (length cs) (seed s) \<noteq> None" "4 * length cs \<le> n"
  shows "\<exists>t. rq_exec sk cs s = Ok (map fst (rq_run (map (rq_event_of s) cs) q)) t"
  using assms
proof (induction cs arbitrary: q n s)
  case (Cons c cs)
  show ?case
  proof (cases c)
    case (Insert p)
    let ?q = "enq (rq_entry s p) q"
    have p: "p < length (procs s)" "0 < fst (rq_entry s p)" "fst (rq_entry s p) \<notin> fst ` set q" "calls_ok s cs ?q"
      using Cons.prems(4) Insert by simp_all
    have d: "seed_after (Suc (length cs)) (seed s) \<noteq> None" "4 \<le> n" using Cons.prems(5,6) by simp_all
    obtain t n' where t: "insert_node sk p s = Ok () t" "queue_rep sk ?q n' t" "n \<le> n' + 4" "rq_entry t = rq_entry s"
      "(\<lambda>p. p < length (procs t)) = (\<lambda>p. p < length (procs s))" "seed_after (length cs) (seed t) \<noteq> None"
      using skip_list.ins_law [OF Cons.prems(1) p(1) d] by blast
    note t = t(1-4) same_length [OF t(5)] t(6)
    have "from_table t ?q" using Cons.prems(2) p t(4,5) by (auto simp: from_table_def distinct_enq set_enq)
    moreover have "pids_ok t" using Cons.prems(3) t(4,5) by (simp add: pids_ok_def)
    ultimately have "\<exists>u. rq_exec sk cs t = Ok (map fst (rq_run (map (rq_event_of t) cs) ?q)) u"
      using p(4) t Cons.prems(6) by (intro Cons.IH [OF t(2)]) (simp_all add: calls_ok_cong [OF t(4,5)])
    moreover have "rq_event_of t = rq_event_of s" by (rule rq_event_of_cong [OF t(4)])
    ultimately show ?thesis using t(1) Insert by simp
  next
    case Take
    have sd: "seed_after (length cs) (seed s) \<noteq> None" using Cons.prems(5) seed_after_less [of "length cs" "Suc (length cs)"] by simp
    show ?thesis
    proof (cases q)
      case Nil
      have "find (\<lambda>p. pid (procs s ! p) = - 69) [0..<length (procs s)] = None"
        using Cons.prems(3) by (auto simp: find_None_iff pids_ok_def rq_entry_def)
      moreover have "\<exists>u. rq_exec sk cs s = Ok (map fst (rq_run (map (rq_event_of s) cs) q)) u"
        by (rule Cons.IH [OF Cons.prems(1)]) (use Cons.prems sd Nil Take in simp_all)
      ultimately show ?thesis
        using skip_list.least_law [OF Cons.prems(1)] Nil Take by simp
    next
      case e: (Cons e q')
      obtain p where p: "p < length (procs s)" "rq_entry s p = e" "0 < fst e"
        using Cons.prems(2) e by (auto simp: from_table_def)
      have f: "find (\<lambda>p. pid (procs s ! p) = fst e) [0..<length (procs s)] = Some p"
      proof -
        have "\<not> pid (procs s ! j) = fst e" if "j < p" for j
        proof
          assume "pid (procs s ! j) = fst e"
          then have "fst (rq_entry s j) = fst (rq_entry s p)" "0 < fst (rq_entry s j)" "j < length (procs s)"
            using p that by (auto simp: rq_entry_def)
          then have "j = p" using Cons.prems(3) p(1) unfolding pids_ok_def by blast
          then show False using that by simp
        qed
        then show ?thesis unfolding find_Some_iff using p by (intro exI [of _ p]) (auto simp: rq_entry_def)
      qed
      have "0 \<le> snd e" using Cons.prems(3) p by (auto simp: pids_ok_def)
      then have de: "queue_rep sk (rq_entry s p # q') n s" "fst (rq_entry s p) \<notin> fst ` set q'" "fst (rq_entry s p) \<noteq> - 1"
        "- 1 < snd (rq_entry s p)" using Cons.prems(1,2) p(2,3) e by (auto simp: from_table_def)
      obtain t n' where t: "delete_node sk p s = Ok () t" "queue_rep sk q' n' t" "n \<le> n'" "rq_entry t = rq_entry s"
        "(\<lambda>p. p < length (procs t)) = (\<lambda>p. p < length (procs s))" "(\<lambda>k. seed_after k (seed t) \<noteq> None) = (\<lambda>k. seed_after k (seed s) \<noteq> None)"
        using skip_list.del_law [OF de(1) p(1) de(2-4)] by blast
      note t = t(1-4) same_length [OF t(5)] fun_cong [OF t(6)]
      have "from_table t q'" using Cons.prems(2) e t(4,5) by (auto simp: from_table_def)
      moreover have "pids_ok t" using Cons.prems(3) t(4,5) by (simp add: pids_ok_def)
      moreover have "seed_after (length cs) (seed t) \<noteq> None" using t(6) [of "length cs"] sd by blast
      ultimately have "\<exists>u. rq_exec sk cs t = Ok (map fst (rq_run (map (rq_event_of t) cs) q')) u"
        using Cons.prems(4,6) t Take e by (intro Cons.IH [OF t(2)]) (simp_all add: calls_ok_cong [OF t(4,5)])
      moreover have "rq_event_of t = rq_event_of s" by (rule rq_event_of_cong [OF t(4)])
      ultimately show ?thesis
        using skip_list.least_law [OF Cons.prems(1)] f t(1) Take e by auto
    qed
  qed
qed simp

section \<open>Bounded waiting\<close>

text \<open>
  C6: Bounded waiting: a process at position \<open>k\<close> of the run queue is among the first \<open>k + 1\<close> processes
  that leave it, in every sequence of \<^verbatim>\<open>insert_node\<close> calls and removals of the minimum with
  \<^verbatim>\<open>get_minimum\<close> and \<^verbatim>\<open>delete_node\<close>, whatever enters meanwhile with a deadline not before its own.
\<close>

theorem bounded_waiting:
  assumes "queue_rep sk q n s" "from_table s q" "pids_ok s" "calls_ok s cs q"
    and "seed_after (length cs) (seed s) \<noteq> None" "4 * length cs \<le> n"
    and "k < length q" "k < count_list cs Take" "\<forall>p. Insert p \<in> set cs \<longrightarrow> snd (q ! k) \<le> virtual_deadline (procs s ! p)"
  shows "\<exists>xs t. rq_exec sk cs s = Ok xs t \<and> fst (q ! k) \<in> set (take (Suc k) xs)"
proof -
  let ?es = "map (rq_event_of s) cs"
  obtain t where t: "rq_exec sk cs s = Ok (map fst (rq_run ?es q)) t" using rq_exec_run [OF assms(1-6)] by blast
  have "count_list ?es Serve = count_list cs Take"
  proof (induction cs)
    case (Cons c cs)
    then show ?case by (cases c) simp_all
  qed simp
  moreover have "snd (q ! k) \<le> snd x" if x: "Enter x \<in> set ?es" for x
  proof -
    obtain c where c: "c \<in> set cs" "rq_event_of s c = Enter x" using x by force
    obtain p where "c = Insert p" "x = rq_entry s p" using c(2) by (cases c rule: rq_call.exhaust) simp_all
    then show ?thesis using assms(9) c(1) by (simp add: rq_entry_def)
  qed
  ultimately have "q ! k \<in> set (take (Suc k) (rq_run ?es q))"
    using assms(8) by (intro served_in_turn [OF queue_rep_sorted [OF assms(1)] assms(7) refl]) simp_all
  then show ?thesis using t by (auto simp: take_map)
qed

lemma demo_rq1_more:
  "procs demo_rq1 = [demo_proc 1 1050, (demo_proc 2 50)\<lparr>max_level := 0\<rparr>, demo_proc 3 1050]" "seed demo_rq1 = 446368362"
proof -
  note d = demo_rq_props [of 100, simplified]
  have ml: "randomize_max_level 3 (demo_rq 100) = Ok 0 ((demo_rq 100)\<lparr>seed := 446368362\<rparr>)"
    using randomize_max_level_draw [of "demo_rq 100"] by (simp add: d(2) demo_draw)
  from insert_node_ok [OF d(1) _ ml, of 1] obtain t where
    "insert_node demo_sk 1 (demo_rq 100) = Ok () t" "seed t = 446368362"
    "procs t = (procs (demo_rq 100))[1 := (procs (demo_rq 100) ! 1)\<lparr>max_level := 0\<rparr>]"
    by (auto simp: d(3) demo_entries enq_def)
  then show "procs demo_rq1 = [demo_proc 1 1050, (demo_proc 2 50)\<lparr>max_level := 0\<rparr>, demo_proc 3 1050]" "seed demo_rq1 = 446368362"
    by (simp_all add: demo_rq1_def d(3))
qed

theorem bounded_waiting_witness:
  "\<exists>xs t. rq_exec demo_sk [Insert 0, Take, Take] demo_rq1 = Ok xs t \<and> 2 \<in> set (take 1 xs)"
proof -
  have e: "rq_entry demo_rq1 0 = (1, 1050)" "rq_entry demo_rq1 1 = (2, 50)" "rq_entry demo_rq1 2 = (3, 1050)"
    by (simp_all add: rq_entry_def demo_rq1_more demo_proc_def)
  have three: "i < 3 \<Longrightarrow> i = 0 \<or> i = 1 \<or> i = (2 :: nat)" for i by auto
  have p: "pids_ok demo_rq1"
    unfolding pids_ok_def demo_rq1_props(3) by (auto simp: e e(2) [simplified] dest!: three)
  have f: "from_table demo_rq1 [(2, 50)]" using e(2) by (auto simp: from_table_def demo_rq1_more intro!: exI [of _ 1])
  have c: "calls_ok demo_rq1 [Insert 0, Take, Take] [(2, 50)]" using e(1) by (simp add: demo_rq1_more)
  have "seed_after (Suc 3) 1234567 \<noteq> None" by (rule seed_after_less [OF _ demo_seed]) simp
  then have sd: "seed_after 3 (seed demo_rq1) \<noteq> None" unfolding demo_rq1_more seed_after.simps demo_draw by simp
  have l: "length [Insert 0, Take, Take] = 3" by simp
  have "seed_after (length [Insert 0, Take, Take]) (seed demo_rq1) \<noteq> None" unfolding l by (rule sd)
  from bounded_waiting [OF demo_rq1_props(1) f p c this, of 0] show ?thesis
    by (simp add: demo_rq1_more demo_proc_def del: rq_exec.simps)
qed

end
