(* ===== verification/Bio.thy ===== *)
theory Bio
  imports Sched
begin

text \<open>
  Sleep locks (\<^verbatim>\<open>sleeplock.c\<close>), the buffer cache (\<^verbatim>\<open>bio.c\<close>) and the disk in memory
  (\<^verbatim>\<open>memide.c\<close>), whose requests complete before \<^verbatim>\<open>iderw\<close> returns.

  A buffer is an index into \<open>bufs\<close>.  The circular list through \<^verbatim>\<open>prev\<close> and \<^verbatim>\<open>next\<close> is the list
  \<open>mru\<close> of the buffers from \<^verbatim>\<open>bcache.head.next\<close> on, so that following \<^verbatim>\<open>prev\<close> from the head reads
  it backwards.  A block is a list of \<^verbatim>\<open>BSIZE\<close> bytes.  The component \<open>dwrites\<close> is no variable of
  the program: it is the sequence of block writes that reached the disk, oldest first.

  The loop of \<^verbatim>\<open>acquiresleep\<close> goes on after \<^verbatim>\<open>sleep\<close> returns; \<open>acquiresleep_resume\<close> is that
  continuation of a process that was switched to again.
\<close>

type_synonym block = "byte list"

definition BSIZE :: nat where "BSIZE = 512"
definition NBUF :: nat where "NBUF = 30"
definition ROOTDEV :: "32 word" where "ROOTDEV = 1"

record sleeplock =
  sl_locked :: bool
  sl_name :: string
  sl_pid :: int

record buf =
  b_valid :: bool
  b_dirty :: bool
  b_dev :: "32 word"
  b_blockno :: "32 word"
  b_refcnt :: "32 word"
  b_data :: block

record kbio = kproc +
  sleeplocks :: "sleepid \<Rightarrow> sleeplock"
  bufs :: "buf list"
  mru :: "nat list"
  disk :: "nat \<Rightarrow> block"
  disksize :: nat
  dwrites :: "(nat \<times> block) list"

definition upd_buf :: "nat \<Rightarrow> (buf \<Rightarrow> buf) \<Rightarrow> 'a kbio_scheme \<Rightarrow> 'a kbio_scheme" where
  "upd_buf i f s = s\<lparr>bufs := (bufs s)[i := f (bufs s ! i)]\<rparr>"

definition upd_sleeplock :: "sleepid \<Rightarrow> (sleeplock \<Rightarrow> sleeplock) \<Rightarrow> 'a kbio_scheme \<Rightarrow> 'a kbio_scheme" where
  "upd_sleeplock l f s = s\<lparr>sleeplocks := (sleeplocks s)(l := f (sleeplocks s l))\<rparr>"

section \<open>Sleep locks\<close>

definition initsleeplock :: "sleepid \<Rightarrow> string \<Rightarrow> 'a kbio_scheme \<Rightarrow> (unit, 'a kbio_scheme) outcome" where
  "initsleeplock l name s =
     bindo (initlock (SleepGuard l) ''sleep lock'' s) (\<lambda>_ s.
       Ok () (upd_sleeplock l (\<lambda>_. \<lparr>sl_locked = False, sl_name = name, sl_pid = 0\<rparr>) s))"

definition mypid :: "'a kproc_scheme \<Rightarrow> (int, 'a kproc_scheme) outcome" where
  "mypid s =
     bindo (myproc s) (\<lambda>p s.
       case p of None \<Rightarrow> Fault ''myproc: null process'' | Some p \<Rightarrow> Ok (pid (procs s ! p)) s)"

partial_function (option) acquiresleep_loop ::
  "sleepid \<Rightarrow> 'a kbio_scheme \<Rightarrow> (unit, 'a kbio_scheme) outcome option" where
  "acquiresleep_loop l s =
     (if sl_locked (sleeplocks s l) then
        (case sleep (ChanSleep l) (Some (SleepGuard l)) s of
           Ok u s \<Rightarrow> acquiresleep_loop l s
         | Switch s \<Rightarrow> Some (Switch s)
         | Panic m \<Rightarrow> Some (Panic m)
         | Fault m \<Rightarrow> Some (Fault m)
         | Diverge \<Rightarrow> Some Diverge)
      else
        Some (let s = upd_sleeplock l (\<lambda>k. k\<lparr>sl_locked := True\<rparr>) s in
              bindo (mypid s) (\<lambda>p s.
                release (SleepGuard l) (upd_sleeplock l (\<lambda>k. k\<lparr>sl_pid := p\<rparr>) s))))"

definition acquiresleep :: "sleepid \<Rightarrow> 'a kbio_scheme \<Rightarrow> (unit, 'a kbio_scheme) outcome" where
  "acquiresleep l s = bindo (acquire (SleepGuard l) s) (\<lambda>_ s. returns (acquiresleep_loop l s))"

definition acquiresleep_resume :: "nat \<Rightarrow> sleepid \<Rightarrow> 'a kbio_scheme \<Rightarrow> (unit, 'a kbio_scheme) outcome" where
  "acquiresleep_resume p l s =
     bindo (sleep_resume p (SleepGuard l) s) (\<lambda>_ s. returns (acquiresleep_loop l s))"

definition releasesleep :: "sleepid \<Rightarrow> 'a kbio_scheme \<Rightarrow> (unit, 'a kbio_scheme) outcome" where
  "releasesleep l s =
     bindo (acquire (SleepGuard l) s) (\<lambda>_ s.
       let s = upd_sleeplock l (\<lambda>k. k\<lparr>sl_locked := False, sl_pid := 0\<rparr>) s in
     bindo (wakeup (ChanSleep l) s) (\<lambda>_ s. release (SleepGuard l) s))"

definition holdingsleep :: "sleepid \<Rightarrow> 'a kbio_scheme \<Rightarrow> (bool, 'a kbio_scheme) outcome" where
  "holdingsleep l s =
     bindo (acquire (SleepGuard l) s) (\<lambda>_ s.
     bindo (if sl_locked (sleeplocks s l)
            then bindo (mypid s) (\<lambda>p s. Ok (sl_pid (sleeplocks s l) = p) s)
            else Ok False s) (\<lambda>r s.
     bindo (release (SleepGuard l) s) (\<lambda>_ s. Ok r s)))"

section \<open>The disk in memory\<close>

definition ideinit :: "block list \<Rightarrow> 'a kbio_scheme \<Rightarrow> (unit, 'a kbio_scheme) outcome" where
  "ideinit img s =
     Ok () (s\<lparr>disk := (\<lambda>b. if b < length img then img ! b else []), disksize := length img\<rparr>)"

definition ideintr :: "'a kbio_scheme \<Rightarrow> (unit, 'a kbio_scheme) outcome" where
  "ideintr s = Ok () s"

definition disk_put :: "nat \<Rightarrow> block \<Rightarrow> 'a kbio_scheme \<Rightarrow> 'a kbio_scheme" where
  "disk_put b d s = s\<lparr>disk := (disk s)(b := d), dwrites := dwrites s @ [(b, d)]\<rparr>"

definition iderw :: "nat \<Rightarrow> 'a kbio_scheme \<Rightarrow> (unit, 'a kbio_scheme) outcome" where
  "iderw i s =
     bindo (holdingsleep (BufLock i) s) (\<lambda>h s.
       let b = bufs s ! i in
       if \<not> h then Panic ''iderw: buf not locked''
       else if b_valid b \<and> \<not> b_dirty b then Panic ''iderw: nothing to do''
       else if b_dev b \<noteq> 1 then Panic ''iderw: request not for disk 1''
       else if unat (b_blockno b) \<ge> disksize s then Panic ''iderw: block out of range''
       else
         let s = (if b_dirty b
                  then disk_put (unat (b_blockno b)) (b_data b) (upd_buf i (\<lambda>b. b\<lparr>b_dirty := False\<rparr>) s)
                  else upd_buf i (\<lambda>b. b\<lparr>b_data := disk s (unat (b_blockno b))\<rparr>) s)
         in Ok () (upd_buf i (\<lambda>b. b\<lparr>b_valid := True\<rparr>) s))"

section \<open>The buffer cache\<close>

fun binit_loop :: "nat list \<Rightarrow> 'a kbio_scheme \<Rightarrow> (unit, 'a kbio_scheme) outcome" where
  "binit_loop [] s = Ok () s"
| "binit_loop (b # bs) s =
     bindo (initsleeplock (BufLock b) ''buffer'' s) (\<lambda>_ s. binit_loop bs (s\<lparr>mru := b # mru s\<rparr>))"

definition binit :: "'a kbio_scheme \<Rightarrow> (unit, 'a kbio_scheme) outcome" where
  "binit s = bindo (initlock BcacheLock ''bcache'' s) (\<lambda>_ s. binit_loop [0..<NBUF] (s\<lparr>mru := []\<rparr>))"

definition find_cached :: "32 word \<Rightarrow> 32 word \<Rightarrow> 'a kbio_scheme \<Rightarrow> nat option" where
  "find_cached dev blockno s =
     find (\<lambda>i. b_dev (bufs s ! i) = dev \<and> b_blockno (bufs s ! i) = blockno) (mru s)"

definition find_recyclable :: "'a kbio_scheme \<Rightarrow> nat option" where
  "find_recyclable s =
     find (\<lambda>i. b_refcnt (bufs s ! i) = 0 \<and> \<not> b_dirty (bufs s ! i)) (rev (mru s))"

definition bget :: "32 word \<Rightarrow> 32 word \<Rightarrow> 'a kbio_scheme \<Rightarrow> (nat, 'a kbio_scheme) outcome" where
  "bget dev blockno s =
     bindo (acquire BcacheLock s) (\<lambda>_ s.
       case find_cached dev blockno s of
         Some i \<Rightarrow>
           let s = upd_buf i (\<lambda>b. b\<lparr>b_refcnt := b_refcnt b + 1\<rparr>) s in
           bindo (release BcacheLock s) (\<lambda>_ s.
           bindo (acquiresleep (BufLock i) s) (\<lambda>_ s. Ok i s))
       | None \<Rightarrow>
           (case find_recyclable s of
              Some i \<Rightarrow>
                let s = upd_buf i (\<lambda>b. b\<lparr>b_dev := dev, b_blockno := blockno, b_valid := False, b_dirty := False,
                                         b_refcnt := 1\<rparr>) s in
                bindo (release BcacheLock s) (\<lambda>_ s.
                bindo (acquiresleep (BufLock i) s) (\<lambda>_ s. Ok i s))
            | None \<Rightarrow> Panic ''bget: no buffers''))"

definition bread :: "32 word \<Rightarrow> 32 word \<Rightarrow> 'a kbio_scheme \<Rightarrow> (nat, 'a kbio_scheme) outcome" where
  "bread dev blockno s =
     bindo (bget dev blockno s) (\<lambda>i s.
       if \<not> b_valid (bufs s ! i) then bindo (iderw i s) (\<lambda>_ s. Ok i s) else Ok i s)"

definition bwrite :: "nat \<Rightarrow> 'a kbio_scheme \<Rightarrow> (unit, 'a kbio_scheme) outcome" where
  "bwrite i s =
     bindo (holdingsleep (BufLock i) s) (\<lambda>h s.
       if \<not> h then Panic ''bwrite''
       else iderw i (upd_buf i (\<lambda>b. b\<lparr>b_dirty := True\<rparr>) s))"

definition brelse :: "nat \<Rightarrow> 'a kbio_scheme \<Rightarrow> (unit, 'a kbio_scheme) outcome" where
  "brelse i s =
     bindo (holdingsleep (BufLock i) s) (\<lambda>h s.
       if \<not> h then Panic ''brelse''
       else
     bindo (releasesleep (BufLock i) s) (\<lambda>_ s.
     bindo (acquire BcacheLock s) (\<lambda>_ s.
       let s = upd_buf i (\<lambda>b. b\<lparr>b_refcnt := b_refcnt b - 1\<rparr>) s;
           s = (if b_refcnt (bufs s ! i) = 0 then s\<lparr>mru := i # remove1 i (mru s)\<rparr> else s)
       in release BcacheLock s)))"

end
