(* ===== verification/Layout.thy ===== *)
theory Layout
  imports Bio
begin

text \<open>
  What is stored in a block: little-endian numbers, the super block, disk inodes and directory
  entries of \<^verbatim>\<open>fs.h\<close>.  The C code overlays a struct on the bytes of the block; here \<open>get\<close> reads the
  struct at a byte offset and \<open>put\<close> writes it back.
\<close>

section \<open>Bytes and numbers\<close>

definition put_bytes :: "nat \<Rightarrow> byte list \<Rightarrow> byte list \<Rightarrow> byte list" where
  "put_bytes off bs d = take off d @ bs @ drop (off + length bs) d"

definition get_bytes :: "nat \<Rightarrow> nat \<Rightarrow> byte list \<Rightarrow> byte list" where
  "get_bytes off n d = take n (drop off d)"

definition bytes16 :: "16 word \<Rightarrow> byte list" where
  "bytes16 w = [ucast w, ucast (drop_bit 8 w)]"

definition bytes32 :: "32 word \<Rightarrow> byte list" where
  "bytes32 w = [ucast w, ucast (drop_bit 8 w), ucast (drop_bit 16 w), ucast (drop_bit 24 w)]"

definition get16 :: "nat \<Rightarrow> byte list \<Rightarrow> 16 word" where
  "get16 off d = ucast (d ! off) OR push_bit 8 (ucast (d ! (off + 1)))"

definition get32 :: "nat \<Rightarrow> byte list \<Rightarrow> 32 word" where
  "get32 off d =
     ucast (d ! off) OR push_bit 8 (ucast (d ! (off + 1))) OR
     push_bit 16 (ucast (d ! (off + 2))) OR push_bit 24 (ucast (d ! (off + 3)))"

definition put16 :: "nat \<Rightarrow> 16 word \<Rightarrow> byte list \<Rightarrow> byte list" where
  "put16 off w d = put_bytes off (bytes16 w) d"

definition put32 :: "nat \<Rightarrow> 32 word \<Rightarrow> byte list \<Rightarrow> byte list" where
  "put32 off w d = put_bytes off (bytes32 w) d"

section \<open>Structs\<close>

definition NDIRECT :: nat where "NDIRECT = 12"
definition NINDIRECT :: nat where "NINDIRECT = BSIZE div 4"
definition MAXFILE :: nat where "MAXFILE = NDIRECT + NINDIRECT"
definition IPB :: nat where "IPB = BSIZE div 64"
definition BPB :: nat where "BPB = BSIZE * 8"
definition DIRSIZ :: nat where "DIRSIZ = 14"
definition ROOTINO :: "32 word" where "ROOTINO = 1"
definition T_DIR :: "16 word" where "T_DIR = 1"
definition T_FILE :: "16 word" where "T_FILE = 2"
definition T_DEV :: "16 word" where "T_DEV = 3"

record superblock =
  sb_size :: "32 word"
  sb_nblocks :: "32 word"
  sb_ninodes :: "32 word"
  sb_nlog :: "32 word"
  sb_logstart :: "32 word"
  sb_inodestart :: "32 word"
  sb_bmapstart :: "32 word"

record dinode =
  d_type :: "16 word"
  d_major :: "16 word"
  d_minor :: "16 word"
  d_nlink :: "16 word"
  d_size :: "32 word"
  d_addrs :: "32 word list"

record dirent =
  de_inum :: "16 word"
  de_name :: "byte list"

definition IBLOCK :: "32 word \<Rightarrow> superblock \<Rightarrow> 32 word" where
  "IBLOCK i sb = i div of_nat IPB + sb_inodestart sb"

definition BBLOCK :: "32 word \<Rightarrow> superblock \<Rightarrow> 32 word" where
  "BBLOCK b sb = b div of_nat BPB + sb_bmapstart sb"

definition get_superblock :: "block \<Rightarrow> superblock" where
  "get_superblock d =
     \<lparr>sb_size = get32 0 d, sb_nblocks = get32 4 d, sb_ninodes = get32 8 d, sb_nlog = get32 12 d,
      sb_logstart = get32 16 d, sb_inodestart = get32 20 d, sb_bmapstart = get32 24 d\<rparr>"

definition get_dinode :: "nat \<Rightarrow> block \<Rightarrow> dinode" where
  "get_dinode off d =
     \<lparr>d_type = get16 off d, d_major = get16 (off + 2) d, d_minor = get16 (off + 4) d,
      d_nlink = get16 (off + 6) d, d_size = get32 (off + 8) d,
      d_addrs = map (\<lambda>i. get32 (off + 12 + 4 * i) d) [0..<NDIRECT + 1]\<rparr>"

definition bytes_dinode :: "dinode \<Rightarrow> byte list" where
  "bytes_dinode di =
     bytes16 (d_type di) @ bytes16 (d_major di) @ bytes16 (d_minor di) @ bytes16 (d_nlink di) @
     bytes32 (d_size di) @ concat (map bytes32 (d_addrs di))"

definition put_dinode :: "nat \<Rightarrow> dinode \<Rightarrow> block \<Rightarrow> block" where
  "put_dinode off di d = put_bytes off (bytes_dinode di) d"

definition get_dirent :: "byte list \<Rightarrow> dirent" where
  "get_dirent d = \<lparr>de_inum = get16 0 d, de_name = get_bytes 2 DIRSIZ d\<rparr>"

definition bytes_dirent :: "dirent \<Rightarrow> byte list" where
  "bytes_dirent de = bytes16 (de_inum de) @ de_name de"

section \<open>Reading back what was written\<close>

lemma length_bytes [simp]: "length (bytes16 w) = 2" "length (bytes32 v) = 4"
  by (simp_all add: bytes16_def bytes32_def)

lemma length_put_bytes [simp]:
  "off + length bs \<le> length d \<Longrightarrow> length (put_bytes off bs d) = length d"
  by (simp add: put_bytes_def)

lemma nth_put_bytes:
  assumes "off + length bs \<le> length d" "i < length d"
  shows "put_bytes off bs d ! i = (if off \<le> i \<and> i < off + length bs then bs ! (i - off) else d ! i)"
proof -
  have "i - off - length bs + (off + length bs) = i" if "\<not> i < off + length bs" using that by simp
  then show ?thesis using assms by (auto simp: put_bytes_def nth_append min_def add.commute)
qed

lemma get_put_bytes:
  assumes "off + length bs \<le> length d"
  shows "get_bytes off (length bs) (put_bytes off bs d) = bs"
  using assms by (simp add: get_bytes_def put_bytes_def)

lemma get_put_other:
  assumes "off + length bs \<le> length d" "off' + n \<le> off \<or> off + length bs \<le> off'" "off' + n \<le> length d"
  shows "get_bytes off' n (put_bytes off bs d) = get_bytes off' n d"
proof (rule nth_equalityI)
  show "length (get_bytes off' n (put_bytes off bs d)) = length (get_bytes off' n d)"
    using assms by (simp add: get_bytes_def)
  fix i assume "i < length (get_bytes off' n (put_bytes off bs d))"
  then have i: "i < n" "off' + i < length d" using assms by (simp_all add: get_bytes_def)
  then have "get_bytes off' n (put_bytes off bs d) ! i = put_bytes off bs d ! (off' + i)"
    using assms by (simp add: get_bytes_def)
  also have "\<dots> = d ! (off' + i)" using nth_put_bytes [OF assms(1) i(2)] assms(2) i(1) by auto
  finally show "get_bytes off' n (put_bytes off bs d) ! i = get_bytes off' n d ! i"
    using i assms by (simp add: get_bytes_def)
qed

lemma nth_get_bytes: "i < n \<Longrightarrow> off + n \<le> length d \<Longrightarrow> get_bytes off n d ! i = d ! (off + i)"
  by (simp add: get_bytes_def)

lemma get16_bytes: "get16 0 (bytes16 w @ rest) = w"
  by (simp add: get16_def bytes16_def, rule bit_word_eqI) (auto simp: bit_simps)

lemma get32_bytes: "get32 0 (bytes32 w @ rest) = w"
proof -
  have "bit (get32 0 (bytes32 w @ rest)) n = bit w n" if "n < 32" for n
  proof -
    consider "n < 8" | "8 \<le> n" "n < 16" | "16 \<le> n" "n < 24" | "24 \<le> n" using that by linarith
    then show ?thesis
      by cases (use that in \<open>auto simp: get32_def bytes32_def bit_simps\<close>)
  qed
  then show ?thesis by (intro bit_word_eqI) simp
qed

lemma get_at:
  "get16 (length xs) (xs @ d) = get16 0 d" "get32 (length xs) (xs @ d) = get32 0 d"
proof -
  have n: "(xs @ d) ! (length xs + k) = d ! k" for k by simp
  show "get16 (length xs) (xs @ d) = get16 0 d" using n [of 0] n [of 1] by (simp add: get16_def)
  show "get32 (length xs) (xs @ d) = get32 0 d"
    using n [of 0] n [of 1] n [of 2] n [of 3] by (simp add: get32_def numeral_2_eq_2)
qed

end
