(* ===== verification/Log.thy ===== *)
theory Log
  imports Layout
begin

text \<open>
  The write-ahead log: \<^verbatim>\<open>log.c\<close>, with \<^verbatim>\<open>readsb\<close> of \<^verbatim>\<open>fs.c\<close>.  The header block on disk holds
  \<^verbatim>\<open>n\<close> in its first word and \<^verbatim>\<open>block[i]\<close> in word \<open>1 + i\<close>.  An index beyond \<^verbatim>\<open>LOGSIZE\<close> into the array of
  the struct in memory is a \<open>Fault\<close>.
\<close>

definition MAXOPBLOCKS :: nat where "MAXOPBLOCKS = 10"
definition LOGSIZE :: nat where "LOGSIZE = MAXOPBLOCKS * 3"

record klog = kbio +
  log_start :: int
  log_size :: int
  log_outstanding :: int
  log_committing :: bool
  log_dev :: "32 word"
  lh_n :: int
  lh_block :: "int list"

definition readsb :: "32 word \<Rightarrow> 'a kbio_scheme \<Rightarrow> (superblock, 'a kbio_scheme) outcome" where
  "readsb dev s =
     bindo (bread dev 1 s) (\<lambda>b s.
       let sb = get_superblock (b_data (bufs s ! b)) in
     bindo (brelse b s) (\<lambda>_ s. Ok sb s))"

definition copy_block :: "nat \<Rightarrow> nat \<Rightarrow> 'a kbio_scheme \<Rightarrow> 'a kbio_scheme" where
  "copy_block to from s = upd_buf to (\<lambda>b. b\<lparr>b_data := b_data (bufs s ! from)\<rparr>) s"

section \<open>Installing and recovering\<close>

definition install_one :: "nat \<Rightarrow> 'a klog_scheme \<Rightarrow> (unit, 'a klog_scheme) outcome" where
  "install_one tail s =
     bindo (bread (log_dev s) (word_of_int (log_start s + int tail + 1)) s) (\<lambda>lbuf s.
     bindo (bread (log_dev s) (word_of_int (lh_block s ! tail)) s) (\<lambda>dbuf s.
       let s = copy_block dbuf lbuf s in
     bindo (bwrite dbuf s) (\<lambda>_ s.
     bindo (brelse lbuf s) (\<lambda>_ s. brelse dbuf s))))"

definition install_trans :: "'a klog_scheme \<Rightarrow> (unit, 'a klog_scheme) outcome" where
  "install_trans s = for_list install_one [0..<nat (lh_n s)] s"

definition read_head_entry :: "nat \<Rightarrow> nat \<Rightarrow> 'a klog_scheme \<Rightarrow> (unit, 'a klog_scheme) outcome" where
  "read_head_entry b i s =
     (if i \<ge> LOGSIZE then Fault ''log.lh.block''
      else Ok () (s\<lparr>lh_block := (lh_block s)[i := sint (get32 (4 + 4 * i) (b_data (bufs s ! b)))]\<rparr>))"

definition read_head :: "'a klog_scheme \<Rightarrow> (unit, 'a klog_scheme) outcome" where
  "read_head s =
     bindo (bread (log_dev s) (word_of_int (log_start s)) s) (\<lambda>b s.
       let s = s\<lparr>lh_n := sint (get32 0 (b_data (bufs s ! b)))\<rparr> in
     bindo (for_list (read_head_entry b) [0..<nat (lh_n s)] s) (\<lambda>_ s. brelse b s))"

definition write_head_entry :: "nat \<Rightarrow> nat \<Rightarrow> 'a klog_scheme \<Rightarrow> (unit, 'a klog_scheme) outcome" where
  "write_head_entry b i s =
     (if i \<ge> LOGSIZE then Fault ''log.lh.block''
      else Ok () (upd_buf b (\<lambda>x. x\<lparr>b_data := put32 (4 + 4 * i) (word_of_int (lh_block s ! i)) (b_data x)\<rparr>) s))"

definition write_head :: "'a klog_scheme \<Rightarrow> (unit, 'a klog_scheme) outcome" where
  "write_head s =
     bindo (bread (log_dev s) (word_of_int (log_start s)) s) (\<lambda>b s.
       let s = upd_buf b (\<lambda>x. x\<lparr>b_data := put32 0 (word_of_int (lh_n s)) (b_data x)\<rparr>) s in
     bindo (for_list (write_head_entry b) [0..<nat (lh_n s)] s) (\<lambda>_ s.
     bindo (bwrite b s) (\<lambda>_ s. brelse b s)))"

definition recover_from_log :: "'a klog_scheme \<Rightarrow> (unit, 'a klog_scheme) outcome" where
  "recover_from_log s =
     bindo (read_head s) (\<lambda>_ s.
     bindo (install_trans s) (\<lambda>_ s. write_head (s\<lparr>lh_n := 0\<rparr>)))"

definition initlog :: "32 word \<Rightarrow> 'a klog_scheme \<Rightarrow> (unit, 'a klog_scheme) outcome" where
  "initlog dev s =
     (if 4 + 4 * LOGSIZE \<ge> BSIZE then Panic ''initlog: too big logheader''
      else bindo (initlock LogLock ''log'' s) (\<lambda>_ s.
           bindo (readsb dev s) (\<lambda>sb s.
             recover_from_log (s\<lparr>log_start := sint (sb_logstart sb), log_size := sint (sb_nlog sb),
                                 log_dev := dev\<rparr>))))"

section \<open>Transactions\<close>

definition log_full :: "'a klog_scheme \<Rightarrow> bool" where
  "log_full s = (lh_n s + (log_outstanding s + 1) * int MAXOPBLOCKS > int LOGSIZE)"

partial_function (option) begin_op_loop :: "'a klog_scheme \<Rightarrow> (unit, 'a klog_scheme) outcome option" where
  "begin_op_loop s =
     (if log_committing s \<or> log_full s then
        (case sleep ChanLog (Some LogLock) s of
           Ok u s \<Rightarrow> begin_op_loop s
         | Switch s \<Rightarrow> Some (Switch s)
         | Panic m \<Rightarrow> Some (Panic m)
         | Fault m \<Rightarrow> Some (Fault m)
         | Diverge \<Rightarrow> Some Diverge)
      else Some (release LogLock (s\<lparr>log_outstanding := log_outstanding s + 1\<rparr>)))"

definition begin_op :: "'a klog_scheme \<Rightarrow> (unit, 'a klog_scheme) outcome" where
  "begin_op s = bindo (acquire LogLock s) (\<lambda>_ s. returns (begin_op_loop s))"

definition begin_op_resume :: "nat \<Rightarrow> 'a klog_scheme \<Rightarrow> (unit, 'a klog_scheme) outcome" where
  "begin_op_resume p s = bindo (sleep_resume p LogLock s) (\<lambda>_ s. returns (begin_op_loop s))"

definition write_log_one :: "nat \<Rightarrow> 'a klog_scheme \<Rightarrow> (unit, 'a klog_scheme) outcome" where
  "write_log_one tail s =
     bindo (bread (log_dev s) (word_of_int (log_start s + int tail + 1)) s) (\<lambda>to s.
     bindo (bread (log_dev s) (word_of_int (lh_block s ! tail)) s) (\<lambda>from s.
       let s = copy_block to from s in
     bindo (bwrite to s) (\<lambda>_ s.
     bindo (brelse from s) (\<lambda>_ s. brelse to s))))"

definition write_log :: "'a klog_scheme \<Rightarrow> (unit, 'a klog_scheme) outcome" where
  "write_log s = for_list write_log_one [0..<nat (lh_n s)] s"

definition commit :: "'a klog_scheme \<Rightarrow> (unit, 'a klog_scheme) outcome" where
  "commit s =
     (if lh_n s > 0 then
        bindo (write_log s) (\<lambda>_ s.
        bindo (write_head s) (\<lambda>_ s.
        bindo (install_trans s) (\<lambda>_ s. write_head (s\<lparr>lh_n := 0\<rparr>))))
      else Ok () s)"

definition end_op :: "'a klog_scheme \<Rightarrow> (unit, 'a klog_scheme) outcome" where
  "end_op s =
     bindo (acquire LogLock s) (\<lambda>_ s.
       let s = s\<lparr>log_outstanding := log_outstanding s - 1\<rparr> in
       if log_committing s then Panic ''log.committing''
       else
         let do_commit = (log_outstanding s = 0) in
     bindo (if do_commit then Ok () (s\<lparr>log_committing := True\<rparr>) else wakeup ChanLog s) (\<lambda>_ s.
     bindo (release LogLock s) (\<lambda>_ s.
       if do_commit then
         bindo (commit s) (\<lambda>_ s.
         bindo (acquire LogLock s) (\<lambda>_ s.
         bindo (wakeup ChanLog (s\<lparr>log_committing := False\<rparr>)) (\<lambda>_ s. release LogLock s)))
       else Ok () s)))"

fun absorb :: "int \<Rightarrow> int list \<Rightarrow> nat \<Rightarrow> nat" where
  "absorb b [] i = i"
| "absorb b (x # xs) i = (if x = b then i else absorb b xs (Suc i))"

definition log_write :: "nat \<Rightarrow> 'a klog_scheme \<Rightarrow> (unit, 'a klog_scheme) outcome" where
  "log_write b s =
     (if lh_n s \<ge> int LOGSIZE \<or> lh_n s \<ge> log_size s - 1 then Panic ''too big a transaction''
      else if log_outstanding s < 1 then Panic ''log_write outside of trans''
      else bindo (acquire LogLock s) (\<lambda>_ s.
        let bno = sint (b_blockno (bufs s ! b));
            i = absorb bno (take (nat (lh_n s)) (lh_block s)) 0;
            s = s\<lparr>lh_block := (lh_block s)[i := bno]\<rparr>;
            s = (if int i = lh_n s then s\<lparr>lh_n := lh_n s + 1\<rparr> else s);
            s = upd_buf b (\<lambda>x. x\<lparr>b_dirty := True\<rparr>) s
        in release LogLock s))"

end
