(* ===== verification/Inode.thy ===== *)
theory Inode
  imports Log
begin

text \<open>
  The lower half of \<^verbatim>\<open>fs.c\<close>: the block allocator and the inodes, up to \<^verbatim>\<open>stati\<close>.  A
  \<^verbatim>\<open>struct inode *\<close> is an index into the inode cache; where the code tests it for null it is an
  option.  The loops over the blocks of the free map and over the inode numbers are recursions over
  the list of their loop indices.
\<close>

definition NINODE :: nat where "NINODE = 50"

record inode =
  i_dev :: "32 word"
  i_inum :: "32 word"
  i_ref :: int
  i_valid :: bool
  i_type :: "16 word"
  i_major :: "16 word"
  i_minor :: "16 word"
  i_nlink :: "16 word"
  i_size :: "32 word"
  i_addrs :: "32 word list"

record kino = klog +
  sblk :: superblock
  inodes :: "inode list"

definition upd_inode :: "nat \<Rightarrow> (inode \<Rightarrow> inode) \<Rightarrow> 'a kino_scheme \<Rightarrow> 'a kino_scheme" where
  "upd_inode i f s = s\<lparr>inodes := (inodes s)[i := f (inodes s ! i)]\<rparr>"

definition upd_data :: "nat \<Rightarrow> (block \<Rightarrow> block) \<Rightarrow> 'a kbio_scheme \<Rightarrow> 'a kbio_scheme" where
  "upd_data b f s = upd_buf b (\<lambda>x. x\<lparr>b_data := f (b_data x)\<rparr>) s"

section \<open>Blocks\<close>

definition bzero :: "32 word \<Rightarrow> 32 word \<Rightarrow> 'a klog_scheme \<Rightarrow> (unit, 'a klog_scheme) outcome" where
  "bzero dev bno s =
     bindo (bread dev bno s) (\<lambda>bp s.
     bindo (log_write bp (upd_data bp (\<lambda>_. replicate BSIZE 0) s)) (\<lambda>_ s. brelse bp s))"

definition bit_used :: "block \<Rightarrow> nat \<Rightarrow> bool" where
  "bit_used d bi = (d ! (bi div 8) AND push_bit (bi mod 8) 1 \<noteq> 0)"

definition find_free_bit :: "nat \<Rightarrow> nat \<Rightarrow> block \<Rightarrow> nat option" where
  "find_free_bit b nb d = find (\<lambda>bi. b + bi < nb \<and> \<not> bit_used d bi) [0..<BPB]"

fun balloc_loop :: "32 word \<Rightarrow> nat list \<Rightarrow> 'a kino_scheme \<Rightarrow> (32 word, 'a kino_scheme) outcome" where
  "balloc_loop dev [] s = Panic ''balloc: out of blocks''"
| "balloc_loop dev (b # bs) s =
     bindo (bread dev (BBLOCK (of_nat b) (sblk s)) s) (\<lambda>bp s.
       case find_free_bit b (unat (sb_size (sblk s))) (b_data (bufs s ! bp)) of
         Some bi \<Rightarrow>
           let s = upd_data bp (\<lambda>d. d[bi div 8 := d ! (bi div 8) OR push_bit (bi mod 8) 1]) s in
           bindo (log_write bp s) (\<lambda>_ s.
           bindo (brelse bp s) (\<lambda>_ s.
           bindo (bzero dev (of_nat (b + bi)) s) (\<lambda>_ s. Ok (of_nat (b + bi)) s)))
       | None \<Rightarrow> bindo (brelse bp s) (\<lambda>_ s. balloc_loop dev bs s))"

definition balloc :: "32 word \<Rightarrow> 'a kino_scheme \<Rightarrow> (32 word, 'a kino_scheme) outcome" where
  "balloc dev s =
     balloc_loop dev (map (\<lambda>k. k * BPB) [0..<(unat (sb_size (sblk s)) + BPB - 1) div BPB]) s"

definition bfree :: "32 word \<Rightarrow> 32 word \<Rightarrow> 'a kino_scheme \<Rightarrow> (unit, 'a kino_scheme) outcome" where
  "bfree dev b s =
     bindo (bread dev (BBLOCK b (sblk s)) s) (\<lambda>bp s.
       let bi = unat b mod BPB in
       if \<not> bit_used (b_data (bufs s ! bp)) bi then Panic ''freeing free block''
       else
         let s = upd_data bp (\<lambda>d. d[bi div 8 := d ! (bi div 8) AND NOT (push_bit (bi mod 8) 1)]) s in
         bindo (log_write bp s) (\<lambda>_ s. brelse bp s))"

section \<open>Inodes\<close>

definition iinit :: "32 word \<Rightarrow> 'a kino_scheme \<Rightarrow> (unit, 'a kino_scheme) outcome" where
  "iinit dev s =
     bindo (initlock IcacheLock ''icache'' s) (\<lambda>_ s.
     bindo (for_list (\<lambda>i s. initsleeplock (InodeLock i) ''inode'' s) [0..<NINODE] s) (\<lambda>_ s.
     bindo (readsb dev s) (\<lambda>b s.
       cprintf (''sb: size %d nblocks %d ninodes %d nlog %d logstart %d inodestart %d bmap start %d'' @ [CHR 0x0A])
         [CInt (sb_size b), CInt (sb_nblocks b), CInt (sb_ninodes b), CInt (sb_nlog b),
          CInt (sb_logstart b), CInt (sb_inodestart b), CInt (sb_bmapstart b)] (s\<lparr>sblk := b\<rparr>))))"

definition find_inode :: "32 word \<Rightarrow> 32 word \<Rightarrow> 'a kino_scheme \<Rightarrow> nat option" where
  "find_inode dev inum s =
     find (\<lambda>i. i_ref (inodes s ! i) > 0 \<and> i_dev (inodes s ! i) = dev \<and> i_inum (inodes s ! i) = inum) [0..<NINODE]"

definition find_empty :: "'a kino_scheme \<Rightarrow> nat option" where
  "find_empty s = find (\<lambda>i. i_ref (inodes s ! i) = 0) [0..<NINODE]"

definition iget :: "32 word \<Rightarrow> 32 word \<Rightarrow> 'a kino_scheme \<Rightarrow> (nat, 'a kino_scheme) outcome" where
  "iget dev inum s =
     bindo (acquire IcacheLock s) (\<lambda>_ s.
       case find_inode dev inum s of
         Some i \<Rightarrow> bindo (release IcacheLock (upd_inode i (\<lambda>ip. ip\<lparr>i_ref := i_ref ip + 1\<rparr>) s)) (\<lambda>_ s. Ok i s)
       | None \<Rightarrow>
           (case find_empty s of
              None \<Rightarrow> Panic ''iget: no inodes''
            | Some i \<Rightarrow>
                bindo (release IcacheLock
                         (upd_inode i (\<lambda>ip. ip\<lparr>i_dev := dev, i_inum := inum, i_ref := 1, i_valid := False\<rparr>) s))
                  (\<lambda>_ s. Ok i s)))"

definition ino_off :: "32 word \<Rightarrow> nat" where
  "ino_off inum = unat inum mod IPB * 64"

fun ialloc_loop :: "32 word \<Rightarrow> 16 word \<Rightarrow> nat list \<Rightarrow> 'a kino_scheme \<Rightarrow> (nat, 'a kino_scheme) outcome" where
  "ialloc_loop dev type [] s = Panic ''ialloc: no inodes''"
| "ialloc_loop dev type (inum # is) s =
     bindo (bread dev (IBLOCK (of_nat inum) (sblk s)) s) (\<lambda>bp s.
       if d_type (get_dinode (ino_off (of_nat inum)) (b_data (bufs s ! bp))) = 0 then
         let di = \<lparr>d_type = type, d_major = 0, d_minor = 0, d_nlink = 0, d_size = 0,
                   d_addrs = replicate (NDIRECT + 1) 0\<rparr>;
             s = upd_data bp (put_dinode (ino_off (of_nat inum)) di) s
         in bindo (log_write bp s) (\<lambda>_ s.
            bindo (brelse bp s) (\<lambda>_ s. iget dev (of_nat inum) s))
       else bindo (brelse bp s) (\<lambda>_ s. ialloc_loop dev type is s))"

definition ialloc :: "32 word \<Rightarrow> 16 word \<Rightarrow> 'a kino_scheme \<Rightarrow> (nat, 'a kino_scheme) outcome" where
  "ialloc dev type s = ialloc_loop dev type [1..<unat (sb_ninodes (sblk s))] s"

definition dinode_of :: "inode \<Rightarrow> dinode" where
  "dinode_of ip =
     \<lparr>d_type = i_type ip, d_major = i_major ip, d_minor = i_minor ip, d_nlink = i_nlink ip,
      d_size = i_size ip, d_addrs = i_addrs ip\<rparr>"

definition iupdate :: "nat \<Rightarrow> 'a kino_scheme \<Rightarrow> (unit, 'a kino_scheme) outcome" where
  "iupdate i s =
     bindo (bread (i_dev (inodes s ! i)) (IBLOCK (i_inum (inodes s ! i)) (sblk s)) s) (\<lambda>bp s.
       let ip = inodes s ! i;
           s = upd_data bp (put_dinode (ino_off (i_inum ip)) (dinode_of ip)) s
       in bindo (log_write bp s) (\<lambda>_ s. brelse bp s))"

definition idup :: "nat \<Rightarrow> 'a kino_scheme \<Rightarrow> (nat, 'a kino_scheme) outcome" where
  "idup i s =
     bindo (acquire IcacheLock s) (\<lambda>_ s.
     bindo (release IcacheLock (upd_inode i (\<lambda>ip. ip\<lparr>i_ref := i_ref ip + 1\<rparr>) s)) (\<lambda>_ s. Ok i s))"

definition load_dinode :: "dinode \<Rightarrow> inode \<Rightarrow> inode" where
  "load_dinode di ip =
     ip\<lparr>i_type := d_type di, i_major := d_major di, i_minor := d_minor di, i_nlink := d_nlink di,
        i_size := d_size di, i_addrs := d_addrs di\<rparr>"

definition ilock :: "nat option \<Rightarrow> 'a kino_scheme \<Rightarrow> (unit, 'a kino_scheme) outcome" where
  "ilock ip s =
     (case ip of
        None \<Rightarrow> Panic ''ilock''
      | Some i \<Rightarrow>
          if i_ref (inodes s ! i) < 1 then Panic ''ilock''
          else bindo (acquiresleep (InodeLock i) s) (\<lambda>_ s.
            if \<not> i_valid (inodes s ! i) then
              bindo (bread (i_dev (inodes s ! i)) (IBLOCK (i_inum (inodes s ! i)) (sblk s)) s) (\<lambda>bp s.
                let di = get_dinode (ino_off (i_inum (inodes s ! i))) (b_data (bufs s ! bp));
                    s = upd_inode i (load_dinode di) s
                in bindo (brelse bp s) (\<lambda>_ s.
                     let s = upd_inode i (\<lambda>ip. ip\<lparr>i_valid := True\<rparr>) s in
                     if i_type (inodes s ! i) = 0 then Panic ''ilock: no type'' else Ok () s))
            else Ok () s))"

definition iunlock :: "nat option \<Rightarrow> 'a kino_scheme \<Rightarrow> (unit, 'a kino_scheme) outcome" where
  "iunlock ip s =
     (case ip of
        None \<Rightarrow> Panic ''iunlock''
      | Some i \<Rightarrow>
          bindo (holdingsleep (InodeLock i) s) (\<lambda>h s.
            if \<not> h \<or> i_ref (inodes s ! i) < 1 then Panic ''iunlock''
            else releasesleep (InodeLock i) s))"

section \<open>The content of inodes\<close>

definition bmap :: "nat \<Rightarrow> 32 word \<Rightarrow> 'a kino_scheme \<Rightarrow> (32 word, 'a kino_scheme) outcome" where
  "bmap i bn s =
     (let ip = inodes s ! i; n = unat bn in
      if n < NDIRECT then
        if i_addrs ip ! n = 0 then
          bindo (balloc (i_dev ip) s) (\<lambda>addr s.
            Ok addr (upd_inode i (\<lambda>ip. ip\<lparr>i_addrs := (i_addrs ip)[n := addr]\<rparr>) s))
        else Ok (i_addrs ip ! n) s
      else if n - NDIRECT < NINDIRECT then
        bindo (if i_addrs ip ! NDIRECT = 0 then
                 bindo (balloc (i_dev ip) s) (\<lambda>addr s.
                   Ok addr (upd_inode i (\<lambda>ip. ip\<lparr>i_addrs := (i_addrs ip)[NDIRECT := addr]\<rparr>) s))
               else Ok (i_addrs ip ! NDIRECT) s) (\<lambda>addr s.
        bindo (bread (i_dev ip) addr s) (\<lambda>bp s.
          let a = get32 (4 * (n - NDIRECT)) (b_data (bufs s ! bp)) in
        bindo (if a = 0 then
                 bindo (balloc (i_dev ip) s) (\<lambda>addr s.
                   let s = upd_data bp (put32 (4 * (n - NDIRECT)) addr) s in
                   bindo (log_write bp s) (\<lambda>_ s. Ok addr s))
               else Ok a s) (\<lambda>addr s.
        bindo (brelse bp s) (\<lambda>_ s. Ok addr s))))
      else Panic ''bmap: out of range'')"

definition itrunc_direct :: "nat \<Rightarrow> nat \<Rightarrow> 'a kino_scheme \<Rightarrow> (unit, 'a kino_scheme) outcome" where
  "itrunc_direct i k s =
     (if i_addrs (inodes s ! i) ! k \<noteq> 0 then
        bindo (bfree (i_dev (inodes s ! i)) (i_addrs (inodes s ! i) ! k) s) (\<lambda>_ s.
          Ok () (upd_inode i (\<lambda>ip. ip\<lparr>i_addrs := (i_addrs ip)[k := 0]\<rparr>) s))
      else Ok () s)"

definition itrunc_indirect :: "nat \<Rightarrow> nat \<Rightarrow> nat \<Rightarrow> 'a kino_scheme \<Rightarrow> (unit, 'a kino_scheme) outcome" where
  "itrunc_indirect i bp j s =
     (let a = get32 (4 * j) (b_data (bufs s ! bp)) in
      if a \<noteq> 0 then bfree (i_dev (inodes s ! i)) a s else Ok () s)"

definition itrunc :: "nat \<Rightarrow> 'a kino_scheme \<Rightarrow> (unit, 'a kino_scheme) outcome" where
  "itrunc i s =
     bindo (for_list (itrunc_direct i) [0..<NDIRECT] s) (\<lambda>_ s.
     bindo (if i_addrs (inodes s ! i) ! NDIRECT \<noteq> 0 then
              bindo (bread (i_dev (inodes s ! i)) (i_addrs (inodes s ! i) ! NDIRECT) s) (\<lambda>bp s.
              bindo (for_list (itrunc_indirect i bp) [0..<NINDIRECT] s) (\<lambda>_ s.
              bindo (brelse bp s) (\<lambda>_ s.
              bindo (bfree (i_dev (inodes s ! i)) (i_addrs (inodes s ! i) ! NDIRECT) s) (\<lambda>_ s.
                Ok () (upd_inode i (\<lambda>ip. ip\<lparr>i_addrs := (i_addrs ip)[NDIRECT := 0]\<rparr>) s)))))
            else Ok () s) (\<lambda>_ s.
       iupdate i (upd_inode i (\<lambda>ip. ip\<lparr>i_size := 0\<rparr>) s)))"

definition iput :: "nat \<Rightarrow> 'a kino_scheme \<Rightarrow> (unit, 'a kino_scheme) outcome" where
  "iput i s =
     bindo (acquiresleep (InodeLock i) s) (\<lambda>_ s.
     bindo (if i_valid (inodes s ! i) \<and> i_nlink (inodes s ! i) = 0 then
              bindo (acquire IcacheLock s) (\<lambda>_ s.
                let r = i_ref (inodes s ! i) in
              bindo (release IcacheLock s) (\<lambda>_ s.
                if r = 1 then
                  bindo (itrunc i s) (\<lambda>_ s.
                  bindo (iupdate i (upd_inode i (\<lambda>ip. ip\<lparr>i_type := 0\<rparr>) s)) (\<lambda>_ s.
                    Ok () (upd_inode i (\<lambda>ip. ip\<lparr>i_valid := False\<rparr>) s)))
                else Ok () s))
            else Ok () s) (\<lambda>_ s.
     bindo (releasesleep (InodeLock i) s) (\<lambda>_ s.
     bindo (acquire IcacheLock s) (\<lambda>_ s.
       release IcacheLock (upd_inode i (\<lambda>ip. ip\<lparr>i_ref := i_ref ip - 1\<rparr>) s)))))"

definition iunlockput :: "nat \<Rightarrow> 'a kino_scheme \<Rightarrow> (unit, 'a kino_scheme) outcome" where
  "iunlockput i s = bindo (iunlock (Some i) s) (\<lambda>_ s. iput i s)"

record stat =
  st_type :: "16 word"
  st_dev :: "32 word"
  st_ino :: "32 word"
  st_nlink :: "16 word"
  st_size :: "32 word"

definition stati :: "nat \<Rightarrow> 'a kino_scheme \<Rightarrow> stat" where
  "stati i s =
     (let ip = inodes s ! i in
      \<lparr>st_type = i_type ip, st_dev = i_dev ip, st_ino = i_inum ip, st_nlink = i_nlink ip, st_size = i_size ip\<rparr>)"

end
