(* ===== verification/Kbd.thy ===== *)
theory Kbd
  imports Prelude
begin

text \<open>
  The keyboard driver: \<^verbatim>\<open>kbd.c\<close> and the tables of \<^verbatim>\<open>kbd.h\<close>, and \<^verbatim>\<open>uartgetc\<close> of \<^verbatim>\<open>uart.c\<close>.  The
  values the ports deliver are arguments; the static variable \<^verbatim>\<open>shift\<close> is passed and returned.
\<close>

section \<open>Tables\<close>

definition KBS_DIB :: "32 word" where "KBS_DIB = 0x01"
definition SHIFT :: "32 word" where "SHIFT = 1"
definition CTL :: "32 word" where "CTL = 2"
definition ALT :: "32 word" where "ALT = 4"
definition CAPSLOCK :: "32 word" where "CAPSLOCK = 8"
definition NUMLOCK :: "32 word" where "NUMLOCK = 16"
definition SCROLLLOCK :: "32 word" where "SCROLLLOCK = 32"
definition E0ESC :: "32 word" where "E0ESC = 64"

definition ascii :: "string \<Rightarrow> byte list" where
  "ascii cs = map of_char cs"

definition ctl :: "string \<Rightarrow> byte list" where
  "ctl cs = map (\<lambda>c. of_char c - 0x40) cs"

definition table :: "byte list \<Rightarrow> (nat \<times> byte) list \<Rightarrow> nat \<Rightarrow> byte" where
  "table row rest i =
     (case map_of rest i of Some v \<Rightarrow> v | None \<Rightarrow> if i < length row then row ! i else 0)"

definition shiftcode :: "nat \<Rightarrow> byte" where
  "shiftcode = table [] [(0x1D, 2), (0x2A, 1), (0x36, 1), (0x38, 4), (0x9D, 2), (0xB8, 4)]"

definition togglecode :: "nat \<Rightarrow> byte" where
  "togglecode = table [] [(0x3A, 8), (0x45, 16), (0x46, 32)]"

definition special_keys :: "(nat \<times> byte) list" where
  "special_keys = [(0xC8, 0xE2), (0xD0, 0xE3), (0xC9, 0xE6), (0xD1, 0xE7), (0xCB, 0xE4), (0xCD, 0xE5),
     (0x97, 0xE0), (0xCF, 0xE1), (0xD2, 0xE8), (0xD3, 0xE9)]"

definition normalmap :: "nat \<Rightarrow> byte" where
  "normalmap = table
     ([0, 0x1B] @ ascii ''1234567890-='' @ [8, 9] @
      ascii ''qwertyuiop[]'' @ [10, 0] @ ascii ''asdfghjkl;'' @ [39] @ ascii ''`'' @
      [0, 92] @ ascii ''zxcvbnm,./'' @ [0] @ ascii ''*'' @
      [0] @ ascii '' '' @ replicate 13 0 @ ascii ''789-456+1230.'' @ replicate 4 0)
     ([(0x9C, 10), (0xB5, 47)] @ special_keys)"

definition shiftmap :: "nat \<Rightarrow> byte" where
  "shiftmap = table
     ([0, 27] @ ascii ''!@#$%^&*()_+'' @ [8, 9] @
      ascii ''QWERTYUIOP{}'' @ [10, 0] @ ascii ''ASDFGHJKL:'' @ [34] @ ascii ''~'' @
      [0] @ ascii ''|ZXCVBNM<>?'' @ [0] @ ascii ''*'' @
      [0] @ ascii '' '' @ replicate 13 0 @ ascii ''789-456+1230.'' @ replicate 4 0)
     ([(0x9C, 10), (0xB5, 47)] @ special_keys)"

definition ctlmap :: "nat \<Rightarrow> byte" where
  "ctlmap = table
     (replicate 16 0 @ ctl ''QWERTYUIOP'' @ [0, 0, 13, 0] @ ctl ''ASDFGHJKL'' @
      [0, 0, 0, 0, 28] @ ctl ''ZXCVBNM'' @ [0, 0] @ ctl ''/'' @ [0, 0])
     ([(0x9C, 13), (0xB5, 0xEF)] @ special_keys)"

section \<open>Reading a key\<close>

definition charcode :: "32 word \<Rightarrow> nat \<Rightarrow> byte" where
  "charcode k = (if k = 0 then normalmap else if k = 1 then shiftmap else ctlmap)"

definition caps :: "32 word \<Rightarrow> 32 word" where
  "caps c = (if 97 \<le> c \<and> c \<le> 122 then c - 32 else if 65 \<le> c \<and> c \<le> 90 then c + 32 else c)"

definition key_char :: "32 word \<Rightarrow> 32 word \<Rightarrow> int \<times> 32 word" where
  "key_char shift data =
     (let shift = shift OR ucast (shiftcode (unat data));
          shift = shift XOR ucast (togglecode (unat data));
          c = ucast (charcode (shift AND (CTL OR SHIFT)) (unat data)) :: 32 word
      in (sint (if shift AND CAPSLOCK \<noteq> 0 then caps c else c), shift))"

definition kbdgetc :: "byte \<Rightarrow> byte \<Rightarrow> 32 word \<Rightarrow> int \<times> 32 word" where
  "kbdgetc st code shift =
     (if ucast st AND KBS_DIB = 0 then (- 1, shift)
      else
        let data = ucast code :: 32 word in
        if data = 0xE0 then (0, shift OR E0ESC)
        else if data AND 0x80 \<noteq> 0 then
          let data = (if shift AND E0ESC \<noteq> 0 then data else data AND 0x7F)
          in (0, shift AND NOT (ucast (shiftcode (unat data)) OR E0ESC))
        else if shift AND E0ESC \<noteq> 0 then key_char (shift AND NOT E0ESC) (data OR 0x80)
        else key_char shift data)"

definition uartgetc :: "bool \<Rightarrow> byte \<Rightarrow> byte \<Rightarrow> int" where
  "uartgetc uart status data =
     (if \<not> uart then - 1
      else if status AND 0x01 = 0 then - 1
      else uint data)"

end
