(* ===== verification/Console.thy ===== *)
theory Console
  imports Inode Kbd
begin

text \<open>
  The console device: \<^verbatim>\<open>console.c\<close> from \<^verbatim>\<open>cgaputc\<close> on.

  The screen memory and the cursor position, which the C code reads from the controller's ports,
  are a record of their own with the pure function \<open>cgaputc\<close>.  What \<^verbatim>\<open>uartputc\<close> sends is appended
  to \<open>outbuf\<close>.  \<^verbatim>\<open>consoleintr\<close> takes the values its argument \<^verbatim>\<open>getc\<close> returns as a list that ends at
  the first negative one.  Buffers of the caller are values: \<open>consoleread\<close> returns the bytes it
  stored through \<^verbatim>\<open>dst\<close>, \<open>consolewrite\<close> gets the bytes of \<^verbatim>\<open>buf\<close>.  The device switch says for every
  major number which driver is registered.
\<close>

section \<open>The screen\<close>

record screen =
  crt :: "16 word list"
  cpos :: int

definition BACKSPACE :: int where "BACKSPACE = 0x100"

definition crt_put :: "int \<Rightarrow> 16 word \<Rightarrow> 16 word list \<Rightarrow> 16 word list option" where
  "crt_put i v m = (if 0 \<le> i \<and> nat i < length m then Some (m[nat i := v]) else None)"

definition scroll :: "int \<Rightarrow> 16 word list \<Rightarrow> 16 word list" where
  "scroll pos m =
     (let m = take (23 * 80) (drop 80 m) @ drop (23 * 80) m
      in take (nat pos) m @ replicate (24 * 80 - nat pos) 0 @ drop (24 * 80) m)"

definition cgaputc :: "int \<Rightarrow> screen \<Rightarrow> (unit, screen) outcome" where
  "cgaputc c s =
     (let pos = cpos s in
      case (if c = 10 then Some (pos + (80 - pos mod 80), crt s)
            else if c = BACKSPACE then Some (if pos > 0 then pos - 1 else pos, crt s)
            else map_option (\<lambda>m. (pos + 1, m)) (crt_put pos (word_of_int (c mod 256) OR 0x0700) (crt s))) of
        None \<Rightarrow> Fault ''crt''
      | Some (pos, m) \<Rightarrow>
          if pos < 0 \<or> pos > 25 * 80 then Panic ''pos under/overflow''
          else
            let (pos, m) = (if pos div 80 \<ge> 24 then (pos - 80, scroll (pos - 80) m) else (pos, m))
            in case crt_put pos 0x0720 m of
                 None \<Rightarrow> Fault ''crt''
               | Some m \<Rightarrow> Ok () \<lparr>crt = m, cpos = pos\<rparr>)"

section \<open>Input\<close>

datatype device = ConsoleDev

definition INPUT_BUF :: nat where "INPUT_BUF = 128"
definition CONSOLE :: nat where "CONSOLE = 1"

record kcons = kino +
  in_buf :: "byte list"
  in_r :: "32 word"
  in_w :: "32 word"
  in_e :: "32 word"
  devsw :: "nat \<Rightarrow> device option"

definition consputc :: "int \<Rightarrow> 'a kout_scheme \<Rightarrow> 'a kout_scheme" where
  "consputc c s =
     s\<lparr>outbuf := outbuf s @ (if c = BACKSPACE then [CHR 0x08, CHR '' '', CHR 0x08] else [char_of c])\<rparr>"

definition in_at :: "'a kcons_scheme \<Rightarrow> 32 word \<Rightarrow> byte" where
  "in_at s i = in_buf s ! (unat i mod INPUT_BUF)"

partial_function (option) kill_line :: "'a kcons_scheme \<Rightarrow> 'a kcons_scheme option" where
  "kill_line s =
     (if in_e s \<noteq> in_w s \<and> in_at s (in_e s - 1) \<noteq> 10
      then kill_line (consputc BACKSPACE (s\<lparr>in_e := in_e s - 1\<rparr>))
      else Some s)"

definition input_char :: "int \<Rightarrow> 'a kcons_scheme \<Rightarrow> (bool, 'a kcons_scheme) outcome" where
  "input_char c s =
     (if c = 16 then Ok True s
      else if c = 21 then (case kill_line s of None \<Rightarrow> Diverge | Some s \<Rightarrow> Ok False s)
      else if c = 8 \<or> c = 127 then
        Ok False (if in_e s \<noteq> in_w s then consputc BACKSPACE (s\<lparr>in_e := in_e s - 1\<rparr>) else s)
      else if c \<noteq> 0 \<and> in_e s - in_r s < of_nat INPUT_BUF then
        let c = (if c = 13 then 10 else c);
            s = s\<lparr>in_buf := (in_buf s)[unat (in_e s) mod INPUT_BUF := word_of_int c], in_e := in_e s + 1\<rparr>;
            s = consputc c s
        in if c = 10 \<or> c = 4 \<or> in_e s = in_r s + of_nat INPUT_BUF
           then bindo (wakeup ChanInput (s\<lparr>in_w := in_e s\<rparr>)) (\<lambda>_ s. Ok False s)
           else Ok False s
      else Ok False s)"

fun input_chars :: "int list \<Rightarrow> bool \<Rightarrow> 'a kcons_scheme \<Rightarrow> (bool, 'a kcons_scheme) outcome" where
  "input_chars [] dump s = Ok dump s"
| "input_chars (c # cs) dump s =
     (if c < 0 then Ok dump s
      else bindo (input_char c s) (\<lambda>d s. input_chars cs (dump \<or> d) s))"

definition consoleintr ::
  "(nat \<Rightarrow> addr list) \<Rightarrow> int list \<Rightarrow> 'a kcons_scheme \<Rightarrow> (unit, 'a kcons_scheme) outcome" where
  "consoleintr getcallerpcs cs s =
     bindo (acquire ConsLock s) (\<lambda>_ s.
     bindo (input_chars cs False s) (\<lambda>dump s.
     bindo (release ConsLock s) (\<lambda>_ s.
       if dump then procdump getcallerpcs s else Ok () s)))"

section \<open>Reading and writing\<close>

partial_function (option) consoleread_loop ::
  "nat \<Rightarrow> int \<Rightarrow> int \<Rightarrow> byte list \<Rightarrow> 'a kcons_scheme \<Rightarrow> (int \<times> byte list, 'a kcons_scheme) outcome option" where
  "consoleread_loop ip target n dst s =
     (if n > 0 then
        if in_r s = in_w s then
          (case bindo (myproc s) (\<lambda>p s.
             case p of
               None \<Rightarrow> Fault ''myproc: null process''
             | Some p \<Rightarrow>
                 if killed (procs s ! p) then
                   bindo (release ConsLock s) (\<lambda>_ s. bindo (ilock (Some ip) s) (\<lambda>_ s. Ok True s))
                 else bindo (sleep ChanInput (Some ConsLock) s) (\<lambda>_ s. Ok False s)) of
             Ok k s \<Rightarrow> if k then Some (Ok (- 1, dst) s) else consoleread_loop ip target n dst s
           | Switch s \<Rightarrow> Some (Switch s)
           | Panic m \<Rightarrow> Some (Panic m)
           | Fault m \<Rightarrow> Some (Fault m)
           | Diverge \<Rightarrow> Some Diverge)
        else
          let c = in_at s (in_r s); s = s\<lparr>in_r := in_r s + 1\<rparr> in
          if c = 4 then
            let s = (if n < target then s\<lparr>in_r := in_r s - 1\<rparr> else s) in
            Some (bindo (release ConsLock s) (\<lambda>_ s. bindo (ilock (Some ip) s) (\<lambda>_ s. Ok (target - n, dst) s)))
          else if c = 10 then
            Some (bindo (release ConsLock s) (\<lambda>_ s.
                  bindo (ilock (Some ip) s) (\<lambda>_ s. Ok (target - (n - 1), dst @ [c]) s)))
          else consoleread_loop ip target (n - 1) (dst @ [c]) s
      else
        Some (bindo (release ConsLock s) (\<lambda>_ s.
              bindo (ilock (Some ip) s) (\<lambda>_ s. Ok (target - n, dst) s))))"

definition consoleread ::
  "nat \<Rightarrow> int \<Rightarrow> 'a kcons_scheme \<Rightarrow> (int \<times> byte list, 'a kcons_scheme) outcome" where
  "consoleread ip n s =
     bindo (iunlock (Some ip) s) (\<lambda>_ s.
     bindo (acquire ConsLock s) (\<lambda>_ s. returns (consoleread_loop ip n n [] s)))"

definition consoleread_resume ::
  "nat \<Rightarrow> nat \<Rightarrow> int \<Rightarrow> int \<Rightarrow> byte list \<Rightarrow> 'a kcons_scheme \<Rightarrow> (int \<times> byte list, 'a kcons_scheme) outcome" where
  "consoleread_resume p ip target n dst s =
     bindo (sleep_resume p ConsLock s) (\<lambda>_ s. returns (consoleread_loop ip target n dst s))"

definition consolewrite :: "nat \<Rightarrow> byte list \<Rightarrow> 'a kcons_scheme \<Rightarrow> (int, 'a kcons_scheme) outcome" where
  "consolewrite ip bs s =
     bindo (iunlock (Some ip) s) (\<lambda>_ s.
     bindo (acquire ConsLock s) (\<lambda>_ s.
       let s = fold (\<lambda>b s. consputc (uint b) s) bs s in
     bindo (release ConsLock s) (\<lambda>_ s.
     bindo (ilock (Some ip) s) (\<lambda>_ s. Ok (int (length bs)) s))))"

definition consoleinit :: "'a kcons_scheme \<Rightarrow> (unit, 'a kcons_scheme) outcome" where
  "consoleinit s =
     bindo (initlock ConsLock ''console'' s) (\<lambda>_ s.
       Ok () (s\<lparr>devsw := (devsw s)(CONSOLE \<mapsto> ConsoleDev), cons_locking := True\<rparr>))"

end
