(* ===== verification/Fs.thy ===== *)
theory Fs
  imports Console
begin

text \<open>
  The upper half of \<^verbatim>\<open>fs.c\<close>: reading and writing files, directories and path names.  Buffers of
  the caller are values: \<open>readi\<close> returns the bytes it stored through \<^verbatim>\<open>dst\<close>, \<open>writei\<close> gets the bytes of
  \<^verbatim>\<open>src\<close>.  A C string is the list of its bytes before the null byte; the array \<^verbatim>\<open>name\<close> of
  \<^verbatim>\<open>DIRSIZ\<close> bytes is the list of its bytes before the null byte, if it has one.
\<close>

definition NDEV :: int where "NDEV = 10"

definition has_driver :: "nat \<Rightarrow> 'a kcons_scheme \<Rightarrow> bool" where
  "has_driver i s =
     (let m = sint (i_major (inodes s ! i)) in 0 \<le> m \<and> m < NDEV \<and> devsw s (nat m) \<noteq> None)"

section \<open>Files\<close>

definition chunk :: "nat \<Rightarrow> nat \<Rightarrow> nat" where
  "chunk off n = min n (BSIZE - off mod BSIZE)"

lemma chunk_pos: "n \<noteq> 0 \<Longrightarrow> 0 < chunk off n"
  by (simp add: chunk_def BSIZE_def)

lemma chunk_le: "chunk off n \<le> n"
  by (simp add: chunk_def)

function readi_loop :: "nat \<Rightarrow> nat \<Rightarrow> nat \<Rightarrow> byte list \<Rightarrow> 'a kino_scheme \<Rightarrow> (byte list, 'a kino_scheme) outcome" where
  "readi_loop i off n dst s =
     (if n \<noteq> 0 then
        bindo (bmap i (of_nat (off div BSIZE)) s) (\<lambda>b s.
        bindo (bread (i_dev (inodes s ! i)) b s) (\<lambda>bp s.
          let m = chunk off n;
              dst = dst @ get_bytes (off mod BSIZE) m (b_data (bufs s ! bp))
          in bindo (brelse bp s) (\<lambda>_ s. readi_loop i (off + m) (n - m) dst s)))
      else Ok dst s)"
  by pat_completeness auto
termination
  by (relation "measure (\<lambda>(i, off, n, dst, s). n)") (simp_all add: chunk_pos)

definition readi ::
  "nat \<Rightarrow> 32 word \<Rightarrow> 32 word \<Rightarrow> 'a kcons_scheme \<Rightarrow> (int \<times> byte list, 'a kcons_scheme) outcome" where
  "readi i off n s =
     (let ip = inodes s ! i in
      if i_type ip = T_DEV then
        if \<not> has_driver i s then Ok (- 1, []) s else consoleread i (sint n) s
      else if off > i_size ip \<or> off + n < off then Ok (- 1, []) s
      else
        let n = (if off + n > i_size ip then i_size ip - off else n)
        in bindo (readi_loop i (unat off) (unat n) [] s) (\<lambda>dst s. Ok (sint n, dst) s))"

function writei_loop :: "nat \<Rightarrow> nat \<Rightarrow> byte list \<Rightarrow> 'a kino_scheme \<Rightarrow> (nat, 'a kino_scheme) outcome" where
  "writei_loop i off src s =
     (if src \<noteq> [] then
        bindo (bmap i (of_nat (off div BSIZE)) s) (\<lambda>b s.
        bindo (bread (i_dev (inodes s ! i)) b s) (\<lambda>bp s.
          let m = chunk off (length src);
              s = upd_data bp (put_bytes (off mod BSIZE) (take m src)) s
          in bindo (log_write bp s) (\<lambda>_ s.
             bindo (brelse bp s) (\<lambda>_ s. writei_loop i (off + m) (drop m src) s))))
      else Ok off s)"
  by pat_completeness auto
termination
  by (relation "measure (\<lambda>(i, off, src, s). length src)") (simp_all add: chunk_pos)

definition writei ::
  "nat \<Rightarrow> byte list \<Rightarrow> 32 word \<Rightarrow> 'a kcons_scheme \<Rightarrow> (int, 'a kcons_scheme) outcome" where
  "writei i src off s =
     (let ip = inodes s ! i; n = of_nat (length src) :: 32 word in
      if i_type ip = T_DEV then
        if \<not> has_driver i s then Ok (- 1) s else consolewrite i src s
      else if off > i_size ip \<or> off + n < off then Ok (- 1) s
      else if off + n > of_nat (MAXFILE * BSIZE) then Ok (- 1) s
      else bindo (writei_loop i (unat off) src s) (\<lambda>off s.
             if n > 0 \<and> off > unat (i_size (inodes s ! i)) then
               bindo (iupdate i (upd_inode i (\<lambda>ip. ip\<lparr>i_size := of_nat off\<rparr>) s)) (\<lambda>_ s. Ok (sint n) s)
             else Ok (sint n) s))"

section \<open>Directories\<close>

definition byte_at :: "byte list \<Rightarrow> byte" where
  "byte_at s = (case s of [] \<Rightarrow> 0 | c # _ \<Rightarrow> c)"

fun strncmp_bytes :: "nat \<Rightarrow> byte list \<Rightarrow> byte list \<Rightarrow> int" where
  "strncmp_bytes 0 s t = 0"
| "strncmp_bytes (Suc n) s t =
     (if byte_at s \<noteq> 0 \<and> byte_at s = byte_at t then strncmp_bytes n (tl s) (tl t)
      else uint (byte_at s) - uint (byte_at t))"

definition namecmp :: "byte list \<Rightarrow> byte list \<Rightarrow> int" where
  "namecmp s t = strncmp_bytes DIRSIZ s t"

definition dir_offsets :: "32 word \<Rightarrow> nat list" where
  "dir_offsets n = map (\<lambda>k. 16 * k) [0..<(unat n + 15) div 16]"

fun dirlookup_loop ::
  "nat \<Rightarrow> byte list \<Rightarrow> nat list \<Rightarrow> 'a kcons_scheme \<Rightarrow> ((nat \<times> nat) option, 'a kcons_scheme) outcome" where
  "dirlookup_loop dp name [] s = Ok None s"
| "dirlookup_loop dp name (off # offs) s =
     bindo (readi dp (of_nat off) 16 s) (\<lambda>(r, bs) s.
       if r \<noteq> 16 then Panic ''dirlookup read''
       else
         let de = get_dirent bs in
         if de_inum de = 0 then dirlookup_loop dp name offs s
         else if namecmp name (de_name de) = 0 then
           bindo (iget (i_dev (inodes s ! dp)) (ucast (de_inum de)) s) (\<lambda>i s. Ok (Some (i, off)) s)
         else dirlookup_loop dp name offs s)"

definition dirlookup ::
  "nat \<Rightarrow> byte list \<Rightarrow> 'a kcons_scheme \<Rightarrow> ((nat \<times> nat) option, 'a kcons_scheme) outcome" where
  "dirlookup dp name s =
     (if i_type (inodes s ! dp) \<noteq> T_DIR then Panic ''dirlookup not DIR''
      else dirlookup_loop dp name (dir_offsets (i_size (inodes s ! dp))) s)"

fun find_slot :: "nat \<Rightarrow> nat list \<Rightarrow> nat \<Rightarrow> 'a kcons_scheme \<Rightarrow> (nat, 'a kcons_scheme) outcome" where
  "find_slot dp [] end_off s = Ok end_off s"
| "find_slot dp (off # offs) end_off s =
     bindo (readi dp (of_nat off) 16 s) (\<lambda>(r, bs) s.
       if r \<noteq> 16 then Panic ''dirlink read''
       else if de_inum (get_dirent bs) = 0 then Ok off s
       else find_slot dp offs end_off s)"

definition strncpy_bytes :: "nat \<Rightarrow> byte list \<Rightarrow> byte list" where
  "strncpy_bytes n s = take n (takeWhile (\<lambda>c. c \<noteq> 0) s @ replicate n 0)"

definition dirlink :: "nat \<Rightarrow> byte list \<Rightarrow> 32 word \<Rightarrow> 'a kcons_scheme \<Rightarrow> (int, 'a kcons_scheme) outcome" where
  "dirlink dp name inum s =
     bindo (dirlookup dp name s) (\<lambda>r s.
       case r of
         Some (i, _) \<Rightarrow> bindo (iput i s) (\<lambda>_ s. Ok (- 1) s)
       | None \<Rightarrow>
           let offs = dir_offsets (i_size (inodes s ! dp)) in
           bindo (find_slot dp offs (16 * length offs) s) (\<lambda>off s.
             let de = \<lparr>de_inum = ucast inum, de_name = strncpy_bytes DIRSIZ name\<rparr> in
           bindo (writei dp (bytes_dirent de) (of_nat off) s) (\<lambda>r s.
             if r \<noteq> 16 then Panic ''dirlink'' else Ok 0 s)))"

section \<open>Path names\<close>

definition SLASH :: byte where "SLASH = 47"

definition skipelem :: "byte list \<Rightarrow> (byte list \<times> byte list) option" where
  "skipelem path =
     (let path = dropWhile (\<lambda>c. c = SLASH) path in
      if path = [] then None
      else
        let name = take DIRSIZ (takeWhile (\<lambda>c. c \<noteq> SLASH) path);
            path = dropWhile (\<lambda>c. c = SLASH) (dropWhile (\<lambda>c. c \<noteq> SLASH) path)
        in Some (path, name))"

lemma skipelem_shorter:
  assumes "skipelem path = Some (rest, name)"
  shows "length rest < length path"
proof -
  let ?p = "dropWhile (\<lambda>c. c = SLASH) path"
  have p: "?p \<noteq> []" and r: "rest = dropWhile (\<lambda>c. c = SLASH) (dropWhile (\<lambda>c. c \<noteq> SLASH) ?p)"
    using assms by (auto simp: skipelem_def Let_def split: if_splits)
  obtain c q where c: "?p = c # q" using p by (cases ?p) auto
  have "c \<noteq> SLASH" using hd_dropWhile [OF p] c by simp
  then have "length (dropWhile (\<lambda>c. c \<noteq> SLASH) ?p) \<le> length q"
    using c by (simp add: length_dropWhile_le)
  moreover have "length rest \<le> length (dropWhile (\<lambda>c. c \<noteq> SLASH) ?p)" unfolding r by (rule length_dropWhile_le)
  moreover have "length ?p \<le> length path" by (rule length_dropWhile_le)
  ultimately show ?thesis using c by simp
qed

function namex_loop ::
  "nat \<Rightarrow> byte list \<Rightarrow> bool \<Rightarrow> byte list \<Rightarrow> 'a kcons_scheme \<Rightarrow> ((nat \<times> byte list) option, 'a kcons_scheme) outcome" where
  "namex_loop ip path par name s =
     (case skipelem path of
        None \<Rightarrow>
          if par then bindo (iput ip s) (\<lambda>_ s. Ok None s)
          else Ok (Some (ip, name)) s
      | Some (path, name) \<Rightarrow>
          bindo (ilock (Some ip) s) (\<lambda>_ s.
            if i_type (inodes s ! ip) \<noteq> T_DIR then bindo (iunlockput ip s) (\<lambda>_ s. Ok None s)
            else if par \<and> path = [] then bindo (iunlock (Some ip) s) (\<lambda>_ s. Ok (Some (ip, name)) s)
            else bindo (dirlookup ip name s) (\<lambda>r s.
              case r of
                None \<Rightarrow> bindo (iunlockput ip s) (\<lambda>_ s. Ok None s)
              | Some (next, _) \<Rightarrow> bindo (iunlockput ip s) (\<lambda>_ s. namex_loop next path par name s))))"
  by pat_completeness auto
termination
  by (relation "measure (\<lambda>(ip, path, par, name, s). length path)") (auto intro: skipelem_shorter)

definition namex ::
  "byte list \<Rightarrow> bool \<Rightarrow> 'a kcons_scheme \<Rightarrow> ((nat \<times> byte list) option, 'a kcons_scheme) outcome" where
  "namex path par s =
     bindo (if byte_at path = SLASH then iget ROOTDEV ROOTINO s
            else bindo (myproc s) (\<lambda>p s.
              case p of
                None \<Rightarrow> Fault ''myproc: null process''
              | Some p \<Rightarrow>
                  (case cwd (procs s ! p) of
                     None \<Rightarrow> Fault ''cwd: null inode''
                   | Some i \<Rightarrow> idup i s))) (\<lambda>ip s. namex_loop ip path par [] s)"

definition namei :: "byte list \<Rightarrow> 'a kcons_scheme \<Rightarrow> (nat option, 'a kcons_scheme) outcome" where
  "namei path s = bindo (namex path False s) (\<lambda>r s. Ok (map_option fst r) s)"

definition nameiparent ::
  "byte list \<Rightarrow> 'a kcons_scheme \<Rightarrow> ((nat \<times> byte list) option, 'a kcons_scheme) outcome" where
  "nameiparent path s = namex path True s"

end
