(* ===== verification/Ring.thy ===== *)
theory Ring
  imports Prelude
begin

text \<open>
  Ring buffers with free-running 32-bit indices, as \<^verbatim>\<open>struct pipe\<close> and the console's \<^verbatim>\<open>input\<close> use
  them: element \<open>i\<close> is stored at \<^verbatim>\<open>buf[i % N]\<close>, and the indices wrap at \<open>2 ^ 32\<close>.  The contract holds
  for every size that divides \<open>2 ^ 32\<close>.
\<close>

definition ring_contents :: "nat \<Rightarrow> byte list \<Rightarrow> 32 word \<Rightarrow> 32 word \<Rightarrow> byte list" where
  "ring_contents n buf r w = map (\<lambda>k. buf ! (unat (r + of_nat k) mod n)) [0..<unat (w - r)]"

locale ring_buffer =
  fixes n :: nat
  assumes divides: "n dvd 4294967296" and positive: "0 < n" and bounded: "n < 4294967296"
begin

lemma slot_mod: "unat (r + of_nat k :: 32 word) mod n = (unat r + k) mod n"
proof -
  have "unat (r + of_nat k :: 32 word) = (unat r + k) mod 4294967296"
    by (simp add: unat_word_ariths unat_of_nat take_bit_eq_mod mod_simps)
  then show ?thesis using divides by (simp add: mod_mod_cancel)
qed

lemma ring_empty: "ring_contents n buf r r = []"
  by (simp add: ring_contents_def)

lemma ring_length: "length (ring_contents n buf r w) = unat (w - r)"
  by (simp add: ring_contents_def)

lemma ring_pop:
  assumes "r \<noteq> w"
  shows "ring_contents n buf r w = buf ! (unat r mod n) # ring_contents n buf (r + 1) w"
proof -
  have "w - r \<noteq> 0" using assms by simp
  then have "unat (w - r - 1) = unat (w - r) - 1" "0 < unat (w - r)"
    using unat_minus_one [of "w - r"] by (simp_all add: unat_gt_0)
  then have u: "unat (w - r) = Suc (unat (w - (r + 1)))" by (simp add: diff_diff_eq)
  have "[0..<unat (w - r)] = 0 # map Suc [0..<unat (w - (r + 1))]"
    unfolding u by (simp add: map_Suc_upt upt_conv_Cons del: upt_Suc)
  then show ?thesis by (simp add: ring_contents_def algebra_simps)
qed

lemma ring_push:
  assumes "unat (w - r) < n" "length buf = n"
  shows "ring_contents n (buf[unat w mod n := x]) r (w + 1) = ring_contents n buf r w @ [x]"
proof -
  let ?m = "unat (w - r)"
  have w: "w = r + of_nat ?m" by simp
  have "unat (w + 1 - r) = Suc ?m"
  proof -
    have "w - r + 1 \<noteq> 0"
    proof
      assume "w - r + 1 = 0"
      then have "w - r = - 1" by (simp add: eq_neg_iff_add_eq_0)
      then have "?m = 4294967295" by (simp add: unsigned_minus_1_eq_mask mask_eq_exp_minus_1)
      then show False using assms(1) bounded by simp
    qed
    then have "unat (1 + (w - r)) = Suc ?m" by (intro unatSuc) (simp add: add.commute)
    then show ?thesis by (simp add: algebra_simps)
  qed
  moreover have "(buf[unat w mod n := x]) ! (unat (r + of_nat k) mod n) = buf ! (unat (r + of_nat k) mod n)" if "k < ?m" for k
  proof -
    have "unat w mod n = (unat r + ?m) mod n" using slot_mod [of r ?m] w by simp
    moreover have "(unat r + ?m) mod n \<noteq> (unat r + k) mod n"
    proof
      assume "(unat r + ?m) mod n = (unat r + k) mod n"
      then have "n dvd (unat r + ?m) - (unat r + k)"
        using mod_eq_dvd_iff_nat [of "unat r + k" "unat r + ?m" n] that by simp
      then have "n dvd ?m - k" by simp
      then show False using that assms(1) by (auto dest: dvd_imp_le)
    qed
    ultimately show ?thesis by (simp add: slot_mod)
  qed
  moreover have "(buf[unat w mod n := x]) ! (unat (r + of_nat ?m) mod n) = x"
    using assms(2) positive by simp
  ultimately show ?thesis
    by (simp add: ring_contents_def del: of_nat_unat)
qed

lemma ring_take:
  assumes "unat (w - r) \<le> unat (e - r)"
  shows "ring_contents n buf r w = take (unat (w - r)) (ring_contents n buf r e)"
  using assms by (simp add: ring_contents_def take_map)

lemma ring_drop:
  assumes "unat (w - r) \<le> unat (e - r)"
  shows "ring_contents n buf w e = drop (unat (w - r)) (ring_contents n buf r e)" "unat (e - w) = unat (e - r) - unat (w - r)"
proof -
  have "w - r \<le> e - r" using assms by (simp add: word_le_nat_alt)
  then have "unat ((e - r) - (w - r)) = unat (e - r) - unat (w - r)" by (rule unat_sub)
  then show l: "unat (e - w) = unat (e - r) - unat (w - r)" by simp
  have "w + of_nat k = r + of_nat (unat (w - r) + k)" for k by simp
  then show "ring_contents n buf w e = drop (unat (w - r)) (ring_contents n buf r e)"
    by (intro nth_equalityI) (simp_all add: ring_contents_def l)
qed

lemma ring_unpush:
  assumes "e \<noteq> r"
  shows "ring_contents n buf r (e - 1) = butlast (ring_contents n buf r e)" "unat (e - 1 - r) = unat (e - r) - 1"
proof -
  have "e - r \<noteq> 0" using assms by simp
  then have "unat (e - r - 1) = unat (e - r) - 1" by (rule unat_minus_one)
  then show l: "unat (e - 1 - r) = unat (e - r) - 1" by (simp add: algebra_simps)
  show "ring_contents n buf r (e - 1) = butlast (ring_contents n buf r e)"
    by (simp add: ring_contents_def l butlast_conv_take take_map)
qed

lemma ring_last:
  assumes "e \<noteq> r"
  shows "buf ! (unat (e - 1) mod n) = last (ring_contents n buf r e)"
proof -
  have p: "0 < unat (e - r)" using assms by (simp add: unat_gt_0)
  have "r + of_nat (unat (e - r) - 1) = e - 1"
  proof -
    have "unat (e - r) - 1 = unat (e - 1 - r)" using ring_unpush(2) [OF assms] by simp
    then show ?thesis by simp
  qed
  then show ?thesis using p by (simp add: ring_contents_def last_conv_nth)
qed

end

end
