(* ===== verification/Pipe.thy ===== *)
theory Pipe
  imports Sched Ring
begin

text \<open>
  Pipes: \<^verbatim>\<open>pipe.c\<close> apart from \<^verbatim>\<open>pipealloc\<close>, which is with the file table.  A pipe lives in a page of
  its own; \<^verbatim>\<open>&p->nread\<close> and \<^verbatim>\<open>&p->nwrite\<close> are the sleep channels of the pipe at \<open>p\<close>.  The bytes the
  caller passes are a list; \<open>piperead\<close> returns the bytes it stored through \<^verbatim>\<open>addr\<close>.  The loops go on
  after \<^verbatim>\<open>sleep\<close> returns; the functions ending in \<open>_resume\<close> are those continuations.
\<close>

definition PIPESIZE :: nat where "PIPESIZE = 512"

definition load_pipe :: "addr \<Rightarrow> 'a kmem_scheme \<Rightarrow> (pipe, 'a kmem_scheme) outcome" where
  "load_pipe p s = (case mem s p of PipePage x \<Rightarrow> Ok x s | _ \<Rightarrow> Fault ''pipe pointer'')"

definition upd_pipe :: "addr \<Rightarrow> (pipe \<Rightarrow> pipe) \<Rightarrow> 'a kmem_scheme \<Rightarrow> 'a kmem_scheme" where
  "upd_pipe p f s = (case mem s p of PipePage x \<Rightarrow> put_page p (PipePage (f x)) s | _ \<Rightarrow> s)"

definition mykilled :: "'a kproc_scheme \<Rightarrow> (bool, 'a kproc_scheme) outcome" where
  "mykilled s =
     bindo (myproc s) (\<lambda>q s.
       case q of None \<Rightarrow> Fault ''myproc: null process'' | Some q \<Rightarrow> Ok (killed (procs s ! q)) s)"

definition pipeclose :: "addr \<Rightarrow> bool \<Rightarrow> 'a kproc_scheme \<Rightarrow> (unit, 'a kproc_scheme) outcome" where
  "pipeclose p writable s =
     bindo (acquire (PipeLock p) s) (\<lambda>_ s.
     bindo (if writable then wakeup (ChanPipeRead p) (upd_pipe p (\<lambda>x. x\<lparr>p_writeopen := False\<rparr>) s)
            else wakeup (ChanPipeWrite p) (upd_pipe p (\<lambda>x. x\<lparr>p_readopen := False\<rparr>) s)) (\<lambda>_ s.
     bindo (load_pipe p s) (\<lambda>x s.
       if \<not> p_readopen x \<and> \<not> p_writeopen x
       then bindo (release (PipeLock p) s) (\<lambda>_ s. kfree p s)
       else release (PipeLock p) s)))"

section \<open>Writing\<close>

definition pipe_full :: "pipe \<Rightarrow> bool" where
  "pipe_full x = (p_nwrite x = p_nread x + of_nat PIPESIZE)"

definition pipe_put :: "byte \<Rightarrow> pipe \<Rightarrow> pipe" where
  "pipe_put b x =
     x\<lparr>p_data := (p_data x)[unat (p_nwrite x) mod PIPESIZE := b], p_nwrite := p_nwrite x + 1\<rparr>"

definition pipewrite_wait :: "addr \<Rightarrow> bool \<Rightarrow> 'a kproc_scheme \<Rightarrow> (bool, 'a kproc_scheme) outcome" where
  "pipewrite_wait p readopen s =
     bindo (if \<not> readopen then Ok True s else mykilled s) (\<lambda>stop s.
       if stop then bindo (release (PipeLock p) s) (\<lambda>_ s. Ok True s)
       else bindo (wakeup (ChanPipeRead p) s) (\<lambda>_ s.
            bindo (sleep (ChanPipeWrite p) (Some (PipeLock p)) s) (\<lambda>_ s. Ok False s)))"

partial_function (option) pipewrite_loop ::
  "addr \<Rightarrow> byte list \<Rightarrow> int \<Rightarrow> 'a kproc_scheme \<Rightarrow> (int, 'a kproc_scheme) outcome option" where
  "pipewrite_loop p bs n s =
     (if bs = [] then
        Some (bindo (wakeup (ChanPipeRead p) s) (\<lambda>_ s.
              bindo (release (PipeLock p) s) (\<lambda>_ s. Ok n s)))
      else
        (case bindo (load_pipe p s) (\<lambda>x s.
           if pipe_full x then bindo (pipewrite_wait p (p_readopen x) s) (\<lambda>stop s. Ok (if stop then None else Some False) s)
           else Ok (Some True) (upd_pipe p (pipe_put (hd bs)) s)) of
           Ok r s \<Rightarrow>
             (case r of
                None \<Rightarrow> Some (Ok (- 1) s)
              | Some stored \<Rightarrow> pipewrite_loop p (if stored then tl bs else bs) n s)
         | Switch s \<Rightarrow> Some (Switch s)
         | Panic m \<Rightarrow> Some (Panic m)
         | Fault m \<Rightarrow> Some (Fault m)
         | Diverge \<Rightarrow> Some Diverge))"

definition pipewrite :: "addr \<Rightarrow> byte list \<Rightarrow> 'a kproc_scheme \<Rightarrow> (int, 'a kproc_scheme) outcome" where
  "pipewrite p bs s =
     bindo (acquire (PipeLock p) s) (\<lambda>_ s. returns (pipewrite_loop p bs (int (length bs)) s))"

definition pipewrite_resume ::
  "nat \<Rightarrow> addr \<Rightarrow> byte list \<Rightarrow> int \<Rightarrow> 'a kproc_scheme \<Rightarrow> (int, 'a kproc_scheme) outcome" where
  "pipewrite_resume q p bs n s =
     bindo (sleep_resume q (PipeLock p) s) (\<lambda>_ s. returns (pipewrite_loop p bs n s))"

section \<open>Reading\<close>

definition pipe_get :: "pipe \<Rightarrow> byte \<times> pipe" where
  "pipe_get x = (p_data x ! (unat (p_nread x) mod PIPESIZE), x\<lparr>p_nread := p_nread x + 1\<rparr>)"

fun piperead_copy :: "nat \<Rightarrow> pipe \<Rightarrow> byte list \<times> pipe" where
  "piperead_copy 0 x = ([], x)"
| "piperead_copy (Suc n) x =
     (if p_nread x = p_nwrite x then ([], x)
      else let (b, x) = pipe_get x; (bs, x) = piperead_copy n x in (b # bs, x))"

partial_function (option) piperead_loop ::
  "addr \<Rightarrow> nat \<Rightarrow> 'a kproc_scheme \<Rightarrow> (int \<times> byte list, 'a kproc_scheme) outcome option" where
  "piperead_loop p n s =
     (case bindo (load_pipe p s) (\<lambda>x s.
        if p_nread x = p_nwrite x \<and> p_writeopen x then
          bindo (mykilled s) (\<lambda>k s.
            if k then bindo (release (PipeLock p) s) (\<lambda>_ s. Ok (Some (- 1, [])) s)
            else bindo (sleep (ChanPipeRead p) (Some (PipeLock p)) s) (\<lambda>_ s. Ok None s))
        else
          let (bs, x) = piperead_copy n x; s = upd_pipe p (\<lambda>_. x) s in
          bindo (wakeup (ChanPipeWrite p) s) (\<lambda>_ s.
          bindo (release (PipeLock p) s) (\<lambda>_ s. Ok (Some (int (length bs), bs)) s))) of
        Ok r s \<Rightarrow> (case r of None \<Rightarrow> piperead_loop p n s | Some v \<Rightarrow> Some (Ok v s))
      | Switch s \<Rightarrow> Some (Switch s)
      | Panic m \<Rightarrow> Some (Panic m)
      | Fault m \<Rightarrow> Some (Fault m)
      | Diverge \<Rightarrow> Some Diverge)"

definition piperead :: "addr \<Rightarrow> int \<Rightarrow> 'a kproc_scheme \<Rightarrow> (int \<times> byte list, 'a kproc_scheme) outcome" where
  "piperead p n s = bindo (acquire (PipeLock p) s) (\<lambda>_ s. returns (piperead_loop p (nat n) s))"

definition piperead_resume ::
  "nat \<Rightarrow> addr \<Rightarrow> int \<Rightarrow> 'a kproc_scheme \<Rightarrow> (int \<times> byte list, 'a kproc_scheme) outcome" where
  "piperead_resume q p n s =
     bindo (sleep_resume q (PipeLock p) s) (\<lambda>_ s. returns (piperead_loop p (nat n) s))"

end
