(* ===== verification/File.thy ===== *)
theory File
  imports Fs Pipe
begin

text \<open>
  The file table: \<^verbatim>\<open>file.c\<close>, and \<^verbatim>\<open>pipealloc\<close> of \<^verbatim>\<open>pipe.c\<close>.  A \<^verbatim>\<open>struct file *\<close> is an index into
  \<open>files\<close>.  As below, buffers of the caller are values.
\<close>

definition NFILE :: nat where "NFILE = 100"

datatype ftype = FD_NONE | FD_PIPE | FD_INODE

record file_struct =
  f_type :: ftype
  f_ref :: int
  f_readable :: bool
  f_writable :: bool
  f_pipe :: addr
  f_ip :: nat
  f_off :: "32 word"

record kfile = kcons +
  files :: "file_struct list"

definition upd_file :: "nat \<Rightarrow> (file_struct \<Rightarrow> file_struct) \<Rightarrow> 'a kfile_scheme \<Rightarrow> 'a kfile_scheme" where
  "upd_file i f s = s\<lparr>files := (files s)[i := f (files s ! i)]\<rparr>"

definition fileinit :: "'a kfile_scheme \<Rightarrow> (unit, 'a kfile_scheme) outcome" where
  "fileinit s = initlock FtableLock ''ftable'' s"

definition find_file :: "'a kfile_scheme \<Rightarrow> nat option" where
  "find_file s = find (\<lambda>i. f_ref (files s ! i) = 0) [0..<NFILE]"

definition filealloc :: "'a kfile_scheme \<Rightarrow> (nat option, 'a kfile_scheme) outcome" where
  "filealloc s =
     bindo (acquire FtableLock s) (\<lambda>_ s.
       case find_file s of
         Some f \<Rightarrow> bindo (release FtableLock (upd_file f (\<lambda>x. x\<lparr>f_ref := 1\<rparr>) s)) (\<lambda>_ s. Ok (Some f) s)
       | None \<Rightarrow> bindo (release FtableLock s) (\<lambda>_ s. Ok None s))"

definition filedup :: "nat \<Rightarrow> 'a kfile_scheme \<Rightarrow> (nat, 'a kfile_scheme) outcome" where
  "filedup f s =
     bindo (acquire FtableLock s) (\<lambda>_ s.
       if f_ref (files s ! f) < 1 then Panic ''filedup''
       else bindo (release FtableLock (upd_file f (\<lambda>x. x\<lparr>f_ref := f_ref x + 1\<rparr>) s)) (\<lambda>_ s. Ok f s))"

definition fileclose :: "nat \<Rightarrow> 'a kfile_scheme \<Rightarrow> (unit, 'a kfile_scheme) outcome" where
  "fileclose f s =
     bindo (acquire FtableLock s) (\<lambda>_ s.
       if f_ref (files s ! f) < 1 then Panic ''fileclose''
       else
         let s = upd_file f (\<lambda>x. x\<lparr>f_ref := f_ref x - 1\<rparr>) s in
         if f_ref (files s ! f) > 0 then release FtableLock s
         else
           let ff = files s ! f;
               s = upd_file f (\<lambda>x. x\<lparr>f_ref := 0, f_type := FD_NONE\<rparr>) s
           in bindo (release FtableLock s) (\<lambda>_ s.
                case f_type ff of
                  FD_PIPE \<Rightarrow> pipeclose (f_pipe ff) (f_writable ff) s
                | FD_INODE \<Rightarrow>
                    bindo (begin_op s) (\<lambda>_ s. bindo (iput (f_ip ff) s) (\<lambda>_ s. end_op s))
                | FD_NONE \<Rightarrow> Ok () s))"

definition filestat :: "nat \<Rightarrow> 'a kfile_scheme \<Rightarrow> (int \<times> stat option, 'a kfile_scheme) outcome" where
  "filestat f s =
     (if f_type (files s ! f) = FD_INODE then
        let ip = f_ip (files s ! f) in
        bindo (ilock (Some ip) s) (\<lambda>_ s.
          let st = stati ip s in
        bindo (iunlock (Some ip) s) (\<lambda>_ s. Ok (0, Some st) s))
      else Ok (- 1, None) s)"

definition fileread :: "nat \<Rightarrow> int \<Rightarrow> 'a kfile_scheme \<Rightarrow> (int \<times> byte list, 'a kfile_scheme) outcome" where
  "fileread f n s =
     (if \<not> f_readable (files s ! f) then Ok (- 1, []) s
      else case f_type (files s ! f) of
        FD_PIPE \<Rightarrow> piperead (f_pipe (files s ! f)) n s
      | FD_INODE \<Rightarrow>
          let ip = f_ip (files s ! f) in
          bindo (ilock (Some ip) s) (\<lambda>_ s.
          bindo (readi ip (f_off (files s ! f)) (word_of_int n) s) (\<lambda>(r, bs) s.
            let s = (if r > 0 then upd_file f (\<lambda>x. x\<lparr>f_off := f_off x + word_of_int r\<rparr>) s else s) in
          bindo (iunlock (Some ip) s) (\<lambda>_ s. Ok (r, bs) s)))
      | FD_NONE \<Rightarrow> Panic ''fileread'')"

definition max_write :: nat where
  "max_write = ((MAXOPBLOCKS - 1 - 1 - 2) div 2) * 512"

function filewrite_loop ::
  "nat \<Rightarrow> byte list \<Rightarrow> int \<Rightarrow> int \<Rightarrow> 'a kfile_scheme \<Rightarrow> (int, 'a kfile_scheme) outcome" where
  "filewrite_loop f bs i n s =
     (if bs \<noteq> [] then
        let n1 = min (length bs) max_write; ip = f_ip (files s ! f) in
        bindo (begin_op s) (\<lambda>_ s.
        bindo (ilock (Some ip) s) (\<lambda>_ s.
        bindo (writei ip (take n1 bs) (f_off (files s ! f)) s) (\<lambda>r s.
          let s = (if r > 0 then upd_file f (\<lambda>x. x\<lparr>f_off := f_off x + word_of_int r\<rparr>) s else s) in
        bindo (iunlock (Some ip) s) (\<lambda>_ s.
        bindo (end_op s) (\<lambda>_ s.
          if r < 0 then Ok (if i = n then n else - 1) s
          else if r \<noteq> int n1 then Panic ''short filewrite''
          else filewrite_loop f (drop n1 bs) (i + r) n s)))))
      else Ok (if i = n then n else - 1) s)"
  by pat_completeness auto
termination
  by (relation "measure (\<lambda>(f, bs, i, n, s). length bs)") (simp_all add: max_write_def MAXOPBLOCKS_def)

definition filewrite :: "nat \<Rightarrow> byte list \<Rightarrow> 'a kfile_scheme \<Rightarrow> (int, 'a kfile_scheme) outcome" where
  "filewrite f bs s =
     (if \<not> f_writable (files s ! f) then Ok (- 1) s
      else case f_type (files s ! f) of
        FD_PIPE \<Rightarrow> pipewrite (f_pipe (files s ! f)) bs s
      | FD_INODE \<Rightarrow> filewrite_loop f bs 0 (int (length bs)) s
      | FD_NONE \<Rightarrow> Panic ''filewrite'')"

section \<open>Making a pipe\<close>

definition close_opt :: "nat option \<Rightarrow> 'a kfile_scheme \<Rightarrow> (unit, 'a kfile_scheme) outcome" where
  "close_opt f s = (case f of None \<Rightarrow> Ok () s | Some f \<Rightarrow> fileclose f s)"

definition pipe_file :: "bool \<Rightarrow> addr \<Rightarrow> file_struct \<Rightarrow> file_struct" where
  "pipe_file wr p x = x\<lparr>f_type := FD_PIPE, f_readable := \<not> wr, f_writable := wr, f_pipe := p\<rparr>"

definition pipealloc :: "'a kfile_scheme \<Rightarrow> ((nat \<times> nat) option, 'a kfile_scheme) outcome" where
  "pipealloc s =
     bindo (filealloc s) (\<lambda>f0 s.
     bindo (if f0 = None then Ok None s else filealloc s) (\<lambda>f1 s.
     bindo (if f0 = None \<or> f1 = None then Ok NULL s else kalloc s) (\<lambda>p s.
       case (f0, f1) of
         (Some a, Some b) \<Rightarrow>
           if p = NULL then bindo (close_opt f0 s) (\<lambda>_ s. bindo (close_opt f1 s) (\<lambda>_ s. Ok None s))
           else
             let s = put_page p (PipePage \<lparr>p_data = replicate PIPESIZE 1, p_nread = 0, p_nwrite = 0,
                                           p_readopen = True, p_writeopen = True\<rparr>) s
             in bindo (initlock (PipeLock p) ''pipe'' s) (\<lambda>_ s.
                  Ok (Some (a, b)) (upd_file b (pipe_file True p) (upd_file a (pipe_file False p) s)))
       | _ \<Rightarrow> bindo (close_opt f0 s) (\<lambda>_ s. bindo (close_opt f1 s) (\<lambda>_ s. Ok None s)))))"

end
