(* ===== verification/ProcLife.thy ===== *)
theory ProcLife
  imports File
begin

text \<open>
  The life of a process: \<^verbatim>\<open>userinit\<close>, \<^verbatim>\<open>growproc\<close>, \<^verbatim>\<open>nicefork\<close>, \<^verbatim>\<open>fork\<close>, \<^verbatim>\<open>exit\<close>, \<^verbatim>\<open>wait\<close> and
  \<^verbatim>\<open>forkret\<close> of \<^verbatim>\<open>proc.c\<close>.  The program \<^verbatim>\<open>initcode\<close>, which the linker embeds in the kernel, is an
  argument of \<open>userinit\<close>.
\<close>

definition SEG_UCODE :: addr where "SEG_UCODE = 3"
definition SEG_UDATA :: addr where "SEG_UDATA = 4"
definition DPL_USER :: addr where "DPL_USER = 3"
definition FL_IF :: addr where "FL_IF = 0x200"

definition cur :: "'a kproc_scheme \<Rightarrow> (nat, 'a kproc_scheme) outcome" where
  "cur s = bindo (myproc s) (\<lambda>p s. case p of None \<Rightarrow> Fault ''myproc: null process'' | Some p \<Rightarrow> Ok p s)"

definition user_frame :: trapframe where
  "user_frame =
     \<lparr>tf_edi = 0, tf_esi = 0, tf_ebp = 0, tf_ebx = 0, tf_edx = 0, tf_ecx = 0, tf_eax = 0,
      tf_gs = 0, tf_fs = 0, tf_es = push_bit 3 SEG_UDATA OR DPL_USER,
      tf_ds = push_bit 3 SEG_UDATA OR DPL_USER, tf_trapno = 0, tf_err = 0, tf_eip = 0,
      tf_cs = push_bit 3 SEG_UCODE OR DPL_USER, tf_eflags = FL_IF, tf_esp = PGSIZE,
      tf_ss = push_bit 3 SEG_UDATA OR DPL_USER\<rparr>"

definition userinit :: "byte list \<Rightarrow> 'a kfile_scheme \<Rightarrow> (unit, 'a kfile_scheme) outcome" where
  "userinit initcode s =
     bindo (allocproc s) (\<lambda>q s.
       let s = s\<lparr>initproc := q\<rparr> in
       case q of
         None \<Rightarrow> Fault ''userinit: null process''
       | Some p \<Rightarrow>
           bindo (setupkvm s) (\<lambda>d s.
             let s = upd_proc p (\<lambda>x. x\<lparr>pgdir := d\<rparr>) s in
             if d = NULL then Panic ''userinit: out of memory?''
             else
           bindo (inituvm d initcode s) (\<lambda>_ s.
             let s = upd_proc p (\<lambda>x. x\<lparr>sz := PGSIZE, tf := user_frame, pname := ''initcode''\<rparr>) s in
           bindo (namei [SLASH] s) (\<lambda>ip s.
             let s = upd_proc p (\<lambda>x. x\<lparr>cwd := ip\<rparr>) s in
           bindo (acquire PtableLock s) (\<lambda>_ s.
           bindo (release PtableLock (upd_proc p (\<lambda>x. x\<lparr>pstate := RUNNABLE\<rparr>) s)) (\<lambda>_ s.
             insert_node (skl s) p
               (upd_proc p (\<lambda>x. x\<lparr>nice_value := 0, virtual_deadline := compute_virtual_deadline 0 s\<rparr>) s)))))))"

definition growproc :: "int \<Rightarrow> 'a kproc_scheme \<Rightarrow> (int, 'a kproc_scheme) outcome" where
  "growproc n s =
     bindo (cur s) (\<lambda>p s.
       let z = sz (procs s ! p); d = pgdir (procs s ! p) in
     bindo (if n > 0 then allocuvm d z (z + word_of_int n) s
            else if n < 0 then deallocuvm d z (z + word_of_int n) s
            else Ok z s) (\<lambda>z s.
       if n \<noteq> 0 \<and> z = 0 then Ok (- 1) s
       else bindo (switchuvm (Some p) (upd_proc p (\<lambda>x. x\<lparr>sz := z\<rparr>) s)) (\<lambda>_ s. Ok 0 s)))"

section \<open>Forking\<close>

definition dup_files :: "nat \<Rightarrow> nat \<Rightarrow> 'a kfile_scheme \<Rightarrow> (unit, 'a kfile_scheme) outcome" where
  "dup_files p np s =
     for_list (\<lambda>i s.
       case ofile (procs s ! p) ! i of
         None \<Rightarrow> Ok () s
       | Some f \<Rightarrow>
           bindo (filedup f s) (\<lambda>f s.
             Ok () (upd_proc np (\<lambda>x. x\<lparr>ofile := (ofile x)[i := Some f]\<rparr>) s))) [0..<NOFILE] s"

definition nicefork :: "int \<Rightarrow> 'a kfile_scheme \<Rightarrow> (int, 'a kfile_scheme) outcome" where
  "nicefork nice s =
     bindo (cur s) (\<lambda>p s.
     bindo (allocproc s) (\<lambda>q s.
       case q of
         None \<Rightarrow> Ok (- 1) s
       | Some np \<Rightarrow>
           bindo (copyuvm (pgdir (procs s ! p)) (sz (procs s ! p)) s) (\<lambda>d s.
             let s = upd_proc np (\<lambda>x. x\<lparr>pgdir := d\<rparr>) s in
             if d = NULL then
               bindo (kfree (kstack (procs s ! np)) s) (\<lambda>_ s.
                 Ok (- 1) (upd_proc np (\<lambda>x. x\<lparr>kstack := 0, pstate := UNUSED\<rparr>) s))
             else
               let par = procs s ! p;
                   s = upd_proc np (\<lambda>x. x\<lparr>sz := sz par, parent := Some p, tf := (tf par)\<lparr>tf_eax := 0\<rparr>\<rparr>) s
               in bindo (dup_files p np s) (\<lambda>_ s.
                    case cwd (procs s ! p) of
                      None \<Rightarrow> Fault ''idup: null inode''
                    | Some ip \<Rightarrow>
                        bindo (idup ip s) (\<lambda>ip s.
                          let s = upd_proc np (\<lambda>x. x\<lparr>cwd := Some ip, pname := take 15 (pname (procs s ! p))\<rparr>) s;
                              child = pid (procs s ! np)
                          in bindo (acquire PtableLock s) (\<lambda>_ s.
                             bindo (release PtableLock (upd_proc np (\<lambda>x. x\<lparr>pstate := RUNNABLE\<rparr>) s)) (\<lambda>_ s.
                             bindo (insert_node (skl s) np
                                      (upd_proc np (\<lambda>x. x\<lparr>nice_value := nice,
                                         virtual_deadline := compute_virtual_deadline nice s\<rparr>) s)) (\<lambda>_ s.
                               Ok child s))))))))"

definition fork :: "'a kfile_scheme \<Rightarrow> (int, 'a kfile_scheme) outcome" where
  "fork s = nicefork 0 s"

section \<open>Exiting and waiting\<close>

definition close_files :: "nat \<Rightarrow> 'a kfile_scheme \<Rightarrow> (unit, 'a kfile_scheme) outcome" where
  "close_files p s =
     for_list (\<lambda>fd s.
       case ofile (procs s ! p) ! fd of
         None \<Rightarrow> Ok () s
       | Some f \<Rightarrow>
           bindo (fileclose f s) (\<lambda>_ s.
             Ok () (upd_proc p (\<lambda>x. x\<lparr>ofile := (ofile x)[fd := None]\<rparr>) s))) [0..<NOFILE] s"

definition chan_of :: "nat option \<Rightarrow> chan option" where
  "chan_of p = map_option ChanProc p"

definition abandon :: "nat \<Rightarrow> 'a kproc_scheme \<Rightarrow> (unit, 'a kproc_scheme) outcome" where
  "abandon p s =
     for_list (\<lambda>i s.
       if parent (procs s ! i) = Some p then
         let s = upd_proc i (\<lambda>x. x\<lparr>parent := initproc s\<rparr>) s in
         if pstate (procs s ! i) = ZOMBIE then wakeup1 (chan_of (initproc s)) s else Ok () s
       else Ok () s) [0..<NPROC] s"

definition exit_tail :: "nat \<Rightarrow> 'a kproc_scheme \<Rightarrow> (unit, 'a kproc_scheme) outcome" where
  "exit_tail p s =
     bindo (acquire PtableLock s) (\<lambda>_ s.
     bindo (wakeup1 (chan_of (parent (procs s ! p))) s) (\<lambda>_ s.
     bindo (abandon p s) (\<lambda>_ s.
     bindo (sched (upd_proc p (\<lambda>x. x\<lparr>pstate := ZOMBIE\<rparr>) s)) (\<lambda>_ s. Panic ''zombie exit''))))"

definition exit_proc :: "'a kfile_scheme \<Rightarrow> ('b, 'a kfile_scheme) outcome" where
  "exit_proc s =
     bindo (cur s) (\<lambda>p s.
       if initproc s = Some p then Panic ''init exiting''
       else
     bindo (close_files p s) (\<lambda>_ s.
     bindo (begin_op s) (\<lambda>_ s.
       case cwd (procs s ! p) of
         None \<Rightarrow> Fault ''iput: null inode''
       | Some ip \<Rightarrow>
           bindo (iput ip s) (\<lambda>_ s.
           bindo (end_op s) (\<lambda>_ s.
           bindo (exit_tail p (upd_proc p (\<lambda>x. x\<lparr>cwd := None\<rparr>) s)) (\<lambda>_ s. Panic ''zombie exit''))))))"

definition reap :: "nat \<Rightarrow> 'a kproc_scheme \<Rightarrow> (int, 'a kproc_scheme) outcome" where
  "reap i s =
     (let n = pid (procs s ! i) in
      bindo (kfree (kstack (procs s ! i)) s) (\<lambda>_ s.
      bindo (freevm (pgdir (procs s ! i)) (upd_proc i (\<lambda>x. x\<lparr>kstack := 0\<rparr>) s)) (\<lambda>_ s.
        Ok n (upd_proc i (\<lambda>x. x\<lparr>pid := 0, parent := None, pname := [], killed := False, pstate := UNUSED\<rparr>) s))))"

fun wait_scan :: "nat list \<Rightarrow> nat \<Rightarrow> bool \<Rightarrow> 'a kproc_scheme \<Rightarrow> (int option \<times> bool, 'a kproc_scheme) outcome" where
  "wait_scan [] p kids s = Ok (None, kids) s"
| "wait_scan (i # is) p kids s =
     (if parent (procs s ! i) \<noteq> Some p then wait_scan is p kids s
      else if pstate (procs s ! i) = ZOMBIE then bindo (reap i s) (\<lambda>n s. Ok (Some n, True) s)
      else wait_scan is p True s)"

partial_function (option) wait_loop :: "nat \<Rightarrow> 'a kproc_scheme \<Rightarrow> (int, 'a kproc_scheme) outcome option" where
  "wait_loop p s =
     (case bindo (wait_scan [0..<NPROC] p False s) (\<lambda>(r, kids) s.
        case r of
          Some n \<Rightarrow> bindo (release PtableLock s) (\<lambda>_ s. Ok (Some n) s)
        | None \<Rightarrow>
            if \<not> kids \<or> killed (procs s ! p) then
              bindo (release PtableLock s) (\<lambda>_ s. Ok (Some (- 1)) s)
            else bindo (sleep (ChanProc p) (Some PtableLock) s) (\<lambda>_ s. Ok None s)) of
        Ok r s \<Rightarrow> (case r of None \<Rightarrow> wait_loop p s | Some n \<Rightarrow> Some (Ok n s))
      | Switch s \<Rightarrow> Some (Switch s)
      | Panic m \<Rightarrow> Some (Panic m)
      | Fault m \<Rightarrow> Some (Fault m)
      | Diverge \<Rightarrow> Some Diverge)"

definition wait :: "'a kproc_scheme \<Rightarrow> (int, 'a kproc_scheme) outcome" where
  "wait s =
     bindo (cur s) (\<lambda>p s.
     bindo (acquire PtableLock s) (\<lambda>_ s. returns (wait_loop p s)))"

definition wait_resume :: "nat \<Rightarrow> 'a kproc_scheme \<Rightarrow> (int, 'a kproc_scheme) outcome" where
  "wait_resume p s = bindo (sleep_resume p PtableLock s) (\<lambda>_ s. returns (wait_loop p s))"

definition forkret :: "'a kfile_scheme \<Rightarrow> (unit, 'a kfile_scheme) outcome" where
  "forkret s =
     bindo (release PtableLock s) (\<lambda>_ s.
       if forkret_first s then
         bindo (iinit ROOTDEV (s\<lparr>forkret_first := False\<rparr>)) (\<lambda>_ s. initlog ROOTDEV s)
       else Ok () s)"

end
