(* ===== verification/Args.thy ===== *)
theory Args
  imports ProcLife
begin

text \<open>
  System call arguments: \<^verbatim>\<open>fetchint\<close>, \<^verbatim>\<open>fetchstr\<close>, \<^verbatim>\<open>argint\<close>, \<^verbatim>\<open>argptr\<close> and \<^verbatim>\<open>argstr\<close> of
  \<^verbatim>\<open>syscall.c\<close>.

  The kernel dereferences user pointers through the page table the processor has loaded.
  \<open>user_page\<close> is that translation; a pointer it does not translate is a page fault in kernel mode,
  which is a \<open>Fault\<close> (the trap handler panics on it).  The results of the fetch functions are
  options: \<open>None\<close> is the return value -1, and a fetched string is the list of its bytes.
\<close>

section \<open>Access to user memory\<close>

definition user_page :: "bool \<Rightarrow> addr \<Rightarrow> 'a kvm_scheme \<Rightarrow> addr option" where
  "user_page wr va s =
     (case words_of (mem s (cr3 s + KERNBASE)) of
        None \<Rightarrow> None
      | Some d \<Rightarrow>
          let pde = d (unat (PDX va)) in
          if pde AND PTE_P = 0 then None
          else (case words_of (mem s (PTE_ADDR pde + KERNBASE)) of
                  None \<Rightarrow> None
                | Some t \<Rightarrow>
                    let e = t (unat (PTX va)) in
                    if e AND PTE_P = 0 \<or> wr \<and> e AND PTE_W = 0 then None
                    else Some (PTE_ADDR e + KERNBASE)))"

definition load_user :: "addr \<Rightarrow> 'a kvm_scheme \<Rightarrow> (byte, 'a kvm_scheme) outcome" where
  "load_user va s =
     (case user_page False va s of
        None \<Rightarrow> Fault ''page fault''
      | Some a \<Rightarrow> (case mem s a of BytePage f \<Rightarrow> Ok (f (unat va mod 4096)) s | _ \<Rightarrow> Fault ''data page''))"

definition store_user :: "addr \<Rightarrow> byte \<Rightarrow> 'a kvm_scheme \<Rightarrow> (unit, 'a kvm_scheme) outcome" where
  "store_user va b s =
     (case user_page True va s of
        None \<Rightarrow> Fault ''page fault''
      | Some a \<Rightarrow> write_bytes a (unat va mod 4096) [b] s)"

fun load_bytes :: "nat \<Rightarrow> addr \<Rightarrow> 'a kvm_scheme \<Rightarrow> (byte list, 'a kvm_scheme) outcome" where
  "load_bytes 0 va s = Ok [] s"
| "load_bytes (Suc n) va s =
     bindo (load_user va s) (\<lambda>b s. bindo (load_bytes n (va + 1) s) (\<lambda>bs s. Ok (b # bs) s))"

fun store_bytes :: "addr \<Rightarrow> byte list \<Rightarrow> 'a kvm_scheme \<Rightarrow> (unit, 'a kvm_scheme) outcome" where
  "store_bytes va [] s = Ok () s"
| "store_bytes va (b # bs) s = bindo (store_user va b s) (\<lambda>_ s. store_bytes (va + 1) bs s)"

section \<open>Fetching arguments\<close>

definition fetchint :: "addr \<Rightarrow> 'a kproc_scheme \<Rightarrow> (int option, 'a kproc_scheme) outcome" where
  "fetchint a s =
     bindo (cur s) (\<lambda>p s.
       let z = sz (procs s ! p) in
       if a \<ge> z \<or> a + 4 > z then Ok None s
       else bindo (load_bytes 4 a s) (\<lambda>bs s. Ok (Some (sint (get32 0 bs))) s))"

fun scan_str :: "nat \<Rightarrow> addr \<Rightarrow> 'a kvm_scheme \<Rightarrow> (byte list option, 'a kvm_scheme) outcome" where
  "scan_str 0 a s = Ok None s"
| "scan_str (Suc n) a s =
     bindo (load_user a s) (\<lambda>b s.
       if b = 0 then Ok (Some []) s
       else bindo (scan_str n (a + 1) s) (\<lambda>r s. Ok (map_option (\<lambda>bs. b # bs) r) s))"

definition fetchstr :: "addr \<Rightarrow> 'a kproc_scheme \<Rightarrow> (byte list option, 'a kproc_scheme) outcome" where
  "fetchstr a s =
     bindo (cur s) (\<lambda>p s.
       let z = sz (procs s ! p) in
       if a \<ge> z then Ok None s
       else scan_str (unat z - unat a) a s)"

definition argint :: "int \<Rightarrow> 'a kproc_scheme \<Rightarrow> (int option, 'a kproc_scheme) outcome" where
  "argint n s =
     bindo (cur s) (\<lambda>p s. fetchint (tf_esp (tf (procs s ! p)) + 4 + word_of_int (4 * n)) s)"

definition argptr :: "int \<Rightarrow> int \<Rightarrow> 'a kproc_scheme \<Rightarrow> (addr option, 'a kproc_scheme) outcome" where
  "argptr n len s =
     bindo (cur s) (\<lambda>p s.
     bindo (argint n s) (\<lambda>r s.
       case r of
         None \<Rightarrow> Ok None s
       | Some i \<Rightarrow>
           let z = sz (procs s ! p); a = word_of_int i in
           if len < 0 \<or> a \<ge> z \<or> a + word_of_int len > z then Ok None s
           else Ok (Some a) s))"

definition argstr :: "int \<Rightarrow> 'a kproc_scheme \<Rightarrow> (byte list option, 'a kproc_scheme) outcome" where
  "argstr n s =
     bindo (argint n s) (\<lambda>r s.
       case r of None \<Rightarrow> Ok None s | Some a \<Rightarrow> fetchstr (word_of_int a) s)"

end
