(* ===== verification/Exec.thy ===== *)
theory Exec
  imports Args
begin

text \<open>
  \<^verbatim>\<open>exec.c\<close>, the ELF structures of \<^verbatim>\<open>elf.h\<close> and \<^verbatim>\<open>loaduvm\<close> of \<^verbatim>\<open>vm.c\<close>.  The path and the argument
  strings, which the C code reads through user pointers while the old page table is loaded, are
  byte lists.  The label \<^verbatim>\<open>bad\<close> of \<^verbatim>\<open>exec\<close> is the function \<open>exec_bad\<close>.
\<close>

definition ELF_MAGIC :: "32 word" where "ELF_MAGIC = 0x464C457F"
definition ELF_PROG_LOAD :: "32 word" where "ELF_PROG_LOAD = 1"
definition MAXARG :: nat where "MAXARG = 32"

record elfhdr =
  e_magic :: "32 word"
  e_entry :: "32 word"
  e_phoff :: "32 word"
  e_phnum :: "16 word"

definition get_elfhdr :: "byte list \<Rightarrow> elfhdr" where
  "get_elfhdr bs =
     \<lparr>e_magic = get32 0 bs, e_entry = get32 24 bs, e_phoff = get32 28 bs, e_phnum = get16 44 bs\<rparr>"

record proghdr =
  ph_type :: "32 word"
  ph_off :: "32 word"
  ph_vaddr :: "32 word"
  ph_filesz :: "32 word"
  ph_memsz :: "32 word"

definition get_proghdr :: "byte list \<Rightarrow> proghdr" where
  "get_proghdr bs =
     \<lparr>ph_type = get32 0 bs, ph_off = get32 4 bs, ph_vaddr = get32 8 bs, ph_filesz = get32 16 bs,
      ph_memsz = get32 20 bs\<rparr>"

section \<open>Loading\<close>

definition load_page ::
  "addr \<Rightarrow> addr \<Rightarrow> nat \<Rightarrow> 32 word \<Rightarrow> 32 word \<Rightarrow> 'a kcons_scheme \<Rightarrow> (bool, 'a kcons_scheme) outcome" where
  "load_page dir va ip off n s =
     bindo (walkpgdir dir va False s) (\<lambda>pte s.
       case pte of
         None \<Rightarrow> Panic ''loaduvm: address should exist''
       | Some (t, k) \<Rightarrow>
           bindo (load_word t k s) (\<lambda>e s.
           bindo (P2V (PTE_ADDR e) s) (\<lambda>a s.
           bindo (readi ip off n s) (\<lambda>(r, bs) s.
           bindo (write_bytes a 0 bs s) (\<lambda>_ s. Ok (word_of_int r = n) s)))))"

partial_function (option) loaduvm_loop ::
  "addr \<Rightarrow> addr \<Rightarrow> nat \<Rightarrow> 32 word \<Rightarrow> 32 word \<Rightarrow> 32 word \<Rightarrow> 'a kcons_scheme \<Rightarrow>
     (int, 'a kcons_scheme) outcome option" where
  "loaduvm_loop dir a ip off len i s =
     (if i < len then
        (case load_page dir (a + i) ip (off + i) (if len - i < PGSIZE then len - i else PGSIZE) s of
           Ok full s \<Rightarrow>
             if full then loaduvm_loop dir a ip off len (i + PGSIZE) s else Some (Ok (- 1) s)
         | Switch s \<Rightarrow> Some (Switch s)
         | Panic m \<Rightarrow> Some (Panic m)
         | Fault m \<Rightarrow> Some (Fault m)
         | Diverge \<Rightarrow> Some Diverge)
      else Some (Ok 0 s))"

definition loaduvm ::
  "addr \<Rightarrow> addr \<Rightarrow> nat \<Rightarrow> 32 word \<Rightarrow> 32 word \<Rightarrow> 'a kcons_scheme \<Rightarrow> (int, 'a kcons_scheme) outcome" where
  "loaduvm dir a ip off len s =
     (if a mod PGSIZE \<noteq> 0 then Panic ''loaduvm: addr must be page aligned''
      else returns (loaduvm_loop dir a ip off len 0 s))"

fun load_segments ::
  "nat \<Rightarrow> 32 word \<Rightarrow> addr \<Rightarrow> addr \<Rightarrow> nat \<Rightarrow> 'a kcons_scheme \<Rightarrow> (addr option, 'a kcons_scheme) outcome" where
  "load_segments 0 off z dir ip s = Ok (Some z) s"
| "load_segments (Suc n) off z dir ip s =
     bindo (readi ip off 32 s) (\<lambda>(r, bs) s.
       if r \<noteq> 32 then Ok None s
       else
         let ph = get_proghdr bs in
         if ph_type ph \<noteq> ELF_PROG_LOAD then load_segments n (off + 32) z dir ip s
         else if ph_memsz ph < ph_filesz ph then Ok None s
         else if ph_vaddr ph + ph_memsz ph < ph_vaddr ph then Ok None s
         else bindo (allocuvm dir z (ph_vaddr ph + ph_memsz ph) s) (\<lambda>z s.
           if z = 0 then Ok None s
           else if ph_vaddr ph mod PGSIZE \<noteq> 0 then Ok None s
           else bindo (loaduvm dir (ph_vaddr ph) ip (ph_off ph) (ph_filesz ph) s) (\<lambda>r s.
             if r < 0 then Ok None s
             else load_segments n (off + 32) z dir ip s)))"

section \<open>The argument stack\<close>

fun push_args ::
  "nat \<Rightarrow> byte list list \<Rightarrow> addr \<Rightarrow> addr \<Rightarrow> addr list \<Rightarrow> 'a kmem_scheme \<Rightarrow>
     ((addr \<times> addr list) option, 'a kmem_scheme) outcome" where
  "push_args argc [] sp dir ustack s = Ok (Some (sp, ustack)) s"
| "push_args argc (a # as) sp dir ustack s =
     (if argc \<ge> MAXARG then Ok None s
      else
        let sp = (sp - of_nat (length a + 1)) AND NOT 3 in
        bindo (copyout dir sp (a @ [0]) s) (\<lambda>r s.
          if r < 0 then Ok None s
          else push_args (argc + 1) as sp dir (ustack @ [sp]) s))"

definition ustack_words :: "addr \<Rightarrow> addr list \<Rightarrow> addr list" where
  "ustack_words sp ptrs =
     [0xffffffff, of_nat (length ptrs), sp - of_nat ((length ptrs + 1) * 4)] @ ptrs @ [0]"

definition build_stack ::
  "byte list list \<Rightarrow> addr \<Rightarrow> addr \<Rightarrow> 'a kmem_scheme \<Rightarrow> (addr option, 'a kmem_scheme) outcome" where
  "build_stack argv sp dir s =
     bindo (push_args 0 argv sp dir [] s) (\<lambda>r s.
       case r of
         None \<Rightarrow> Ok None s
       | Some (sp, ptrs) \<Rightarrow>
           let ustack = ustack_words sp ptrs;
               sp = sp - of_nat ((3 + length ptrs + 1) * 4)
           in bindo (copyout dir sp (concat (map bytes32 ustack)) s) (\<lambda>r s.
                if r < 0 then Ok None s else Ok (Some sp) s))"

section \<open>Exec\<close>

fun last_elem :: "byte list \<Rightarrow> byte list \<Rightarrow> byte list" where
  "last_elem lst [] = lst"
| "last_elem lst (b # bs) = last_elem (if b = SLASH then bs else lst) bs"

definition exec_bad :: "addr \<Rightarrow> nat option \<Rightarrow> 'a kcons_scheme \<Rightarrow> (int, 'a kcons_scheme) outcome" where
  "exec_bad dir ip s =
     bindo (if dir \<noteq> NULL then freevm dir s else Ok () s) (\<lambda>_ s.
       case ip of
         None \<Rightarrow> Ok (- 1) s
       | Some ip \<Rightarrow> bindo (iunlockput ip s) (\<lambda>_ s. bindo (end_op s) (\<lambda>_ s. Ok (- 1) s)))"

definition exec_commit ::
  "nat \<Rightarrow> byte list \<Rightarrow> addr \<Rightarrow> addr \<Rightarrow> addr \<Rightarrow> addr \<Rightarrow> 'a kcons_scheme \<Rightarrow> (int, 'a kcons_scheme) outcome" where
  "exec_commit p path dir z entry sp s =
     (let name = map (\<lambda>b. char_of (uint b)) (take 15 (last_elem path path));
          oldpgdir = pgdir (procs s ! p);
          s = upd_proc p (\<lambda>x. x\<lparr>pname := name, pgdir := dir, sz := z,
                tf := (tf x)\<lparr>tf_eip := entry, tf_esp := sp\<rparr>\<rparr>) s
      in bindo (switchuvm (Some p) s) (\<lambda>_ s.
         bindo (freevm oldpgdir s) (\<lambda>_ s. Ok 0 s)))"

definition exec_stack ::
  "nat \<Rightarrow> byte list \<Rightarrow> byte list list \<Rightarrow> addr \<Rightarrow> addr \<Rightarrow> addr \<Rightarrow> 'a kcons_scheme \<Rightarrow> (int, 'a kcons_scheme) outcome" where
  "exec_stack p path argv dir z entry s =
     (let z = PGROUNDUP z in
      bindo (allocuvm dir z (z + 2 * PGSIZE) s) (\<lambda>z s.
        if z = 0 then exec_bad dir None s
        else
      bindo (clearpteu dir (z - 2 * PGSIZE) s) (\<lambda>_ s.
      bindo (build_stack argv z dir s) (\<lambda>r s.
        case r of
          None \<Rightarrow> exec_bad dir None s
        | Some sp \<Rightarrow> exec_commit p path dir z entry sp s))))"

definition exec :: "byte list \<Rightarrow> byte list list \<Rightarrow> 'a kcons_scheme \<Rightarrow> (int, 'a kcons_scheme) outcome" where
  "exec path argv s =
     bindo (cur s) (\<lambda>p s.
     bindo (begin_op s) (\<lambda>_ s.
     bindo (namei path s) (\<lambda>r s.
       case r of
         None \<Rightarrow> bindo (end_op s) (\<lambda>_ s. bindo (cprintf (''exec: fail'' @ [CHR 0x0A]) [] s) (\<lambda>_ s. Ok (- 1) s))
       | Some ip \<Rightarrow>
           bindo (ilock (Some ip) s) (\<lambda>_ s.
           bindo (readi ip 0 52 s) (\<lambda>(r, bs) s.
             let elf = get_elfhdr bs in
             if r \<noteq> 52 then exec_bad NULL (Some ip) s
             else if e_magic elf \<noteq> ELF_MAGIC then exec_bad NULL (Some ip) s
             else bindo (setupkvm s) (\<lambda>dir s.
               if dir = NULL then exec_bad NULL (Some ip) s
               else bindo (load_segments (unat (e_phnum elf)) (e_phoff elf) 0 dir ip s) (\<lambda>r s.
                 case r of
                   None \<Rightarrow> exec_bad dir (Some ip) s
                 | Some z \<Rightarrow>
                     bindo (iunlockput ip s) (\<lambda>_ s.
                     bindo (end_op s) (\<lambda>_ s. exec_stack p path argv dir z (e_entry elf) s)))))))))"

end
