(* ===== verification/Sysfile.thy ===== *)
theory Sysfile
  imports Exec
begin

text \<open>
  The file system calls: \<^verbatim>\<open>sysfile.c\<close>.  Memory below \<^verbatim>\<open>p->sz\<close> is mapped, so the bytes a call reads
  from the user are loaded before the call that consumes them, and the bytes it stores for the user
  are stored after the call that produces them.
\<close>

definition O_WRONLY :: "32 word" where "O_WRONLY = 0x001"
definition O_RDWR :: "32 word" where "O_RDWR = 0x002"
definition O_CREATE :: "32 word" where "O_CREATE = 0x200"

section \<open>Descriptors\<close>

definition argfd :: "int \<Rightarrow> 'a kproc_scheme \<Rightarrow> ((nat \<times> nat) option, 'a kproc_scheme) outcome" where
  "argfd n s =
     bindo (argint n s) (\<lambda>r s.
       case r of
         None \<Rightarrow> Ok None s
       | Some fd \<Rightarrow>
           if fd < 0 \<or> fd \<ge> int NOFILE then Ok None s
           else bindo (cur s) (\<lambda>p s.
             Ok (map_option (\<lambda>f. (nat fd, f)) (ofile (procs s ! p) ! nat fd)) s))"

definition set_fd :: "nat \<Rightarrow> nat \<Rightarrow> nat option \<Rightarrow> 'a kproc_scheme \<Rightarrow> 'a kproc_scheme" where
  "set_fd p fd f s = upd_proc p (\<lambda>x. x\<lparr>ofile := (ofile x)[fd := f]\<rparr>) s"

definition fdalloc :: "nat \<Rightarrow> 'a kproc_scheme \<Rightarrow> (int, 'a kproc_scheme) outcome" where
  "fdalloc f s =
     bindo (cur s) (\<lambda>p s.
       case find (\<lambda>fd. ofile (procs s ! p) ! fd = None) [0..<NOFILE] of
         None \<Rightarrow> Ok (- 1) s
       | Some fd \<Rightarrow> Ok (int fd) (set_fd p fd (Some f) s))"

definition sys_dup :: "'a kfile_scheme \<Rightarrow> (int, 'a kfile_scheme) outcome" where
  "sys_dup s =
     bindo (argfd 0 s) (\<lambda>r s.
       case r of
         None \<Rightarrow> Ok (- 1) s
       | Some (_, f) \<Rightarrow>
           bindo (fdalloc f s) (\<lambda>fd s.
             if fd < 0 then Ok (- 1) s else bindo (filedup f s) (\<lambda>_ s. Ok fd s)))"

definition arg_buf :: "'a kproc_scheme \<Rightarrow> ((nat \<times> addr \<times> int) option, 'a kproc_scheme) outcome" where
  "arg_buf s =
     bindo (argfd 0 s) (\<lambda>r s.
       case r of
         None \<Rightarrow> Ok None s
       | Some (_, f) \<Rightarrow>
           bindo (argint 2 s) (\<lambda>r s.
             case r of
               None \<Rightarrow> Ok None s
             | Some n \<Rightarrow> bindo (argptr 1 n s) (\<lambda>r s. Ok (map_option (\<lambda>p. (f, p, n)) r) s)))"

definition sys_read :: "'a kfile_scheme \<Rightarrow> (int, 'a kfile_scheme) outcome" where
  "sys_read s =
     bindo (arg_buf s) (\<lambda>r s.
       case r of
         None \<Rightarrow> Ok (- 1) s
       | Some (f, p, n) \<Rightarrow>
           bindo (fileread f n s) (\<lambda>(r, bs) s. bindo (store_bytes p bs s) (\<lambda>_ s. Ok r s)))"

definition sys_write :: "'a kfile_scheme \<Rightarrow> (int, 'a kfile_scheme) outcome" where
  "sys_write s =
     bindo (arg_buf s) (\<lambda>r s.
       case r of
         None \<Rightarrow> Ok (- 1) s
       | Some (f, p, n) \<Rightarrow> bindo (load_bytes (nat n) p s) (\<lambda>bs s. filewrite f bs s))"

definition sys_close :: "'a kfile_scheme \<Rightarrow> (int, 'a kfile_scheme) outcome" where
  "sys_close s =
     bindo (argfd 0 s) (\<lambda>r s.
       case r of
         None \<Rightarrow> Ok (- 1) s
       | Some (fd, f) \<Rightarrow>
           bindo (cur s) (\<lambda>p s.
           bindo (fileclose f (set_fd p fd None s)) (\<lambda>_ s. Ok 0 s)))"

definition store_stat :: "addr \<Rightarrow> stat \<Rightarrow> 'a kvm_scheme \<Rightarrow> (unit, 'a kvm_scheme) outcome" where
  "store_stat a st s =
     bindo (store_bytes a (bytes16 (st_type st)) s) (\<lambda>_ s.
     bindo (store_bytes (a + 4) (bytes32 (st_dev st)) s) (\<lambda>_ s.
     bindo (store_bytes (a + 8) (bytes32 (st_ino st)) s) (\<lambda>_ s.
     bindo (store_bytes (a + 12) (bytes16 (st_nlink st)) s) (\<lambda>_ s.
       store_bytes (a + 16) (bytes32 (st_size st)) s))))"

definition sys_fstat :: "'a kfile_scheme \<Rightarrow> (int, 'a kfile_scheme) outcome" where
  "sys_fstat s =
     bindo (argfd 0 s) (\<lambda>r s.
       case r of
         None \<Rightarrow> Ok (- 1) s
       | Some (_, f) \<Rightarrow>
           bindo (argptr 1 20 s) (\<lambda>r s.
             case r of
               None \<Rightarrow> Ok (- 1) s
             | Some a \<Rightarrow>
                 bindo (filestat f s) (\<lambda>(r, st) s.
                   case st of
                     None \<Rightarrow> Ok r s
                   | Some st \<Rightarrow> bindo (store_stat a st s) (\<lambda>_ s. Ok r s))))"

section \<open>Links\<close>

definition fail_op :: "'a klog_scheme \<Rightarrow> (int, 'a klog_scheme) outcome" where
  "fail_op s = bindo (end_op s) (\<lambda>_ s. Ok (- 1) s)"

definition link_bad :: "nat \<Rightarrow> 'a kino_scheme \<Rightarrow> (int, 'a kino_scheme) outcome" where
  "link_bad ip s =
     bindo (ilock (Some ip) s) (\<lambda>_ s.
     bindo (iupdate ip (upd_inode ip (\<lambda>x. x\<lparr>i_nlink := i_nlink x - 1\<rparr>) s)) (\<lambda>_ s.
     bindo (iunlockput ip s) (\<lambda>_ s. fail_op s)))"

definition link_paths :: "byte list \<Rightarrow> byte list \<Rightarrow> 'a kcons_scheme \<Rightarrow> (int, 'a kcons_scheme) outcome" where
  "link_paths old new s =
     bindo (begin_op s) (\<lambda>_ s.
     bindo (namei old s) (\<lambda>r s.
       case r of
         None \<Rightarrow> fail_op s
       | Some ip \<Rightarrow>
           bindo (ilock (Some ip) s) (\<lambda>_ s.
             if i_type (inodes s ! ip) = T_DIR then bindo (iunlockput ip s) (\<lambda>_ s. fail_op s)
             else
           bindo (iupdate ip (upd_inode ip (\<lambda>x. x\<lparr>i_nlink := i_nlink x + 1\<rparr>) s)) (\<lambda>_ s.
           bindo (iunlock (Some ip) s) (\<lambda>_ s.
           bindo (nameiparent new s) (\<lambda>r s.
             case r of
               None \<Rightarrow> link_bad ip s
             | Some (dp, name) \<Rightarrow>
                 bindo (ilock (Some dp) s) (\<lambda>_ s.
                 bindo (if i_dev (inodes s ! dp) \<noteq> i_dev (inodes s ! ip) then Ok (- 1) s
                        else dirlink dp name (i_inum (inodes s ! ip)) s) (\<lambda>r s.
                   if r < 0 then bindo (iunlockput dp s) (\<lambda>_ s. link_bad ip s)
                   else
                 bindo (iunlockput dp s) (\<lambda>_ s.
                 bindo (iput ip s) (\<lambda>_ s.
                 bindo (end_op s) (\<lambda>_ s. Ok 0 s)))))))))))"

definition sys_link :: "'a kcons_scheme \<Rightarrow> (int, 'a kcons_scheme) outcome" where
  "sys_link s =
     bindo (argstr 0 s) (\<lambda>r s.
       case r of
         None \<Rightarrow> Ok (- 1) s
       | Some old \<Rightarrow>
           bindo (argstr 1 s) (\<lambda>r s.
             case r of None \<Rightarrow> Ok (- 1) s | Some new \<Rightarrow> link_paths old new s))"

fun isdirempty_loop :: "nat \<Rightarrow> nat list \<Rightarrow> 'a kcons_scheme \<Rightarrow> (bool, 'a kcons_scheme) outcome" where
  "isdirempty_loop dp [] s = Ok True s"
| "isdirempty_loop dp (off # offs) s =
     bindo (readi dp (of_nat off) 16 s) (\<lambda>(r, bs) s.
       if r \<noteq> 16 then Panic ''isdirempty: readi''
       else if de_inum (get_dirent bs) \<noteq> 0 then Ok False s
       else isdirempty_loop dp offs s)"

definition isdirempty :: "nat \<Rightarrow> 'a kcons_scheme \<Rightarrow> (bool, 'a kcons_scheme) outcome" where
  "isdirempty dp s = isdirempty_loop dp (drop 2 (dir_offsets (i_size (inodes s ! dp)))) s"

definition unlink_bad :: "nat \<Rightarrow> 'a kino_scheme \<Rightarrow> (int, 'a kino_scheme) outcome" where
  "unlink_bad dp s = bindo (iunlockput dp s) (\<lambda>_ s. fail_op s)"

definition unlink_entry :: "nat \<Rightarrow> nat \<Rightarrow> nat \<Rightarrow> 'a kcons_scheme \<Rightarrow> (int, 'a kcons_scheme) outcome" where
  "unlink_entry dp ip off s =
     bindo (writei dp (replicate 16 0) (of_nat off) s) (\<lambda>r s.
       if r \<noteq> 16 then Panic ''unlink: writei''
       else
     bindo (if i_type (inodes s ! ip) = T_DIR
            then iupdate dp (upd_inode dp (\<lambda>x. x\<lparr>i_nlink := i_nlink x - 1\<rparr>) s)
            else Ok () s) (\<lambda>_ s.
     bindo (iunlockput dp s) (\<lambda>_ s.
     bindo (iupdate ip (upd_inode ip (\<lambda>x. x\<lparr>i_nlink := i_nlink x - 1\<rparr>) s)) (\<lambda>_ s.
     bindo (iunlockput ip s) (\<lambda>_ s.
     bindo (end_op s) (\<lambda>_ s. Ok 0 s))))))"

definition DOT :: "byte list" where "DOT = [46]"
definition DOTDOT :: "byte list" where "DOTDOT = [46, 46]"

definition unlink_path :: "byte list \<Rightarrow> 'a kcons_scheme \<Rightarrow> (int, 'a kcons_scheme) outcome" where
  "unlink_path path s =
     bindo (begin_op s) (\<lambda>_ s.
     bindo (nameiparent path s) (\<lambda>r s.
       case r of
         None \<Rightarrow> fail_op s
       | Some (dp, name) \<Rightarrow>
           bindo (ilock (Some dp) s) (\<lambda>_ s.
             if namecmp name DOT = 0 \<or> namecmp name DOTDOT = 0 then unlink_bad dp s
             else
           bindo (dirlookup dp name s) (\<lambda>r s.
             case r of
               None \<Rightarrow> unlink_bad dp s
             | Some (ip, off) \<Rightarrow>
                 bindo (ilock (Some ip) s) (\<lambda>_ s.
                   if sint (i_nlink (inodes s ! ip)) < 1 then Panic ''unlink: nlink < 1''
                   else
                 bindo (if i_type (inodes s ! ip) = T_DIR then isdirempty ip s else Ok True s) (\<lambda>empty s.
                   if \<not> empty then bindo (iunlockput ip s) (\<lambda>_ s. unlink_bad dp s)
                   else unlink_entry dp ip off s))))))"

definition sys_unlink :: "'a kcons_scheme \<Rightarrow> (int, 'a kcons_scheme) outcome" where
  "sys_unlink s =
     bindo (argstr 0 s) (\<lambda>r s. case r of None \<Rightarrow> Ok (- 1) s | Some path \<Rightarrow> unlink_path path s)"

section \<open>Creating and opening\<close>

definition create_new ::
  "nat \<Rightarrow> byte list \<Rightarrow> 16 word \<Rightarrow> 16 word \<Rightarrow> 16 word \<Rightarrow> 'a kcons_scheme \<Rightarrow> (nat option, 'a kcons_scheme) outcome" where
  "create_new dp name type major minor s =
     bindo (ialloc (i_dev (inodes s ! dp)) type s) (\<lambda>ip s.
     bindo (ilock (Some ip) s) (\<lambda>_ s.
     bindo (iupdate ip (upd_inode ip (\<lambda>x. x\<lparr>i_major := major, i_minor := minor, i_nlink := 1\<rparr>) s)) (\<lambda>_ s.
     bindo (if type = T_DIR then
              bindo (iupdate dp (upd_inode dp (\<lambda>x. x\<lparr>i_nlink := i_nlink x + 1\<rparr>) s)) (\<lambda>_ s.
              bindo (dirlink ip DOT (i_inum (inodes s ! ip)) s) (\<lambda>r s.
                if r < 0 then Panic ''create dots''
                else bindo (dirlink ip DOTDOT (i_inum (inodes s ! dp)) s) (\<lambda>r s.
                  if r < 0 then Panic ''create dots'' else Ok () s)))
            else Ok () s) (\<lambda>_ s.
     bindo (dirlink dp name (i_inum (inodes s ! ip)) s) (\<lambda>r s.
       if r < 0 then Panic ''create: dirlink''
       else bindo (iunlockput dp s) (\<lambda>_ s. Ok (Some ip) s))))))"

definition create ::
  "byte list \<Rightarrow> 16 word \<Rightarrow> 16 word \<Rightarrow> 16 word \<Rightarrow> 'a kcons_scheme \<Rightarrow> (nat option, 'a kcons_scheme) outcome" where
  "create path type major minor s =
     bindo (nameiparent path s) (\<lambda>r s.
       case r of
         None \<Rightarrow> Ok None s
       | Some (dp, name) \<Rightarrow>
           bindo (ilock (Some dp) s) (\<lambda>_ s.
           bindo (dirlookup dp name s) (\<lambda>r s.
             case r of
               Some (ip, _) \<Rightarrow>
                 bindo (iunlockput dp s) (\<lambda>_ s.
                 bindo (ilock (Some ip) s) (\<lambda>_ s.
                   if type = T_FILE \<and> i_type (inodes s ! ip) = T_FILE then Ok (Some ip) s
                   else bindo (iunlockput ip s) (\<lambda>_ s. Ok None s)))
             | None \<Rightarrow> create_new dp name type major minor s)))"

definition open_inode :: "byte list \<Rightarrow> 32 word \<Rightarrow> 'a kcons_scheme \<Rightarrow> (nat option, 'a kcons_scheme) outcome" where
  "open_inode path omode s =
     (if omode AND O_CREATE \<noteq> 0 then create path T_FILE 0 0 s
      else bindo (namei path s) (\<lambda>r s.
        case r of
          None \<Rightarrow> Ok None s
        | Some ip \<Rightarrow>
            bindo (ilock (Some ip) s) (\<lambda>_ s.
              if i_type (inodes s ! ip) = T_DIR \<and> omode \<noteq> 0
              then bindo (iunlockput ip s) (\<lambda>_ s. Ok None s)
              else Ok (Some ip) s)))"

definition open_file :: "nat \<Rightarrow> 32 word \<Rightarrow> file_struct \<Rightarrow> file_struct" where
  "open_file ip omode x =
     x\<lparr>f_type := FD_INODE, f_ip := ip, f_off := 0, f_readable := (omode AND O_WRONLY = 0),
       f_writable := (omode AND O_WRONLY \<noteq> 0 \<or> omode AND O_RDWR \<noteq> 0)\<rparr>"

definition open_path :: "byte list \<Rightarrow> 32 word \<Rightarrow> 'a kfile_scheme \<Rightarrow> (int, 'a kfile_scheme) outcome" where
  "open_path path omode s =
     bindo (begin_op s) (\<lambda>_ s.
     bindo (open_inode path omode s) (\<lambda>r s.
       case r of
         None \<Rightarrow> fail_op s
       | Some ip \<Rightarrow>
           bindo (filealloc s) (\<lambda>f s.
           bindo (case f of
                    None \<Rightarrow> Ok None s
                  | Some f \<Rightarrow> bindo (fdalloc f s) (\<lambda>fd s. Ok (if fd < 0 then None else Some (f, fd)) s)) (\<lambda>r s.
             case r of
               None \<Rightarrow>
                 bindo (close_opt f s) (\<lambda>_ s.
                 bindo (iunlockput ip s) (\<lambda>_ s. fail_op s))
             | Some (f, fd) \<Rightarrow>
                 bindo (iunlock (Some ip) s) (\<lambda>_ s.
                 bindo (end_op s) (\<lambda>_ s. Ok fd (upd_file f (open_file ip omode) s)))))))"

definition sys_open :: "'a kfile_scheme \<Rightarrow> (int, 'a kfile_scheme) outcome" where
  "sys_open s =
     bindo (argstr 0 s) (\<lambda>r s.
       case r of
         None \<Rightarrow> Ok (- 1) s
       | Some path \<Rightarrow>
           bindo (argint 1 s) (\<lambda>r s.
             case r of None \<Rightarrow> Ok (- 1) s | Some omode \<Rightarrow> open_path path (word_of_int omode) s))"

definition finish_create :: "nat option \<Rightarrow> 'a kino_scheme \<Rightarrow> (int, 'a kino_scheme) outcome" where
  "finish_create r s =
     (case r of
        None \<Rightarrow> fail_op s
      | Some ip \<Rightarrow> bindo (iunlockput ip s) (\<lambda>_ s. bindo (end_op s) (\<lambda>_ s. Ok 0 s)))"

definition sys_mkdir :: "'a kcons_scheme \<Rightarrow> (int, 'a kcons_scheme) outcome" where
  "sys_mkdir s =
     bindo (begin_op s) (\<lambda>_ s.
     bindo (argstr 0 s) (\<lambda>r s.
       case r of
         None \<Rightarrow> fail_op s
       | Some path \<Rightarrow> bindo (create path T_DIR 0 0 s) (\<lambda>r s. finish_create r s)))"

definition sys_mknod :: "'a kcons_scheme \<Rightarrow> (int, 'a kcons_scheme) outcome" where
  "sys_mknod s =
     bindo (begin_op s) (\<lambda>_ s.
     bindo (argstr 0 s) (\<lambda>r s.
       case r of
         None \<Rightarrow> fail_op s
       | Some path \<Rightarrow>
           bindo (argint 1 s) (\<lambda>r s.
             case r of
               None \<Rightarrow> fail_op s
             | Some major \<Rightarrow>
                 bindo (argint 2 s) (\<lambda>r s.
                   case r of
                     None \<Rightarrow> fail_op s
                   | Some minor \<Rightarrow>
                       bindo (create path T_DEV (word_of_int major) (word_of_int minor) s) (\<lambda>r s.
                         finish_create r s)))))"

definition chdir_path :: "nat \<Rightarrow> byte list \<Rightarrow> 'a kcons_scheme \<Rightarrow> (int, 'a kcons_scheme) outcome" where
  "chdir_path p path s =
     bindo (namei path s) (\<lambda>r s.
       case r of
         None \<Rightarrow> fail_op s
       | Some ip \<Rightarrow>
           bindo (ilock (Some ip) s) (\<lambda>_ s.
             if i_type (inodes s ! ip) \<noteq> T_DIR then bindo (iunlockput ip s) (\<lambda>_ s. fail_op s)
             else
           bindo (iunlock (Some ip) s) (\<lambda>_ s.
             case cwd (procs s ! p) of
               None \<Rightarrow> Fault ''iput: null inode''
             | Some old \<Rightarrow>
                 bindo (iput old s) (\<lambda>_ s.
                 bindo (end_op s) (\<lambda>_ s. Ok 0 (upd_proc p (\<lambda>x. x\<lparr>cwd := Some ip\<rparr>) s))))))"

definition sys_chdir :: "'a kcons_scheme \<Rightarrow> (int, 'a kcons_scheme) outcome" where
  "sys_chdir s =
     bindo (cur s) (\<lambda>p s.
     bindo (begin_op s) (\<lambda>_ s.
     bindo (argstr 0 s) (\<lambda>r s.
       case r of None \<Rightarrow> fail_op s | Some path \<Rightarrow> chdir_path p path s)))"

fun fetch_argv :: "nat \<Rightarrow> addr \<Rightarrow> 'a kproc_scheme \<Rightarrow> (byte list list option, 'a kproc_scheme) outcome" where
  "fetch_argv 0 a s = Ok None s"
| "fetch_argv (Suc n) a s =
     bindo (fetchint a s) (\<lambda>r s.
       case r of
         None \<Rightarrow> Ok None s
       | Some uarg \<Rightarrow>
           if uarg = 0 then Ok (Some []) s
           else bindo (fetchstr (word_of_int uarg) s) (\<lambda>r s.
             case r of
               None \<Rightarrow> Ok None s
             | Some str \<Rightarrow>
                 bindo (fetch_argv n (a + 4) s) (\<lambda>r s. Ok (map_option (\<lambda>strs. str # strs) r) s)))"

definition sys_exec :: "'a kcons_scheme \<Rightarrow> (int, 'a kcons_scheme) outcome" where
  "sys_exec s =
     bindo (argstr 0 s) (\<lambda>r s.
       case r of
         None \<Rightarrow> Ok (- 1) s
       | Some path \<Rightarrow>
           bindo (argint 1 s) (\<lambda>r s.
             case r of
               None \<Rightarrow> Ok (- 1) s
             | Some uargv \<Rightarrow>
                 bindo (fetch_argv MAXARG (word_of_int uargv) s) (\<lambda>r s.
                   case r of None \<Rightarrow> Ok (- 1) s | Some argv \<Rightarrow> exec path argv s)))"

definition pipe_fds :: "nat \<Rightarrow> nat \<Rightarrow> addr \<Rightarrow> 'a kfile_scheme \<Rightarrow> (int, 'a kfile_scheme) outcome" where
  "pipe_fds f0 f1 a s =
     bindo (fdalloc f0 s) (\<lambda>fd0 s.
     bindo (if fd0 < 0 then Ok (- 1) s else fdalloc f1 s) (\<lambda>fd1 s.
       if fd1 < 0 then
         bindo (if fd0 \<ge> 0 then bindo (cur s) (\<lambda>p s. Ok () (set_fd p (nat fd0) None s)) else Ok () s) (\<lambda>_ s.
         bindo (fileclose f0 s) (\<lambda>_ s.
         bindo (fileclose f1 s) (\<lambda>_ s. Ok (- 1) s)))
       else
         bindo (store_bytes a (bytes32 (word_of_int fd0)) s) (\<lambda>_ s.
         bindo (store_bytes (a + 4) (bytes32 (word_of_int fd1)) s) (\<lambda>_ s. Ok 0 s))))"

definition sys_pipe :: "'a kfile_scheme \<Rightarrow> (int, 'a kfile_scheme) outcome" where
  "sys_pipe s =
     bindo (argptr 0 8 s) (\<lambda>r s.
       case r of
         None \<Rightarrow> Ok (- 1) s
       | Some a \<Rightarrow>
           bindo (pipealloc s) (\<lambda>r s.
             case r of None \<Rightarrow> Ok (- 1) s | Some (f0, f1) \<Rightarrow> pipe_fds f0 f1 a s))"

end
