(* ===== verification/Syscall.thy ===== *)
theory Syscall
  imports Sysfile
begin

text \<open>
  \<^verbatim>\<open>sysproc.c\<close> and the dispatcher of \<^verbatim>\<open>syscall.c\<close>.  The record \<open>ktrap\<close> adds what the interrupt
  side of the kernel keeps: the interrupt descriptor table, the keyboard's \<^verbatim>\<open>shift\<close> state, whether
  there is a serial port, and the bytes written to I/O ports by \<^verbatim>\<open>shutdown\<close>.
\<close>

record gatedesc =
  g_off :: addr
  g_cs :: addr
  g_istrap :: bool
  g_dpl :: addr

record ktrap = kfile +
  idt :: "gatedesc list"
  kbd_shift :: "32 word"
  uart :: bool
  ports :: "(16 word \<times> byte) list"

section \<open>Process system calls\<close>

definition sys_fork :: "'a kfile_scheme \<Rightarrow> (int, 'a kfile_scheme) outcome" where
  "sys_fork s = fork s"

definition sys_exit :: "'a kfile_scheme \<Rightarrow> (int, 'a kfile_scheme) outcome" where
  "sys_exit s = exit_proc s"

definition sys_wait :: "'a kfile_scheme \<Rightarrow> (int, 'a kfile_scheme) outcome" where
  "sys_wait s = wait s"

definition sys_kill :: "'a kfile_scheme \<Rightarrow> (int, 'a kfile_scheme) outcome" where
  "sys_kill s = bindo (argint 0 s) (\<lambda>r s. case r of None \<Rightarrow> Ok (- 1) s | Some n \<Rightarrow> kill n s)"

definition sys_getpid :: "'a kfile_scheme \<Rightarrow> (int, 'a kfile_scheme) outcome" where
  "sys_getpid s = bindo (cur s) (\<lambda>p s. Ok (pid (procs s ! p)) s)"

definition sys_sbrk :: "'a kfile_scheme \<Rightarrow> (int, 'a kfile_scheme) outcome" where
  "sys_sbrk s =
     bindo (argint 0 s) (\<lambda>r s.
       case r of
         None \<Rightarrow> Ok (- 1) s
       | Some n \<Rightarrow>
           bindo (cur s) (\<lambda>p s.
             let a = sint (sz (procs s ! p)) in
           bindo (growproc n s) (\<lambda>r s. Ok (if r < 0 then - 1 else a) s)))"

partial_function (option) sleep_ticks ::
  "32 word \<Rightarrow> int \<Rightarrow> 'a kproc_scheme \<Rightarrow> (int, 'a kproc_scheme) outcome option" where
  "sleep_ticks ticks0 n s =
     (if ticks s - ticks0 < word_of_int n then
        (case bindo (mykilled s) (\<lambda>k s.
           if k then bindo (release TicksLock s) (\<lambda>_ s. Ok True s)
           else bindo (sleep ChanTicks (Some TicksLock) s) (\<lambda>_ s. Ok False s)) of
           Ok k s \<Rightarrow> if k then Some (Ok (- 1) s) else sleep_ticks ticks0 n s
         | Switch s \<Rightarrow> Some (Switch s)
         | Panic m \<Rightarrow> Some (Panic m)
         | Fault m \<Rightarrow> Some (Fault m)
         | Diverge \<Rightarrow> Some Diverge)
      else Some (bindo (release TicksLock s) (\<lambda>_ s. Ok 0 s)))"

definition sys_sleep :: "'a kfile_scheme \<Rightarrow> (int, 'a kfile_scheme) outcome" where
  "sys_sleep s =
     bindo (argint 0 s) (\<lambda>r s.
       case r of
         None \<Rightarrow> Ok (- 1) s
       | Some n \<Rightarrow> bindo (acquire TicksLock s) (\<lambda>_ s. returns (sleep_ticks (ticks s) n s)))"

definition sys_sleep_resume ::
  "nat \<Rightarrow> 32 word \<Rightarrow> int \<Rightarrow> 'a kfile_scheme \<Rightarrow> (int, 'a kfile_scheme) outcome" where
  "sys_sleep_resume p ticks0 n s =
     bindo (sleep_resume p TicksLock s) (\<lambda>_ s. returns (sleep_ticks ticks0 n s))"

definition sys_uptime :: "'a kfile_scheme \<Rightarrow> (int, 'a kfile_scheme) outcome" where
  "sys_uptime s =
     bindo (acquire TicksLock s) (\<lambda>_ s.
       let xticks = ticks s in
     bindo (release TicksLock s) (\<lambda>_ s. Ok (sint xticks) s))"

definition sys_yield :: "'a kfile_scheme \<Rightarrow> (int, 'a kfile_scheme) outcome" where
  "sys_yield s = bindo (yield s) (\<lambda>_ s. Ok 0 s)"

definition shutdown :: "'a ktrap_scheme \<Rightarrow> (unit, 'a ktrap_scheme) outcome" where
  "shutdown s = Ok () (s\<lparr>ports := ports s @ [(0x501, 0)]\<rparr>)"

definition sys_shutdown :: "'a ktrap_scheme \<Rightarrow> (int, 'a ktrap_scheme) outcome" where
  "sys_shutdown s = bindo (shutdown s) (\<lambda>_ s. Ok 0 s)"

definition sys_schedlog :: "'a kfile_scheme \<Rightarrow> (int, 'a kfile_scheme) outcome" where
  "sys_schedlog s =
     bindo (argint 0 s) (\<lambda>r s.
       case r of None \<Rightarrow> Ok (- 1) s | Some n \<Rightarrow> bindo (schedlog n s) (\<lambda>_ s. Ok 0 s))"

definition sys_nicefork :: "'a kfile_scheme \<Rightarrow> (int, 'a kfile_scheme) outcome" where
  "sys_nicefork s = bindo (argint 0 s) (\<lambda>r s. case r of None \<Rightarrow> Ok (- 1) s | Some n \<Rightarrow> nicefork n s)"

section \<open>The dispatcher\<close>

definition syscalls :: "('a ktrap_scheme \<Rightarrow> (int, 'a ktrap_scheme) outcome) option list" where
  "syscalls =
     None # map Some
       [sys_fork, sys_exit, sys_wait, sys_pipe, sys_read, sys_kill, sys_exec, sys_fstat, sys_chdir,
        sys_dup, sys_getpid, sys_sbrk, sys_sleep, sys_uptime, sys_open, sys_write, sys_mknod,
        sys_unlink, sys_link, sys_mkdir, sys_close, sys_yield, sys_shutdown, sys_nicefork, sys_schedlog]"

definition find_syscall :: "int \<Rightarrow> ('a ktrap_scheme \<Rightarrow> (int, 'a ktrap_scheme) outcome) option" where
  "find_syscall num =
     (let table = syscalls in
      if num > 0 \<and> num < int (length table) then table ! nat num else None)"

definition set_eax :: "nat \<Rightarrow> int \<Rightarrow> 'a kproc_scheme \<Rightarrow> 'a kproc_scheme" where
  "set_eax p v s = upd_proc p (\<lambda>x. x\<lparr>tf := (tf x)\<lparr>tf_eax := word_of_int v\<rparr>\<rparr>) s"

definition syscall :: "'a ktrap_scheme \<Rightarrow> (unit, 'a ktrap_scheme) outcome" where
  "syscall s =
     bindo (cur s) (\<lambda>p s.
       let num = sint (tf_eax (tf (procs s ! p))) in
       case find_syscall num of
         Some f \<Rightarrow> bindo (f s) (\<lambda>v s. Ok () (set_eax p v s))
       | None \<Rightarrow>
           bindo (cprintf (''%d %s: unknown sys call %d'' @ [CHR 0x0A])
              [CInt (word_of_int (pid (procs s ! p))), CStr (Some (pname (procs s ! p))),
               CInt (word_of_int num)] s) (\<lambda>_ s.
            Ok () (set_eax p (- 1) s)))"

end
