(* ===== verification/Trap.thy ===== *)
theory Trap
  imports Syscall
begin

text \<open>
  \<^verbatim>\<open>trap.c\<close> and the interrupt entry points of \<^verbatim>\<open>kbd.c\<close> and \<^verbatim>\<open>uart.c\<close>.

  What the devices deliver while a trap is handled is the record \<open>devices\<close>: the values of the
  status and data ports at the successive calls of \<^verbatim>\<open>kbdgetc\<close> and \<^verbatim>\<open>uartgetc\<close>, the register
  \<^verbatim>\<open>cr2\<close>, and the call stacks \<^verbatim>\<open>procdump\<close> prints.  The acknowledgement \<^verbatim>\<open>lapiceoi\<close> writes to the
  interrupt controller only.  A trap that yields goes on in \<open>trap_resume\<close>.
\<close>

definition T_SYSCALL :: addr where "T_SYSCALL = 64"
definition T_IRQ0 :: addr where "T_IRQ0 = 32"
definition IRQ_TIMER :: addr where "IRQ_TIMER = 0"
definition IRQ_KBD :: addr where "IRQ_KBD = 1"
definition IRQ_COM1 :: addr where "IRQ_COM1 = 4"
definition IRQ_IDE :: addr where "IRQ_IDE = 14"
definition IRQ_SPURIOUS :: addr where "IRQ_SPURIOUS = 31"
definition SEG_KCODE :: addr where "SEG_KCODE = 1"

section \<open>The interrupt descriptor table\<close>

definition SETGATE :: "bool \<Rightarrow> addr \<Rightarrow> addr \<Rightarrow> addr \<Rightarrow> gatedesc" where
  "SETGATE istrap sel off d = \<lparr>g_off = off, g_cs = sel, g_istrap = istrap, g_dpl = d\<rparr>"

definition tvinit :: "(nat \<Rightarrow> addr) \<Rightarrow> 'a ktrap_scheme \<Rightarrow> (unit, 'a ktrap_scheme) outcome" where
  "tvinit vectors s =
     (let gates = map (\<lambda>i. SETGATE False (push_bit 3 SEG_KCODE) (vectors i) 0) [0..<256];
          sys = unat T_SYSCALL;
          gates = gates[sys := SETGATE True (push_bit 3 SEG_KCODE) (vectors sys) DPL_USER]
      in initlock TicksLock ''time'' (s\<lparr>idt := gates\<rparr>))"

section \<open>Devices\<close>

record devices =
  kbd_in :: "(byte \<times> byte) list"
  uart_in :: "(byte \<times> byte) list"
  cr2 :: addr
  callerpcs :: "nat \<Rightarrow> addr list"

fun kbd_chars :: "(byte \<times> byte) list \<Rightarrow> 32 word \<Rightarrow> int list \<times> 32 word" where
  "kbd_chars [] shift = ([], shift)"
| "kbd_chars ((st, data) # rest) shift =
     (let (c, shift) = kbdgetc st data shift in
      if c < 0 then ([c], shift)
      else let (cs, shift) = kbd_chars rest shift in (c # cs, shift))"

definition kbdintr :: "devices \<Rightarrow> 'a ktrap_scheme \<Rightarrow> (unit, 'a ktrap_scheme) outcome" where
  "kbdintr dv s =
     (let (cs, shift) = kbd_chars (kbd_in dv) (kbd_shift s)
      in consoleintr (callerpcs dv) cs (s\<lparr>kbd_shift := shift\<rparr>))"

definition uartintr :: "devices \<Rightarrow> 'a ktrap_scheme \<Rightarrow> (unit, 'a ktrap_scheme) outcome" where
  "uartintr dv s =
     consoleintr (callerpcs dv) (map (\<lambda>(st, data). uartgetc (uart s) st data) (uart_in dv)) s"

section \<open>Traps\<close>

definition timer :: "'a kproc_scheme \<Rightarrow> (unit, 'a kproc_scheme) outcome" where
  "timer s =
     bindo (cpuid s) (\<lambda>c s.
       if c = 0 then
         bindo (acquire TicksLock s) (\<lambda>_ s.
         bindo (wakeup ChanTicks (s\<lparr>ticks := ticks s + 1\<rparr>)) (\<lambda>_ s. release TicksLock s))
       else Ok () s)"

definition from_user :: "trapframe \<Rightarrow> bool" where
  "from_user f = (tf_cs f AND 3 = DPL_USER)"

definition bad_trap :: "devices \<Rightarrow> trapframe \<Rightarrow> 'a kproc_scheme \<Rightarrow> (unit, 'a kproc_scheme) outcome" where
  "bad_trap dv f s =
     bindo (myproc s) (\<lambda>q s.
     bindo (cpuid s) (\<lambda>c s.
       case q of
         None \<Rightarrow>
           bindo (cprintf (''unexpected trap %d from cpu %d eip %x (cr2=0x%x)'' @ [CHR 0x0A])
             [CInt (tf_trapno f), CInt (of_nat c), CInt (tf_eip f), CInt (cr2 dv)] s) (\<lambda>_ s. Panic ''trap'')
       | Some p \<Rightarrow>
           if tf_cs f AND 3 = 0 then
             bindo (cprintf (''unexpected trap %d from cpu %d eip %x (cr2=0x%x)'' @ [CHR 0x0A])
               [CInt (tf_trapno f), CInt (of_nat c), CInt (tf_eip f), CInt (cr2 dv)] s) (\<lambda>_ s. Panic ''trap'')
           else
             bindo (cprintf (''pid %d %s: trap %d err %d on cpu %d '' @
                             ''eip 0x%x addr 0x%x--kill proc'' @ [CHR 0x0A])
               [CInt (word_of_int (pid (procs s ! p))), CStr (Some (pname (procs s ! p))),
                CInt (tf_trapno f), CInt (tf_err f), CInt (of_nat c), CInt (tf_eip f), CInt (cr2 dv)] s) (\<lambda>_ s.
               Ok () (upd_proc p (\<lambda>x. x\<lparr>killed := True\<rparr>) s))))"

definition exit_if_killed :: "'a kfile_scheme \<Rightarrow> (unit, 'a kfile_scheme) outcome" where
  "exit_if_killed s = bindo (cur s) (\<lambda>p s. if killed (procs s ! p) then exit_proc s else Ok () s)"

definition exit_if_killed_user :: "trapframe \<Rightarrow> 'a kfile_scheme \<Rightarrow> (unit, 'a kfile_scheme) outcome" where
  "exit_if_killed_user f s =
     bindo (myproc s) (\<lambda>q s.
       case q of
         None \<Rightarrow> Ok () s
       | Some p \<Rightarrow> if killed (procs s ! p) \<and> from_user f then exit_proc s else Ok () s)"

definition preempt :: "trapframe \<Rightarrow> 'a kproc_scheme \<Rightarrow> (unit, 'a kproc_scheme) outcome" where
  "preempt f s =
     bindo (myproc s) (\<lambda>q s.
       case q of
         None \<Rightarrow> Ok () s
       | Some p \<Rightarrow>
           if pstate (procs s ! p) = RUNNING \<and> tf_trapno f = T_IRQ0 + IRQ_TIMER then
             let s = upd_proc p (\<lambda>x. x\<lparr>ticks_left := s32 (ticks_left x - 1)\<rparr>) s in
             if ticks_left (procs s ! p) = 0 then yield s else Ok () s
           else Ok () s)"

definition interrupt :: "devices \<Rightarrow> trapframe \<Rightarrow> 'a ktrap_scheme \<Rightarrow> (unit, 'a ktrap_scheme) outcome" where
  "interrupt dv f s =
     (let n = tf_trapno f in
      if n = T_IRQ0 + IRQ_TIMER then timer s
      else if n = T_IRQ0 + IRQ_IDE then ideintr s
      else if n = T_IRQ0 + IRQ_IDE + 1 then Ok () s
      else if n = T_IRQ0 + IRQ_KBD then kbdintr dv s
      else if n = T_IRQ0 + IRQ_COM1 then uartintr dv s
      else if n = T_IRQ0 + 7 \<or> n = T_IRQ0 + IRQ_SPURIOUS then
        bindo (cpuid s) (\<lambda>c s.
          cprintf (''cpu%d: spurious interrupt at %x:%x'' @ [CHR 0x0A])
            [CInt (of_nat c), CInt (tf_cs f), CInt (tf_eip f)] s)
      else bad_trap dv f s)"

definition trap :: "devices \<Rightarrow> trapframe \<Rightarrow> 'a ktrap_scheme \<Rightarrow> (unit, 'a ktrap_scheme) outcome" where
  "trap dv f s =
     (if tf_trapno f = T_SYSCALL then
        bindo (exit_if_killed s) (\<lambda>_ s.
        bindo (cur s) (\<lambda>p s.
        bindo (syscall (upd_proc p (\<lambda>x. x\<lparr>tf := f\<rparr>) s)) (\<lambda>_ s.
          exit_if_killed s)))
      else
        bindo (interrupt dv f s) (\<lambda>_ s.
        bindo (exit_if_killed_user f s) (\<lambda>_ s.
        bindo (preempt f s) (\<lambda>_ s.
          exit_if_killed_user f s))))"

definition trap_resume :: "nat \<Rightarrow> trapframe \<Rightarrow> 'a ktrap_scheme \<Rightarrow> (unit, 'a ktrap_scheme) outcome" where
  "trap_resume p f s = bindo (yield_resume p s) (\<lambda>_ s. exit_if_killed_user f s)"

end
