(* ===== verification/Apic.thy ===== *)
theory Apic
  imports Trap
begin

text \<open>
  Interrupt controllers, clock and serial port: \<^verbatim>\<open>lapic.c\<close>, \<^verbatim>\<open>ioapic.c\<close>, \<^verbatim>\<open>picirq.c\<close> and the rest of \<^verbatim>\<open>uart.c\<close>.

  A device is what the driver writes to it, in order: \<open>lapic_out\<close> and \<open>ioapic_out\<close> are the writes to the registers
  of the two APICs, \<open>ports\<close> the bytes written to the ports.  Every processor has a local APIC of its own, so a write is
  recorded with the id of the processor.  What the registers and ports answer is the record
  \<open>board\<close>; where a driver polls a register, the answers are a list, and waiting for an answer that is not in it
  does not return.
\<close>

record board =
  bd_mem :: "addr \<Rightarrow> byte"
  bd_lapic :: "nat \<Rightarrow> 32 word"
  bd_icr :: "32 word list"
  bd_ioapic :: "nat \<Rightarrow> 32 word"
  bd_imcr :: byte
  bd_uart :: byte
  bd_starts :: "nat \<Rightarrow> bool"

record segdesc =
  lim_15_0 :: "32 word"
  base_15_0 :: "32 word"
  base_23_16 :: "32 word"
  seg_type :: "32 word"
  seg_s :: "32 word"
  seg_dpl :: "32 word"
  seg_p :: "32 word"
  lim_19_16 :: "32 word"
  seg_avl :: "32 word"
  rsv1 :: "32 word"
  seg_db :: "32 word"
  seg_g :: "32 word"
  base_31_24 :: "32 word"

record kboot = ktrap +
  lapic :: addr
  lapic_out :: "(nat \<times> nat \<times> 32 word) list"
  ioapicid :: byte
  ioapic_out :: "(nat \<times> 32 word) list"
  wrv :: "16 word \<times> 16 word"
  cmos_in :: "byte list"
  gdts :: "nat \<Rightarrow> segdesc list"
  started :: "nat \<Rightarrow> bool"
  ap_code :: "byte list"
  ap_args :: "(addr \<times> addr \<times> addr) option"

definition port_out :: "16 word \<Rightarrow> byte \<Rightarrow> 'a ktrap_scheme \<Rightarrow> 'a ktrap_scheme" where
  "port_out p v s = s\<lparr>ports := ports s @ [(p, v)]\<rparr>"

section \<open>The local APIC\<close>

abbreviation (input) ID :: nat where "ID \<equiv> 0x0020 div 4"
abbreviation (input) VER :: nat where "VER \<equiv> 0x0030 div 4"
abbreviation (input) TPR :: nat where "TPR \<equiv> 0x0080 div 4"
abbreviation (input) EOI :: nat where "EOI \<equiv> 0x00B0 div 4"
abbreviation (input) SVR :: nat where "SVR \<equiv> 0x00F0 div 4"
abbreviation (input) ENABLE :: "32 word" where "ENABLE \<equiv> 0x00000100"
abbreviation (input) ESR :: nat where "ESR \<equiv> 0x0280 div 4"
abbreviation (input) ICRLO :: nat where "ICRLO \<equiv> 0x0300 div 4"
abbreviation (input) INIT :: "32 word" where "INIT \<equiv> 0x00000500"
abbreviation (input) STARTUP :: "32 word" where "STARTUP \<equiv> 0x00000600"
abbreviation (input) DELIVS :: "32 word" where "DELIVS \<equiv> 0x00001000"
abbreviation (input) ASSERT :: "32 word" where "ASSERT \<equiv> 0x00004000"
abbreviation (input) LEVEL :: "32 word" where "LEVEL \<equiv> 0x00008000"
abbreviation (input) BCAST :: "32 word" where "BCAST \<equiv> 0x00080000"
abbreviation (input) ICRHI :: nat where "ICRHI \<equiv> 0x0310 div 4"
abbreviation (input) TIMER :: nat where "TIMER \<equiv> 0x0320 div 4"
abbreviation (input) X1 :: "32 word" where "X1 \<equiv> 0x0000000B"
abbreviation (input) PERIODIC :: "32 word" where "PERIODIC \<equiv> 0x00020000"
abbreviation (input) PCINT :: nat where "PCINT \<equiv> 0x0340 div 4"
abbreviation (input) LINT0 :: nat where "LINT0 \<equiv> 0x0350 div 4"
abbreviation (input) LINT1 :: nat where "LINT1 \<equiv> 0x0360 div 4"
abbreviation (input) ERROR :: nat where "ERROR \<equiv> 0x0370 div 4"
abbreviation (input) MASKED :: "32 word" where "MASKED \<equiv> 0x00010000"
abbreviation (input) TICR :: nat where "TICR \<equiv> 0x0380 div 4"
abbreviation (input) TDCR :: nat where "TDCR \<equiv> 0x03E0 div 4"
abbreviation (input) IRQ_ERROR :: addr where "IRQ_ERROR \<equiv> 19"

definition lapicw :: "nat \<Rightarrow> 32 word \<Rightarrow> 'a kboot_scheme \<Rightarrow> 'a kboot_scheme" where
  "lapicw index v s = s\<lparr>lapic_out := lapic_out s @ [(lapicid s, index, v)]\<rparr>"

fun delivered :: "32 word list \<Rightarrow> bool" where
  "delivered [] = False"
| "delivered (r # rs) = (if r AND DELIVS \<noteq> 0 then delivered rs else True)"

definition lapicinit :: "board \<Rightarrow> 'a kboot_scheme \<Rightarrow> (unit, 'a kboot_scheme) outcome" where
  "lapicinit bd s =
     (if lapic s = 0 then Ok () s
      else
        let s = lapicw SVR (ENABLE OR (T_IRQ0 + IRQ_SPURIOUS)) s;
            s = lapicw TDCR X1 s;
            s = lapicw TIMER (PERIODIC OR (T_IRQ0 + IRQ_TIMER)) s;
            s = lapicw TICR 10000000 s;
            s = lapicw LINT0 MASKED s;
            s = lapicw LINT1 MASKED s;
            s = (if drop_bit 16 (bd_lapic bd VER) AND 0xFF \<ge> 4 then lapicw PCINT MASKED s else s);
            s = lapicw ERROR (T_IRQ0 + IRQ_ERROR) s;
            s = lapicw ESR 0 s;
            s = lapicw ESR 0 s;
            s = lapicw EOI 0 s;
            s = lapicw ICRHI 0 s;
            s = lapicw ICRLO (BCAST OR INIT OR LEVEL) s
        in if delivered (bd_icr bd) then Ok () (lapicw TPR 0 s) else Diverge)"

definition lapiceoi :: "'a kboot_scheme \<Rightarrow> 'a kboot_scheme" where
  "lapiceoi s = (if lapic s \<noteq> 0 then lapicw EOI 0 s else s)"

definition microdelay :: "int \<Rightarrow> 's \<Rightarrow> 's" where
  "microdelay us s = s"

abbreviation (input) CMOS_PORT :: "16 word" where "CMOS_PORT \<equiv> 0x70"

definition send_startup :: "byte \<Rightarrow> addr \<Rightarrow> 'a kboot_scheme \<Rightarrow> 'a kboot_scheme" where
  "send_startup apicid a s =
     microdelay 200 (lapicw ICRLO (STARTUP OR drop_bit 12 a) (lapicw ICRHI (push_bit 24 (ucast apicid)) s))"

definition lapicstartap :: "byte \<Rightarrow> addr \<Rightarrow> 'a kboot_scheme \<Rightarrow> 'a kboot_scheme" where
  "lapicstartap apicid a s =
     (let s = port_out CMOS_PORT 0xF s;
          s = port_out (CMOS_PORT + 1) 0x0A s;
          s = s\<lparr>wrv := (0, ucast (drop_bit 4 a))\<rparr>;
          s = lapicw ICRHI (push_bit 24 (ucast apicid)) s;
          s = lapicw ICRLO (INIT OR LEVEL OR ASSERT) s;
          s = microdelay 200 s;
          s = lapicw ICRLO (INIT OR LEVEL) s;
          s = microdelay 100 s
      in send_startup apicid a (send_startup apicid a s))"

section \<open>The clock\<close>

abbreviation (input) CMOS_STATA :: byte where "CMOS_STATA \<equiv> 0x0a"
abbreviation (input) CMOS_STATB :: byte where "CMOS_STATB \<equiv> 0x0b"
abbreviation (input) CMOS_UIP :: "32 word" where "CMOS_UIP \<equiv> push_bit 7 1"
abbreviation (input) SECS :: byte where "SECS \<equiv> 0x00"
abbreviation (input) MINS :: byte where "MINS \<equiv> 0x02"
abbreviation (input) HOURS :: byte where "HOURS \<equiv> 0x04"
abbreviation (input) DAY :: byte where "DAY \<equiv> 0x07"
abbreviation (input) MONTH :: byte where "MONTH \<equiv> 0x08"
abbreviation (input) YEAR :: byte where "YEAR \<equiv> 0x09"

record rtcdate =
  second :: "32 word"
  minute :: "32 word"
  hour :: "32 word"
  day :: "32 word"
  month :: "32 word"
  year :: "32 word"

definition cmos_read :: "byte \<Rightarrow> 'a kboot_scheme \<Rightarrow> (32 word, 'a kboot_scheme) outcome" where
  "cmos_read reg s =
     (let s = microdelay 200 (port_out CMOS_PORT reg s) in
      case cmos_in s of
        [] \<Rightarrow> Diverge
      | v # vs \<Rightarrow> Ok (ucast v) (s\<lparr>cmos_in := vs\<rparr>))"

definition fill_rtcdate :: "'a kboot_scheme \<Rightarrow> (rtcdate, 'a kboot_scheme) outcome" where
  "fill_rtcdate s =
     bindo (cmos_read SECS s) (\<lambda>a s.
     bindo (cmos_read MINS s) (\<lambda>b s.
     bindo (cmos_read HOURS s) (\<lambda>c s.
     bindo (cmos_read DAY s) (\<lambda>d s.
     bindo (cmos_read MONTH s) (\<lambda>e s.
     bindo (cmos_read YEAR s) (\<lambda>f s.
       Ok \<lparr>second = a, minute = b, hour = c, day = d, month = e, year = f\<rparr> s))))))"

partial_function (option) cmostime_loop :: "'a kboot_scheme \<Rightarrow> (rtcdate, 'a kboot_scheme) outcome option" where
  "cmostime_loop s =
     (case bindo (fill_rtcdate s) (\<lambda>t1 s. bindo (cmos_read CMOS_STATA s) (\<lambda>a s. Ok (t1, a) s)) of
        Ok (t1, a) s \<Rightarrow>
          if a AND CMOS_UIP \<noteq> 0 then cmostime_loop s
          else (case fill_rtcdate s of
                  Ok t2 s \<Rightarrow> if t1 = t2 then Some (Ok t1 s) else cmostime_loop s
                | Switch s \<Rightarrow> Some (Switch s)
                | Panic m \<Rightarrow> Some (Panic m)
                | Fault m \<Rightarrow> Some (Fault m)
                | Diverge \<Rightarrow> Some Diverge)
      | Switch s \<Rightarrow> Some (Switch s)
      | Panic m \<Rightarrow> Some (Panic m)
      | Fault m \<Rightarrow> Some (Fault m)
      | Diverge \<Rightarrow> Some Diverge)"

definition CONV :: "32 word \<Rightarrow> 32 word" where
  "CONV x = drop_bit 4 x * 10 + (x AND 0xf)"

definition cmostime :: "'a kboot_scheme \<Rightarrow> (rtcdate, 'a kboot_scheme) outcome" where
  "cmostime s =
     bindo (cmos_read CMOS_STATB s) (\<lambda>sb s.
       let bcd = (sb AND push_bit 2 1 = 0) in
     bindo (returns (cmostime_loop s)) (\<lambda>t s.
       let t = (if bcd
                then \<lparr>second = CONV (second t), minute = CONV (minute t), hour = CONV (hour t), day = CONV (day t),
                      month = CONV (month t), year = CONV (year t)\<rparr>
                else t)
       in Ok (t\<lparr>year := year t + 2000\<rparr>) s))"

lemma CONV_bcd:
  assumes "a < 10" "b < 10"
  shows "CONV (of_nat (16 * a + b)) = of_nat (10 * a + b)"
proof -
  define w :: "32 word" where "w = of_nat (16 * a + b)"
  have u: "unat w = 16 * a + b" using assms by (simp only: w_def unat_of_nat take_bit_eq_mod) simp
  have "unat (w div 16) = unat w div 16" by (simp add: unat_div)
  then have "unat (drop_bit 4 w) = a" using u assms by (simp add: drop_bit_eq_div)
  then have d: "drop_bit 4 w = of_nat a" by (metis of_nat_unat ucast_id)
  have "unat (take_bit 4 w) = take_bit 4 (unat w)" by (simp add: unsigned_take_bit_eq)
  then have "unat (take_bit 4 w) = b" using u assms by (simp add: take_bit_eq_mod)
  then have "take_bit 4 w = of_nat b" by (metis of_nat_unat ucast_id)
  then have "w AND 0xf = of_nat b" by (simp add: take_bit_eq_mask mask_numeral)
  then have "CONV w = of_nat (10 * a + b)" using d by (simp add: CONV_def)
  then show ?thesis by (simp only: w_def)
qed

section \<open>The I/O APIC, the old controllers and the serial port\<close>

abbreviation (input) REG_ID :: nat where "REG_ID \<equiv> 0"
abbreviation (input) REG_VER :: nat where "REG_VER \<equiv> 1"
abbreviation (input) REG_TABLE :: nat where "REG_TABLE \<equiv> 0x10"
abbreviation (input) INT_DISABLED :: "32 word" where "INT_DISABLED \<equiv> 0x00010000"

definition ioapicread :: "board \<Rightarrow> nat \<Rightarrow> 32 word" where
  "ioapicread bd reg = bd_ioapic bd reg"

definition ioapicwrite :: "nat \<Rightarrow> 32 word \<Rightarrow> 'a kboot_scheme \<Rightarrow> 'a kboot_scheme" where
  "ioapicwrite reg v s = s\<lparr>ioapic_out := ioapic_out s @ [(reg, v)]\<rparr>"

definition ioapicinit :: "board \<Rightarrow> 'a kboot_scheme \<Rightarrow> (unit, 'a kboot_scheme) outcome" where
  "ioapicinit bd s =
     (let maxintr = unat (drop_bit 16 (ioapicread bd REG_VER) AND 0xFF);
          id = drop_bit 24 (ioapicread bd REG_ID)
      in bindo (if id \<noteq> ucast (ioapicid s)
                then cprintf (''ioapicinit: id isn'' @ [CHR 0x27] @ ''t equal to ioapicid; not a MP'' @ [CHR 0x0A]) [] s
                else Ok () s) (\<lambda>_ s.
           for_list (\<lambda>i s.
             Ok () (ioapicwrite (REG_TABLE + 2 * i + 1) 0
                      (ioapicwrite (REG_TABLE + 2 * i) (INT_DISABLED OR (T_IRQ0 + of_nat i)) s)))
             [0..<maxintr + 1] s))"

definition ioapicenable :: "nat \<Rightarrow> 32 word \<Rightarrow> 'a kboot_scheme \<Rightarrow> 'a kboot_scheme" where
  "ioapicenable irq cpunum s =
     ioapicwrite (REG_TABLE + 2 * irq + 1) (push_bit 24 cpunum)
       (ioapicwrite (REG_TABLE + 2 * irq) (T_IRQ0 + of_nat irq) s)"

abbreviation (input) IO_PIC1 :: "16 word" where "IO_PIC1 \<equiv> 0x20"
abbreviation (input) IO_PIC2 :: "16 word" where "IO_PIC2 \<equiv> 0xA0"

definition picinit :: "'a ktrap_scheme \<Rightarrow> 'a ktrap_scheme" where
  "picinit s = port_out (IO_PIC2 + 1) 0xFF (port_out (IO_PIC1 + 1) 0xFF s)"

abbreviation (input) COM1 :: "16 word" where "COM1 \<equiv> 0x3f8"

definition uartputc :: "int \<Rightarrow> 'a ktrap_scheme \<Rightarrow> 'a ktrap_scheme" where
  "uartputc c s = (if \<not> uart s then s else port_out COM1 (word_of_int c) s)"

definition uartinit :: "board \<Rightarrow> 'a kboot_scheme \<Rightarrow> 'a kboot_scheme" where
  "uartinit bd s =
     (let s = port_out (COM1 + 2) 0 s;
          s = port_out (COM1 + 3) 0x80 s;
          s = port_out (COM1 + 0) (of_nat (115200 div 9600)) s;
          s = port_out (COM1 + 1) 0 s;
          s = port_out (COM1 + 3) 0x03 s;
          s = port_out (COM1 + 4) 0 s;
          s = port_out (COM1 + 1) 0x01 s
      in if bd_uart bd = 0xFF then s
         else
           let s = s\<lparr>uart := True\<rparr>;
               s = ioapicenable (unat IRQ_COM1) 0 s
           in foldl (\<lambda>s c. uartputc (int (of_char c)) s) s (''xv6...'' @ [CHR 0x0A]))"

end
