(* ===== verification/Mp.thy ===== *)
theory Mp
  imports Apic
begin

text \<open>
  Processor discovery: \<^verbatim>\<open>mp.c\<close> and the structures of \<^verbatim>\<open>mp.h\<close>.

  The tables the firmware left in memory are bytes at kernel virtual addresses, \<open>bd_mem\<close>; a field of a structure is
  read at its offset, least significant byte first.  The ranges \<^verbatim>\<open>mpsearch1\<close> is called with stay below the end of the address
  space, so its loop is a search through the list of the addresses it visits.  The loop of \<^verbatim>\<open>mpinit\<close> over the entries of the
  configuration table is a partial function, since it need not end.
\<close>

definition NCPU :: nat where "NCPU = 8"

definition MPPROC :: byte where "MPPROC = 0x00"
definition MPBUS :: byte where "MPBUS = 0x01"
definition MPIOAPIC :: byte where "MPIOAPIC = 0x02"
definition MPIOINTR :: byte where "MPIOINTR = 0x03"
definition MPLINTR :: byte where "MPLINTR = 0x04"

abbreviation (input) sizeof_mp :: nat where "sizeof_mp \<equiv> 16"
abbreviation (input) sizeof_mpconf :: addr where "sizeof_mpconf \<equiv> 44"
abbreviation (input) sizeof_mpproc :: addr where "sizeof_mpproc \<equiv> 20"
abbreviation (input) sizeof_mpioapic :: addr where "sizeof_mpioapic \<equiv> 8"

definition ushort_at :: "(addr \<Rightarrow> byte) \<Rightarrow> addr \<Rightarrow> 32 word" where
  "ushort_at m a = push_bit 8 (ucast (m (a + 1))) OR ucast (m a)"

definition uint_at :: "(addr \<Rightarrow> byte) \<Rightarrow> addr \<Rightarrow> 32 word" where
  "uint_at m a = push_bit 16 (ushort_at m (a + 2)) OR ushort_at m a"

abbreviation (input) mp_physaddr :: "(addr \<Rightarrow> byte) \<Rightarrow> addr \<Rightarrow> addr" where "mp_physaddr m mp \<equiv> uint_at m (mp + 4)"
abbreviation (input) mp_imcrp :: "(addr \<Rightarrow> byte) \<Rightarrow> addr \<Rightarrow> byte" where "mp_imcrp m mp \<equiv> m (mp + 12)"
definition conf_length :: "(addr \<Rightarrow> byte) \<Rightarrow> addr \<Rightarrow> addr" where "conf_length m conf = ushort_at m (conf + 4)"
abbreviation (input) conf_version :: "(addr \<Rightarrow> byte) \<Rightarrow> addr \<Rightarrow> byte" where "conf_version m conf \<equiv> m (conf + 6)"
definition conf_lapicaddr :: "(addr \<Rightarrow> byte) \<Rightarrow> addr \<Rightarrow> addr" where "conf_lapicaddr m conf = uint_at m (conf + 36)"
abbreviation (input) proc_apicid :: "(addr \<Rightarrow> byte) \<Rightarrow> addr \<Rightarrow> byte" where "proc_apicid m p \<equiv> m (p + 1)"
abbreviation (input) ioapic_apicno :: "(addr \<Rightarrow> byte) \<Rightarrow> addr \<Rightarrow> byte" where "ioapic_apicno m p \<equiv> m (p + 1)"

definition bytes_at :: "(addr \<Rightarrow> byte) \<Rightarrow> addr \<Rightarrow> nat \<Rightarrow> byte list" where
  "bytes_at m a n = map (\<lambda>i. m (a + of_nat i)) [0..<n]"

definition sum_bytes :: "(addr \<Rightarrow> byte) \<Rightarrow> addr \<Rightarrow> nat \<Rightarrow> byte" where
  "sum_bytes m a len = ucast (foldl (\<lambda>acc b. acc + ucast b) (0 :: 32 word) (bytes_at m a len))"

definition mpsearch1 :: "(addr \<Rightarrow> byte) \<Rightarrow> addr \<Rightarrow> nat \<Rightarrow> 's \<Rightarrow> (addr option, 's) outcome" where
  "mpsearch1 m a len s =
     bindo (P2V a s) (\<lambda>start s.
       Ok (find (\<lambda>p. bytes_at m p 4 = map (\<lambda>c. of_char c) ''_MP_'' \<and> sum_bytes m p sizeof_mp = 0)
             (map (\<lambda>i. start + of_nat (i * sizeof_mp)) [0..<(len + sizeof_mp - 1) div sizeof_mp])) s)"

definition mpsearch :: "(addr \<Rightarrow> byte) \<Rightarrow> 's \<Rightarrow> (addr option, 's) outcome" where
  "mpsearch m s =
     bindo (P2V 0x400 s) (\<lambda>bda s.
       let p = push_bit 4 (ushort_at m (bda + 0x0E)) in
     bindo (if p \<noteq> 0 then mpsearch1 m p 1024 s
            else mpsearch1 m (ushort_at m (bda + 0x13) * 1024 - 1024) 1024 s) (\<lambda>r s.
       case r of
         Some mp \<Rightarrow> Ok (Some mp) s
       | None \<Rightarrow> mpsearch1 m 0xF0000 0x10000 s))"

definition mpconfig :: "(addr \<Rightarrow> byte) \<Rightarrow> 's \<Rightarrow> ((addr \<times> addr) option, 's) outcome" where
  "mpconfig m s =
     bindo (mpsearch m s) (\<lambda>r s.
       case r of
         None \<Rightarrow> Ok None s
       | Some mp \<Rightarrow>
           if mp_physaddr m mp = 0 then Ok None s
           else
             bindo (P2V (mp_physaddr m mp) s) (\<lambda>conf s.
               if bytes_at m conf 4 \<noteq> map (\<lambda>c. of_char c) ''PCMP'' then Ok None s
               else if conf_version m conf \<noteq> 1 \<and> conf_version m conf \<noteq> 4 then Ok None s
               else if sum_bytes m conf (unat (conf_length m conf)) \<noteq> 0 then Ok None s
               else Ok (Some (mp, conf)) s))"

definition add_processor :: "byte \<Rightarrow> 'a mach_scheme \<Rightarrow> 'a mach_scheme" where
  "add_processor apicid s =
     (if ncpu s < NCPU
      then (upd_cpu (ncpu s) (\<lambda>c. c\<lparr>c_apicid := unat apicid\<rparr>) s)\<lparr>ncpu := ncpu s + 1\<rparr>
      else s)"

partial_function (option) mp_entries ::
  "(addr \<Rightarrow> byte) \<Rightarrow> addr \<Rightarrow> addr \<Rightarrow> bool \<Rightarrow> 'a kboot_scheme \<Rightarrow> (bool \<times> 'a kboot_scheme) option" where
  "mp_entries m p e ismp s =
     (if p < e then
        if m p = MPPROC then mp_entries m (p + sizeof_mpproc) e ismp (add_processor (proc_apicid m p) s)
        else if m p = MPIOAPIC then mp_entries m (p + sizeof_mpioapic) e ismp (s\<lparr>ioapicid := ioapic_apicno m p\<rparr>)
        else if m p = MPBUS \<or> m p = MPIOINTR \<or> m p = MPLINTR then mp_entries m (p + 8) e ismp s
        else mp_entries m p e False s
      else Some (ismp, s))"

definition mpinit :: "board \<Rightarrow> 'a kboot_scheme \<Rightarrow> (unit, 'a kboot_scheme) outcome" where
  "mpinit bd s =
     (let m = bd_mem bd in
      bindo (mpconfig m s) (\<lambda>r s.
        case r of
          None \<Rightarrow> Panic ''Expect to run on an SMP''
        | Some (mp, conf) \<Rightarrow>
            (case mp_entries m (conf + sizeof_mpconf) (conf + conf_length m conf) True
                    (s\<lparr>lapic := conf_lapicaddr m conf\<rparr>) of
               None \<Rightarrow> Diverge
             | Some (ismp, s) \<Rightarrow>
                 if \<not> ismp then Panic (''Didn'' @ [CHR 0x27] @ ''t find a suitable machine'')
                 else if mp_imcrp m mp \<noteq> 0
                 then Ok () (port_out 0x23 (bd_imcr bd OR 1) (port_out 0x22 0x70 s))
                 else Ok () s)))"

section \<open>Tables\<close>

text \<open>A table as the specification of the tables describes it: a sequence of entries, each of one of the five kinds.\<close>

datatype mpentry = Processor byte | Bus | IoApic byte | IoIntr | LocalIntr

fun entry_code :: "mpentry \<Rightarrow> byte" where
  "entry_code (Processor _) = MPPROC"
| "entry_code Bus = MPBUS"
| "entry_code (IoApic _) = MPIOAPIC"
| "entry_code IoIntr = MPIOINTR"
| "entry_code LocalIntr = MPLINTR"

fun entry_size :: "mpentry \<Rightarrow> nat" where
  "entry_size (Processor _) = 20"
| "entry_size _ = 8"

fun entry_at :: "(addr \<Rightarrow> byte) \<Rightarrow> nat \<Rightarrow> mpentry \<Rightarrow> bool" where
  "entry_at m p (Processor i) = (m (of_nat p) = MPPROC \<and> m (of_nat (p + 1)) = i)"
| "entry_at m p (IoApic i) = (m (of_nat p) = MPIOAPIC \<and> m (of_nat (p + 1)) = i)"
| "entry_at m p x = (m (of_nat p) = entry_code x)"

fun table_at :: "(addr \<Rightarrow> byte) \<Rightarrow> nat \<Rightarrow> mpentry list \<Rightarrow> bool" where
  "table_at m p [] = True"
| "table_at m p (x # xs) = (entry_at m p x \<and> table_at m (p + entry_size x) xs)"

definition table_size :: "mpentry list \<Rightarrow> nat" where
  "table_size xs = sum_list (map entry_size xs)"

fun note_entry :: "mpentry \<Rightarrow> 'a kboot_scheme \<Rightarrow> 'a kboot_scheme" where
  "note_entry (Processor i) s = add_processor i s"
| "note_entry (IoApic i) s = s\<lparr>ioapicid := i\<rparr>"
| "note_entry _ s = s"

definition apicids :: "mpentry list \<Rightarrow> byte list" where
  "apicids xs = concat (map (\<lambda>x. case x of Processor i \<Rightarrow> [i] | _ \<Rightarrow> []) xs)"

definition ioapics :: "mpentry list \<Rightarrow> byte list" where
  "ioapics xs = concat (map (\<lambda>x. case x of IoApic i \<Rightarrow> [i] | _ \<Rightarrow> []) xs)"

definition known_entry :: "byte \<Rightarrow> bool" where
  "known_entry b = (b \<in> {MPPROC, MPBUS, MPIOAPIC, MPIOINTR, MPLINTR})"

lemmas mp_codes = MPPROC_def MPBUS_def MPIOAPIC_def MPIOINTR_def MPLINTR_def

lemma mp_entries_end: "\<not> p < e \<Longrightarrow> mp_entries m p e b s = Some (b, s)"
  by (subst mp_entries.simps) simp

lemma mp_codes_distinct [simp]:
  "MPIOAPIC \<noteq> MPPROC" "MPBUS \<noteq> MPPROC" "MPBUS \<noteq> MPIOAPIC" "MPIOINTR \<noteq> MPPROC" "MPIOINTR \<noteq> MPIOAPIC"
  "MPLINTR \<noteq> MPPROC" "MPLINTR \<noteq> MPIOAPIC"
  by (simp_all add: mp_codes word_unat_eq_iff)

lemma mp_entries_returned:
  assumes "mp_entries m p e b s = Some y"
  shows "(p < e \<longrightarrow> known_entry (m p)) \<and> (b \<longrightarrow> fst y)"
proof (rule mp_entries.raw_induct [where P = "\<lambda>m p e b s y. (p < e \<longrightarrow> known_entry (m p)) \<and> (b \<longrightarrow> fst y)", OF _ assms])
  fix f :: "(addr \<Rightarrow> byte) \<Rightarrow> addr \<Rightarrow> addr \<Rightarrow> bool \<Rightarrow> 'a kboot_scheme \<Rightarrow> (bool \<times> 'a kboot_scheme) option"
    and m p e b s y
  assume IH: "\<And>m p e b s y. f m p e b s = Some y \<Longrightarrow> (p < e \<longrightarrow> known_entry (m p)) \<and> (b \<longrightarrow> fst y)"
    and eq: "(if p < e
        then if m p = MPPROC then f m (p + sizeof_mpproc) e b (add_processor (proc_apicid m p) s)
             else if m p = MPIOAPIC then f m (p + sizeof_mpioapic) e b (s\<lparr>ioapicid := ioapic_apicno m p\<rparr>)
             else if m p = MPBUS \<or> m p = MPIOINTR \<or> m p = MPLINTR then f m (p + 8) e b s
             else f m p e False s
        else Some (b, s)) = Some y"
  show "(p < e \<longrightarrow> known_entry (m p)) \<and> (b \<longrightarrow> fst y)"
  proof (cases "p < e")
    case True
    show ?thesis
    proof (cases "known_entry (m p)")
      case known: True
      then obtain p' s' where "f m p' e b s' = Some y"
        using eq True by (auto simp: known_entry_def split: if_splits)
      then show ?thesis using IH [of m p' e b s' y] known by simp
    next
      case False
      then have "f m p e False s = Some y" using eq True by (simp add: known_entry_def)
      then show ?thesis using IH [of m p e False s y] True False by simp
    qed
  next
    case False
    then show ?thesis using eq by auto
  qed
qed

lemma mp_entries_unknown: "p < e \<Longrightarrow> \<not> known_entry (m p) \<Longrightarrow> mp_entries m p e b s = None"
  using mp_entries_returned [of m p e b s] by (cases "mp_entries m p e b s") auto

lemma mp_entries_step:
  assumes "entry_at m p x" "p < e" "e < 2 ^ 32"
  shows "mp_entries m (of_nat p) (of_nat e) b s = mp_entries m (of_nat (p + entry_size x)) (of_nat e) b (note_entry x s)"
proof -
  have "(of_nat p :: addr) < of_nat e" using assms(2,3) by (simp add: word_less_nat_alt unat_of_nat take_bit_eq_mod)
  then show ?thesis using assms(1)
    by (subst mp_entries.simps, cases x)
       (simp_all add: add.commute)
qed

lemma mp_entries_table:
  "table_at m p xs \<Longrightarrow> p + table_size xs \<le> e \<Longrightarrow> e < 2 ^ 32 \<Longrightarrow>
   mp_entries m (of_nat p) (of_nat e) b s =
   mp_entries m (of_nat (p + table_size xs)) (of_nat e) b (fold note_entry xs s)"
proof (induction xs arbitrary: p s)
  case Nil then show ?case by (simp add: table_size_def)
next
  case (Cons x xs)
  have "0 < entry_size x" by (cases x) simp_all
  then have "p < e" using Cons.prems(2) by (simp add: table_size_def)
  then have "mp_entries m (of_nat p) (of_nat e) b s =
      mp_entries m (of_nat (p + entry_size x)) (of_nat e) b (note_entry x s)"
    using Cons.prems by (intro mp_entries_step) simp_all
  also have "\<dots> = mp_entries m (of_nat (p + entry_size x + table_size xs)) (of_nat e) b (fold note_entry xs (note_entry x s))"
    using Cons.prems by (intro Cons.IH) (simp_all add: table_size_def)
  finally show ?case by (simp add: table_size_def add.assoc)
qed

lemma add_processor_props [simp]:
  "ioapicid (add_processor i t) = ioapicid t"
  "lapic (add_processor i t) = lapic t"
  "length (cpus (add_processor i s)) = length (cpus s)"
  by (auto simp: add_processor_def upd_cpu_def)

definition ids :: "'a mach_scheme \<Rightarrow> nat list" where
  "ids s = map c_apicid (take (ncpu s) (cpus s))"

lemma ids_add_processor:
  assumes "length (cpus s) = NCPU" "ncpu s \<le> NCPU"
  shows "ids (add_processor i s) = take NCPU (ids s @ [unat i])"
proof (cases "ncpu s < NCPU")
  case True
  then show ?thesis using assms
    by (simp add: ids_def add_processor_def upd_cpu_def take_Suc_conv_app_nth)
next
  case False
  then show ?thesis using assms by (simp add: ids_def add_processor_def)
qed

lemma note_entries:
  assumes "length (cpus s) = NCPU" "ncpu s \<le> NCPU"
  shows "ids (fold note_entry xs s) = take NCPU (ids s @ map unat (apicids xs)) \<and>
    length (cpus (fold note_entry xs s)) = NCPU \<and> ncpu (fold note_entry xs s) \<le> NCPU \<and>
    ioapicid (fold note_entry xs s) = last (ioapicid s # ioapics xs) \<and>
    lapic (fold note_entry xs s) = lapic s"
  using assms
proof (induction xs arbitrary: s)
  case Nil
  then show ?case by (simp add: apicids_def ioapics_def ids_def)
next
  case (Cons x xs)
  have l: "length (ids s) \<le> NCPU" using Cons.prems by (simp add: ids_def)
  have n: "ncpu (note_entry x s) \<le> NCPU \<and> length (cpus (note_entry x s)) = NCPU \<and> lapic (note_entry x s) = lapic s"
    using Cons.prems by (cases x) (simp_all add: add_processor_def upd_cpu_def)
  have "ids (note_entry x s) = take NCPU (ids s @ map unat (apicids [x]))"
    using Cons.prems ids_add_processor [of s] l by (cases x) (simp_all add: apicids_def ids_def)
  moreover have "last (ioapicid (note_entry x s) # ioapics xs) = last (ioapicid s # ioapics (x # xs))"
    by (cases x) (simp_all add: ioapics_def)
  moreover have "apicids (x # xs) = apicids [x] @ apicids xs" by (simp add: apicids_def)
  ultimately show ?case using Cons.IH [of "note_entry x s"] n l by (simp add: min_def)
qed

end
