(* ===== verification/Boot.thy ===== *)
theory Boot
  imports Mp
begin

text \<open>
  The start of the kernel: \<^verbatim>\<open>main.c\<close>, \<^verbatim>\<open>seginit\<close> of \<^verbatim>\<open>vm.c\<close> and the segment descriptors of \<^verbatim>\<open>mmu.h\<close>.

  The record \<open>image\<close> holds what the linker and the assembler put into the kernel.  The boot processor starts the others one
  after the other and waits for each, so \<open>startothers\<close> runs the other processor's \<^verbatim>\<open>mpenter\<close>, with the registers of that
  processor, between the start-up interrupts and the end of the wait; a processor that does not come up keeps the boot
  processor waiting.  \<^verbatim>\<open>mpmain\<close> ends where the loop of \<^verbatim>\<open>scheduler\<close> begins.  \<^verbatim>\<open>lgdt\<close> and \<^verbatim>\<open>lidt\<close> load the tables of the
  executing processor, which is the only use the model has for them.
\<close>

record image =
  im_vectors :: "nat \<Rightarrow> addr"
  im_disk :: "block list"
  im_initcode :: "byte list"
  im_entryother :: "byte list"
  im_mpenter :: addr
  im_entrypgdir :: addr

section \<open>Segments\<close>

abbreviation (input) SEG_KDATA :: nat where "SEG_KDATA \<equiv> 2"
abbreviation (input) STA_X :: "32 word" where "STA_X \<equiv> 0x8"
abbreviation (input) STA_W :: "32 word" where "STA_W \<equiv> 0x2"
abbreviation (input) STA_R :: "32 word" where "STA_R \<equiv> 0x2"

definition SEG :: "32 word \<Rightarrow> addr \<Rightarrow> 32 word \<Rightarrow> 32 word \<Rightarrow> segdesc" where
  "SEG type base lim d =
     \<lparr>lim_15_0 = drop_bit 12 lim AND 0xffff, base_15_0 = base AND 0xffff,
      base_23_16 = drop_bit 16 base AND 0xff, seg_type = type, seg_s = 1, seg_dpl = d, seg_p = 1,
      lim_19_16 = drop_bit 28 lim, seg_avl = 0, rsv1 = 0, seg_db = 1, seg_g = 1, base_31_24 = drop_bit 24 base\<rparr>"

definition seginit :: "'a kboot_scheme \<Rightarrow> (unit, 'a kboot_scheme) outcome" where
  "seginit s =
     bindo (cpuid s) (\<lambda>c s.
       let gdt = (gdts s c)
             [unat SEG_KCODE := SEG (STA_X OR STA_R) 0 0xffffffff 0,
              SEG_KDATA := SEG STA_W 0 0xffffffff 0,
              unat SEG_UCODE := SEG (STA_X OR STA_R) 0 0xffffffff DPL_USER,
              unat SEG_UDATA := SEG STA_W 0 0xffffffff DPL_USER]
       in Ok () (s\<lparr>gdts := (gdts s)(c := gdt)\<rparr>))"

section \<open>The processors\<close>

definition mpmain :: "'a kboot_scheme \<Rightarrow> (nat, 'a kboot_scheme) outcome" where
  "mpmain s =
     bindo (cpuid s) (\<lambda>c s.
     bindo (cprintf (''cpu%d: starting %d'' @ [CHR 0x0A]) [CInt (of_nat c), CInt (of_nat c)] s) (\<lambda>_ s.
     bindo (mycpu s) (\<lambda>c s.
       scheduler_start (s\<lparr>started := (started s)(c := True)\<rparr>))))"

definition mpenter :: "board \<Rightarrow> 'a kboot_scheme \<Rightarrow> (nat, 'a kboot_scheme) outcome" where
  "mpenter bd s =
     bindo (switchkvm s) (\<lambda>_ s.
     bindo (seginit s) (\<lambda>_ s.
     bindo (lapicinit bd s) (\<lambda>_ s.
       mpmain s)))"

definition run_other :: "board \<Rightarrow> nat \<Rightarrow> 'a kboot_scheme \<Rightarrow> (unit, 'a kboot_scheme) outcome" where
  "run_other bd c s =
     (if bd_starts bd c then
        bindo (mpenter bd (s\<lparr>lapicid := c_apicid (cpus s ! c), fl_if := False\<rparr>)) (\<lambda>_ t.
          Ok () (t\<lparr>lapicid := lapicid s, fl_if := fl_if s, cr3 := cr3 s\<rparr>))
      else Ok () s)"

fun start_loop :: "image \<Rightarrow> board \<Rightarrow> nat list \<Rightarrow> 'a kboot_scheme \<Rightarrow> (unit, 'a kboot_scheme) outcome" where
  "start_loop im bd [] s = Ok () s"
| "start_loop im bd (c # cs) s =
     bindo (mycpu s) (\<lambda>me s.
       if c = me then start_loop im bd cs s
       else
         bindo (kalloc s) (\<lambda>stack s.
         bindo (V2P (im_entrypgdir im) s) (\<lambda>pd s.
           let s = s\<lparr>ap_args := Some (stack + KSTACKSIZE, im_mpenter im, pd)\<rparr> in
         bindo (run_other bd c (lapicstartap (of_nat (c_apicid (cpus s ! c))) 0x7000 s)) (\<lambda>_ s.
           if started s c then start_loop im bd cs s else Diverge))))"

definition startothers :: "image \<Rightarrow> board \<Rightarrow> 'a kboot_scheme \<Rightarrow> (unit, 'a kboot_scheme) outcome" where
  "startothers im bd s =
     (let s = s\<lparr>ap_code := im_entryother im\<rparr> in start_loop im bd [0..<ncpu s] s)"

abbreviation (input) PTE_PS :: addr where "PTE_PS \<equiv> 0x080"

definition entrypgdir :: "addr list" where
  "entrypgdir =
     (replicate 1024 0)[0 := PTE_P OR PTE_W OR PTE_PS, unat (drop_bit 22 KERNBASE) := PTE_P OR PTE_W OR PTE_PS]"

section \<open>The boot processor\<close>

definition main :: "image \<Rightarrow> board \<Rightarrow> 'a kboot_scheme \<Rightarrow> (nat, 'a kboot_scheme) outcome" where
  "main im bd s =
     bindo (P2V (4 * 1024 * 1024) s) (\<lambda>low s.
     bindo (kinit1 (kend s) low s) (\<lambda>_ s.
     bindo (kvmalloc s) (\<lambda>_ s.
     bindo (mpinit bd s) (\<lambda>_ s.
     bindo (lapicinit bd s) (\<lambda>_ s.
     bindo (seginit s) (\<lambda>_ s.
     bindo (ioapicinit bd (picinit s)) (\<lambda>_ s.
     bindo (consoleinit s) (\<lambda>_ s.
       let s = ioapicenable (unat IRQ_KBD) 0 s;
           s = uartinit bd s in
     bindo (pinit s) (\<lambda>_ s.
     bindo (tvinit (im_vectors im) s) (\<lambda>_ s.
     bindo (binit s) (\<lambda>_ s.
     bindo (fileinit s) (\<lambda>_ s.
     bindo (ideinit (im_disk im) s) (\<lambda>_ s.
     bindo (startothers im bd s) (\<lambda>_ s.
     bindo (P2V PHYSTOP s) (\<lambda>top s.
     bindo (kinit2 low top s) (\<lambda>_ s.
     bindo (userinit (im_initcode im) s) (\<lambda>_ s.
       mpmain s)))))))))))))))))"

end
