(* ===== verification/Quiet.thy ===== *)
theory Quiet
  imports SchedSpec Bio
begin

text \<open>
  The setting of the sequential theorems about pipes, buffers and the log: a process runs on the
  executing processor, no spin lock is held and no process sleeps.  In it \<^verbatim>\<open>wakeup\<close> has nothing to do and the
  sleep locks are taken and released without switching.
\<close>

definition quiet :: "nat \<Rightarrow> 'a kproc_scheme \<Rightarrow> bool" where
  "quiet p s = (cpu_ok s \<and> c_proc (cpus s ! my s) = Some p \<and> (\<forall>l. lock_free l s) \<and>
     (\<forall>q < NPROC. pstate (procs s ! q) \<noteq> SLEEPING))"

lemma quietD:
  assumes "quiet p s"
  shows "cpu_ok s" "c_proc (cpus s ! my s) = Some p" "lock_free l s"
    "q < NPROC \<Longrightarrow> pstate (procs s ! q) \<noteq> SLEEPING"
  using assms by (simp_all add: quiet_def)

section \<open>Nobody to wake\<close>

lemma for_list_none: "(\<And>x. x \<in> set xs \<Longrightarrow> f x s = Ok () s) \<Longrightarrow> for_list f xs s = Ok () s"
  by (induction xs) simp_all

lemma wakeup_nobody:
  assumes "cpu_ok s" "lock_free PtableLock s"
    "\<And>q. q < NPROC \<Longrightarrow> pstate (procs s ! q) = SLEEPING \<Longrightarrow> pchan (procs s ! q) \<noteq> Some ch"
  shows "wakeup ch s = Ok () s"
proof -
  have "wakeup1 (Some ch) (acq PtableLock s) = Ok () (acq PtableLock s)"
    unfolding wakeup1_def by (rule for_list_none) (use assms(3) in auto)
  then show ?thesis using assms(1,2) by (simp add: wakeup_def acquire_ok release_ok rel_acq)
qed

lemma wakeup_acq:
  assumes "quiet p s" "l \<noteq> PtableLock"
  shows "wakeup ch (acq l s) = Ok () (acq l s)"
  by (rule wakeup_nobody) (use assms quietD [OF assms(1)] in auto)

section \<open>Sleep locks\<close>

lemma kbio_frame [simp]:
  "my (s\<lparr>sleeplocks := v0\<rparr>) = my s"
  "cpu_ok (s\<lparr>sleeplocks := v0\<rparr>) = cpu_ok s"
  "lock_free l (s\<lparr>sleeplocks := v0\<rparr>) = lock_free l s"
  "lock_mine l (s\<lparr>sleeplocks := v0\<rparr>) = lock_mine l s"
  "acq l (s\<lparr>sleeplocks := v0\<rparr>) = (acq l s)\<lparr>sleeplocks := v0\<rparr>"
  "rel l (s\<lparr>sleeplocks := v0\<rparr>) = (rel l s)\<lparr>sleeplocks := v0\<rparr>"
  "sleeplocks (acq l s) = sleeplocks s"
  "sleeplocks (rel l s) = sleeplocks s"
  "my (s\<lparr>bufs := v1\<rparr>) = my s"
  "cpu_ok (s\<lparr>bufs := v1\<rparr>) = cpu_ok s"
  "lock_free l (s\<lparr>bufs := v1\<rparr>) = lock_free l s"
  "lock_mine l (s\<lparr>bufs := v1\<rparr>) = lock_mine l s"
  "acq l (s\<lparr>bufs := v1\<rparr>) = (acq l s)\<lparr>bufs := v1\<rparr>"
  "rel l (s\<lparr>bufs := v1\<rparr>) = (rel l s)\<lparr>bufs := v1\<rparr>"
  "bufs (acq l s) = bufs s"
  "bufs (rel l s) = bufs s"
  "my (s\<lparr>mru := v2\<rparr>) = my s"
  "cpu_ok (s\<lparr>mru := v2\<rparr>) = cpu_ok s"
  "lock_free l (s\<lparr>mru := v2\<rparr>) = lock_free l s"
  "lock_mine l (s\<lparr>mru := v2\<rparr>) = lock_mine l s"
  "acq l (s\<lparr>mru := v2\<rparr>) = (acq l s)\<lparr>mru := v2\<rparr>"
  "rel l (s\<lparr>mru := v2\<rparr>) = (rel l s)\<lparr>mru := v2\<rparr>"
  "mru (acq l s) = mru s"
  "mru (rel l s) = mru s"
  "my (s\<lparr>disk := v3\<rparr>) = my s"
  "cpu_ok (s\<lparr>disk := v3\<rparr>) = cpu_ok s"
  "lock_free l (s\<lparr>disk := v3\<rparr>) = lock_free l s"
  "lock_mine l (s\<lparr>disk := v3\<rparr>) = lock_mine l s"
  "acq l (s\<lparr>disk := v3\<rparr>) = (acq l s)\<lparr>disk := v3\<rparr>"
  "rel l (s\<lparr>disk := v3\<rparr>) = (rel l s)\<lparr>disk := v3\<rparr>"
  "disk (acq l s) = disk s"
  "disk (rel l s) = disk s"
  "my (s\<lparr>dwrites := v4\<rparr>) = my s"
  "cpu_ok (s\<lparr>dwrites := v4\<rparr>) = cpu_ok s"
  "lock_free l (s\<lparr>dwrites := v4\<rparr>) = lock_free l s"
  "lock_mine l (s\<lparr>dwrites := v4\<rparr>) = lock_mine l s"
  "acq l (s\<lparr>dwrites := v4\<rparr>) = (acq l s)\<lparr>dwrites := v4\<rparr>"
  "rel l (s\<lparr>dwrites := v4\<rparr>) = (rel l s)\<lparr>dwrites := v4\<rparr>"
  "dwrites (acq l s) = dwrites s"
  "dwrites (rel l s) = dwrites s"
  by (simp_all add: my_def cpu_ok_def cpu_index_def lock_free_def lock_mine_def rel_def acq_def fun_eq_iff
      cong: option.case_cong)

lemma quiet_frame [simp]:
  "quiet p (s\<lparr>sleeplocks := a\<rparr>) = quiet p s" "quiet p (s\<lparr>bufs := b\<rparr>) = quiet p s"
  "quiet p (s\<lparr>mru := c\<rparr>) = quiet p s" "quiet p (s\<lparr>disk := d\<rparr>) = quiet p s"
  "quiet p (s\<lparr>dwrites := e\<rparr>) = quiet p s"
  by (simp_all add: quiet_def)

lemma quiet_acquire:
  assumes "quiet p s"
  shows "acquire l s = Ok () (acq l s)" "cpu_ok (acq l s)" "rel l (acq l s) = s"
    "c_proc (cpus (acq l s) ! my s) = Some p" "1 \<le> c_ncli (cpus (acq l s) ! my s)"
  using quietD [OF assms] cpu_okD [OF quietD(1) [OF assms]] by (simp_all add: acquire_ok rel_acq)

lemma mypid_acq:
  assumes "quiet p s"
  shows "mypid (acq l s) = Ok (pid (procs s ! p)) (acq l s)"
  using quietD [OF assms] quiet_acquire [OF assms] by (simp add: mypid_def myproc_ok)

lemma holdingsleep_quiet:
  assumes "quiet p s"
  shows "holdingsleep l s =
    Ok (sl_locked (sleeplocks s l) \<and> sl_pid (sleeplocks s l) = pid (procs s ! p)) s"
  using quiet_acquire [OF assms] mypid_acq [OF assms] by (simp add: holdingsleep_def release_ok)

lemma acquiresleep_quiet:
  assumes "quiet p s" "\<not> sl_locked (sleeplocks s l)"
  shows "acquiresleep l s = Ok () (s\<lparr>sleeplocks := (sleeplocks s)(l :=
    (sleeplocks s l)\<lparr>sl_locked := True, sl_pid := pid (procs s ! p)\<rparr>)\<rparr>)"
proof -
  let ?s = "s\<lparr>sleeplocks := (sleeplocks s)(l := (sleeplocks s l)\<lparr>sl_locked := True\<rparr>)\<rparr>"
  have q: "quiet p ?s" using assms(1) by simp
  show ?thesis using quiet_acquire [OF assms(1)] mypid_acq [OF q] assms(2)
    by (simp add: acquiresleep_def acquiresleep_loop.simps upd_sleeplock_def release_ok)
qed

lemma releasesleep_quiet:
  assumes "quiet p s"
  shows "releasesleep l s = Ok () (s\<lparr>sleeplocks := (sleeplocks s)(l :=
    (sleeplocks s l)\<lparr>sl_locked := False, sl_pid := 0\<rparr>)\<rparr>)"
proof -
  let ?s = "s\<lparr>sleeplocks := (sleeplocks s)(l := (sleeplocks s l)\<lparr>sl_locked := False, sl_pid := 0\<rparr>)\<rparr>"
  have q: "quiet p ?s" using assms(1) by simp
  show ?thesis using quiet_acquire [OF assms(1)] wakeup_acq [OF q, of "SleepGuard l"]
    by (simp add: releasesleep_def upd_sleeplock_def release_ok)
qed

section \<open>A concrete quiet machine\<close>

definition demo_idle :: kproc where
  "demo_idle = (demo_kproc 8)\<lparr>cpus := [\<lparr>c_apicid = 0, c_ncli = 0, c_intena = False, c_proc = Some 0\<rparr>],
     procs := replicate 64 (demo_slot 1 50 RUNNING)\<rparr>"

lemma demo_idle_quiet: "quiet 0 demo_idle"
  by (simp add: quiet_def demo_idle_def demo_kproc_def kproc.defs demo_kmem_def cpu_ok_def my_def cpu_index_def
      lock_free_def NPROC_def)

end
