(* ===== verification/BioSpec.thy ===== *)
theory BioSpec
  imports Quiet
begin

text \<open>
  What the buffer cache promises in a quiet system: \<open>content s b\<close> is what a reader of block \<open>b\<close> sees,
  \<open>dirty s\<close> the blocks whose newest content is only in the cache.  \<^verbatim>\<open>bread\<close> returns a locked buffer with
  that content, whichever buffer it recycles; \<^verbatim>\<open>bwrite\<close> makes the disk agree with it; \<^verbatim>\<open>brelse\<close> gives the
  buffer back.
\<close>

section \<open>The invariant\<close>

text \<open>\<open>H\<close> is the set of buffers that the running process \<open>p\<close> holds.\<close>

definition holds_block :: "buf \<Rightarrow> nat \<Rightarrow> bool" where
  "holds_block x b = (b_dev x = 1 \<and> unat (b_blockno x) = b)"

definition slot_ok :: "nat \<Rightarrow> nat set \<Rightarrow> 'a kbio_scheme \<Rightarrow> nat \<Rightarrow> bool" where
  "slot_ok p H s i =
     (let x = bufs s ! i; l = sleeplocks s (BufLock i) in
      (if i \<in> H then b_refcnt x = 1 \<and> sl_locked l \<and> sl_pid l = pid (procs s ! p) \<and> b_dev x = 1 \<and> b_valid x
       else b_refcnt x = 0 \<and> \<not> sl_locked l \<and>
         (b_dev x = 1 \<and> b_valid x \<and> \<not> b_dirty x \<longrightarrow> b_data x = disk s (unat (b_blockno x)))) \<and>
      (b_dirty x \<longrightarrow> b_dev x = 1 \<and> b_valid x))"

definition bcache_ok :: "nat \<Rightarrow> nat set \<Rightarrow> 'a kbio_scheme \<Rightarrow> bool" where
  "bcache_ok p H s =
     (quiet p s \<and> length (bufs s) = NBUF \<and> set (mru s) = {..<NBUF} \<and> distinct (mru s) \<and> H \<subseteq> {..<NBUF} \<and>
      (\<forall>i < NBUF. \<forall>j < NBUF. \<forall>b. holds_block (bufs s ! i) b \<longrightarrow> holds_block (bufs s ! j) b \<longrightarrow> i = j) \<and>
      (\<forall>i < NBUF. slot_ok p H s i))"

definition content :: "'a kbio_scheme \<Rightarrow> nat \<Rightarrow> block" where
  "content s b =
     (case find (\<lambda>i. holds_block (bufs s ! i) b \<and> b_valid (bufs s ! i)) [0..<NBUF] of
        None \<Rightarrow> disk s b | Some i \<Rightarrow> b_data (bufs s ! i))"

definition dirty :: "'a kbio_scheme \<Rightarrow> nat set" where
  "dirty s = {unat (b_blockno (bufs s ! i)) |i. i < NBUF \<and> b_dirty (bufs s ! i)}"

lemma bcache_okD:
  assumes "bcache_ok p H s"
  shows "quiet p s" "length (bufs s) = NBUF" "set (mru s) = {..<NBUF}" "distinct (mru s)" "H \<subseteq> {..<NBUF}"
    "i < NBUF \<Longrightarrow> j < NBUF \<Longrightarrow> holds_block (bufs s ! i) b \<Longrightarrow> holds_block (bufs s ! j) b \<Longrightarrow> i = j"
    "i < NBUF \<Longrightarrow> slot_ok p H s i"
  using assms unfolding bcache_ok_def by blast+

lemma find_upt_unique:
  assumes "i < n" "P i" "\<And>j. j < n \<Longrightarrow> P j \<Longrightarrow> j = i"
  shows "find P [0..<n] = Some i"
proof -
  have "\<not> P j" if "j < i" for j using assms(3) [of j] assms(1) that by auto
  then show ?thesis unfolding find_Some_iff using assms(1,2) by (intro exI [of _ i]) simp
qed

lemma find_SomeD: "find P xs = Some x \<Longrightarrow> x \<in> set xs \<and> P x"
  by (induction xs) (auto split: if_splits)

lemma content_valid:
  assumes "bcache_ok p H s" "i < NBUF" "holds_block (bufs s ! i) b" "b_valid (bufs s ! i)"
  shows "content s b = b_data (bufs s ! i)"
proof -
  have "find (\<lambda>i. holds_block (bufs s ! i) b \<and> b_valid (bufs s ! i)) [0..<NBUF] = Some i"
    by (rule find_upt_unique) (use assms bcache_okD(6) [OF assms(1)] in blast)+
  then show ?thesis by (simp add: content_def)
qed

lemma content_none:
  assumes "\<And>i. i < NBUF \<Longrightarrow> holds_block (bufs s ! i) b \<Longrightarrow> \<not> b_valid (bufs s ! i)"
  shows "content s b = disk s b"
proof -
  have "find (\<lambda>i. holds_block (bufs s ! i) b \<and> b_valid (bufs s ! i)) [0..<NBUF] = None"
    using assms by (auto simp: find_None_iff)
  then show ?thesis by (simp add: content_def)
qed

text \<open>The content of a block in terms of one slot and the others.\<close>

lemma content_clean:
  assumes "bcache_ok p H s" "b \<notin> dirty s" "\<And>i. i \<in> H \<Longrightarrow> \<not> holds_block (bufs s ! i) b"
  shows "content s b = disk s b"
proof (cases "\<exists>i < NBUF. holds_block (bufs s ! i) b \<and> b_valid (bufs s ! i)")
  case True
  then obtain i where i: "i < NBUF" "holds_block (bufs s ! i) b" "b_valid (bufs s ! i)" by blast
  then have "i \<notin> H" "\<not> b_dirty (bufs s ! i)" using assms(2,3) by (auto simp: dirty_def holds_block_def)
  then have "b_data (bufs s ! i) = disk s b"
    using bcache_okD(7) [OF assms(1) i(1)] i by (simp add: slot_ok_def Let_def holds_block_def)
  then show ?thesis using content_valid [OF assms(1) i] by simp
next
  case False
  then show ?thesis by (intro content_none) blast
qed

section \<open>Changing one buffer\<close>

lemma bcache_ok_slot:
  assumes ok: "bcache_ok p H s" and i: "i < NBUF"
    and t: "bufs t = (bufs s)[i := x]" "\<And>j. j \<noteq> i \<Longrightarrow> sleeplocks t (BufLock j) = sleeplocks s (BufLock j)"
      "procs t = procs s" "quiet p t" "set (mru t) = set (mru s)" "distinct (mru t)"
    and d: "\<And>b. disk t b \<noteq> disk s b \<Longrightarrow> holds_block x b"
    and x: "\<And>j b. j < NBUF \<Longrightarrow> j \<noteq> i \<Longrightarrow> holds_block x b \<Longrightarrow> \<not> holds_block (bufs s ! j) b"
    and H: "\<And>j. j \<noteq> i \<Longrightarrow> (j \<in> H') = (j \<in> H)" and slot: "slot_ok p H' t i"
  shows "bcache_ok p H' t"
  unfolding bcache_ok_def
proof (intro conjI allI impI)
  note o = bcache_okD [OF ok]
  have nth: "j < NBUF \<Longrightarrow> bufs t ! j = (if j = i then x else bufs s ! j)" for j using t(1) o(2) by simp
  show "quiet p t" "length (bufs t) = NBUF" "set (mru t) = {..<NBUF}" "distinct (mru t)" using t o by simp_all
  have "j < NBUF" if "j \<in> H'" for j using o(5) H [of j] that i by (cases "j = i") auto
  then show "H' \<subseteq> {..<NBUF}" by blast
  show "j = k" if "j < NBUF" "k < NBUF" "holds_block (bufs t ! j) b" "holds_block (bufs t ! k) b" for j k b
    using that x [of j b] x [of k b] o(6) [of j k b] by (auto simp: nth split: if_splits)
  fix j assume j: "j < NBUF"
  show "slot_ok p H' t j"
  proof (cases "j = i")
    case False
    have "disk t b = disk s b" if "holds_block (bufs s ! j) b" for b using d [of b] x [OF j False, of b] that by blast
    then have "b_dev (bufs s ! j) = 1 \<Longrightarrow> disk t (unat (b_blockno (bufs s ! j))) = disk s (unat (b_blockno (bufs s ! j)))"
      by (simp add: holds_block_def)
    then show ?thesis using o(7) [OF j] False t(2) [OF False] t(3) H [OF False] by (auto simp: slot_ok_def Let_def nth [OF j])
  qed (use slot in simp)
qed

lemma content_slot:
  assumes ok: "bcache_ok p H s" "bcache_ok p H' t" and i: "i < NBUF" and t: "bufs t = (bufs s)[i := x]"
    and d: "\<And>b. disk t b \<noteq> disk s b \<Longrightarrow> holds_block x b \<and> b_valid x"
  shows "content t b = (if holds_block x b \<and> b_valid x then b_data x
    else if holds_block (bufs s ! i) b \<and> b_valid (bufs s ! i) then disk s b else content s b)"
proof -
  note o = bcache_okD [OF ok(1)]
  have nth: "j < NBUF \<Longrightarrow> bufs t ! j = (if j = i then x else bufs s ! j)" for j using t(1) o(2) by simp
  consider (new) "holds_block x b" "b_valid x"
    | (other) j where "\<not> (holds_block x b \<and> b_valid x)" "j < NBUF" "j \<noteq> i" "holds_block (bufs s ! j) b" "b_valid (bufs s ! j)"
    | (none) "\<not> (holds_block x b \<and> b_valid x)"
        "\<And>j. j < NBUF \<Longrightarrow> j \<noteq> i \<Longrightarrow> holds_block (bufs s ! j) b \<Longrightarrow> \<not> b_valid (bufs s ! j)" by blast
  then show ?thesis
  proof cases
    case new
    then show ?thesis using content_valid [OF ok(2) i, of b] by (simp add: nth [OF i])
  next
    case other
    then have "\<not> holds_block (bufs s ! i) b" using o(6) [of j i b] i by blast
    then show ?thesis
      using content_valid [OF ok(2) other(2), of b] content_valid [OF ok(1) other(2), of b] other nth [OF other(2)] by auto
  next
    case none
    have "disk t b = disk s b" using d none(1) by blast
    moreover have "content t b = disk t b"
    proof (rule content_none)
      fix j assume "j < NBUF" "holds_block (bufs t ! j) b"
      then show "\<not> b_valid (bufs t ! j)" using none nth [of j] by (cases "j = i") auto
    qed
    moreover have "content s b = disk s b" if "\<not> (holds_block (bufs s ! i) b \<and> b_valid (bufs s ! i))"
    proof (rule content_none)
      fix j assume "j < NBUF" "holds_block (bufs s ! j) b"
      then show "\<not> b_valid (bufs s ! j)" using none(2) [of j] that by (cases "j = i") auto
    qed
    ultimately show ?thesis using none(1) by auto
  qed
qed

lemma dirty_slot:
  assumes "bcache_ok p H s" "i < NBUF" "bufs t = (bufs s)[i := x]"
    "b_dirty x = b_dirty (bufs s ! i)" "b_dirty x \<Longrightarrow> b_blockno x = b_blockno (bufs s ! i)"
  shows "dirty t = dirty s"
proof -
  have nth: "j < NBUF \<Longrightarrow> bufs t ! j = (if j = i then x else bufs s ! j)" for j
    using assms(3) bcache_okD(2) [OF assms(1)] by simp
  then have "b_dirty (bufs t ! j) = b_dirty (bufs s ! j)"
    "b_dirty (bufs t ! j) \<Longrightarrow> b_blockno (bufs t ! j) = b_blockno (bufs s ! j)" if "j < NBUF" for j
    using assms(4,5) that by (auto split: if_splits)
  then show ?thesis unfolding dirty_def by (intro Collect_cong ex_cong1) auto
qed

section \<open>Reading\<close>

lemma recyclable_exists:
  assumes ok: "bcache_ok p H s" and room: "card (dirty s) + card H < NBUF"
  shows "\<exists>i < NBUF. i \<notin> H \<and> \<not> b_dirty (bufs s ! i)"
proof (rule ccontr)
  note o = bcache_okD [OF ok]
  let ?D = "{i. i < NBUF \<and> b_dirty (bufs s ! i)}"
  assume "\<not> (\<exists>i < NBUF. i \<notin> H \<and> \<not> b_dirty (bufs s ! i))"
  then have "{..<NBUF} \<subseteq> ?D \<union> H" by auto
  then have "NBUF \<le> card (?D \<union> H)" using card_mono [of "?D \<union> H" "{..<NBUF}"] o(5) finite_subset [OF o(5)] by simp
  also have "\<dots> \<le> card ?D + card H" by (rule card_Un_le)
  also have "card ?D = card (dirty s)"
  proof -
    have "holds_block (bufs s ! i) (unat (b_blockno (bufs s ! i)))" if "i < NBUF" "b_dirty (bufs s ! i)" for i
      using o(7) [OF that(1)] that(2) by (simp add: slot_ok_def Let_def holds_block_def)
    then have "inj_on (\<lambda>i. unat (b_blockno (bufs s ! i))) ?D"
      using o(6) by (intro inj_onI) (metis (mono_tags, lifting) mem_Collect_eq)
    moreover have "dirty s = (\<lambda>i. unat (b_blockno (bufs s ! i))) ` ?D" unfolding dirty_def by blast
    ultimately show ?thesis by (simp add: card_image)
  qed
  finally show False using room by simp
qed

lemma find_recyclable_ok:
  assumes "bcache_ok p H s" "\<exists>i < NBUF. i \<notin> H \<and> \<not> b_dirty (bufs s ! i)"
  obtains i where "find_recyclable s = Some i" "i < NBUF" "i \<notin> H" "\<not> b_dirty (bufs s ! i)"
proof -
  note o = bcache_okD [OF assms(1)]
  have free: "(b_refcnt (bufs s ! i) = 0) = (i \<notin> H)" if "i < NBUF" for i
    using o(7) [OF that] by (auto simp: slot_ok_def Let_def split: if_splits)
  obtain j where "j < NBUF" "j \<notin> H" "\<not> b_dirty (bufs s ! j)" using assms(2) by blast
  then have "find_recyclable s \<noteq> None" using o(3) free [of j] by (auto simp: find_recyclable_def find_None_iff)
  then obtain i where i: "find_recyclable s = Some i" by blast
  then have "i \<in> set (rev (mru s)) \<and> b_refcnt (bufs s ! i) = 0 \<and> \<not> b_dirty (bufs s ! i)"
    unfolding find_recyclable_def using find_SomeD by fastforce
  then show thesis using that [OF i] o(3) free [of i] by auto
qed

lemma find_cached_ok:
  assumes "bcache_ok p H s"
  shows "case find_cached 1 b s of
      None \<Rightarrow> \<forall>i < NBUF. \<not> holds_block (bufs s ! i) (unat b)
    | Some i \<Rightarrow> i < NBUF \<and> holds_block (bufs s ! i) (unat b)"
proof -
  have h: "holds_block x (unat b) = (b_dev x = 1 \<and> b_blockno x = b)" for x
    by (simp add: holds_block_def word_unat_eq_iff)
  have m: "set (mru s) = {..<NBUF}" by (rule bcache_okD(3) [OF assms])
  show ?thesis
  proof (cases "find_cached 1 b s")
    case None
    then have "\<forall>i < NBUF. \<not> holds_block (bufs s ! i) (unat b)"
      using m by (auto simp: find_cached_def find_None_iff h)
    then show ?thesis using None by simp
  next
    case (Some i)
    then have "i \<in> set (mru s) \<and> b_dev (bufs s ! i) = 1 \<and> b_blockno (bufs s ! i) = b"
      unfolding find_cached_def using find_SomeD by fastforce
    then show ?thesis using Some m by (simp add: h)
  qed
qed

definition lock_buf :: "nat \<Rightarrow> nat \<Rightarrow> buf \<Rightarrow> 'a kbio_scheme \<Rightarrow> 'a kbio_scheme" where
  "lock_buf p i x s = s\<lparr>bufs := (bufs s)[i := x], sleeplocks := (sleeplocks s)(BufLock i :=
     (sleeplocks s (BufLock i))\<lparr>sl_locked := True, sl_pid := pid (procs s ! p)\<rparr>)\<rparr>"

lemma lock_buf_fields [simp]:
  "bufs (lock_buf p i x s) = (bufs s)[i := x]" "disk (lock_buf p i x s) = disk s"
  "mru (lock_buf p i x s) = mru s" "procs (lock_buf p i x s) = procs s" "dwrites (lock_buf p i x s) = dwrites s"
  "disksize (lock_buf p i x s) = disksize s" "quiet q (lock_buf p i x s) = quiet q s"
  "sleeplocks (lock_buf p i x s) l = (if l = BufLock i
     then (sleeplocks s l)\<lparr>sl_locked := True, sl_pid := pid (procs s ! p)\<rparr> else sleeplocks s l)"
  by (simp_all add: lock_buf_def)

lemma bget_ok:
  assumes ok: "bcache_ok p H s" and nh: "\<And>i. i \<in> H \<Longrightarrow> \<not> holds_block (bufs s ! i) (unat b)"
    and room: "unat b \<in> dirty s \<or> card (dirty s) + card H < NBUF"
  obtains i x where "bget 1 b s = Ok i (lock_buf p i x s)" "i < NBUF" "i \<notin> H"
    "holds_block (bufs s ! i) (unat b) \<and> x = (bufs s ! i)\<lparr>b_refcnt := 1\<rparr> \<or>
     (\<forall>j < NBUF. \<not> holds_block (bufs s ! j) (unat b)) \<and> \<not> b_dirty (bufs s ! i) \<and>
     x = (bufs s ! i)\<lparr>b_dev := 1, b_blockno := b, b_valid := False, b_dirty := False, b_refcnt := 1\<rparr>"
proof -
  note o = bcache_okD [OF ok] and a = quiet_acquire [OF bcache_okD(1) [OF ok]]
  have same: "find_cached 1 b (acq BcacheLock s) = find_cached 1 b s"
    "find_recyclable (acq BcacheLock s) = find_recyclable s"
    by (simp_all add: find_cached_def find_recyclable_def)
  have lock: "acquiresleep (BufLock i) (s\<lparr>bufs := B\<rparr>) = Ok () (s\<lparr>bufs := B, sleeplocks := (sleeplocks s)(BufLock i :=
      (sleeplocks s (BufLock i))\<lparr>sl_locked := True, sl_pid := pid (procs s ! p)\<rparr>)\<rparr>)" if "i < NBUF" "i \<notin> H" for i B
  proof -
    have "\<not> sl_locked (sleeplocks s (BufLock i))" using o(7) [OF that(1)] that(2) by (simp add: slot_ok_def Let_def)
    then show ?thesis using acquiresleep_quiet [of p "s\<lparr>bufs := B\<rparr>" "BufLock i"] o(1) by simp
  qed
  show thesis
  proof (cases "find_cached 1 b s")
    case (Some i)
    then have i: "i < NBUF" "holds_block (bufs s ! i) (unat b)" using find_cached_ok [OF ok, of b] by simp_all
    then have h: "i \<notin> H" using nh by blast
    then have "b_refcnt (bufs s ! i) = 0" using o(7) [OF i(1)] by (simp add: slot_ok_def Let_def)
    then have "bget 1 b s = Ok i (lock_buf p i ((bufs s ! i)\<lparr>b_refcnt := 1\<rparr>) s)"
      using Some a lock [OF i(1) h] same by (simp add: bget_def upd_buf_def release_ok lock_buf_def)
    then show thesis using that i h by blast
  next
    case None
    then have n: "\<forall>j < NBUF. \<not> holds_block (bufs s ! j) (unat b)" using find_cached_ok [OF ok, of b] by simp
    have "unat b \<notin> dirty s"
    proof
      assume "unat b \<in> dirty s"
      then obtain j where j: "j < NBUF" "b_dirty (bufs s ! j)" "unat b = unat (b_blockno (bufs s ! j))" by (auto simp: dirty_def)
      then have "holds_block (bufs s ! j) (unat b)" using o(7) [OF j(1)] by (simp add: slot_ok_def Let_def holds_block_def)
      then show False using n j(1) by blast
    qed
    then obtain i where i: "find_recyclable s = Some i" "i < NBUF" "i \<notin> H" "\<not> b_dirty (bufs s ! i)"
      using find_recyclable_ok [OF ok recyclable_exists [OF ok]] room by blast
    let ?x = "(bufs s ! i)\<lparr>b_dev := 1, b_blockno := b, b_valid := False, b_dirty := False, b_refcnt := 1\<rparr>"
    have "bget 1 b s = Ok i (lock_buf p i ?x s)"
      using None i a lock [OF i(2,3)] same by (simp add: bget_def upd_buf_def release_ok lock_buf_def)
    then show thesis using that i n by blast
  qed
qed

text \<open>What an operation on the cache leaves alone.\<close>

definition bio_frame :: "'a kbio_scheme \<Rightarrow> 'a kbio_scheme \<Rightarrow> bool" where
  "bio_frame s t = (\<exists>a b c d e. t = s\<lparr>sleeplocks := a, bufs := b, mru := c, disk := d, dwrites := e\<rparr>)"

lemma bio_frameI: "t = s\<lparr>sleeplocks := a, bufs := b, mru := c, disk := d, dwrites := e\<rparr> \<Longrightarrow> bio_frame s t"
  unfolding bio_frame_def by blast

lemma bio_frame_trans:
  assumes "bio_frame s t" "bio_frame t u"
  shows "bio_frame s u"
proof -
  obtain a b c d e a' b' c' d' e' where
    "t = s\<lparr>sleeplocks := a, bufs := b, mru := c, disk := d, dwrites := e\<rparr>"
    "u = t\<lparr>sleeplocks := a', bufs := b', mru := c', disk := d', dwrites := e'\<rparr>"
    using assms unfolding bio_frame_def by blast
  then have "u = s\<lparr>sleeplocks := a', bufs := b', mru := c', disk := d', dwrites := e'\<rparr>" by simp
  then show ?thesis by (rule bio_frameI)
qed

lemma bio_frame_fields:
  assumes "bio_frame s t"
  shows "disksize t = disksize s" "procs t = procs s" "kbio.more t = kbio.more s" "quiet p t = quiet p s"
  using assms by (auto simp: bio_frame_def)

lemma bio_frame_upd [simp]:
  "bio_frame s (s\<lparr>bufs := b\<rparr>)" "bio_frame s (s\<lparr>sleeplocks := a\<rparr>)" "bio_frame s (s\<lparr>mru := c\<rparr>)"
  "bio_frame s (s\<lparr>disk := d\<rparr>)" "bio_frame s (s\<lparr>dwrites := e\<rparr>)"
  by (rule bio_frameI [where a = "sleeplocks s" and b = b and c = "mru s" and d = "disk s" and e = "dwrites s"], simp,
      rule bio_frameI [where a = a and b = "bufs s" and c = "mru s" and d = "disk s" and e = "dwrites s"], simp,
      rule bio_frameI [where a = "sleeplocks s" and b = "bufs s" and c = c and d = "disk s" and e = "dwrites s"], simp,
      rule bio_frameI [where a = "sleeplocks s" and b = "bufs s" and c = "mru s" and d = d and e = "dwrites s"], simp,
      rule bio_frameI [where a = "sleeplocks s" and b = "bufs s" and c = "mru s" and d = "disk s" and e = e], simp)

lemma bio_frame_lock_buf [simp]: "bio_frame s (lock_buf p i x s)"
  unfolding lock_buf_def by (rule bio_frame_trans [OF bio_frame_upd(1) bio_frame_upd(2)])

lemma iderw_read:
  assumes "quiet p s" "sl_locked (sleeplocks s (BufLock i))" "sl_pid (sleeplocks s (BufLock i)) = pid (procs s ! p)"
    "\<not> b_valid (bufs s ! i)" "\<not> b_dirty (bufs s ! i)" "b_dev (bufs s ! i) = 1"
    "unat (b_blockno (bufs s ! i)) < disksize s" "i < length (bufs s)"
  shows "iderw i s = Ok () (s\<lparr>bufs := (bufs s)[i := (bufs s ! i)\<lparr>b_data := disk s (unat (b_blockno (bufs s ! i))),
    b_valid := True\<rparr>]\<rparr>)"
  using assms by (simp add: iderw_def holdingsleep_quiet upd_buf_def Let_def)

definition fetched :: "'a kbio_scheme \<Rightarrow> nat \<Rightarrow> buf \<Rightarrow> buf" where
  "fetched s b x = (if b_valid x then x else x\<lparr>b_data := disk s b, b_valid := True\<rparr>)"

lemma bread_slot:
  assumes ok: "bcache_ok p H s" and b: "unat b < disksize s"
    and nh: "\<And>i. i \<in> H \<Longrightarrow> \<not> holds_block (bufs s ! i) (unat b)"
    and room: "unat b \<in> dirty s \<or> card (dirty s) + card H < NBUF"
  obtains i x where "bread 1 b s = Ok i (lock_buf p i (fetched s (unat b) x) s)" "i < NBUF" "i \<notin> H"
    "holds_block (bufs s ! i) (unat b) \<and> x = (bufs s ! i)\<lparr>b_refcnt := 1\<rparr> \<or>
     (\<forall>j < NBUF. \<not> holds_block (bufs s ! j) (unat b)) \<and> \<not> b_dirty (bufs s ! i) \<and>
     x = (bufs s ! i)\<lparr>b_dev := 1, b_blockno := b, b_valid := False, b_dirty := False, b_refcnt := 1\<rparr>"
proof -
  note o = bcache_okD [OF ok]
  obtain i x where g: "bget 1 b s = Ok i (lock_buf p i x s)" "i < NBUF" "i \<notin> H" and
    x: "holds_block (bufs s ! i) (unat b) \<and> x = (bufs s ! i)\<lparr>b_refcnt := 1\<rparr> \<or>
     (\<forall>j < NBUF. \<not> holds_block (bufs s ! j) (unat b)) \<and> \<not> b_dirty (bufs s ! i) \<and>
     x = (bufs s ! i)\<lparr>b_dev := 1, b_blockno := b, b_valid := False, b_dirty := False, b_refcnt := 1\<rparr>"
    using bget_ok [OF ok nh room] by metis
  have "b_dirty (bufs s ! i) \<longrightarrow> b_valid (bufs s ! i)" using o(7) [OF g(2)] by (simp add: slot_ok_def Let_def)
  then have xx: "b_dev x = 1" "unat (b_blockno x) = unat b" "b_dirty x \<Longrightarrow> b_valid x"
    using x by (auto simp: holds_block_def)
  have "iderw i (lock_buf p i x s) = Ok () (lock_buf p i (fetched s (unat b) x) s)" if "\<not> b_valid x"
  proof -
    have "iderw i (lock_buf p i x s) = Ok () (lock_buf p i x s\<lparr>bufs :=
        (bufs (lock_buf p i x s))[i := (bufs (lock_buf p i x s) ! i)\<lparr>
          b_data := disk (lock_buf p i x s) (unat (b_blockno (bufs (lock_buf p i x s) ! i))), b_valid := True\<rparr>]\<rparr>)"
      by (rule iderw_read [of p]) (use o(1,2) g(2) xx b that in auto)
    then show ?thesis using that xx(2) g(2) o(2) by (simp add: fetched_def) (simp add: lock_buf_def)
  qed
  then have "bread 1 b s = Ok i (lock_buf p i (fetched s (unat b) x) s)"
    using g o(2) by (cases "b_valid x") (simp_all add: bread_def fetched_def)
  then show thesis using that g x by blast
qed

lemma bread_ok:
  assumes ok: "bcache_ok p H s" and b: "unat b < disksize s"
    and nh: "\<And>i. i \<in> H \<Longrightarrow> \<not> holds_block (bufs s ! i) (unat b)"
    and room: "unat b \<in> dirty s \<or> card (dirty s) + card H < NBUF"
  obtains i t where "bread 1 b s = Ok i t" "i < NBUF" "i \<notin> H" "bcache_ok p (insert i H) t"
    "holds_block (bufs t ! i) (unat b)" "b_data (bufs t ! i) = content s (unat b)"
    "content t = content s" "dirty t = dirty s" "disk t = disk s" "dwrites t = dwrites s" "bio_frame s t"
    "\<And>j. j < NBUF \<Longrightarrow> j \<noteq> i \<Longrightarrow> bufs t ! j = bufs s ! j"
proof -
  note o = bcache_okD [OF ok]
  obtain i x where g: "bread 1 b s = Ok i (lock_buf p i (fetched s (unat b) x) s)" "i < NBUF" "i \<notin> H" and
    x: "holds_block (bufs s ! i) (unat b) \<and> x = (bufs s ! i)\<lparr>b_refcnt := 1\<rparr> \<or>
     (\<forall>j < NBUF. \<not> holds_block (bufs s ! j) (unat b)) \<and> \<not> b_dirty (bufs s ! i) \<and>
     x = (bufs s ! i)\<lparr>b_dev := 1, b_blockno := b, b_valid := False, b_dirty := False, b_refcnt := 1\<rparr>"
    using bread_slot [OF ok b nh room] by metis
  let ?f = "fetched s (unat b) x" and ?t = "lock_buf p i (fetched s (unat b) x) s"
  note slot = o(7) [OF g(2), unfolded slot_ok_def Let_def]
  have f: "b_dev ?f = 1" "unat (b_blockno ?f) = unat b" "b_valid ?f" "b_refcnt ?f = 1" "b_dirty ?f = b_dirty (bufs s ! i)"
    "b_dirty ?f \<Longrightarrow> b_blockno ?f = b_blockno (bufs s ! i)"
    using x by (auto simp: fetched_def holds_block_def)
  have fb: "holds_block ?f c = (c = unat b)" for c using f(1,2) by (auto simp: holds_block_def)
  have others: "\<not> holds_block (bufs s ! j) (unat b)" if "j < NBUF" "j \<noteq> i" for j
    using x o(6) [OF that(1) g(2), of "unat b"] that by blast
  have ok': "bcache_ok p (insert i H) ?t"
  proof (rule bcache_ok_slot [OF ok g(2), where x = ?f])
    show "slot_ok p (insert i H) ?t i" using f o(2) g(2) by (simp add: slot_ok_def Let_def)
    show "\<not> holds_block (bufs s ! j) c" if "j < NBUF" "j \<noteq> i" "holds_block ?f c" for j c
      using others [OF that(1,2)] that(3) unfolding fb by simp
  qed (use o in simp_all)
  have data: "b_data ?f = content s (unat b)"
  proof (cases "holds_block (bufs s ! i) (unat b) \<and> b_valid (bufs s ! i)")
    case True
    then have "x = (bufs s ! i)\<lparr>b_refcnt := 1\<rparr>" using x g(2) by blast
    then show ?thesis using True content_valid [OF ok g(2), of "unat b"] by (simp add: fetched_def)
  next
    case False
    then have "content s (unat b) = disk s (unat b)" using others by (intro content_none) blast
    moreover have "\<not> b_valid x" using x False by auto
    ultimately show ?thesis by (simp add: fetched_def)
  qed
  have "content ?t c = content s c" for c
  proof -
    have "disk s c = content s c" if "holds_block (bufs s ! i) c" "b_valid (bufs s ! i)" "c \<noteq> unat b"
    proof -
      have "\<not> b_dirty (bufs s ! i)" using x that by (auto simp: holds_block_def)
      then show ?thesis using content_valid [OF ok g(2) that(1,2)] slot g(3) that by (simp add: holds_block_def)
    qed
    then show ?thesis using content_slot [OF ok ok' g(2), of ?f c] f(3) data by (auto simp: fb)
  qed
  then have "content ?t = content s" by blast
  moreover have "dirty ?t = dirty s" by (rule dirty_slot [OF ok g(2), where x = ?f]) (use f in simp_all)
  ultimately show thesis
    using that [OF g(1-3) ok'] data fb o(2) g(2) by (simp add: fb)
qed

section \<open>Changing, writing and releasing a held buffer\<close>

lemma held_slot:
  assumes ok: "bcache_ok p H s" and i: "i \<in> H"
  shows "i < NBUF" "b_refcnt (bufs s ! i) = 1" "b_dev (bufs s ! i) = 1" "b_valid (bufs s ! i)"
    "sl_locked (sleeplocks s (BufLock i))" "sl_pid (sleeplocks s (BufLock i)) = pid (procs s ! p)"
    "holds_block (bufs s ! i) c = (c = unat (b_blockno (bufs s ! i)))"
proof -
  show l: "i < NBUF" using bcache_okD(5) [OF ok] i by blast
  show "b_refcnt (bufs s ! i) = 1" "b_valid (bufs s ! i)"
    "sl_locked (sleeplocks s (BufLock i))" "sl_pid (sleeplocks s (BufLock i)) = pid (procs s ! p)"
    and d: "b_dev (bufs s ! i) = 1"
    using bcache_okD(7) [OF ok l] i by (simp_all add: slot_ok_def Let_def)
  show "holds_block (bufs s ! i) c = (c = unat (b_blockno (bufs s ! i)))" using d by (auto simp: holds_block_def)
qed

lemma modify_ok:
  assumes ok: "bcache_ok p H s" and i: "i \<in> H" and b: "holds_block (bufs s ! i) b"
    and t_def: "t = upd_buf i (\<lambda>x. x\<lparr>b_data := f x\<rparr>) s"
  shows "bcache_ok p H t" "content t = (content s)(b := f (bufs s ! i))" "dirty t = dirty s" "bio_frame s t"
    "bufs t ! i = (bufs s ! i)\<lparr>b_data := f (bufs s ! i)\<rparr>" "\<And>j. j \<noteq> i \<Longrightarrow> bufs t ! j = bufs s ! j"
    "disk t = disk s" "dwrites t = dwrites s"
proof -
  note o = bcache_okD [OF ok] and h = held_slot [OF ok i]
  let ?x = "(bufs s ! i)\<lparr>b_data := f (bufs s ! i)\<rparr>"
  have t: "t = s\<lparr>bufs := (bufs s)[i := ?x]\<rparr>" by (simp add: t_def upd_buf_def)
  have x: "holds_block ?x c = (c = b)" for c using h(3) b by (auto simp: holds_block_def)
  show ok': "bcache_ok p H t"
  proof (rule bcache_ok_slot [OF ok h(1), where x = ?x])
    show "slot_ok p H t i" using o(7) [OF h(1)] i h(1) o(2) by (simp add: slot_ok_def Let_def t)
    show "\<not> holds_block (bufs s ! j) c" if "j < NBUF" "j \<noteq> i" "holds_block ?x c" for j c
      using o(6) [OF that(1) h(1), of c] that b unfolding x by auto
  qed (use o t in simp_all)
  have "content t c = ((content s)(b := f (bufs s ! i))) c" for c
    using content_slot [OF ok ok' h(1), of ?x c] h(4) b h(7) [of b] x [of c] by (auto simp: t h(7))
  then show "content t = (content s)(b := f (bufs s ! i))" by blast
  show "dirty t = dirty s" by (rule dirty_slot [OF ok h(1), where x = ?x]) (simp_all add: t)
qed (use held_slot(1) [OF ok i] bcache_okD(2) [OF ok] in \<open>simp_all add: t_def upd_buf_def\<close>)

lemma bwrite_ok:
  assumes ok: "bcache_ok p H s" and i: "i \<in> H" and b: "holds_block (bufs s ! i) b" "b < disksize s"
  obtains t where "bwrite i s = Ok () t" "bcache_ok p H t" "content t = content s" "dirty t = dirty s - {b}"
    "bio_frame s t" "disk t = (disk s)(b := b_data (bufs s ! i))" "dwrites t = dwrites s @ [(b, b_data (bufs s ! i))]"
    "\<And>j. j < NBUF \<Longrightarrow> b_data (bufs t ! j) = b_data (bufs s ! j)"
    "\<And>j c. j < NBUF \<Longrightarrow> holds_block (bufs t ! j) c = holds_block (bufs s ! j) c"
proof -
  note o = bcache_okD [OF ok] and h = held_slot [OF ok i]
  let ?x = "(bufs s ! i)\<lparr>b_dirty := False, b_valid := True\<rparr>"
  let ?t = "s\<lparr>bufs := (bufs s)[i := ?x], disk := (disk s)(b := b_data (bufs s ! i)),
    dwrites := dwrites s @ [(b, b_data (bufs s ! i))]\<rparr>"
  have bn: "unat (b_blockno (bufs s ! i)) = b" using b by (simp add: holds_block_def)
  have q: "quiet p (s\<lparr>bufs := (bufs s)[i := (bufs s ! i)\<lparr>b_dirty := True\<rparr>]\<rparr>)" using o(1) by simp
  have run: "bwrite i s = Ok () ?t"
    using o(1,2) h b bn holdingsleep_quiet [OF q, of "BufLock i"]
    by (simp add: bwrite_def holdingsleep_quiet iderw_def upd_buf_def disk_put_def Let_def)
  have x: "holds_block ?x c = (c = b)" for c using h(3) bn by (auto simp: holds_block_def)
  have ok': "bcache_ok p H ?t"
  proof (rule bcache_ok_slot [OF ok h(1), where x = ?x])
    show "slot_ok p H ?t i" using o(7) [OF h(1)] i h(1) o(2) by (simp add: slot_ok_def Let_def)
    show "\<not> holds_block (bufs s ! j) c" if "j < NBUF" "j \<noteq> i" "holds_block ?x c" for j c
      using o(6) [OF that(1) h(1), of c] that b unfolding x by auto
    show "holds_block ?x c" if "disk ?t c \<noteq> disk s c" for c using that x by (auto split: if_splits)
  qed (use o in simp_all)
  have "disk ?t c \<noteq> disk s c \<Longrightarrow> holds_block ?x c \<and> b_valid ?x" for c unfolding x by (auto split: if_splits)
  note cs = content_slot [OF ok ok' h(1) _ this]
  have "content ?t c = content s c" for c
    using cs [of c] content_valid [OF ok h(1) b(1) h(4)] unfolding x h(7) bn by auto
  then have c: "content ?t = content s" by blast
  have d: "dirty ?t = dirty s - {b}"
  proof -
    have nth: "j < NBUF \<Longrightarrow> bufs ?t ! j = (if j = i then ?x else bufs s ! j)" for j using o(2) by simp
    have ne: "unat (b_blockno (bufs s ! j)) \<noteq> b" if "j < NBUF" "j \<noteq> i" "b_dirty (bufs s ! j)" for j
      using o(6) [OF that(1) h(1), of b] o(7) [OF that(1)] that b(1) by (auto simp: slot_ok_def Let_def holds_block_def)
    have dirty_t: "b_dirty (bufs ?t ! j) = (b_dirty (bufs s ! j) \<and> j \<noteq> i)" if "j < NBUF" for j
      using nth [OF that] by (simp del: nth_list_update)
    have no: "b_blockno (bufs ?t ! j) = b_blockno (bufs s ! j)" if "j < NBUF" for j
      using nth [OF that] by (simp del: nth_list_update)
    have "c \<in> dirty ?t \<longleftrightarrow> (\<exists>j < NBUF. b_dirty (bufs s ! j) \<and> j \<noteq> i \<and> c = unat (b_blockno (bufs s ! j)))" for c
      unfolding dirty_def mem_Collect_eq using dirty_t no by (intro ex_cong1) auto
    moreover have "c \<in> dirty s - {b} \<longleftrightarrow> (\<exists>j < NBUF. b_dirty (bufs s ! j) \<and> j \<noteq> i \<and> c = unat (b_blockno (bufs s ! j)))" for c
      unfolding dirty_def Diff_iff mem_Collect_eq using ne bn by auto
    ultimately show ?thesis by blast
  qed
  have fr: "bio_frame s ?t"
    by (rule bio_frame_trans [OF bio_frame_trans [OF bio_frame_upd(1) bio_frame_upd(4)] bio_frame_upd(5)])
  show thesis by (rule that [OF run ok' c d fr]) (use o(2) h(1) in \<open>auto simp: nth_list_update holds_block_def\<close>)
qed

lemma brelse_ok:
  assumes ok: "bcache_ok p H s" and i: "i \<in> H" and b: "holds_block (bufs s ! i) b"
    and saved: "b_dirty (bufs s ! i) \<or> b_data (bufs s ! i) = disk s b"
  obtains t where "brelse i s = Ok () t" "bcache_ok p (H - {i}) t" "content t = content s" "dirty t = dirty s"
    "bio_frame s t" "disk t = disk s" "dwrites t = dwrites s" "\<forall>j. j \<noteq> i \<longrightarrow> bufs t ! j = bufs s ! j"
proof -
  note o = bcache_okD [OF ok] and h = held_slot [OF ok i]
  let ?x = "(bufs s ! i)\<lparr>b_refcnt := 0\<rparr>"
  let ?u = "s\<lparr>sleeplocks := (sleeplocks s)(BufLock i := (sleeplocks s (BufLock i))\<lparr>sl_locked := False, sl_pid := 0\<rparr>)\<rparr>"
  let ?t = "?u\<lparr>bufs := (bufs s)[i := ?x], mru := i # remove1 i (mru s)\<rparr>"
  have q: "quiet p ?u" using o(1) by simp
  have run: "brelse i s = Ok () ?t"
    using holdingsleep_quiet [OF o(1)] releasesleep_quiet [OF o(1)] quiet_acquire [OF q, of BcacheLock]
      quiet_acquire [OF o(1), of BcacheLock] h o(2)
    by (simp add: brelse_def upd_buf_def release_ok)
  have bn: "unat (b_blockno (bufs s ! i)) = b" using b by (simp add: holds_block_def)
  have x: "holds_block ?x c = (c = b)" for c using h(3) bn by (auto simp: holds_block_def)
  have ok': "bcache_ok p (H - {i}) ?t"
  proof (rule bcache_ok_slot [OF ok h(1), where x = ?x])
    show "slot_ok p (H - {i}) ?t i" using o(7) [OF h(1)] saved bn h(1) o(2) by (auto simp: slot_ok_def Let_def)
    show "\<not> holds_block (bufs s ! j) c" if "j < NBUF" "j \<noteq> i" "holds_block ?x c" for j c
      using o(6) [OF that(1) h(1), of c] that b unfolding x by auto
  qed (use o h(1) in auto)
  have "content ?t c = content s c" for c
    using content_slot [OF ok ok' h(1), of ?x c] content_valid [OF ok h(1) b(1) h(4)] x [of c] h(7) [of c] bn h(4) by auto
  then have c: "content ?t = content s" by blast
  have d: "dirty ?t = dirty s" by (rule dirty_slot [OF ok h(1), where x = ?x]) simp_all
  have fr: "bio_frame s ?t"
    by (rule bio_frame_trans [OF bio_frame_trans [OF bio_frame_upd(2) bio_frame_upd(1)] bio_frame_upd(3)])
  show thesis by (rule that [OF run ok' c d fr]) simp_all
qed

section \<open>The cache is transparent\<close>

text \<open>C14: Reading through the cache is reading the blocks: with a buffer to spare \<^verbatim>\<open>bread\<close> returns a locked
  buffer of its own for the block with the block's content, whether it was cached, is fetched or
  replaces another block; what any block contains does not change, nothing is written to the disk, and
  no block ever gets a second buffer.\<close>

theorem bread_refines_content:
  assumes "bcache_ok p H s" "unat b < disksize s" "\<forall>i \<in> H. \<not> holds_block (bufs s ! i) (unat b)"
    "card (dirty s) + card H < NBUF"
  shows "\<exists>i t. bread 1 b s = Ok i t \<and> i < NBUF \<and> i \<notin> H \<and> bcache_ok p (insert i H) t \<and>
    holds_block (bufs t ! i) (unat b) \<and> b_data (bufs t ! i) = content s (unat b) \<and> content t = content s \<and>
    disk t = disk s \<and> dwrites t = dwrites s"
  by (rule bread_ok [OF assms(1,2)]) (use assms in blast)+

definition demo_bio :: "(nat \<Rightarrow> block) \<Rightarrow> kbio" where
  "demo_bio d = kproc.extend demo_idle (kbio.fields (\<lambda>_. \<lparr>sl_locked = False, sl_name = [], sl_pid = 0\<rparr>)
     (replicate 30 \<lparr>b_valid = False, b_dirty = False, b_dev = 0, b_blockno = 0, b_refcnt = 0, b_data = []\<rparr>)
     [0..<30] d 1000 [])"

lemma demo_bio_ok: "bcache_ok 0 {} (demo_bio d)" "dirty (demo_bio d) = {}" "disk (demo_bio d) = d" "disksize (demo_bio d) = 1000"
proof -
  let ?b = "\<lparr>b_valid = False, b_dirty = False, b_dev = 0, b_blockno = 0, b_refcnt = 0, b_data = []\<rparr>"
  have f: "bufs (demo_bio d) = replicate 30 ?b" "mru (demo_bio d) = [0..<30]" "\<not> sl_locked (sleeplocks (demo_bio d) l)" for l
    by (simp_all add: demo_bio_def kbio.defs kproc.defs)
  have "quiet 0 (demo_bio d)"
    by (simp add: quiet_def demo_bio_def demo_idle_def demo_kproc_def demo_kmem_def kbio.defs kproc.defs
        cpu_ok_def my_def cpu_index_def lock_free_def NPROC_def)
  then show "bcache_ok 0 {} (demo_bio d)" using f by (auto simp: bcache_ok_def slot_ok_def holds_block_def NBUF_def)
  show "dirty (demo_bio d) = {}" using f by (simp add: dirty_def NBUF_def)
  show "disk (demo_bio d) = d" "disksize (demo_bio d) = 1000" by (simp_all add: demo_bio_def kbio.defs kproc.defs)
qed

theorem bread_refines_content_witness:
  "\<exists>i t. bread 1 5 (demo_bio (\<lambda>b. [word_of_nat b])) = Ok i t \<and> b_data (bufs t ! i) = [5]"
proof -
  have "content (demo_bio (\<lambda>b. [word_of_nat b])) 5 = [5]"
    using content_clean [OF demo_bio_ok(1), of 5] demo_bio_ok(2,3) by simp
  then show ?thesis
    using bread_refines_content [OF demo_bio_ok(1), of 5 "\<lambda>b. [word_of_nat b]"] demo_bio_ok(2,4)
    by (auto simp: NBUF_def)
qed

end
