(* ===== verification/ConsoleSpec.thy ===== *)
theory ConsoleSpec
  imports Console Ring BioSpec
begin

text \<open>
  The console's line discipline.  The ring buffer holds the lines that readers may take (from \<^verbatim>\<open>r\<close> to
  \<^verbatim>\<open>w\<close>) and the line being edited (from \<^verbatim>\<open>w\<close> to \<^verbatim>\<open>e\<close>); \<^verbatim>\<open>consoleintr\<close> is an editor on these two lists, and
  \<^verbatim>\<open>consoleread\<close> takes lines from the first.
\<close>

interpretation console_ring: ring_buffer INPUT_BUF
  by unfold_locales (simp_all add: INPUT_BUF_def)

definition cons_ready :: "'a kcons_scheme \<Rightarrow> byte list" where
  "cons_ready s = ring_contents INPUT_BUF (in_buf s) (in_r s) (in_w s)"

definition cons_line :: "'a kcons_scheme \<Rightarrow> byte list" where
  "cons_line s = ring_contents INPUT_BUF (in_buf s) (in_w s) (in_e s)"

definition cons_ok :: "'a kcons_scheme \<Rightarrow> bool" where
  "cons_ok s = (length (in_buf s) = INPUT_BUF \<and> unat (in_w s - in_r s) \<le> unat (in_e s - in_r s) \<and>
     unat (in_e s - in_r s) \<le> INPUT_BUF \<and> 10 \<notin> set (cons_line s))"

text \<open>What a key does to the lines that are ready and the line being edited.\<close>

definition edit :: "int \<Rightarrow> byte list \<times> byte list \<Rightarrow> byte list \<times> byte list" where
  "edit c l =
     (let (rd, ln) = l in
      if c = 16 then (rd, ln)
      else if c = 21 then (rd, [])
      else if c = 8 \<or> c = 127 then (rd, butlast ln)
      else if c \<noteq> 0 \<and> length rd + length ln < INPUT_BUF then
        let b = word_of_int (if c = 13 then 10 else c) in
        if c = 10 \<or> c = 13 \<or> c = 4 \<or> length rd + length ln + 1 = INPUT_BUF then (rd @ ln @ [b], []) else (rd, ln @ [b])
      else (rd, ln))"

section \<open>The two lists in the ring\<close>

definition cons_all :: "'a kcons_scheme \<Rightarrow> byte list" where
  "cons_all s = ring_contents INPUT_BUF (in_buf s) (in_r s) (in_e s)"

lemma cons_split:
  assumes "unat (in_w s - in_r s) \<le> unat (in_e s - in_r s)"
  shows "cons_ready s = take (unat (in_w s - in_r s)) (cons_all s)" "cons_line s = drop (unat (in_w s - in_r s)) (cons_all s)"
    "cons_all s = cons_ready s @ cons_line s"
  using console_ring.ring_take [OF assms] console_ring.ring_drop(1) [OF assms]
  by (simp_all add: cons_ready_def cons_line_def cons_all_def)

lemma length_cons:
  "length (cons_all s) = unat (in_e s - in_r s)" "length (cons_ready s) = unat (in_w s - in_r s)"
  "length (cons_line s) = unat (in_e s - in_w s)"
  by (simp_all add: cons_all_def cons_ready_def cons_line_def console_ring.ring_length)

lemma cons_line_empty: "cons_line s = [] \<longleftrightarrow> in_e s = in_w s"
  using length_cons(3) [of s] by (auto simp: unat_eq_0)

lemma console_frame [simp]:
  "my (s\<lparr>in_buf := v0\<rparr>) = my s"
  "cpu_ok (s\<lparr>in_buf := v0\<rparr>) = cpu_ok s"
  "lock_free l (s\<lparr>in_buf := v0\<rparr>) = lock_free l s"
  "lock_mine l (s\<lparr>in_buf := v0\<rparr>) = lock_mine l s"
  "acq l (s\<lparr>in_buf := v0\<rparr>) = (acq l s)\<lparr>in_buf := v0\<rparr>"
  "rel l (s\<lparr>in_buf := v0\<rparr>) = (rel l s)\<lparr>in_buf := v0\<rparr>"
  "in_buf (acq l s) = in_buf s"
  "in_buf (rel l s) = in_buf s"
  "my (s\<lparr>in_r := v1\<rparr>) = my s"
  "cpu_ok (s\<lparr>in_r := v1\<rparr>) = cpu_ok s"
  "lock_free l (s\<lparr>in_r := v1\<rparr>) = lock_free l s"
  "lock_mine l (s\<lparr>in_r := v1\<rparr>) = lock_mine l s"
  "acq l (s\<lparr>in_r := v1\<rparr>) = (acq l s)\<lparr>in_r := v1\<rparr>"
  "rel l (s\<lparr>in_r := v1\<rparr>) = (rel l s)\<lparr>in_r := v1\<rparr>"
  "in_r (acq l s) = in_r s"
  "in_r (rel l s) = in_r s"
  "my (s\<lparr>in_w := v2\<rparr>) = my s"
  "cpu_ok (s\<lparr>in_w := v2\<rparr>) = cpu_ok s"
  "lock_free l (s\<lparr>in_w := v2\<rparr>) = lock_free l s"
  "lock_mine l (s\<lparr>in_w := v2\<rparr>) = lock_mine l s"
  "acq l (s\<lparr>in_w := v2\<rparr>) = (acq l s)\<lparr>in_w := v2\<rparr>"
  "rel l (s\<lparr>in_w := v2\<rparr>) = (rel l s)\<lparr>in_w := v2\<rparr>"
  "in_w (acq l s) = in_w s"
  "in_w (rel l s) = in_w s"
  "my (s\<lparr>in_e := v3\<rparr>) = my s"
  "cpu_ok (s\<lparr>in_e := v3\<rparr>) = cpu_ok s"
  "lock_free l (s\<lparr>in_e := v3\<rparr>) = lock_free l s"
  "lock_mine l (s\<lparr>in_e := v3\<rparr>) = lock_mine l s"
  "acq l (s\<lparr>in_e := v3\<rparr>) = (acq l s)\<lparr>in_e := v3\<rparr>"
  "rel l (s\<lparr>in_e := v3\<rparr>) = (rel l s)\<lparr>in_e := v3\<rparr>"
  "in_e (acq l s) = in_e s"
  "in_e (rel l s) = in_e s"
  "quiet p (s\<lparr>in_buf := v0\<rparr>) = quiet p s"
  "quiet p (s\<lparr>in_r := v1\<rparr>) = quiet p s"
  "quiet p (s\<lparr>in_w := v2\<rparr>) = quiet p s"
  "quiet p (s\<lparr>in_e := v3\<rparr>) = quiet p s"
  by (simp_all add: my_def cpu_ok_def cpu_index_def lock_free_def lock_mine_def rel_def acq_def fun_eq_iff quiet_def
      cong: option.case_cong)

lemma quiet_outbuf [simp]: "quiet p (s\<lparr>outbuf := v\<rparr>) = quiet p s"
  by (simp add: quiet_def)

text \<open>Taking back the last character.\<close>

lemma cons_unpush:
  assumes ok: "cons_ok s" and ne: "in_e s \<noteq> in_w s"
    and t_def: "t = s\<lparr>in_e := in_e s - 1, outbuf := ob\<rparr>"
  shows "cons_ok t" "cons_ready t = cons_ready s" "cons_line t = butlast (cons_line s)"
proof -
  let ?k = "unat (in_w s - in_r s)"
  have k: "?k \<le> unat (in_e s - in_r s)" using ok by (simp add: cons_ok_def)
  have "unat (in_e s - in_w s) = unat (in_e s - in_r s) - ?k" by (rule console_ring.ring_drop(2) [OF k])
  moreover have "0 < unat (in_e s - in_w s)" using ne by (simp add: unat_gt_0)
  ultimately have lt: "?k < unat (in_e s - in_r s)" by linarith
  then have er: "in_e s \<noteq> in_r s" by auto
  note u = console_ring.ring_unpush(1) [OF ne, of "in_buf s"] console_ring.ring_unpush(2) [OF er]
  show r: "cons_ready t = cons_ready s" by (simp add: t_def cons_ready_def)
  show l: "cons_line t = butlast (cons_line s)" using u(1) by (simp add: t_def cons_line_def)
  show "cons_ok t" using ok lt u(2) l in_set_butlastD [of 10 "cons_line s"] by (auto simp: cons_ok_def t_def)
qed

lemma in_at_last: "in_e s \<noteq> in_w s \<Longrightarrow> in_at s (in_e s - 1) = last (cons_line s)"
  using console_ring.ring_last [of "in_e s" "in_w s" "in_buf s"] by (simp add: in_at_def cons_line_def)

lemma kill_line_ok:
  assumes "cons_ok s"
  shows "\<exists>ob. kill_line s = Some (s\<lparr>in_e := in_w s, outbuf := ob\<rparr>)"
  using assms
proof (induction "length (cons_line s)" arbitrary: s)
  case 0
  then have "in_e s = in_w s" using cons_line_empty [of s] by simp
  then show ?case by (intro exI [of _ "outbuf s"]) (simp add: kill_line.simps [of s])
next
  case (Suc n)
  then have ne: "in_e s \<noteq> in_w s" using cons_line_empty [of s] by auto
  let ?o = "outbuf s @ [CHR 0x08, CHR '' '', CHR 0x08]"
  let ?t = "s\<lparr>in_e := in_e s - 1, outbuf := ?o\<rparr>"
  note u = cons_unpush [OF Suc.prems ne refl, where ob = ?o]
  have "cons_line s \<noteq> []" using ne cons_line_empty by blast
  then have "last (cons_line s) \<noteq> 10" using Suc.prems last_in_set unfolding cons_ok_def by metis
  then have "kill_line s = kill_line ?t"
    using ne in_at_last [OF ne] by (subst kill_line.simps) (simp add: consputc_def)
  moreover have "\<exists>ob. kill_line ?t = Some (?t\<lparr>in_e := in_w ?t, outbuf := ob\<rparr>)"
    by (rule Suc.hyps(1)) (use Suc.hyps(2) u in simp_all)
  ultimately show ?case by simp
qed

text \<open>Adding a character.\<close>

lemma cons_push:
  assumes ok: "cons_ok s" and room: "length (cons_all s) < INPUT_BUF"
    and t: "t = s\<lparr>in_buf := (in_buf s)[unat (in_e s) mod INPUT_BUF := b], in_e := in_e s + 1, outbuf := ob\<rparr>"
  shows "cons_all t = cons_all s @ [b]" "unat (in_e t - in_r t) = Suc (length (cons_all s))"
    "cons_ready t = cons_ready s" "cons_line t = cons_line s @ [b]" "b \<noteq> 10 \<Longrightarrow> cons_ok t"
    "cons_ready (t\<lparr>in_w := in_e t\<rparr>) = cons_all s @ [b]" "cons_line (t\<lparr>in_w := in_e t\<rparr>) = []" "cons_ok (t\<lparr>in_w := in_e t\<rparr>)"
proof -
  have o: "length (in_buf s) = INPUT_BUF" "unat (in_w s - in_r s) \<le> unat (in_e s - in_r s)" "10 \<notin> set (cons_line s)"
    using ok by (simp_all add: cons_ok_def)
  show a: "cons_all t = cons_all s @ [b]"
    using console_ring.ring_push [of "in_e s" "in_r s" "in_buf s" b] room o(1) by (simp add: cons_all_def t length_cons(1) [unfolded cons_all_def] console_ring.ring_length)
  then show l: "unat (in_e t - in_r t) = Suc (length (cons_all s))" using length_cons(1) [of t] by simp
  have w: "unat (in_w t - in_r t) = unat (in_w s - in_r s)" "length (in_buf t) = INPUT_BUF" using o(1) by (simp_all add: t)
  then have le: "unat (in_w t - in_r t) \<le> unat (in_e t - in_r t)" "unat (in_w s - in_r s) \<le> length (cons_all s)"
    using l o(2) by (simp_all add: length_cons)
  show "cons_ready t = cons_ready s" using cons_split(1) [OF le(1)] cons_split(1) [OF o(2)] a w le(2) by simp
  show ln: "cons_line t = cons_line s @ [b]" using cons_split(2) [OF le(1)] cons_split(2) [OF o(2)] a w le(2) by simp
  show "cons_ok t" if "b \<noteq> 10" using that le(1) l room o(3) ln w(2) by (auto simp: cons_ok_def)
  show "cons_ready (t\<lparr>in_w := in_e t\<rparr>) = cons_all s @ [b]" using a by (simp add: cons_ready_def cons_all_def)
  show e: "cons_line (t\<lparr>in_w := in_e t\<rparr>) = []" by (simp add: cons_line_empty)
  show "cons_ok (t\<lparr>in_w := in_e t\<rparr>)" using l room w(2) e by (simp add: cons_ok_def)
qed

definition cons_frame :: "'a kcons_scheme \<Rightarrow> 'a kcons_scheme \<Rightarrow> bool" where
  "cons_frame s t = (\<exists>b w e ob. t = s\<lparr>in_buf := b, in_w := w, in_e := e, outbuf := ob\<rparr>)"

lemma cons_frameI: "t = s\<lparr>in_buf := b, in_w := w, in_e := e, outbuf := ob\<rparr> \<Longrightarrow> cons_frame s t"
  unfolding cons_frame_def by blast

lemma cons_frame_trans:
  assumes "cons_frame s t" "cons_frame t u"
  shows "cons_frame s u"
proof -
  obtain b w e ob b' w' e' ob' where "t = s\<lparr>in_buf := b, in_w := w, in_e := e, outbuf := ob\<rparr>"
    "u = t\<lparr>in_buf := b', in_w := w', in_e := e', outbuf := ob'\<rparr>" using assms unfolding cons_frame_def by blast
  then have "u = s\<lparr>in_buf := b', in_w := w', in_e := e', outbuf := ob'\<rparr>" by simp
  then show ?thesis by (rule cons_frameI)
qed

lemma cons_frame_fields:
  assumes "cons_frame s t"
  shows "in_r t = in_r s" "quiet p t = quiet p s" "cpu_ok t = cpu_ok s" "lock_free l t = lock_free l s" "procs t = procs s"
  using assms by (auto simp: cons_frame_def)

section \<open>Editing\<close>

lemma input_char_ok:
  assumes ok: "cons_ok s" and m: "cpu_ok s" "lock_free PtableLock s" "\<And>q. q < NPROC \<Longrightarrow> pstate (procs s ! q) \<noteq> SLEEPING"
    and c: "0 \<le> c" "c < 256"
  shows "\<exists>t. input_char c s = Ok (c = 16) t \<and> cons_frame s t \<and> cons_ok t \<and>
    (cons_ready t, cons_line t) = edit c (cons_ready s, cons_line s)"
proof -
  have w: "wakeup ChanInput t = Ok () t" if "cons_frame s t" for t
    by (rule wakeup_nobody) (use m cons_frame_fields [OF that] in auto)
  have same: "cons_frame s s" by (rule cons_frameI [where b = "in_buf s" and w = "in_w s" and e = "in_e s" and ob = "outbuf s"]) simp
  have o: "unat (in_w s - in_r s) \<le> unat (in_e s - in_r s)" using ok by (simp add: cons_ok_def)
  have len: "length (cons_all s) = length (cons_ready s) + length (cons_line s)" using cons_split(3) [OF o] by simp
  have lt: "in_e s - in_r s < of_nat INPUT_BUF \<longleftrightarrow> length (cons_all s) < INPUT_BUF"
    by (simp add: word_less_nat_alt length_cons INPUT_BUF_def)
  consider "c = 16" | "c = 21" | "c = 8 \<or> c = 127" "in_e s = in_w s" | "c = 8 \<or> c = 127" "in_e s \<noteq> in_w s"
    | (none) "c \<notin> {16, 21, 8, 127}" "c = 0 \<or> \<not> length (cons_all s) < INPUT_BUF"
    | (push) "c \<notin> {16, 21, 8, 127}" "c \<noteq> 0" "length (cons_all s) < INPUT_BUF" by blast
  then show ?thesis
  proof cases
    case 1
    then show ?thesis using ok same by (intro exI [of _ s]) (simp add: input_char_def edit_def)
  next
    case 2
    obtain ob where ob: "kill_line s = Some (s\<lparr>in_e := in_w s, outbuf := ob\<rparr>)" using kill_line_ok [OF ok] by blast
    let ?t = "s\<lparr>in_e := in_w s, outbuf := ob\<rparr>"
    have "cons_line ?t = []" by (simp add: cons_line_empty)
    moreover have "cons_ready ?t = cons_ready s" by (simp add: cons_ready_def)
    moreover have "cons_frame s ?t" by (rule cons_frameI [where b = "in_buf s" and w = "in_w s"]) simp
    moreover have "cons_ok ?t" using ok calculation(1) by (simp add: cons_ok_def)
    ultimately show ?thesis using 2 ob by (intro exI [of _ ?t]) (simp add: input_char_def edit_def)
  next
    case 3
    then have "cons_line s = []" by (simp add: cons_line_empty)
    then show ?thesis using 3 ok same by (intro exI [of _ s]) (auto simp: input_char_def edit_def)
  next
    case 4
    let ?t = "s\<lparr>in_e := in_e s - 1, outbuf := outbuf s @ [CHR 0x08, CHR '' '', CHR 0x08]\<rparr>"
    have "cons_frame s ?t" by (rule cons_frameI [where b = "in_buf s" and w = "in_w s"]) simp
    then show ?thesis using 4 cons_unpush [OF ok 4(2) refl, where ob = "outbuf s @ [CHR 0x08, CHR '' '', CHR 0x08]"]
      by (intro exI [of _ ?t]) (auto simp: input_char_def edit_def consputc_def)
  next
    case none
    then show ?thesis using ok same lt len by (intro exI [of _ s]) (auto simp: input_char_def edit_def)
  next
    case push
    let ?c = "if c = 13 then 10 else c"
    let ?o = "outbuf s @ [char_of ?c]" and ?b = "(in_buf s)[unat (in_e s) mod INPUT_BUF := word_of_int ?c]"
    let ?t = "s\<lparr>in_buf := (in_buf s)[unat (in_e s) mod INPUT_BUF := word_of_int ?c], in_e := in_e s + 1, outbuf := ?o\<rparr>"
    note p = cons_push [OF ok push(3) refl, where b = "word_of_int ?c" and ob = ?o]
    have put: "consputc ?c (s\<lparr>in_buf := (in_buf s)[unat (in_e s) mod INPUT_BUF := word_of_int ?c], in_e := in_e s + 1\<rparr>) = ?t"
      using c by (simp add: consputc_def BACKSPACE_def)
    have full: "in_e s + 1 = in_r s + of_nat INPUT_BUF \<longleftrightarrow> length (cons_all s) + 1 = INPUT_BUF"
    proof -
      have "in_e s + 1 = in_r s + of_nat INPUT_BUF \<longleftrightarrow> in_e s + 1 - in_r s = of_nat INPUT_BUF" by (auto simp: algebra_simps)
      also have "\<dots> \<longleftrightarrow> unat (in_e s + 1 - in_r s) = unat (of_nat INPUT_BUF :: 32 word)" by (rule word_unat_eq_iff)
      finally show ?thesis using p(2) by (simp add: INPUT_BUF_def)
    qed
    have fr: "cons_frame s ?t" "cons_frame s (?t\<lparr>in_w := in_e s + 1\<rparr>)"
      by (rule cons_frameI [where b = ?b and w = "in_w s" and e = "in_e s + 1" and ob = ?o], simp,
          rule cons_frameI [where b = ?b and w = "in_e s + 1" and e = "in_e s + 1" and ob = ?o], simp)
    show ?thesis
    proof (cases "?c = 10 \<or> ?c = 4 \<or> length (cons_all s) + 1 = INPUT_BUF")
      case True
      have "input_char c s = Ok False (?t\<lparr>in_w := in_e s + 1\<rparr>)"
        using push True w [OF fr(2)] put lt full unfolding input_char_def Let_def by auto
      then show ?thesis using p(6,7,8) fr(2) push True len cons_split(3) [OF o]
        by (intro exI [of _ "?t\<lparr>in_w := in_e s + 1\<rparr>"]) (auto simp: edit_def Let_def split: if_splits)
    next
      case False
      have "uint (word_of_int ?c :: 8 word) = ?c" using c by (simp add: uint_word_of_int)
      then have "word_of_int ?c \<noteq> (10 :: 8 word)" using False arg_cong [of "word_of_int ?c" "10 :: 8 word" uint] by auto
      moreover have "input_char c s = Ok False ?t"
        using push False put lt full unfolding input_char_def Let_def by auto
      ultimately show ?thesis using p(3-5) fr(1) push False len
        by (intro exI [of _ ?t]) (auto simp: edit_def Let_def split: if_splits)
    qed
  qed
qed

lemma input_chars_ok:
  assumes "cons_ok s" "cpu_ok s" "lock_free PtableLock s" "\<And>q. q < NPROC \<Longrightarrow> pstate (procs s ! q) \<noteq> SLEEPING"
    and "\<And>c. c \<in> set cs \<Longrightarrow> 0 \<le> c \<and> c < 256 \<and> c \<noteq> 16"
  shows "\<exists>t. input_chars cs False s = Ok False t \<and> cons_frame s t \<and> cons_ok t \<and>
    (cons_ready t, cons_line t) = foldl (\<lambda>l c. edit c l) (cons_ready s, cons_line s) cs"
  using assms
proof (induction cs arbitrary: s)
  case Nil
  have "cons_frame s s" by (rule cons_frameI [where b = "in_buf s" and w = "in_w s" and e = "in_e s" and ob = "outbuf s"]) simp
  then show ?case using Nil by simp
next
  case (Cons c cs)
  obtain t where t: "input_char c s = Ok False t" "cons_frame s t" "cons_ok t"
    "(cons_ready t, cons_line t) = edit c (cons_ready s, cons_line s)"
    using input_char_ok [OF Cons.prems(1-4), of c] Cons.prems(5) [of c] by auto
  note f = cons_frame_fields [OF t(2)]
  have "\<exists>u. input_chars cs False t = Ok False u \<and> cons_frame t u \<and> cons_ok u \<and>
    (cons_ready u, cons_line u) = foldl (\<lambda>l c. edit c l) (cons_ready t, cons_line t) cs"
    by (rule Cons.IH) (use Cons.prems f t(3) in auto)
  then show ?case using t Cons.prems(5) [of c] cons_frame_trans [OF t(2)] by auto
qed


section \<open>Reading lines\<close>

fun take_line :: "bool \<Rightarrow> nat \<Rightarrow> byte list \<Rightarrow> byte list \<times> byte list" where
  "take_line first 0 rd = ([], rd)"
| "take_line first (Suc n) [] = ([], [])"
| "take_line first (Suc n) (c # rd) =
     (if c = 4 then ([], if first then rd else c # rd)
      else if c = 10 then ([c], rd)
      else let (l, rest) = take_line False n rd in (c # l, rest))"

definition inode_ready :: "nat \<Rightarrow> nat \<Rightarrow> 'a kcons_scheme \<Rightarrow> bool" where
  "inode_ready p i s = (quiet p s \<and> 1 \<le> i_ref (inodes s ! i) \<and> i_valid (inodes s ! i) \<and>
     sl_locked (sleeplocks s (InodeLock i)) \<and> sl_pid (sleeplocks s (InodeLock i)) = pid (procs s ! p))"

definition unlocked :: "nat \<Rightarrow> 'a kcons_scheme \<Rightarrow> 'a kcons_scheme" where
  "unlocked i s = s\<lparr>sleeplocks := (sleeplocks s)(InodeLock i :=
     (sleeplocks s (InodeLock i))\<lparr>sl_locked := False, sl_pid := 0\<rparr>)\<rparr>"

lemma finish_read:
  assumes "inode_ready p i s"
  shows "bindo (release ConsLock ((acq ConsLock (unlocked i s))\<lparr>in_r := r\<rparr>)) (\<lambda>_ s. bindo (ilock (Some i) s) (\<lambda>_ s. Ok v s)) =
    Ok v (s\<lparr>in_r := r\<rparr>)"
proof -
  have q: "quiet p (unlocked i s)" "quiet p (unlocked i s\<lparr>in_r := r\<rparr>)" "quiet p s" using assms by (simp_all add: inode_ready_def unlocked_def)
  let ?u = "unlocked i s\<lparr>in_r := r\<rparr>"
  have "sl_locked (sleeplocks s (InodeLock i))" "sl_pid (sleeplocks s (InodeLock i)) = pid (procs s ! p)"
    using assms by (simp_all add: inode_ready_def)
  then have "(sleeplocks s (InodeLock i))\<lparr>sl_locked := True, sl_pid := pid (procs s ! p)\<rparr> = sleeplocks s (InodeLock i)"
    by (cases "sleeplocks s (InodeLock i)") simp
  then have "acquiresleep (InodeLock i) ?u = Ok () (s\<lparr>in_r := r\<rparr>)"
    using acquiresleep_quiet [OF q(2), of "InodeLock i"] by (simp add: unlocked_def)
  then have "ilock (Some i) ?u = Ok () (s\<lparr>in_r := r\<rparr>)"
    using assms by (simp add: ilock_def inode_ready_def unlocked_def)
  then show ?thesis using quiet_acquire [OF q(1), of ConsLock] by (simp add: release_ok)
qed

lemma consoleread_loop_ok:
  assumes ok: "inode_ready p i s"
    and "rd = ring_contents INPUT_BUF (in_buf s) r (in_w s)" "int n \<le> target" "n \<le> length rd \<or> 10 \<in> set rd \<or> 4 \<in> set rd"
  shows "\<exists>k. consoleread_loop i target (int n) dst ((acq ConsLock (unlocked i s))\<lparr>in_r := r\<rparr>) =
      Some (Ok (target - int n + int (length (fst (take_line (int n = target) n rd))), dst @ fst (take_line (int n = target) n rd))
        (s\<lparr>in_r := r + of_nat k\<rparr>)) \<and> k \<le> unat (in_w s - r) \<and>
    ring_contents INPUT_BUF (in_buf s) (r + of_nat k) (in_w s) = snd (take_line (int n = target) n rd)"
  using assms(2-4)
proof (induction n arbitrary: r rd dst)
  case 0
  then show ?case
    using finish_read [OF ok, of r "(target, dst)"] by (intro exI [of _ 0], subst consoleread_loop.simps) simp
next
  case (Suc n)
  let ?S = "\<lambda>r. (acq ConsLock (unlocked i s))\<lparr>in_r := r\<rparr>"
  have ne: "r \<noteq> in_w s"
  proof
    assume "r = in_w s"
    then have "rd = []" using Suc.prems(1) console_ring.ring_empty by simp
    then show False using Suc.prems(3) by simp
  qed
  let ?c = "in_buf s ! (unat r mod INPUT_BUF)" and ?rd = "ring_contents INPUT_BUF (in_buf s) (r + 1) (in_w s)"
  have rd: "rd = ?c # ?rd" using Suc.prems(1) console_ring.ring_pop [OF ne, of "in_buf s"] by simp
  have lw: "unat (in_w s - r) = Suc (unat (in_w s - (r + 1)))"
    using arg_cong [OF rd, of length] Suc.prems(1) by (simp add: console_ring.ring_length)
  have f: "in_w (?S r) = in_w s" "in_at (?S r) r = ?c" by (simp_all add: unlocked_def in_at_def)
  have ss: "in_w (unlocked i s) = in_w s" "in_buf (unlocked i s) = in_buf s" by (simp_all add: unlocked_def)
  consider "?c = 4" | "?c = 10" | "?c \<noteq> 4" "?c \<noteq> 10" by blast
  then show ?case
  proof cases
    case 1
    define r' where "r' = (if int (Suc n) = target then r + 1 else r)"
    have "consoleread_loop i target (int (Suc n)) dst (?S r) =
        Some (bindo (release ConsLock (?S r')) (\<lambda>_ s. bindo (ilock (Some i) s) (\<lambda>_ s. Ok (target - int (Suc n), dst) s)))"
      using 1 ne Suc.prems(2) by (subst consoleread_loop.simps) (auto simp: in_at_def ss r'_def)
    also have "\<dots> = Some (Ok (target - int (Suc n), dst) (s\<lparr>in_r := r'\<rparr>))" by (simp only: finish_read [OF ok])
    finally show ?thesis
      using rd 1 lw Suc.prems(1) by (intro exI [of _ "if int (Suc n) = target then 1 else 0"]) (auto simp: r'_def)
  next
    case 2
    have "consoleread_loop i target (int (Suc n)) dst (?S r) =
        Some (bindo (release ConsLock (?S (r + 1))) (\<lambda>_ s. bindo (ilock (Some i) s) (\<lambda>_ s. Ok (target - int n, dst @ [10]) s)))"
      using 2 ne by (subst consoleread_loop.simps) (simp add: in_at_def ss)
    also have "\<dots> = Some (Ok (target - int n, dst @ [10]) (s\<lparr>in_r := r + 1\<rparr>))" by (simp only: finish_read [OF ok])
    finally show ?thesis using rd 2 lw by (intro exI [of _ 1]) simp
  next
    case 3
    have step: "consoleread_loop i target (int (Suc n)) dst (?S r) = consoleread_loop i target (int n) (dst @ [?c]) (?S (r + 1))"
      using 3 ne by (subst consoleread_loop.simps) (simp add: in_at_def ss)
    have "n \<le> length ?rd \<or> 10 \<in> set ?rd \<or> 4 \<in> set ?rd" using Suc.prems(3) 3 unfolding rd by auto
    moreover have "int n \<noteq> target" "int n \<le> target" using Suc.prems(2) by simp_all
    ultimately obtain k where k: "consoleread_loop i target (int n) (dst @ [?c]) (?S (r + 1)) =
        Some (Ok (target - int n + int (length (fst (take_line False n ?rd))), (dst @ [?c]) @ fst (take_line False n ?rd))
          (s\<lparr>in_r := r + 1 + of_nat k\<rparr>))" "k \<le> unat (in_w s - (r + 1))"
        "ring_contents INPUT_BUF (in_buf s) (r + 1 + of_nat k) (in_w s) = snd (take_line False n ?rd)"
      using Suc.IH [of ?rd "r + 1" "dst @ [?c]"] by auto
    have t: "take_line (int (Suc n) = target) (Suc n) rd = (?c # fst (take_line False n ?rd), snd (take_line False n ?rd))"
      unfolding rd using 3 by (simp add: case_prod_beta)
    show ?thesis unfolding step t using k lw
      by (intro exI [of _ "Suc k"]) (simp add: algebra_simps)
  qed
qed

text \<open>C24: \<^verbatim>\<open>consoleread\<close> returns one line: the ready bytes up to and with the first line end, at most \<open>n\<close> of
  them; control-D ends the input, at once if it comes first and otherwise in the next call.  The line
  being edited is not touched, and the inode is locked again.\<close>

theorem consoleread_takes_line:
  assumes ok: "inode_ready p i s" "cons_ok s"
    and avail: "n \<le> length (cons_ready s) \<or> 10 \<in> set (cons_ready s) \<or> 4 \<in> set (cons_ready s)"
  shows "\<exists>t l. consoleread i (int n) s = Ok (int (length l), l) t \<and> (l, cons_ready t) = take_line True n (cons_ready s) \<and>
    cons_line t = cons_line s \<and> inode_ready p i t \<and> cons_ok t"
proof -
  have q: "quiet p s" "quiet p (unlocked i s)" using ok(1) by (simp_all add: inode_ready_def unlocked_def)
  have un: "iunlock (Some i) s = Ok () (unlocked i s)"
    using ok(1) holdingsleep_quiet [OF q(1)] releasesleep_quiet [OF q(1)] by (simp add: iunlock_def inode_ready_def unlocked_def)
  have r: "in_r (unlocked i s) = in_r s" by (simp add: unlocked_def)
  obtain k where k: "consoleread_loop i (int n) (int n) [] ((acq ConsLock (unlocked i s))\<lparr>in_r := in_r s\<rparr>) =
      Some (Ok (int n - int n + int (length (fst (take_line (int n = int n) n (cons_ready s)))),
        [] @ fst (take_line (int n = int n) n (cons_ready s))) (s\<lparr>in_r := in_r s + of_nat k\<rparr>))" "k \<le> unat (in_w s - in_r s)"
      "ring_contents INPUT_BUF (in_buf s) (in_r s + of_nat k) (in_w s) = snd (take_line (int n = int n) n (cons_ready s))"
    using consoleread_loop_ok [OF ok(1) cons_ready_def order_refl avail] by blast
  have same: "(acq ConsLock (unlocked i s))\<lparr>in_r := in_r s\<rparr> = acq ConsLock (unlocked i s)" using r by simp
  let ?t = "s\<lparr>in_r := in_r s + of_nat k\<rparr>" and ?r = "in_r s + of_nat k"
  have run: "consoleread i (int n) s = Ok (int (length (fst (take_line True n (cons_ready s)))), fst (take_line True n (cons_ready s))) ?t"
    using un quiet_acquire [OF q(2), of ConsLock] k(1) unfolding consoleread_def same by simp
  have o: "unat (in_w s - in_r s) \<le> unat (in_e s - in_r s)" "unat (in_e s - in_r s) \<le> INPUT_BUF" using ok(2) by (simp_all add: cons_ok_def)
  have "unat (?r - in_r s) = k" using k(2) o by (simp add: unat_of_nat take_bit_nat_eq_self INPUT_BUF_def)
  then have "unat (in_w s - ?r) = unat (in_w s - in_r s) - k" "unat (in_e s - ?r) = unat (in_e s - in_r s) - k"
    using console_ring.ring_drop(2) [of ?r "in_r s" "in_w s"] console_ring.ring_drop(2) [of ?r "in_r s" "in_e s"] k(2) o by simp_all
  then have "cons_ok ?t" using ok(2) o by (simp add: cons_ok_def cons_line_def) linarith
  moreover have "inode_ready p i ?t" using ok(1) by (simp add: inode_ready_def)
  moreover have "cons_ready ?t = snd (take_line True n (cons_ready s))" "cons_line ?t = cons_line s"
    using k(3) by (simp_all add: cons_ready_def cons_line_def)
  ultimately show ?thesis using run by (intro exI [of _ ?t] exI [of _ "fst (take_line True n (cons_ready s))"]) simp
qed

section \<open>Witnesses\<close>

text \<open>A console whose indices are about to wrap around, and a locked inode.\<close>

definition demo_console :: kcons where
  "demo_console = kino.extend
     (klog.extend
        (kbio.extend ((demo_bio (\<lambda>_. []))\<lparr>sleeplocks := (\<lambda>_. \<lparr>sl_locked = True, sl_name = [], sl_pid = 1\<rparr>)\<rparr>)
           (klog.fields 2 30 0 False 1 0 []))
        (kino.fields (get_superblock (replicate 512 0))
           [\<lparr>i_dev = 1, i_inum = 1, i_ref = 1, i_valid = True, i_type = 3, i_major = 1, i_minor = 1, i_nlink = 1, i_size = 0,
             i_addrs = []\<rparr>]))
     (kcons.fields (replicate 128 0) (- 2) (- 2) (- 2) (\<lambda>_. None))"

lemmas demo_console_defs = demo_console_def demo_bio_def demo_idle_def demo_kproc_def demo_kmem_def kino.defs klog.defs
  kbio.defs kproc.defs kcons.defs

lemma demo_console_ok:
  "quiet 0 demo_console" "inode_ready 0 0 demo_console" "cons_ok demo_console" "cons_ready demo_console = []" "cons_line demo_console = []"
proof -
  show q: "quiet 0 demo_console"
    by (simp add: quiet_def demo_console_defs cpu_ok_def my_def cpu_index_def lock_free_def NPROC_def)
  then show "inode_ready 0 0 demo_console" by (simp add: inode_ready_def) (simp add: demo_console_defs)
  have i: "in_r demo_console = - 2" "in_w demo_console = - 2" "in_e demo_console = - 2" "in_buf demo_console = replicate 128 0"
    by (simp_all add: demo_console_defs)
  show l: "cons_ready demo_console = []" "cons_line demo_console = []"
    using i by (simp_all add: cons_ready_def cons_line_def console_ring.ring_empty)
  show "cons_ok demo_console" using i l by (simp add: cons_ok_def INPUT_BUF_def)
qed


definition demo_ring :: "byte list" where
  "demo_ring = [10, 97] @ replicate 124 0 @ [108, 115]"

definition demo_typed :: kcons where
  "demo_typed = demo_console\<lparr>in_buf := demo_ring, in_w := 1, in_e := 2\<rparr>"

theorem consoleread_takes_line_witness:
  "\<exists>t. consoleread 0 5 demo_typed = Ok (3, [108, 115, 10]) t \<and> cons_ready t = [] \<and> cons_line t = [97]"
proof -
  have f: "in_r demo_typed = - 2" "in_w demo_typed = 1" "in_e demo_typed = 2" "in_buf demo_typed = demo_ring"
    by (simp_all add: demo_typed_def) (simp add: demo_console_defs)
  have "ring_contents INPUT_BUF demo_ring (- 2) 1 = [108, 115, 10]" "ring_contents INPUT_BUF demo_ring 1 2 = [97]"
  proof -
    have n: "demo_ring ! 126 = 108" "demo_ring ! 127 = 115" "demo_ring ! 0 = 10" "demo_ring ! Suc 0 = 97"
      by (simp_all add: demo_ring_def nth_append nth_Cons')
    have u: "unat (- 2 :: 32 word) = 4294967294" "unat (- 2 + 1 :: 32 word) = 4294967295" "unat (- 2 + 2 :: 32 word) = 0"
      by (simp_all add: unsigned_minus_1_eq_mask mask_eq_exp_minus_1)
    show "ring_contents INPUT_BUF demo_ring (- 2) 1 = [108, 115, 10]" "ring_contents INPUT_BUF demo_ring 1 2 = [97]"
      using n u by (simp_all add: ring_contents_def INPUT_BUF_def upt_rec)
  qed
  then have c: "cons_ready demo_typed = [108, 115, 10]" "cons_line demo_typed = [97]"
    by (simp_all add: cons_ready_def cons_line_def f)
  have "cons_ok demo_typed" using c(2) by (simp add: cons_ok_def f INPUT_BUF_def) (simp add: demo_ring_def)
  moreover have "inode_ready 0 0 demo_typed" using demo_console_ok(2) by (simp add: inode_ready_def demo_typed_def)
  moreover have "take_line True 5 [108, 115, 10] = ([108, 115, 10], [])" by code_simp
  ultimately show ?thesis using consoleread_takes_line [of 0 0 demo_typed 5] by (auto simp: c)
qed

end
