(* ===== verification/TrapSpec.thy ===== *)
theory TrapSpec
  imports Trap ConsoleSpec
begin

text \<open>
  The quantum of a process: every timer interrupt takes a tick from it, and the one that takes the last
  makes the process give the processor back.
\<close>

definition on_cpu :: "nat \<Rightarrow> 'a kproc_scheme \<Rightarrow> bool" where
  "on_cpu p s = (quiet p s \<and> c_ncli (cpus s ! my s) = 0 \<and> \<not> fl_if s \<and> p < NPROC \<and> length (procs s) = NPROC \<and>
     pstate (procs s ! p) = RUNNING \<and> \<not> killed (procs s ! p))"

lemma timer_ok:
  assumes q: "quiet p s" and f: "\<not> fl_if s"
  shows "timer s = Ok () (if my s = 0 then s\<lparr>ticks := ticks s + 1\<rparr> else s)"
proof -
  let ?t = "s\<lparr>ticks := ticks s + 1\<rparr>"
  have t: "quiet p ?t" using q by (simp add: quiet_def)
  then have w: "wakeup ChanTicks (acq TicksLock ?t) = Ok () (acq TicksLock ?t)" by (rule wakeup_acq) simp
  have "release TicksLock (acq TicksLock ?t) = Ok () ?t"
    using quiet_acquire [OF t, of TicksLock] by (simp add: release_ok del: kproc_frame)
  then show ?thesis
    using w quiet_acquire [OF q, of TicksLock] cpu_okD(1) [OF quietD(1) [OF q]] f
    by (simp add: timer_def cpuid_def mycpu_def)
qed

lemma exit_if_killed_user_ok: "on_cpu p s \<Longrightarrow> exit_if_killed_user f s = Ok () s"
  using quietD(1,2) [of p s] by (simp add: on_cpu_def exit_if_killed_user_def myproc_ok)

lemma on_cpu_upd:
  assumes "on_cpu p s"
  shows "on_cpu p (upd_proc p (\<lambda>x. x\<lparr>ticks_left := v\<rparr>) s)" "on_cpu p (s\<lparr>ticks := w\<rparr>)"
    "ticks_left (procs (upd_proc p (\<lambda>x. x\<lparr>ticks_left := v\<rparr>) s) ! p) = v"
  using assms by (auto simp: on_cpu_def quiet_def upd_proc_def nth_list_update)

lemma yield_switches:
  assumes on: "on_cpu p s"
  shows "\<exists>t. yield s = Switch t \<and> pstate (procs t ! p) = RUNNABLE \<and> ticks_left (procs t ! p) = ticks_left (procs s ! p) \<and>
    lock_mine PtableLock t \<and> cpu_ok t"
proof -
  have q: "quiet p s" and o: "c_ncli (cpus s ! my s) = 0" "p < length (procs s)" using on by (simp_all add: on_cpu_def)
  note a = quiet_acquire [OF q, of PtableLock] and i = cpu_okD [OF quietD(1) [OF q]]
  let ?r = "upd_proc p (\<lambda>q. q\<lparr>pstate := RUNNABLE\<rparr>) (acq PtableLock s)"
  have r: "cpu_ok ?r" "my ?r = my s" "lock_mine PtableLock ?r" "c_proc (cpus ?r ! my s) = Some p" "c_ncli (cpus ?r ! my s) = 1"
    "\<not> fl_if ?r" "pstate (procs ?r ! p) = RUNNABLE" "ticks_left (procs ?r ! p) = ticks_left (procs s ! p)" "p < length (procs ?r)"
    using a i o by (simp_all add: upd_proc_def)
  let ?t = "upd_proc p (\<lambda>q. q\<lparr>kctx := InSched (c_intena (cpus ?r ! my s))\<rparr>) ?r"
  have "sched ?r = Switch ?t"
    using r(1-7) cpu_okD(1) [OF r(1)] by (simp add: sched_def myproc_ok holding_ok mycpu_def)
  then have "yield s = Switch ?t" using a myproc_ok [OF a(2)] by (simp add: yield_def)
  moreover have "pstate (procs ?t ! p) = RUNNABLE" "ticks_left (procs ?t ! p) = ticks_left (procs s ! p)"
    "lock_mine PtableLock ?t" "cpu_ok ?t"
    using r by (simp_all add: upd_proc_def)
  ultimately show ?thesis by blast
qed

definition timer_trap :: "trapframe \<Rightarrow> bool" where
  "timer_trap f = (tf_trapno f = T_IRQ0 + IRQ_TIMER)"

lemma trap_timer:
  assumes on: "on_cpu p s" and f: "timer_trap f" and k: "1 \<le> ticks_left (procs s ! p)" "ticks_left (procs s ! p) < 2147483648"
  shows "if ticks_left (procs s ! p) = 1
    then \<exists>t. trap dv f s = Switch t \<and> pstate (procs t ! p) = RUNNABLE \<and> ticks_left (procs t ! p) = 0 \<and>
      lock_mine PtableLock t \<and> cpu_ok t
    else \<exists>t. trap dv f s = Ok () t \<and> on_cpu p t \<and> ticks_left (procs t ! p) = ticks_left (procs s ! p) - 1"
proof -
  let ?s = "if my s = 0 then s\<lparr>ticks := ticks s + 1\<rparr> else s"
  let ?k = "ticks_left (procs s ! p) - 1"
  let ?t = "upd_proc p (\<lambda>x. x\<lparr>ticks_left := ?k\<rparr>) ?s"
  have q: "quiet p s" and fl: "\<not> fl_if s" and st: "pstate (procs s ! p) = RUNNING" using on by (simp_all add: on_cpu_def)
  have os: "on_cpu p ?s" "procs ?s = procs s" using on on_cpu_upd(2) [OF on] by simp_all
  note ot = on_cpu_upd(1,3) [OF os(1), of ?k]
  have "s32 ?k = ?k" using k by (intro s32_id) simp_all
  then have u: "upd_proc p (\<lambda>x. x\<lparr>ticks_left := s32 (ticks_left x - 1)\<rparr>) ?s = ?t" by (simp add: upd_proc_def os(2))
  have qs: "quiet p ?s" using os(1) by (simp add: on_cpu_def)
  have pre: "preempt f ?s = (if ?k = 0 then yield ?t else Ok () ?t)"
    unfolding preempt_def myproc_ok [OF quietD(1) [OF qs]] quietD(2) [OF qs] bindo.simps option.case Let_def u ot(2) os(2)
    using st f by (simp add: timer_trap_def)
  have "trap dv f s = bindo (preempt f ?s) (\<lambda>_ s. exit_if_killed_user f s)"
    using f timer_ok [OF q fl] exit_if_killed_user_ok [OF os(1)]
    by (simp add: trap_def interrupt_def timer_trap_def T_IRQ0_def IRQ_TIMER_def T_SYSCALL_def del: if_split)
  then show ?thesis
    using pre yield_switches [OF ot(1)] ot exit_if_killed_user_ok [OF ot(1)] by auto
qed


definition demo_trap :: ktrap where
  "demo_trap = (kfile.extend (kcons.extend demo_console (kfile.fields [])) (ktrap.fields [] 0 False []))
     \<lparr>procs := replicate 64 ((demo_slot 1 50 RUNNING)\<lparr>ticks_left := 3\<rparr>)\<rparr>"

definition demo_tick :: trapframe where
  "demo_tick = demo_trapframe\<lparr>tf_trapno := 32, tf_cs := 3\<rparr>"

definition demo_devices :: devices where
  "demo_devices = \<lparr>kbd_in = [], uart_in = [], cr2 = 0, callerpcs = (\<lambda>_. [])\<rparr>"


end
