(* ===== verification/BootSpec.thy ===== *)
theory BootSpec
  imports Boot TrapSpec
begin

text \<open>
  What \<^verbatim>\<open>mpinit\<close> makes of the configuration table.  A table whose entries all have known codes is read to its end, and the first
  \<^verbatim>\<open>NCPU\<close> processors are registered in the order of the table.  An entry of an unknown code is never left: \<^verbatim>\<open>break\<close> ends the
  \<^verbatim>\<open>switch\<close> but not the loop, and the pointer has not moved.
\<close>

definition conf_end :: "(addr \<Rightarrow> byte) \<Rightarrow> addr \<Rightarrow> nat" where
  "conf_end m conf = unat conf + unat (conf_length m conf)"

definition conf_entries :: "addr \<Rightarrow> nat" where
  "conf_entries conf = unat conf + 44"

lemma conf_words:
  assumes "conf_end m conf < 2 ^ 32"
  shows "conf + sizeof_mpconf = of_nat (conf_entries conf)" "conf + conf_length m conf = of_nat (conf_end m conf)"
  by (simp_all add: conf_entries_def conf_end_def)

lemma mpinit_entries:
  assumes "table_at m (conf_entries conf) xs" "conf_entries conf + table_size xs \<le> conf_end m conf" "conf_end m conf < 2 ^ 32"
  shows "mp_entries m (conf + sizeof_mpconf) (conf + conf_length m conf) b s =
    mp_entries m (of_nat (conf_entries conf + table_size xs)) (of_nat (conf_end m conf)) b (fold note_entry xs s)"
  unfolding conf_words [OF assms(3)] by (rule mp_entries_table [OF assms])

section \<open>Two boards\<close>

text \<open>The firmware's structures of two boards, at the start of the extended BIOS data area, whose segment is at \<^verbatim>\<open>0x40E\<close>: one with
  two processors, a bus and an I/O APIC, and one whose second entry has the unknown code 9.\<close>

definition demo_mem :: "byte list \<Rightarrow> addr \<Rightarrow> byte" where
  "demo_mem bs a =
     (if a = 0x8000040E then 0xC0 else if a = 0x8000040F then 0x9F
      else let i = unat (a - 0x8009FC00) in if i < length bs then bs ! i else 0)"

definition demo_firmware :: "byte list" where
  "demo_firmware = [
    95, 77, 80, 95, 16, 252, 9, 0, 1, 4, 139, 0, 0, 0, 0, 0, 80, 67, 77, 80, 100, 0, 4, 67, 0, 0, 0, 0, 0,
    0, 0, 0, 0, 0, 0, 0, 0, 0, 0, 0, 0, 0, 0, 0, 0, 0, 0, 0, 0, 0, 4, 0, 0, 0, 224, 254, 0, 0, 0, 0, 0, 0,
    20, 3, 0, 0, 0, 0, 0, 0, 0, 0, 0, 0, 0, 0, 0, 0, 0, 0, 0, 2, 20, 1, 0, 0, 0, 0, 0, 0, 0, 0, 0, 0, 0,
    0, 0, 0, 0, 0, 1, 0, 73, 83, 65, 32, 32, 32, 2, 5, 17, 1, 0, 0, 192, 254]"

definition demo_odd_firmware :: "byte list" where
  "demo_odd_firmware = [
    95, 77, 80, 95, 16, 252, 9, 0, 1, 4, 139, 0, 0, 0, 0, 0, 80, 67, 77, 80, 72, 0, 4, 132, 0, 0, 0, 0, 0,
    0, 0, 0, 0, 0, 0, 0, 0, 0, 0, 0, 0, 0, 0, 0, 0, 0, 0, 0, 0, 0, 2, 0, 0, 0, 224, 254, 0, 0, 0, 0, 0, 0,
    20, 3, 0, 0, 0, 0, 0, 0, 0, 0, 0, 0, 0, 0, 0, 0, 0, 0, 9, 0, 0, 0, 0, 0, 0, 0]"

definition demo_board :: "byte list \<Rightarrow> board" where
  "demo_board bs = \<lparr>bd_mem = demo_mem bs, bd_lapic = (\<lambda>_. 0), bd_icr = [0], bd_ioapic = (\<lambda>_. 0), bd_imcr = 0, bd_uart = 0xFF, bd_starts = (\<lambda>_. True)\<rparr>"

definition demo_boot :: kboot where
  "demo_boot = (ktrap.extend demo_trap
     (kboot.fields 0 [] 0 [] (0, 0) [] (\<lambda>_. []) (\<lambda>_. False) [] None))
     \<lparr>cpus := replicate 8 \<lparr>c_apicid = 0, c_ncli = 0, c_intena = False, c_proc = None\<rparr>, ncpu := 0\<rparr>"

lemma demo_boot_props [simp]:
  "bd_mem (demo_board bs) = demo_mem bs" "length (cpus demo_boot) = NCPU" "ncpu demo_boot = 0" "ioapicid demo_boot = 0"
  by (simp_all add: demo_board_def demo_boot_def NCPU_def demo_trap_def ktrap.defs kboot.defs)

lemma demo_mem_nth:
  assumes "i < length bs" "length bs \<le> 1024"
  shows "demo_mem bs (0x8009FC00 + of_nat i) = bs ! i"
proof -
  have u: "unat (of_nat i :: addr) = i" using assms by (simp add: unat_of_nat take_bit_eq_mod)
  have "unat (0x8009FC00 + of_nat i :: addr) = 0x8009FC00 + i"
    using assms u by (simp add: unat_word_ariths)
  then have "(0x8009FC00 + of_nat i :: addr) \<noteq> 0x8000040E" "(0x8009FC00 + of_nat i :: addr) \<noteq> 0x8000040F"
    by (auto simp: word_unat_eq_iff)
  then show ?thesis using assms(1) u by (simp add: demo_mem_def)
qed

lemma demo_bytes_at:
  assumes "k + n \<le> length bs" "length bs \<le> 1024" "a = 0x8009FC00 + of_nat k"
  shows "bytes_at (demo_mem bs) a n = take n (drop k bs)"
proof (rule nth_equalityI)
  fix i assume "i < length (bytes_at (demo_mem bs) a n)"
  then have i: "i < n" by (simp add: bytes_at_def)
  have "demo_mem bs (a + of_nat i) = bs ! (k + i)"
    using i assms demo_mem_nth [of "k + i" bs] by (simp add: add.assoc)
  then show "bytes_at (demo_mem bs) a n ! i = take n (drop k bs) ! i" using i assms by (simp add: bytes_at_def)
qed (use assms in \<open>simp add: bytes_at_def\<close>)

lemma demo_mem_at:
  assumes "unat (a - 0x8009FC00) < length bs" "a \<noteq> 0x8000040E" "a \<noteq> 0x8000040F"
  shows "demo_mem bs a = bs ! unat (a - 0x8009FC00)"
  using assms by (simp add: demo_mem_def)

lemma demo_mpconfig:
  assumes "bs \<in> {demo_firmware, demo_odd_firmware}"
  shows "mpconfig (demo_mem bs) s = Ok (Some (0x8009FC00, 0x8009FC10)) s"
proof -
  have e: "ushort_at (demo_mem bs) 0x8000040E = 0x9FC0"
    by (simp add: ushort_at_def demo_mem_def)
  have b: "bytes_at (demo_mem bs) 0x8009FC00 4 = take 4 bs" "bytes_at (demo_mem bs) 0x8009FC00 16 = take 16 bs"
      "bytes_at (demo_mem bs) 0x8009FC10 4 = take 4 (drop 16 bs)"
    using assms demo_bytes_at [where k = 0 and bs = bs and a = "0x8009FC00"] demo_bytes_at [where k = 16 and bs = bs and a = "0x8009FC10"]
    by (auto simp: demo_firmware_def demo_odd_firmware_def)
  have u: "[0..<64] = 0 # [1..<64]" by (simp add: upt_conv_Cons)
  have m: "mpsearch (demo_mem bs) s = Ok (Some 0x8009FC00) s"
    using assms by (auto simp: mpsearch_def mpsearch1_def P2V_def KERNBASE_def e u sum_bytes_def b demo_firmware_def demo_odd_firmware_def)
  have c: "mp_physaddr (demo_mem bs) 0x8009FC00 = 0x9FC10" "conf_version (demo_mem bs) 0x8009FC10 = 4"
    "conf_length (demo_mem bs) 0x8009FC10 = of_nat (length bs - 16)"
    using assms by (auto simp: conf_length_def uint_at_def ushort_at_def demo_mem_at
      demo_firmware_def demo_odd_firmware_def)
  have l: "unat (conf_length (demo_mem bs) 0x8009FC10) = length bs - 16"
    using assms by (auto simp: c demo_firmware_def demo_odd_firmware_def)
  have "bytes_at (demo_mem bs) 0x8009FC10 (length bs - 16) = drop 16 bs"
    using assms demo_bytes_at [where k = 16 and n = "length bs - 16" and bs = bs and a = "0x8009FC10"]
    by (auto simp: demo_firmware_def demo_odd_firmware_def)
  then have z: "sum_bytes (demo_mem bs) 0x8009FC10 (length bs - 16) = 0"
    using assms by (auto simp: sum_bytes_def demo_firmware_def demo_odd_firmware_def)
  have s: "take 4 (drop 16 bs) = map (\<lambda>c. of_char c) ''PCMP''"
    using assms by (auto simp: demo_firmware_def demo_odd_firmware_def)
  show ?thesis by (simp add: mpconfig_def m c(1,2) [simplified] l z b s P2V_def KERNBASE_def)
qed

lemma demo_tables:
  "table_at (demo_mem demo_firmware) (conf_entries 0x8009FC10) [Processor 0, Processor 2, Bus, IoApic 5]"
  "table_at (demo_mem demo_odd_firmware) (conf_entries 0x8009FC10) [Processor 0]"
  "conf_end (demo_mem demo_firmware) 0x8009FC10 = conf_entries 0x8009FC10 + 56"
  "conf_end (demo_mem demo_odd_firmware) 0x8009FC10 = conf_entries 0x8009FC10 + 28"
  "demo_mem demo_odd_firmware (of_nat (conf_entries 0x8009FC10 + 20)) = 9"
  by (simp_all add: conf_entries_def conf_end_def conf_length_def ushort_at_def demo_mem_at mp_codes demo_firmware_def
    demo_odd_firmware_def)


text \<open>C29: processor discovery reads a well-formed configuration table to its end.  If the firmware's table is found, lies
  below the end of the address space and consists of the entries \<open>xs\<close>, \<^verbatim>\<open>mpinit\<close> returns; the processor table then
  holds the ids of the processors in \<open>xs\<close>, in order and at most \<^verbatim>\<open>NCPU\<close> of them, the I/O APIC is the last one of \<open>xs\<close>, and
  the local APIC is where the table says.\<close>

theorem mpinit_discovers_processors:
  assumes "mpconfig (bd_mem bd) s = Ok (Some (mp, conf)) s"
    and "table_at (bd_mem bd) (conf_entries conf) xs"
    and "conf_entries conf + table_size xs = conf_end (bd_mem bd) conf" "conf_end (bd_mem bd) conf < 2 ^ 32"
    and "length (cpus s) = NCPU" "ncpu s = 0"
  shows "\<exists>t. mpinit bd s = Ok () t \<and> ids t = map unat (take NCPU (apicids xs)) \<and>
    ioapicid t = last (ioapicid s # ioapics xs) \<and> lapic t = conf_lapicaddr (bd_mem bd) conf"
proof -
  let ?s = "s\<lparr>lapic := conf_lapicaddr (bd_mem bd) conf\<rparr>"
  have "mp_entries (bd_mem bd) (conf + sizeof_mpconf) (conf + conf_length (bd_mem bd) conf) True ?s = Some (True, fold note_entry xs ?s)"
    using mpinit_entries [OF assms(2) _ assms(4)] assms(3) by (simp add: mp_entries_end)
  moreover have "ids ?s = []" using assms(6) by (simp add: ids_def)
  ultimately show ?thesis
    using assms(1,5,6) note_entries [of ?s xs] by (simp add: mpinit_def Let_def ids_def port_out_def take_map)
qed

theorem mpinit_discovers_processors_witness:
  "\<exists>t. mpinit (demo_board demo_firmware) demo_boot = Ok () t \<and> ids t = [0, 2] \<and> ioapicid t = 5 \<and> lapic t = 0xFEE00000"
proof -
  have "conf_lapicaddr (demo_mem demo_firmware) 0x8009FC10 = 0xFEE00000"
    by (simp add: conf_lapicaddr_def uint_at_def ushort_at_def demo_mem_at demo_firmware_def)
  then show ?thesis
    using mpinit_discovers_processors [of "demo_board demo_firmware" demo_boot "0x8009FC00" "0x8009FC10"
        "[Processor 0, Processor 2, Bus, IoApic 5]"] demo_mpconfig [of demo_firmware demo_boot] demo_tables(1,3)
    by (simp add: table_size_def NCPU_def apicids_def ioapics_def conf_entries_def)
qed

text \<open>C30: an entry of an unknown kind hangs the boot.  If the entries before it are well-formed and it lies inside the table, \<^verbatim>\<open>mpinit\<close>
  never returns: the branch meant to end in the panic \<^verbatim>\<open>Didn't find a suitable machine\<close> keeps examining the same entry.\<close>

theorem mpinit_unknown_entry_hangs:
  assumes "mpconfig (bd_mem bd) s = Ok (Some (mp, conf)) s"
    and "table_at (bd_mem bd) (conf_entries conf) xs"
    and "conf_entries conf + table_size xs < conf_end (bd_mem bd) conf" "conf_end (bd_mem bd) conf < 2 ^ 32"
    and "\<not> known_entry (bd_mem bd (of_nat (conf_entries conf + table_size xs)))"
  shows "mpinit bd s = Diverge"
proof -
  have "(of_nat (conf_entries conf + table_size xs) :: addr) < of_nat (conf_end (bd_mem bd) conf)"
    using assms(3,4) by (simp only: word_less_nat_alt unat_of_nat take_bit_eq_mod) simp
  then have "mp_entries (bd_mem bd) (conf + sizeof_mpconf) (conf + conf_length (bd_mem bd) conf) True
      (s\<lparr>lapic := conf_lapicaddr (bd_mem bd) conf\<rparr>) = None"
    using assms(5) unfolding mpinit_entries [OF assms(2) less_imp_le [OF assms(3)] assms(4)] by (rule mp_entries_unknown)
  then show ?thesis using assms(1) by (simp add: mpinit_def Let_def)
qed

theorem mpinit_unknown_entry_hangs_witness: "mpinit (demo_board demo_odd_firmware) demo_boot = Diverge"
  using mpinit_unknown_entry_hangs [of "demo_board demo_odd_firmware" demo_boot "0x8009FC00" "0x8009FC10" "[Processor 0]"]
    demo_mpconfig [of demo_odd_firmware demo_boot] demo_tables(2,4,5)
  by (simp add: table_size_def known_entry_def mp_codes conf_entries_def)

end
