(* ===== verification/LogSpec.thy ===== *)
theory LogSpec
  imports BioSpec Log
begin

text \<open>
  Crash safety of the write-ahead log.  \<open>recovered\<close> is the disk a recovery would produce: the blocks of
  the log put in their places.  Every block write of \<^verbatim>\<open>commit\<close> but one leaves it as it is; the one that
  changes it is the write of the header, which replaces the old content of all the blocks of the
  transaction by the new one.  No write of \<^verbatim>\<open>recover_from_log\<close> changes it.
\<close>

section \<open>The header block\<close>

lemma get32_put32:
  assumes "off + 4 \<le> length d"
  shows "get32 off (put32 off w d) = w"
proof -
  have "length (take off d) = off" using assms by simp
  then show ?thesis using get_at(2) [of "take off d"] get32_bytes by (simp add: put32_def put_bytes_def)
qed

lemma get32_put32_other:
  assumes "off + 4 \<le> length d" "off' + 4 \<le> length d" "off' + 4 \<le> off \<or> off + 4 \<le> off'"
  shows "get32 off' (put32 off w d) = get32 off' d"
proof -
  have "put_bytes off (bytes32 w) d ! k = d ! k" if "off' \<le> k" "k < off' + 4" for k
    using assms that by (subst nth_put_bytes) auto
  then show ?thesis by (simp add: get32_def put32_def)
qed

lemma length_put32 [simp]: "off + 4 \<le> length d \<Longrightarrow> length (put32 off w d) = length d"
  by (simp add: put32_def)

fun put_entries :: "nat \<Rightarrow> int list \<Rightarrow> block \<Rightarrow> block" where
  "put_entries 0 bs d = d"
| "put_entries (Suc k) bs d = put32 (4 + 4 * k) (word_of_int (bs ! k)) (put_entries k bs d)"

definition head_block :: "int list \<Rightarrow> block \<Rightarrow> block" where
  "head_block bs d = put_entries (length bs) bs (put32 0 (word_of_int (int (length bs))) d)"

lemma put_entries_get:
  assumes "4 + 4 * k \<le> length d"
  shows "length (put_entries k bs d) = length d" "get32 0 (put_entries k bs d) = get32 0 d"
    "i < k \<Longrightarrow> get32 (4 + 4 * i) (put_entries k bs d) = word_of_int (bs ! i)"
proof -
  have "length (put_entries k bs d) = length d \<and> get32 0 (put_entries k bs d) = get32 0 d \<and>
    (\<forall>i < k. get32 (4 + 4 * i) (put_entries k bs d) = word_of_int (bs ! i))"
    using assms
  proof (induction k)
    case (Suc k)
    let ?d = "put_entries k bs d"
    have l: "length ?d = length d" using Suc by simp
    have "get32 (4 + 4 * i) (put_entries (Suc k) bs d) = word_of_int (bs ! i)" if "i < Suc k" for i
    proof (cases "i = k")
      case True
      then show ?thesis using Suc.prems l by (simp add: get32_put32)
    next
      case False
      then have "get32 (4 + 4 * i) (put_entries (Suc k) bs d) = get32 (4 + 4 * i) ?d"
        using Suc.prems l that by (simp add: get32_put32_other)
      then show ?thesis using Suc that False by simp
    qed
    moreover have "get32 0 (put_entries (Suc k) bs d) = get32 0 ?d" "length (put_entries (Suc k) bs d) = length d"
      using Suc.prems l by (simp_all add: get32_put32_other)
    ultimately show ?case using Suc by simp
  qed simp
  then show "length (put_entries k bs d) = length d" "get32 0 (put_entries k bs d) = get32 0 d"
    "i < k \<Longrightarrow> get32 (4 + 4 * i) (put_entries k bs d) = word_of_int (bs ! i)" by blast+
qed

text \<open>The block numbers in the header of the log that starts at block \<open>st\<close>.\<close>

definition header :: "block \<Rightarrow> int list" where
  "header h = map (\<lambda>i. sint (get32 (4 + 4 * i) h)) [0..<nat (sint (get32 0 h))]"

lemma sint_of_int: "0 \<le> x \<Longrightarrow> x < 2147483648 \<Longrightarrow> sint (word_of_int x :: 32 word) = x"
  by (simp add: sint_sbintrunc' signed_take_bit_int_eq_self)

lemma header_head_block:
  assumes "length d = BSIZE" "length bs \<le> LOGSIZE" "\<And>b. b \<in> set bs \<Longrightarrow> 0 \<le> b \<and> b < 2147483648"
  shows "header (head_block bs d) = bs" "length (head_block bs d) = BSIZE"
    "sint (get32 0 (head_block bs d)) = int (length bs)"
proof -
  let ?d = "put32 0 (word_of_int (int (length bs))) d"
  have b: "4 + 4 * length bs \<le> length ?d" using assms(1,2) by (simp add: BSIZE_def LOGSIZE_def MAXOPBLOCKS_def)
  note g = put_entries_get [OF b, where bs = bs]
  have "get32 0 ?d = word_of_int (int (length bs))" using assms(1) by (simp add: get32_put32 BSIZE_def)
  then show n: "sint (get32 0 (head_block bs d)) = int (length bs)"
    using g(2) sint_of_int [of "int (length bs)"] assms(2) by (simp add: head_block_def LOGSIZE_def MAXOPBLOCKS_def)
  show "length (head_block bs d) = BSIZE" using g(1) assms(1) by (simp add: head_block_def BSIZE_def)
  have "sint (get32 (4 + 4 * i) (head_block bs d)) = bs ! i" if "i < length bs" for i
    using g(3) [OF that] assms(3) [OF nth_mem [OF that]] by (simp add: head_block_def sint_of_int)
  then show "header (head_block bs d) = bs"
    unfolding header_def n by (intro nth_equalityI) simp_all
qed

section \<open>Sequences of block writes\<close>

definition write_all :: "(nat \<times> block) list \<Rightarrow> (nat \<Rightarrow> block) \<Rightarrow> nat \<Rightarrow> block" where
  "write_all ws d = foldl (\<lambda>d w. d(fst w := snd w)) d ws"

lemma write_all_simps [simp]:
  "write_all [] d = d" "write_all (ws @ vs) d = write_all vs (write_all ws d)" "write_all ((b, x) # ws) d = write_all ws (d(b := x))"
  by (simp_all add: write_all_def)

lemma write_all_other: "b \<notin> fst ` set ws \<Longrightarrow> write_all ws d b = d b"
  by (induction ws rule: rev_induct) (auto simp: write_all_def)

lemma write_all_lookup:
  "write_all ws d b = (case map_of (rev ws) b of None \<Rightarrow> d b | Some x \<Rightarrow> x)"
  by (induction ws rule: rev_induct) (auto simp: write_all_def)

text \<open>\<open>wrote ws s t\<close>: from \<open>s\<close> to \<open>t\<close> exactly the writes \<open>ws\<close> reached the disk.\<close>

definition wrote :: "(nat \<times> block) list \<Rightarrow> 'a kbio_scheme \<Rightarrow> 'a kbio_scheme \<Rightarrow> bool" where
  "wrote ws s t = (disk t = write_all ws (disk s) \<and> dwrites t = dwrites s @ ws \<and> bio_frame s t)"

lemma wrote_Nil [simp]: "wrote [] s s"
  using bio_frame_upd(1) [of s "bufs s"] by (simp add: wrote_def)

lemma wrote_trans: "wrote ws s t \<Longrightarrow> wrote vs t u \<Longrightarrow> wrote (ws @ vs) s u"
  by (auto simp: wrote_def intro: bio_frame_trans)

lemma for_list_upt:
  assumes "\<And>k s. k < n \<Longrightarrow> I k s \<Longrightarrow> \<exists>t. f k s = Ok () t \<and> I (Suc k) t" "I 0 s"
  shows "\<exists>t. for_list f [0..<n] s = Ok () t \<and> I n t"
  using assms
proof (induction n)
  case (Suc n)
  then obtain u where "for_list f [0..<n] s = Ok () u" "I n u" by (metis less_Suc_eq)
  moreover from this obtain t where "f n u = Ok () t" "I (Suc n) t" using Suc.prems(1) by blast
  ultimately show ?case by (simp add: for_list_append)
qed simp

section \<open>Copying a block\<close>

lemma bread_first:
  assumes "bcache_ok p {} s" "unat w = b" "b < disksize s" "card (dirty s) < NBUF"
  obtains i t where "bread 1 w s = Ok i t" "i < NBUF" "bcache_ok p {i} t" "holds_block (bufs t ! i) b"
    "b_data (bufs t ! i) = content s b" "content t = content s" "dirty t = dirty s" "disk t = disk s"
    "dwrites t = dwrites s" "bio_frame s t"
  by (rule bread_ok [OF assms(1), of w]) (use assms in auto)

lemma bread_second:
  assumes "bcache_ok p {j} s" "holds_block (bufs s ! j) a" "unat w = b" "b < disksize s" "a \<noteq> b"
    "b \<in> dirty s \<or> card (dirty s) + 1 < NBUF"
  obtains i t where "bread 1 w s = Ok i t" "i < NBUF" "i \<noteq> j" "bcache_ok p {i, j} t" "holds_block (bufs t ! i) b"
    "b_data (bufs t ! i) = content s b" "content t = content s" "dirty t = dirty s" "disk t = disk s"
    "dwrites t = dwrites s" "bio_frame s t" "bufs t ! j = bufs s ! j"
proof (rule bread_ok [OF assms(1), of w])
  show "\<not> holds_block (bufs s ! i) (unat w)" if "i \<in> {j}" for i using that assms(2,3,5) by (auto simp: holds_block_def)
  show "unat w < disksize s" "unat w \<in> dirty s \<or> card (dirty s) + card {j} < NBUF" using assms by simp_all
  have j: "j < NBUF" using bcache_okD(5) [OF assms(1)] by simp
  fix i t assume "bread 1 w s = Ok i t" "i < NBUF" "i \<notin> {j}" "bcache_ok p {i, j} t" "holds_block (bufs t ! i) (unat w)"
    "b_data (bufs t ! i) = content s (unat w)" "content t = content s" "dirty t = dirty s" "disk t = disk s"
    "dwrites t = dwrites s" "bio_frame s t" "\<And>k. k < NBUF \<Longrightarrow> k \<noteq> i \<Longrightarrow> bufs t ! k = bufs s ! k"
  then show thesis using that [of i t] assms(3) j by simp
qed

lemma copy_tail:
  assumes ok: "bcache_ok p {i, j} s" and ne: "i \<noteq> j" and a: "holds_block (bufs s ! i) a" and b: "holds_block (bufs s ! j) b"
    and lim: "b < disksize s" and src: "b_data (bufs s ! i) = content s a" "a \<in> dirty s \<or> content s a = disk s a"
  obtains t where "bindo (bwrite j (copy_block j i s)) (\<lambda>_ s. bindo (brelse i s) (\<lambda>_ s. brelse j s)) = Ok () t"
    "bcache_ok p {} t" "content t = (content s)(b := content s a)" "dirty t = dirty s - {b}"
    "wrote [(b, content s a)] s t"
proof -
  note o = bcache_okD [OF ok]
  have l: "i < NBUF" "j < NBUF" using o(5) by auto
  have ab: "a \<noteq> b" using o(6) [OF l] a b ne by blast
  note m = modify_ok [OF ok _ b refl, where f = "\<lambda>_. content s a", simplified]
  let ?u = "upd_buf j (b_data_update (\<lambda>_. content s a)) s"
  have cp: "copy_block j i s = ?u" by (simp add: copy_block_def src)
  have "disksize ?u = disksize s" by (simp add: upd_buf_def)
  then obtain v where v: "bwrite j ?u = Ok () v" "bcache_ok p {i, j} v" "content v = content ?u" "dirty v = dirty ?u - {b}"
    "bio_frame ?u v" "disk v = (disk ?u)(b := b_data (bufs ?u ! j))" "dwrites v = dwrites ?u @ [(b, b_data (bufs ?u ! j))]"
    "\<And>k. k < NBUF \<Longrightarrow> b_data (bufs v ! k) = b_data (bufs ?u ! k)"
    "\<And>k c. k < NBUF \<Longrightarrow> holds_block (bufs v ! k) c = holds_block (bufs ?u ! k) c"
    using bwrite_ok [OF m(1), of j b] b lim m(5) by (auto simp: holds_block_def)
  have vi: "holds_block (bufs v ! i) a" "b_data (bufs v ! i) = content s a" "disk v a = disk s a" "holds_block (bufs v ! j) b"
    "b_data (bufs v ! j) = disk v b"
    using v(6,8,9) l m(5,7) m(6) [of i] a b ne src ab by (simp_all add: holds_block_def)
  have "b_dirty (bufs v ! i)" if "a \<in> dirty s"
  proof -
    have "a \<in> dirty v" using that ab v(4) m(3) by simp
    then obtain k where k: "k < NBUF" "b_dirty (bufs v ! k)" "a = unat (b_blockno (bufs v ! k))" by (auto simp: dirty_def)
    then have "holds_block (bufs v ! k) a" using bcache_okD(7) [OF v(2) k(1)] by (simp add: slot_ok_def Let_def holds_block_def)
    then show ?thesis using bcache_okD(6) [OF v(2) k(1) l(1) _ vi(1)] k(2) by blast
  qed
  then have sv: "b_dirty (bufs v ! i) \<or> b_data (bufs v ! i) = disk v a" using src(2) vi by auto
  obtain w where w: "brelse i v = Ok () w" "bcache_ok p ({i, j} - {i}) w" "content w = content v" "dirty w = dirty v"
    "bio_frame v w" "disk w = disk v" "dwrites w = dwrites v" "\<forall>k. k \<noteq> i \<longrightarrow> bufs w ! k = bufs v ! k"
    by (rule brelse_ok [OF v(2) insertI1 vi(1) sv])
  have H: "{i, j} - {i} = {j}" using ne by auto
  have wj: "holds_block (bufs w ! j) b" "b_dirty (bufs w ! j) \<or> b_data (bufs w ! j) = disk w b"
    using w(6) w(8) [rule_format, of j] vi ne by auto
  obtain t where t: "brelse j w = Ok () t" "bcache_ok p ({j} - {j}) t" "content t = content w" "dirty t = dirty w"
    "bio_frame w t" "disk t = disk w" "dwrites t = dwrites w" "\<forall>k. k \<noteq> j \<longrightarrow> bufs t ! k = bufs w ! k"
    by (rule brelse_ok [OF w(2) [unfolded H] singletonI wj])
  have fr: "bio_frame s t" using bio_frame_trans [OF bio_frame_trans [OF bio_frame_trans [OF m(4) v(5)] w(5)] t(5)] .
  have "content t = (content s)(b := content s a)" using t(3) w(3) v(3) m(2) by simp
  moreover have "dirty t = dirty s - {b}" using t(4) w(4) v(4) m(3) by simp
  moreover have "wrote [(b, content s a)] s t" using fr t(6,7) w(6,7) v(6,7) m(5,7,8) by (simp add: wrote_def)
  moreover have "bcache_ok p {} t" using t(2) by simp
  ultimately show thesis using that [of t] cp v(1) w(1) t(1) by simp
qed

section \<open>The state of the log\<close>

definition log_area :: "'a klog_scheme \<Rightarrow> nat set" where
  "log_area s = {nat (log_start s)..<nat (log_start s + log_size s)}"

text \<open>A transaction on the blocks \<open>bs\<close> is in the header in memory; only blocks of the transaction have
  content that the disk does not have yet.\<close>

definition log_ok :: "nat \<Rightarrow> nat list \<Rightarrow> 'a klog_scheme \<Rightarrow> bool" where
  "log_ok p bs s =
     (bcache_ok p {} s \<and> log_dev s = 1 \<and> 0 \<le> log_start s \<and> log_start s + log_size s \<le> int (disksize s) \<and>
      disksize s \<le> 2147483648 \<and> length (disk s (nat (log_start s))) = BSIZE \<and>
      lh_n s = int (length bs) \<and> length (lh_block s) = LOGSIZE \<and> take (length bs) (lh_block s) = map int bs \<and>
      length bs < NBUF \<and> int (length bs) < log_size s \<and>
      (\<forall>b \<in> set bs. b < disksize s \<and> b \<notin> log_area s) \<and> dirty s \<subseteq> set bs)"

lemma log_okD:
  assumes "log_ok p bs s"
  shows "bcache_ok p {} s" "log_dev s = 1" "0 \<le> log_start s" "log_start s + log_size s \<le> int (disksize s)"
    "disksize s \<le> 2147483648" "length (disk s (nat (log_start s))) = BSIZE" "lh_n s = int (length bs)"
    "length (lh_block s) = LOGSIZE" "take (length bs) (lh_block s) = map int bs" "length bs < NBUF"
    "int (length bs) < log_size s" "b \<in> set bs \<Longrightarrow> b < disksize s \<and> b \<notin> log_area s" "dirty s \<subseteq> set bs"
  using assms by (simp_all add: log_ok_def)

lemma bio_frame_log:
  assumes "bio_frame s t"
  shows "log_start t = log_start s" "log_size t = log_size s" "log_dev t = log_dev s" "lh_n t = lh_n s"
    "lh_block t = lh_block s" "disksize t = disksize s" "log_area t = log_area s"
    "log_outstanding t = log_outstanding s" "log_committing t = log_committing s"
  using assms by (auto simp: bio_frame_def log_area_def)

lemma wrote_log:
  assumes "wrote ws s t"
  shows "log_start t = log_start s" "log_size t = log_size s" "disksize t = disksize s" "lh_block t = lh_block s"
  using assms bio_frame_log [of s t] by (simp_all add: wrote_def)

lemma log_ok_step:
  assumes "log_ok p bs s" "bcache_ok p {} t" "bio_frame s t" "dirty t \<subseteq> dirty s"
    "length (disk t (nat (log_start s))) = BSIZE"
  shows "log_ok p bs t"
  using assms log_okD [OF assms(1)] bio_frame_log [OF assms(3)] by (auto simp: log_ok_def)

lemma log_numbers:
  assumes ok: "log_ok p bs s" and k: "k < length bs"
  defines "l \<equiv> nat (log_start s) + k + 1"
  shows "unat (word_of_int (log_start s + int k + 1) :: 32 word) = l" "unat (word_of_int (lh_block s ! k) :: 32 word) = bs ! k"
    "l < disksize s" "bs ! k < disksize s" "l \<in> log_area s" "bs ! k \<notin> log_area s" "l \<noteq> bs ! k" "l \<noteq> nat (log_start s)"
    "l \<notin> dirty s" "bs ! k \<noteq> nat (log_start s)" "card (dirty s) < NBUF"
proof -
  note o = log_okD [OF ok]
  have u: "unat (word_of_int x :: 32 word) = nat x" if "0 \<le> x" "x < 2147483648" for x
    using that by (simp add: unat_eq_nat_uint uint_word_of_int_eq take_bit_int_eq_self)
  show l: "l < disksize s" "l \<in> log_area s" "l \<noteq> nat (log_start s)" using o k by (auto simp: l_def log_area_def)
  have "nat (log_start s) \<in> log_area s" using o k by (auto simp: log_area_def)
  then show b: "bs ! k < disksize s" "bs ! k \<notin> log_area s" "l \<noteq> bs ! k" "bs ! k \<noteq> nat (log_start s)"
    using o(12) [OF nth_mem [OF k]] l(2) by auto
  show "l \<notin> dirty s" using l(2) o(12,13) by blast
  show "unat (word_of_int (log_start s + int k + 1) :: 32 word) = l"
    using u [of "log_start s + int k + 1"] o k l(1) by (simp add: l_def nat_add_distrib)
  have "lh_block s ! k = int (bs ! k)" using o(9) k by (metis nth_map nth_take)
  then show "unat (word_of_int (lh_block s ! k) :: 32 word) = bs ! k" using u [of "int (bs ! k)"] b(1) o(5) by simp
  show "card (dirty s) < NBUF"
    using card_mono [OF finite_set o(13)] card_length [of bs] o(10) by linarith
qed

section \<open>Copying into the log and out of it\<close>

lemma write_log_one_ok:
  assumes ok: "log_ok p bs s" and k: "k < length bs" and room: "bs ! k \<in> dirty s \<or> card (dirty s) + 1 < NBUF"
  defines "l \<equiv> nat (log_start s) + k + 1"
  obtains t where "write_log_one k s = Ok () t" "log_ok p bs t" "content t = (content s)(l := content s (bs ! k))"
    "dirty t = dirty s" "wrote [(l, content s (bs ! k))] s t"
proof -
  note o = log_okD [OF ok] and n = log_numbers [OF ok k, folded l_def]
  obtain j u where u: "bread 1 (word_of_int (log_start s + int k + 1)) s = Ok j u" "j < NBUF" "bcache_ok p {j} u"
    "holds_block (bufs u ! j) l" "b_data (bufs u ! j) = content s l" "content u = content s" "dirty u = dirty s"
    "disk u = disk s" "dwrites u = dwrites s" "bio_frame s u"
    by (rule bread_first [OF o(1) n(1,3,11)])
  note fu = bio_frame_log [OF u(10)]
  have h: "bs ! k < disksize u" "bs ! k \<in> dirty u \<or> card (dirty u) + 1 < NBUF" using room n(4) fu u(7) by simp_all
  obtain i v where v: "bread 1 (word_of_int (lh_block s ! k)) u = Ok i v" "i < NBUF" "i \<noteq> j" "bcache_ok p {i, j} v"
    "holds_block (bufs v ! i) (bs ! k)" "b_data (bufs v ! i) = content u (bs ! k)" "content v = content u" "dirty v = dirty u"
    "disk v = disk u" "dwrites v = dwrites u" "bio_frame u v" "bufs v ! j = bufs u ! j"
    by (rule bread_second [OF u(3,4) n(2) h(1) n(7) h(2)])
  note v = v [unfolded u(6-9)]
  note fv = bio_frame_log [OF v(11)]
  have src: "bs ! k \<in> dirty v \<or> content v (bs ! k) = disk v (bs ! k)"
    using content_clean [OF o(1), of "bs ! k"] v by auto
  have c: "holds_block (bufs v ! j) l" "l < disksize v" "b_data (bufs v ! i) = content v (bs ! k)" using u(4) v(6,7,12) n(3) fu fv by simp_all
  obtain t where t: "bindo (bwrite j (copy_block j i v)) (\<lambda>_ s. bindo (brelse i s) (\<lambda>_ s. brelse j s)) = Ok () t"
    "bcache_ok p {} t" "content t = (content v)(l := content v (bs ! k))" "dirty t = dirty v - {l}"
    "wrote [(l, content v (bs ! k))] v t"
    by (rule copy_tail [OF v(4,3,5) c(1,2) c(3) src])
  have w: "wrote [(l, content s (bs ! k))] s t"
    using t(5) v(7,9,10) bio_frame_trans [OF bio_frame_trans [OF u(10) v(11)]] by (auto simp: wrote_def)
  have d: "dirty t = dirty s" using t(4) v(8) n(9) by auto
  have "log_ok p bs t" by (rule log_ok_step [OF ok t(2)]) (use w d n(8) o(6) in \<open>auto simp: wrote_def\<close>)
  moreover have "write_log_one k s = Ok () t" using u(1) v(1) t(1) o(2) fu by (simp add: write_log_one_def)
  ultimately show thesis using that d w t(3) v(7) by simp
qed

lemma install_one_ok:
  assumes ok: "log_ok p bs s" and k: "k < length bs" and room: "bs ! k \<in> dirty s \<or> card (dirty s) + 1 < NBUF"
  defines "l \<equiv> nat (log_start s) + k + 1"
  obtains t where "install_one k s = Ok () t" "log_ok p bs t" "content t = (content s)(bs ! k := content s l)"
    "dirty t = dirty s - {bs ! k}" "wrote [(bs ! k, content s l)] s t"
proof -
  note o = log_okD [OF ok] and n = log_numbers [OF ok k, folded l_def]
  obtain i u where u: "bread 1 (word_of_int (log_start s + int k + 1)) s = Ok i u" "i < NBUF" "bcache_ok p {i} u"
    "holds_block (bufs u ! i) l" "b_data (bufs u ! i) = content s l" "content u = content s" "dirty u = dirty s"
    "disk u = disk s" "dwrites u = dwrites s" "bio_frame s u"
    by (rule bread_first [OF o(1) n(1,3,11)])
  note fu = bio_frame_log [OF u(10)]
  have h: "bs ! k < disksize u" "bs ! k \<in> dirty u \<or> card (dirty u) + 1 < NBUF" using room n(4) fu u(7) by simp_all
  obtain j v where v: "bread 1 (word_of_int (lh_block s ! k)) u = Ok j v" "j < NBUF" "j \<noteq> i" "bcache_ok p {j, i} v"
    "holds_block (bufs v ! j) (bs ! k)" "b_data (bufs v ! j) = content u (bs ! k)" "content v = content u"
    "dirty v = dirty u" "disk v = disk u" "dwrites v = dwrites u" "bio_frame u v" "bufs v ! i = bufs u ! i"
    by (rule bread_second [OF u(3,4) n(2) h(1) n(7) h(2)])
  note v = v [unfolded u(6-9)] and v4 = v(4) [unfolded insert_commute [of j i "{}"]]
  note fv = bio_frame_log [OF v(11)]
  have src: "l \<in> dirty v \<or> content v l = disk v l"
    using content_clean [OF o(1), of l] v by auto
  have c: "holds_block (bufs v ! i) l" "bs ! k < disksize v" "b_data (bufs v ! i) = content v l"
    using u(4,5) v(7,12) n(4) fu fv by simp_all
  obtain t where t: "bindo (bwrite j (copy_block j i v)) (\<lambda>_ s. bindo (brelse i s) (\<lambda>_ s. brelse j s)) = Ok () t"
    "bcache_ok p {} t" "content t = (content v)(bs ! k := content v l)" "dirty t = dirty v - {bs ! k}"
    "wrote [(bs ! k, content v l)] v t"
    by (rule copy_tail [OF v4 v(3) [symmetric] c(1) v(5) c(2,3) src])
  have w: "wrote [(bs ! k, content s l)] s t"
    using t(5) v(7,9,10) bio_frame_trans [OF bio_frame_trans [OF u(10) v(11)]] by (auto simp: wrote_def)
  have d: "dirty t = dirty s - {bs ! k}" using t(4) v(8) by auto
  have "log_ok p bs t" by (rule log_ok_step [OF ok t(2)]) (use w d n(10) o(6) in \<open>auto simp: wrote_def\<close>)
  moreover have "install_one k s = Ok () t" using u(1) v(1) t(1) o(2) fu by (simp add: install_one_def)
  ultimately show thesis using that d w t(3) v(7) by simp
qed

section \<open>The loops\<close>

definition log_writes :: "nat \<Rightarrow> nat list \<Rightarrow> (nat \<Rightarrow> block) \<Rightarrow> (nat \<times> block) list" where
  "log_writes st bs c = map (\<lambda>k. (st + k + 1, c (bs ! k))) [0..<length bs]"

definition home_writes :: "nat \<Rightarrow> nat list \<Rightarrow> (nat \<Rightarrow> block) \<Rightarrow> (nat \<times> block) list" where
  "home_writes st bs c = map (\<lambda>k. (bs ! k, c (st + k + 1))) [0..<length bs]"

lemma writes_nth [simp]:
  "k < length bs \<Longrightarrow> log_writes st bs c ! k = (st + k + 1, c (bs ! k))"
  "k < length bs \<Longrightarrow> home_writes st bs c ! k = (bs ! k, c (st + k + 1))"
  "length (log_writes st bs c) = length bs" "length (home_writes st bs c) = length bs"
  by (simp_all add: log_writes_def home_writes_def)

lemma writes_dom:
  "fst ` set (log_writes st bs c) = {st + 1..<st + 1 + length bs}" "fst ` set (home_writes st bs c) = set bs"
proof -
  show "fst ` set (log_writes st bs c) = {st + 1..<st + 1 + length bs}"
    by (force simp: log_writes_def image_iff dest: le_Suc_ex)
  show "fst ` set (home_writes st bs c) = set bs" by (force simp: home_writes_def image_iff in_set_conv_nth)
qed

lemma write_log_ok:
  assumes ok: "log_ok p bs s" and all: "dirty s = set bs"
  defines "W \<equiv> log_writes (nat (log_start s)) bs (content s)"
  obtains t where "write_log s = Ok () t" "log_ok p bs t" "dirty t = dirty s" "wrote W s t" "content t = write_all W (content s)"
proof -
  note o = log_okD [OF ok]
  let ?I = "\<lambda>k t. log_ok p bs t \<and> dirty t = dirty s \<and> wrote (take k W) s t \<and> content t = write_all (take k W) (content s)"
  have step: "\<exists>v. write_log_one k u = Ok () v \<and> ?I (Suc k) v" if k: "k < length bs" and u: "?I k u" for k u
  proof -
    have st: "log_start u = log_start s" using u wrote_log(1) by blast
    have "bs ! k \<in> dirty u" using u all k by simp
    then obtain v where v: "write_log_one k u = Ok () v" "log_ok p bs v"
      "content v = (content u)(nat (log_start s) + k + 1 := content u (bs ! k))" "dirty v = dirty u"
      "wrote [(nat (log_start s) + k + 1, content u (bs ! k))] u v"
      using write_log_one_ok [of p bs u k] u k unfolding st by blast
    have "bs ! k \<notin> fst ` set (take k W)"
    proof
      assume "bs ! k \<in> fst ` set (take k W)"
      then have "bs ! k \<in> fst ` set W" using set_take_subset by fast
      then have "bs ! k \<in> {nat (log_start s) + 1..<nat (log_start s) + 1 + length bs}" unfolding W_def writes_dom .
      then have "bs ! k \<in> log_area s" using o(3,11) by (auto simp: log_area_def)
      then show False using o(12) k by simp
    qed
    then have c: "content u (bs ! k) = content s (bs ! k)" using u by (simp add: write_all_other)
    have "take (Suc k) W = take k W @ [(nat (log_start s) + k + 1, content s (bs ! k))]"
      using k by (simp add: W_def take_Suc_conv_app_nth)
    then show ?thesis using v u wrote_trans [of "take k W" s u _ v] c by simp
  qed
  have "?I 0 s" using ok by simp
  from for_list_upt [of "length bs" ?I write_log_one, OF step this] obtain t where
    "for_list write_log_one [0..<length bs] s = Ok () t" "?I (length bs) t" by blast
  then show thesis using that [of t] o(7) by (simp add: write_log_def W_def)
qed

lemma install_trans_ok:
  assumes ok: "log_ok p bs s" and room: "distinct bs \<and> dirty s = set bs \<or> dirty s = {}"
  defines "W \<equiv> home_writes (nat (log_start s)) bs (content s)"
  obtains t where "install_trans s = Ok () t" "log_ok p bs t" "dirty t = {}" "wrote W s t" "content t = write_all W (content s)"
proof -
  note o = log_okD [OF ok]
  let ?I = "\<lambda>k t. log_ok p bs t \<and> dirty t = dirty s - set (take k bs) \<and> wrote (take k W) s t \<and>
    content t = write_all (take k W) (content s)"
  have step: "\<exists>v. install_one k u = Ok () v \<and> ?I (Suc k) v" if k: "k < length bs" and u: "?I k u" for k u
  proof -
    let ?l = "nat (log_start s) + k + 1"
    have st: "log_start u = log_start s" using u wrote_log(1) by blast
    have "bs ! k \<notin> set (take k bs)" if "distinct bs"
      using that k id_take_nth_drop [OF k] by (metis disjoint_insert(2) distinct_append list.simps(15))
    then have "bs ! k \<in> dirty u \<or> card (dirty u) + 1 < NBUF" using u room k by (auto simp: NBUF_def)
    then obtain v where v: "install_one k u = Ok () v" "log_ok p bs v" "content v = (content u)(bs ! k := content u ?l)"
      "dirty v = dirty u - {bs ! k}" "wrote [(bs ! k, content u ?l)] u v"
      using install_one_ok [of p bs u k] u k unfolding st by blast
    have "?l \<in> log_area s" using o(3,11) k by (auto simp: log_area_def)
    then have "?l \<notin> set bs" using o(12) by blast
    then have "?l \<notin> fst ` set (take k W)" using writes_dom(2) [of "nat (log_start s)" bs "content s"] set_take_subset [of k W]
      unfolding W_def by blast
    then have c: "content u ?l = content s ?l" using u by (simp add: write_all_other)
    have "take (Suc k) W = take k W @ [(bs ! k, content s ?l)]" "take (Suc k) bs = take k bs @ [bs ! k]"
      using k by (simp_all add: W_def take_Suc_conv_app_nth)
    then show ?thesis using v u wrote_trans [of "take k W" s u _ v] c by auto
  qed
  have "?I 0 s" using ok by simp
  from for_list_upt [of "length bs" ?I install_one, OF step this] obtain t where
    "for_list install_one [0..<length bs] s = Ok () t" "?I (length bs) t" by blast
  then show thesis using that [of t] o(7) room by (auto simp: install_trans_def W_def)
qed

lemma log_start_facts:
  assumes "log_ok p bs s"
  shows "nat (log_start s) < disksize s" "nat (log_start s) \<in> log_area s" "nat (log_start s) \<notin> dirty s"
    "unat (word_of_int (log_start s) :: 32 word) = nat (log_start s)" "card (dirty s) < NBUF"
    "content s (nat (log_start s)) = disk s (nat (log_start s))"
proof -
  note o = log_okD [OF assms]
  show a: "nat (log_start s) < disksize s" "nat (log_start s) \<in> log_area s" using o by (auto simp: log_area_def)
  then show d: "nat (log_start s) \<notin> dirty s" using o(12,13) by blast
  show "unat (word_of_int (log_start s) :: 32 word) = nat (log_start s)"
    using o(3,5) a(1) by (simp add: unat_eq_nat_uint uint_word_of_int_eq take_bit_int_eq_self)
  show "card (dirty s) < NBUF" using card_mono [OF finite_set o(13)] card_length [of bs] o(10) by linarith
  show "content s (nat (log_start s)) = disk s (nat (log_start s))" by (rule content_clean [OF o(1) d]) simp
qed

lemma put_entries_cong: "(\<And>i. i < k \<Longrightarrow> bs ! i = cs ! i) \<Longrightarrow> put_entries k bs d = put_entries k cs d"
  by (induction k) simp_all

lemma log_block_nth: "log_ok p bs s \<Longrightarrow> i < length bs \<Longrightarrow> lh_block s ! i = map int bs ! i"
  using log_okD(9) [of p bs s] by (metis nth_take)

lemma write_entries_ok:
  assumes ok: "bcache_ok p {i} s" and b: "holds_block (bufs s ! i) b" and n: "n \<le> LOGSIZE"
  obtains t where "for_list (write_head_entry i) [0..<n] s = Ok () t" "bcache_ok p {i} t" "holds_block (bufs t ! i) b"
    "b_data (bufs t ! i) = put_entries n (lh_block s) (b_data (bufs s ! i))"
    "content t = (content s)(b := put_entries n (lh_block s) (b_data (bufs s ! i)))" "dirty t = dirty s"
    "bio_frame s t" "disk t = disk s" "dwrites t = dwrites s"
proof -
  let ?d = "\<lambda>k. put_entries k (lh_block s) (b_data (bufs s ! i))"
  let ?I = "\<lambda>k t. bcache_ok p {i} t \<and> holds_block (bufs t ! i) b \<and> b_data (bufs t ! i) = ?d k \<and>
    content t = (content s)(b := ?d k) \<and> dirty t = dirty s \<and> bio_frame s t \<and> disk t = disk s \<and> dwrites t = dwrites s"
  have step: "\<exists>v. write_head_entry i k u = Ok () v \<and> ?I (Suc k) v" if k: "k < n" and u: "?I k u" for k u
  proof -
    let ?v = "upd_buf i (\<lambda>x. x\<lparr>b_data := put32 (4 + 4 * k) (word_of_int (lh_block s ! k)) (b_data x)\<rparr>) u"
    have h: "bcache_ok p {i} u" "holds_block (bufs u ! i) b" "lh_block u = lh_block s" "bio_frame s u"
      using u bio_frame_log(5) by auto
    note m = modify_ok [OF h(1) singletonI h(2) refl, where f = "\<lambda>x. put32 (4 + 4 * k) (word_of_int (lh_block s ! k)) (b_data x)"]
    have "write_head_entry i k u = Ok () ?v" using k n h(3) by (simp add: write_head_entry_def)
    moreover have "holds_block (bufs ?v ! i) b" using m(5) h(2) by (simp add: holds_block_def)
    ultimately show ?thesis using m bio_frame_trans [OF h(4) m(4)] u by (intro exI [of _ ?v]) simp
  qed
  have "i < NBUF" using bcache_okD(5) [OF ok] by simp
  then have "content s b = b_data (bufs s ! i)" using content_valid [OF ok _ b] held_slot(4) [OF ok] by simp
  then have "?I 0 s" using ok b wrote_Nil [of s] by (auto simp: wrote_def)
  from for_list_upt [of n ?I "write_head_entry i", OF step this] obtain t where
    "for_list (write_head_entry i) [0..<n] s = Ok () t" "?I n t" by blast
  then show thesis using that [of t] by simp
qed

lemma write_head_ok:
  assumes ok: "log_ok p bs s"
  defines "h \<equiv> head_block (map int bs) (disk s (nat (log_start s)))"
  obtains t where "write_head s = Ok () t" "log_ok p bs t" "dirty t = dirty s"
    "wrote [(nat (log_start s), h)] s t" "content t = (content s)(nat (log_start s) := h)"
proof -
  note o = log_okD [OF ok] and n = log_start_facts [OF ok]
  let ?st = "nat (log_start s)"
  obtain i u where u: "bread 1 (word_of_int (log_start s)) s = Ok i u" "i < NBUF" "bcache_ok p {i} u"
    "holds_block (bufs u ! i) ?st" "b_data (bufs u ! i) = content s ?st" "content u = content s" "dirty u = dirty s"
    "disk u = disk s" "dwrites u = dwrites s" "bio_frame s u"
    by (rule bread_first [OF o(1) n(4,1,5)])
  note fu = bio_frame_log [OF u(10)]
  note m = modify_ok [OF u(3) singletonI u(4) refl, where f = "\<lambda>x. put32 0 (word_of_int (int (length bs))) (b_data x)"]
  let ?v = "upd_buf i (\<lambda>x. x\<lparr>b_data := put32 0 (word_of_int (int (length bs))) (b_data x)\<rparr>) u"
  note fv = bio_frame_log [OF m(4)]
  have hv: "holds_block (bufs ?v ! i) ?st" using m(5) u(4) by (simp add: holds_block_def)
  have len: "length bs \<le> LOGSIZE" using o(10) by (simp add: NBUF_def LOGSIZE_def MAXOPBLOCKS_def)
  obtain w where w: "for_list (write_head_entry i) [0..<length bs] ?v = Ok () w" "bcache_ok p {i} w"
    "holds_block (bufs w ! i) ?st" "b_data (bufs w ! i) = put_entries (length bs) (lh_block ?v) (b_data (bufs ?v ! i))"
    "content w = (content ?v)(?st := put_entries (length bs) (lh_block ?v) (b_data (bufs ?v ! i)))" "dirty w = dirty ?v"
    "bio_frame ?v w" "disk w = disk ?v" "dwrites w = dwrites ?v"
    by (rule write_entries_ok [OF m(1) hv len])
  note fw = bio_frame_log [OF w(7)]
  have "put_entries (length bs) (lh_block ?v) (b_data (bufs ?v ! i)) = h"
    using put_entries_cong [of "length bs" "lh_block s" "map int bs"] log_block_nth [OF ok] m(5) u(5) n(6) fv fu
    by (simp add: h_def head_block_def)
  note w = w [unfolded this]
  have lim: "?st < disksize w" using n(1) fu fv fw by simp
  obtain x where x: "bwrite i w = Ok () x" "bcache_ok p {i} x" "content x = content w" "dirty x = dirty w - {?st}"
    "bio_frame w x" "disk x = (disk w)(?st := b_data (bufs w ! i))" "dwrites x = dwrites w @ [(?st, b_data (bufs w ! i))]"
    "b_data (bufs x ! i) = b_data (bufs w ! i)" "holds_block (bufs x ! i) ?st"
    using bwrite_ok [OF w(2) singletonI w(3) lim] u(2) w(3) by metis
  have sv: "b_dirty (bufs x ! i) \<or> b_data (bufs x ! i) = disk x ?st" using x(6,8) by simp
  obtain t where t: "brelse i x = Ok () t" "bcache_ok p ({i} - {i}) t" "content t = content x" "dirty t = dirty x"
    "bio_frame x t" "disk t = disk x" "dwrites t = dwrites x" "\<forall>k. k \<noteq> i \<longrightarrow> bufs t ! k = bufs x ! k"
    by (rule brelse_ok [OF x(2) singletonI x(9) sv])
  have fr: "bio_frame s t"
    using bio_frame_trans [OF bio_frame_trans [OF bio_frame_trans [OF bio_frame_trans [OF u(10) m(4)] w(7)] x(5)] t(5)] .
  have d: "dirty t = dirty s" using t(4) x(4) w(6) m(3) u(7) n(3) by simp
  have wr: "wrote [(?st, h)] s t" using fr t(6,7) x(6,7) w(4,8,9) m(7,8) u(8,9) by (simp add: wrote_def)
  have "length h = BSIZE"
    unfolding h_def by (rule header_head_block(2) [OF o(6)]) (use len o(5,12) in force)+
  then have "log_ok p bs t" using log_ok_step [OF ok, of t] t(2) fr d wr by (simp add: wrote_def)
  moreover have "write_head s = Ok () t" using u(1) w(1) x(1) t(1) o(2,7) fu fv by (simp add: write_head_def)
  moreover have "content t = (content s)(?st := h)" using t(3) x(3) w(5) m(2) u(6) by simp
  ultimately show thesis using that d wr by blast
qed

section \<open>Commit\<close>

lemma klog_frame [simp]:
  "bcache_ok p H (s\<lparr>lh_n := a\<rparr>) = bcache_ok p H s" "bcache_ok p H (s\<lparr>lh_block := b\<rparr>) = bcache_ok p H s"
  "bcache_ok p H (s\<lparr>log_outstanding := c\<rparr>) = bcache_ok p H s" "bcache_ok p H (s\<lparr>log_committing := d\<rparr>) = bcache_ok p H s"
  "content (s\<lparr>lh_n := a\<rparr>) = content s" "content (s\<lparr>lh_block := b\<rparr>) = content s"
  "content (s\<lparr>log_outstanding := c\<rparr>) = content s" "content (s\<lparr>log_committing := d\<rparr>) = content s"
  "dirty (s\<lparr>lh_n := a\<rparr>) = dirty s" "dirty (s\<lparr>lh_block := b\<rparr>) = dirty s"
  "dirty (s\<lparr>log_outstanding := c\<rparr>) = dirty s" "dirty (s\<lparr>log_committing := d\<rparr>) = dirty s"
  "log_area (s\<lparr>lh_n := a\<rparr>) = log_area s" "log_area (s\<lparr>lh_block := b\<rparr>) = log_area s"
  "log_area (s\<lparr>log_outstanding := c\<rparr>) = log_area s" "log_area (s\<lparr>log_committing := d\<rparr>) = log_area s"
  by (simp_all add: bcache_ok_def quiet_def slot_ok_def my_def cpu_ok_def cpu_index_def lock_free_def content_def [abs_def]
      dirty_def log_area_def cong: option.case_cong)

lemma log_ok_frame [simp]:
  "log_ok p bs (s\<lparr>log_outstanding := c\<rparr>) = log_ok p bs s" "log_ok p bs (s\<lparr>log_committing := d\<rparr>) = log_ok p bs s"
  by (simp_all add: log_ok_def)

lemma log_ok_reset: "log_ok p bs s \<Longrightarrow> dirty s = {} \<Longrightarrow> log_ok p [] (s\<lparr>lh_n := 0\<rparr>)"
  by (auto simp: log_ok_def NBUF_def)

definition commit_writes :: "nat \<Rightarrow> nat list \<Rightarrow> (nat \<Rightarrow> block) \<Rightarrow> block \<Rightarrow> (nat \<times> block) list" where
  "commit_writes st bs c h =
     log_writes st bs c @ [(st, head_block (map int bs) h)] @ map (\<lambda>b. (b, c b)) bs @
     [(st, head_block [] (head_block (map int bs) h))]"

lemma log_writes_lookup:
  assumes "k < length bs"
  shows "write_all (log_writes st bs c) d (st + k + 1) = c (bs ! k)"
proof -
  let ?W = "log_writes st bs c"
  have "distinct (map fst (rev ?W))"
    by (simp add: log_writes_def rev_map [symmetric] distinct_map inj_on_def comp_def)
  moreover have "(st + k + 1, c (bs ! k)) \<in> set (rev ?W)" using assms by (auto simp: log_writes_def)
  ultimately have "map_of (rev ?W) (st + k + 1) = Some (c (bs ! k))" by (rule map_of_is_SomeI)
  then show ?thesis by (simp add: write_all_lookup)
qed

lemma home_writes_eq:
  assumes "\<And>k. k < length bs \<Longrightarrow> c (st + k + 1) = f (bs ! k)"
  shows "home_writes st bs c = map (\<lambda>b. (b, f b)) bs"
  using assms by (intro nth_equalityI) simp_all

lemma commit_ok:
  assumes ok: "log_ok p bs s" and bs: "bs \<noteq> []" "distinct bs" "dirty s = set bs"
  defines "W \<equiv> commit_writes (nat (log_start s)) bs (content s) (disk s (nat (log_start s)))"
  obtains t where "commit s = Ok () t" "log_ok p [] t" "disk t = write_all W (disk s)" "dwrites t = dwrites s @ W"
    "log_start t = log_start s" "log_size t = log_size s"
proof -
  note o = log_okD [OF ok]
  let ?st = "nat (log_start s)" and ?h = "head_block (map int bs) (disk s (nat (log_start s)))"
  let ?L = "log_writes (nat (log_start s)) bs (content s)"
  obtain t1 where t1: "write_log s = Ok () t1" "log_ok p bs t1" "dirty t1 = dirty s" "wrote ?L s t1" "content t1 = write_all ?L (content s)"
    by (rule write_log_ok [OF ok bs(3)])
  have st1: "log_start t1 = log_start s" by (rule wrote_log [OF t1(4)])
  have "?st \<notin> fst ` set ?L" unfolding writes_dom by simp
  then have d1: "disk t1 ?st = disk s ?st" using t1(4) by (simp add: wrote_def write_all_other)
  obtain t2 where t2: "write_head t1 = Ok () t2" "log_ok p bs t2" "dirty t2 = dirty t1" "wrote [(?st, ?h)] t1 t2"
    "content t2 = (content t1)(?st := ?h)"
    using write_head_ok [OF t1(2)] unfolding st1 d1 by blast
  have st2: "log_start t2 = log_start s" using wrote_log [OF t2(4)] st1 by simp
  have "home_writes ?st bs (content t2) = map (\<lambda>b. (b, content s b)) bs" (is "_ = ?H")
    by (rule home_writes_eq) (simp add: t2(5) t1(5) log_writes_lookup [simplified])
  moreover have "distinct bs \<and> dirty t2 = set bs \<or> dirty t2 = {}" using bs t2(3) t1(3) by simp
  ultimately obtain t3 where t3: "install_trans t2 = Ok () t3" "log_ok p bs t3" "dirty t3 = {}" "wrote ?H t2 t3"
    using install_trans_ok [OF t2(2)] st2 by metis
  have st3: "log_start t3 = log_start s" using wrote_log [OF t3(4)] st2 by simp
  have "?st \<notin> fst ` set ?H" using log_start_facts(2) [OF ok] o(12) by auto
  then have d3: "disk (t3\<lparr>lh_n := 0\<rparr>) ?st = ?h"
    using t3(4) t2(4) by (simp add: wrote_def write_all_other)
  let ?t3 = "t3\<lparr>lh_n := 0\<rparr>"
  have ok3: "log_ok p [] ?t3" by (rule log_ok_reset [OF t3(2,3)])
  have st3': "log_start ?t3 = log_start s" using st3 by simp
  obtain t where t: "write_head ?t3 = Ok () t" "log_ok p [] t" "wrote [(?st, head_block [] ?h)] ?t3 t"
    using write_head_ok [OF ok3] unfolding st3' d3 by auto
  have "commit s = Ok () t" using t1(1) t2(1) t3(1) t(1) o(7) bs(1) by (simp add: commit_def)
  moreover have "disk t = write_all W (disk s)" "dwrites t = dwrites s @ W"
    using t1(4) t2(4) t3(4) t(3) by (simp_all add: wrote_def W_def commit_writes_def)
  moreover have "log_start t = log_start s" "log_size t = log_size s"
    using wrote_log [OF t1(4)] wrote_log [OF t2(4)] wrote_log [OF t3(4)] wrote_log [OF t(3)] by simp_all
  ultimately show thesis using that t(2) by blast
qed

section \<open>Recovery\<close>

text \<open>A log on disk that recovery can read, and the disk that recovery makes of it.\<close>

definition logdisk_ok :: "nat \<Rightarrow> nat \<Rightarrow> nat \<Rightarrow> (nat \<Rightarrow> block) \<Rightarrow> bool" where
  "logdisk_ok st len lim d =
     (length (d st) = BSIZE \<and> 0 \<le> sint (get32 0 (d st)) \<and> length (header (d st)) < min len NBUF \<and>
      (\<forall>b \<in> set (header (d st)). 0 \<le> b \<and> b < int lim \<and> nat b \<notin> {st..<st + len}))"

definition recovered :: "nat \<Rightarrow> (nat \<Rightarrow> block) \<Rightarrow> nat \<Rightarrow> block" where
  "recovered st d = write_all (home_writes st (map nat (header (d st))) d) d"

text \<open>A state after booting: an empty cache on a disk with a readable log.\<close>

definition booted :: "nat \<Rightarrow> 'a klog_scheme \<Rightarrow> bool" where
  "booted p s = (bcache_ok p {} s \<and> dirty s = {} \<and> log_dev s = 1 \<and> 0 \<le> log_start s \<and> 0 < log_size s \<and>
     log_start s + log_size s \<le> int (disksize s) \<and> disksize s \<le> 2147483648 \<and> length (lh_block s) = LOGSIZE \<and>
     logdisk_ok (nat (log_start s)) (nat (log_size s)) (disksize s) (disk s))"

lemma read_entries_ok:
  assumes ok: "bcache_ok p {i} s" and n: "n \<le> LOGSIZE" "length (lh_block s) = LOGSIZE"
  shows "\<exists>t. for_list (read_head_entry i) [0..<n] s = Ok () t \<and>
    (\<exists>b. t = s\<lparr>lh_block := b\<rparr> \<and> length b = LOGSIZE \<and>
     take n b = map (\<lambda>k. sint (get32 (4 + 4 * k) (b_data (bufs s ! i)))) [0..<n])"
proof -
  let ?e = "\<lambda>k. sint (get32 (4 + 4 * k) (b_data (bufs s ! i)))"
  let ?I = "\<lambda>k t. \<exists>b. t = s\<lparr>lh_block := b\<rparr> \<and> length b = LOGSIZE \<and> take k b = map ?e [0..<k]"
  have step: "\<exists>v. read_head_entry i k u = Ok () v \<and> ?I (Suc k) v" if k: "k < n" and u: "?I k u" for k u
  proof -
    obtain b where b: "u = s\<lparr>lh_block := b\<rparr>" "length b = LOGSIZE" "take k b = map ?e [0..<k]" using u by blast
    have "take (Suc k) (b[k := ?e k]) = map ?e [0..<Suc k]"
      using b(2,3) k n by (simp add: take_Suc_conv_app_nth)
    then show ?thesis using b k n by (intro exI [of _ "s\<lparr>lh_block := b[k := ?e k]\<rparr>"]) (auto simp: read_head_entry_def)
  qed
  have "?I 0 s" using n(2) by (intro exI [of _ "lh_block s"]) simp
  from for_list_upt [of n ?I "read_head_entry i", OF step this] show ?thesis by blast
qed

lemma booted_content: "booted p s \<Longrightarrow> content s = disk s"
  by (auto simp: booted_def fun_eq_iff intro!: content_clean)

lemma read_head_ok:
  assumes "booted p s"
  defines "bs \<equiv> map nat (header (disk s (nat (log_start s))))"
  obtains t where "read_head s = Ok () t" "log_ok p bs t" "dirty t = {}" "content t = disk s" "disk t = disk s"
    "dwrites t = dwrites s" "log_start t = log_start s" "log_size t = log_size s"
proof -
  let ?st = "nat (log_start s)" and ?hd = "header (disk s (nat (log_start s)))"
  note c = booted_content [OF assms(1)]
  have bt: "bcache_ok p {} s" "dirty s = {}" "log_dev s = 1" "0 \<le> log_start s" "0 < log_size s"
    "log_start s + log_size s \<le> int (disksize s)" "disksize s \<le> 2147483648" "length (lh_block s) = LOGSIZE"
    and hd: "length (disk s ?st) = BSIZE" "0 \<le> sint (get32 0 (disk s ?st))" "length ?hd < nat (log_size s)" "length ?hd < NBUF"
      "\<And>b. b \<in> set ?hd \<Longrightarrow> 0 \<le> b \<and> b < int (disksize s) \<and> nat b \<notin> {?st..<?st + nat (log_size s)}"
    using assms(1) by (simp_all add: booted_def logdisk_ok_def)
  have st: "unat (word_of_int (log_start s) :: 32 word) = ?st" "?st < disksize s" "card (dirty s) < NBUF"
    using bt by (simp_all add: unat_eq_nat_uint uint_word_of_int_eq take_bit_int_eq_self NBUF_def)
  obtain i u where u: "bread 1 (word_of_int (log_start s)) s = Ok i u" "i < NBUF" "bcache_ok p {i} u"
    "holds_block (bufs u ! i) ?st" "b_data (bufs u ! i) = content s ?st" "content u = content s" "dirty u = dirty s"
    "disk u = disk s" "dwrites u = dwrites s" "bio_frame s u"
    by (rule bread_first [OF bt(1) st])
  note fu = bio_frame_log [OF u(10)]
  have n: "length ?hd = nat (sint (get32 0 (disk s ?st)))" by (simp add: header_def)
  let ?v = "u\<lparr>lh_n := sint (get32 0 (disk s ?st))\<rparr>"
  have lim: "length ?hd \<le> LOGSIZE" "length (lh_block ?v) = LOGSIZE" "bcache_ok p {i} ?v"
    using hd(4) bt(8) fu u(3) by (simp_all add: NBUF_def LOGSIZE_def MAXOPBLOCKS_def)
  obtain b where b: "for_list (read_head_entry i) [0..<length ?hd] ?v = Ok () (?v\<lparr>lh_block := b\<rparr>)" "length b = LOGSIZE"
    "take (length ?hd) b = map (\<lambda>k. sint (get32 (4 + 4 * k) (b_data (bufs ?v ! i)))) [0..<length ?hd]"
    using read_entries_ok [OF lim(3,1,2)] by metis
  have tb: "take (length ?hd) b = ?hd" using b(3) u(5) c n by (simp add: header_def)
  let ?w = "?v\<lparr>lh_block := b\<rparr>"
  have w: "bcache_ok p {i} ?w" "holds_block (bufs ?w ! i) ?st" "b_dirty (bufs ?w ! i) \<or> b_data (bufs ?w ! i) = disk ?w ?st"
    using u(3,4,5,8) c by simp_all
  obtain t where t: "brelse i ?w = Ok () t" "bcache_ok p ({i} - {i}) t" "content t = content ?w" "dirty t = dirty ?w"
    "bio_frame ?w t" "disk t = disk ?w" "dwrites t = dwrites ?w" "\<forall>k. k \<noteq> i \<longrightarrow> bufs t ! k = bufs ?w ! k"
    by (rule brelse_ok [OF w(1) singletonI w(2,3)])
  note ft = bio_frame_log [OF t(5)]
  have "map int bs = ?hd" using hd(5) unfolding bs_def by (simp add: map_idI)
  moreover have "bb < disksize s \<and> bb \<notin> log_area s" if "bb \<in> set bs" for bb
  proof -
    obtain z where z: "z \<in> set ?hd" "bb = nat z" using \<open>bb \<in> set bs\<close> unfolding bs_def by auto
    then show ?thesis using hd(5) [OF z(1)] bt(4,5) by (auto simp: log_area_def nat_add_distrib)
  qed
  moreover have "length bs = length ?hd" by (simp add: bs_def)
  moreover have "sint (get32 0 (disk s ?st)) = int (length ?hd)" using n hd(2) by simp
  ultimately have "log_ok p bs t"
    using t(2,4,6) u(7,8) ft fu bt hd(1,3,4) b(2) tb by (simp add: log_ok_def log_area_def)
  moreover have "read_head s = Ok () t"
    using u(1,5) b(1) t(1) bt(3) c n fu by (simp add: read_head_def)
  ultimately show thesis
    using that [of t] t(3,4,6,7) u(6-9) ft fu c bt(2) by simp
qed

definition recover_writes :: "nat \<Rightarrow> (nat \<Rightarrow> block) \<Rightarrow> (nat \<times> block) list" where
  "recover_writes st d = home_writes st (map nat (header (d st))) d @ [(st, head_block [] (d st))]"

lemma recover_ok:
  assumes "booted p s"
  defines "W \<equiv> recover_writes (nat (log_start s)) (disk s)"
  obtains t where "recover_from_log s = Ok () t" "log_ok p [] t" "disk t = write_all W (disk s)" "dwrites t = dwrites s @ W"
proof -
  let ?st = "nat (log_start s)"
  define bs where "bs = map nat (header (disk s ?st))"
  obtain t1 where t1: "read_head s = Ok () t1" "log_ok p bs t1" "dirty t1 = {}" "content t1 = disk s" "disk t1 = disk s"
    "dwrites t1 = dwrites s" "log_start t1 = log_start s" "log_size t1 = log_size s"
    unfolding bs_def by (rule read_head_ok [OF assms(1)])
  obtain t2 where t2: "install_trans t1 = Ok () t2" "log_ok p bs t2" "dirty t2 = {}" "wrote (home_writes ?st bs (disk s)) t1 t2"
    using install_trans_ok [OF t1(2)] t1(3,4,7) by metis
  have st2: "log_start (t2\<lparr>lh_n := 0\<rparr>) = log_start s" using wrote_log [OF t2(4)] t1(7) by simp
  have "?st \<notin> set bs" using log_start_facts(2) [OF t1(2)] log_okD(12) [OF t1(2), of ?st] t1(7) by auto
  then have d2: "disk (t2\<lparr>lh_n := 0\<rparr>) ?st = disk s ?st"
    using t2(4) t1(5) by (simp add: wrote_def write_all_other writes_dom)
  have ok2: "log_ok p [] (t2\<lparr>lh_n := 0\<rparr>)" by (rule log_ok_reset [OF t2(2,3)])
  obtain t where t: "write_head (t2\<lparr>lh_n := 0\<rparr>) = Ok () t" "log_ok p [] t"
    "wrote [(?st, head_block [] (disk s ?st))] (t2\<lparr>lh_n := 0\<rparr>) t"
    using write_head_ok [OF ok2] unfolding st2 d2 by auto
  have "recover_from_log s = Ok () t" using t1(1) t2(1) t(1) by (simp add: recover_from_log_def)
  moreover have "disk t = write_all W (disk s)" "dwrites t = dwrites s @ W"
    using t2(4) t(3) t1(5,6) by (simp_all add: wrote_def W_def recover_writes_def bs_def)
  ultimately show thesis using that t(2) by blast
qed

end
