(* ===== verification/CrashSpec.thy ===== *)
theory CrashSpec
  imports LogSpec
begin

text \<open>
  Transactions against crashes.  A crash keeps the block writes that have reached the disk, a prefix of
  the sequence, and loses the memory; after booting, \<^verbatim>\<open>recover_from_log\<close> runs.
\<close>

section \<open>Prefixes of the writes of a commit\<close>

lemma write_map: "write_all (map (\<lambda>b. (b, c b)) bs) d b = (if b \<in> set bs then c b else d b)"
  by (induction bs arbitrary: d) auto

lemma header_zero: "sint (get32 0 h) = 0 \<Longrightarrow> header h = []"
  by (simp add: header_def)

lemma recovered_empty: "header (d st) = [] \<Longrightarrow> recovered st d = d"
  by (simp add: recovered_def home_writes_def)

lemma logdisk_empty:
  assumes "length (d st) = BSIZE" "sint (get32 0 (d st)) = 0" "0 < len"
  shows "logdisk_ok st len lim d"
  using assms by (simp add: logdisk_ok_def header_zero NBUF_def)

lemma commit_prefix:
  fixes c :: "nat \<Rightarrow> block"
  assumes d: "length (d st) = BSIZE" "sint (get32 0 (d st)) = 0" and n: "length bs < min len NBUF"
    and bs: "\<And>b. b \<in> set bs \<Longrightarrow> b < lim \<and> b \<notin> {st..<st + len}" and lim: "lim \<le> 2147483648"
  defines "e \<equiv> \<lambda>k. write_all (take k (commit_writes st bs c (d st))) d"
  shows "logdisk_ok st len lim (e k) \<and> (\<forall>b. b \<notin> {st..<st + len} \<longrightarrow>
    recovered st (e k) b = (if k \<le> length bs then d b else if b \<in> set bs then c b else d b))"
proof -
  let ?L = "log_writes st bs c" and ?h = "head_block (map int bs) (d st)" and ?H = "map (\<lambda>b. (b, c b)) bs"
  let ?z = "head_block [] (head_block (map int bs) (d st))"
  have W: "commit_writes st bs c (d st) = ?L @ (st, ?h) # ?H @ [(st, ?z)]" by (simp add: commit_writes_def)
  have len: "length bs \<le> LOGSIZE" "0 < len" using n by (auto simp: NBUF_def LOGSIZE_def MAXOPBLOCKS_def)
  have stb: "st \<notin> set bs" using bs len(2) by force
  note h = header_head_block [where d = "d st" and bs = "map int bs", OF d(1)]
  have hh: "header ?h = map int bs" "length ?h = BSIZE" "sint (get32 0 ?h) = int (length bs)"
    using h len(1) bs lim by (fastforce)+
  note z = header_head_block [where d = ?h and bs = "[]", OF hh(2)]
  have L: "b \<notin> fst ` set ?L" if "b \<notin> {st..<st + len} \<or> b = st" for b using that n unfolding writes_dom by auto
  consider "k \<le> length bs" | j where "k = length bs + Suc j" "j \<le> length bs" | "k > 2 * length bs + 1"
    by (metis add_Suc_right add_le_cancel_left less_iff_Suc_add linorder_not_le mult_2 Suc_eq_plus1 less_Suc_eq_le)
  then show ?thesis
  proof cases
    case 1
    then have e: "e k = write_all (take k ?L) d" by (simp add: e_def W)
    have "b \<notin> fst ` set (take k ?L)" if "b \<notin> {st..<st + len} \<or> b = st" for b using L [OF that] set_take_subset by fast
    then have "e k b = d b" if "b \<notin> {st..<st + len} \<or> b = st" for b using that by (simp add: e write_all_other)
    then show ?thesis using 1 d len(2) logdisk_empty [of "e k"] recovered_empty [of "e k"] header_zero by simp
  next
    case 2
    then have e: "e k = write_all (take j ?H) ((write_all ?L d)(st := ?h))" by (simp add: e_def W)
    have H: "b \<notin> fst ` set (take j ?H)" if "b \<notin> set bs" for b using that set_take_subset by force
    have est: "e k st = ?h" using stb by (simp add: e write_all_other H)
    have "e k (st + i + 1) = c (bs ! i)" if "i < length bs" for i
    proof -
      have "st + i + 1 \<in> {st..<st + len}" using that n by simp
      then have "st + i + 1 \<notin> set bs" using bs by blast
      then show ?thesis using that log_writes_lookup [OF that, of st c d] by (simp add: e write_all_other H)
    qed
    then have "home_writes st bs (e k) = ?H" by (rule home_writes_eq)
    then have r: "recovered st (e k) = write_all ?H (e k)" by (simp add: recovered_def est hh(1) comp_def)
    have "e k b = d b" if "b \<notin> set bs" "b \<notin> {st..<st + len}" for b
      using that len(2) L [of b] by (auto simp: e write_all_other H)
    then have "recovered st (e k) b = (if b \<in> set bs then c b else d b)" if "b \<notin> {st..<st + len}" for b
      using that by (simp add: r write_map)
    moreover have "logdisk_ok st len lim (e k)"
      using hh n bs by (auto simp: logdisk_ok_def est)
    ultimately show ?thesis using 2 by auto
  next
    case 3
    then have e: "e k = (write_all ?H ((write_all ?L d)(st := ?h)))(st := ?z)" by (simp add: e_def W)
    have "e k b = (if b \<in> set bs then c b else d b)" if "b \<notin> {st..<st + len}" for b
      using that len(2) L [of b] by (auto simp: e write_map write_all_other)
    moreover have "e k st = ?z" by (simp add: e)
    ultimately show ?thesis
      using 3 z len(2) logdisk_empty [of "e k"] recovered_empty [of "e k"] header_zero by simp
  qed
qed

section \<open>Prefixes of the writes of a recovery\<close>

lemma recover_prefix:
  assumes ok: "logdisk_ok st len lim d" and len: "0 < len"
  defines "e \<equiv> \<lambda>k. write_all (take k (recover_writes st d)) d"
  shows "logdisk_ok st len lim (e k) \<and> (\<forall>b. b \<notin> {st..<st + len} \<longrightarrow> recovered st (e k) b = recovered st d b)"
proof -
  define bs where "bs = map nat (header (d st))"
  let ?H = "home_writes st bs d" and ?z = "head_block [] (d st)"
  have W: "recover_writes st d = ?H @ [(st, ?z)]" by (simp add: recover_writes_def bs_def)
  have o: "length (d st) = BSIZE" "length bs < len" "\<And>b. b \<in> set bs \<Longrightarrow> b \<notin> {st..<st + len}"
    using ok by (auto simp: logdisk_ok_def bs_def)
  have stb: "st \<notin> set bs" using o(3) len by force
  have H: "b \<notin> fst ` set (take j ?H)" if "b \<notin> set bs" for b j
    using that writes_dom(2) [of st bs d] set_take_subset [of j ?H] by blast
  have rd: "recovered st d = write_all ?H d" by (simp add: recovered_def bs_def)
  show ?thesis
  proof (cases "k \<le> length bs")
    case True
    then have e: "e k = write_all (take k ?H) d" by (simp add: e_def W)
    have area: "e k b = d b" if "b \<in> {st..<st + len}" for b
    proof -
      have "b \<notin> set bs" using that o(3) by blast
      then show ?thesis by (simp add: e write_all_other H)
    qed
    then have est: "e k st = d st" using len by simp
    have "home_writes st bs (e k) = ?H" using area o(2) by (intro nth_equalityI) simp_all
    then have r: "recovered st (e k) = write_all ?H (e k)" by (simp add: recovered_def est bs_def)
    have "write_all ?H (e k) b = write_all ?H d b" for b
    proof (cases "b \<in> set bs")
      case True
      then have "map_of (rev ?H) b \<noteq> None" using writes_dom(2) [of st bs d] by (simp add: map_of_eq_None_iff)
      then show ?thesis by (auto simp: write_all_lookup)
    next
      case False
      then show ?thesis using H [of b] by (simp add: e write_all_other writes_dom)
    qed
    then show ?thesis using ok by (simp add: r rd logdisk_ok_def est)
  next
    case False
    then have e: "e k = (write_all ?H d)(st := ?z)" by (simp add: e_def W)
    note z = header_head_block [where d = "d st" and bs = "[]", OF o(1)]
    have "e k st = ?z" by (simp add: e)
    then show ?thesis
      using z len logdisk_empty [of "e k"] recovered_empty [of "e k"] header_zero by (auto simp: rd e)
  qed
qed

lemma recover_disk:
  assumes "logdisk_ok st len lim d" "0 < len" "b \<notin> {st..<st + len}"
  shows "write_all (recover_writes st d) d b = recovered st d b"
  using assms by (auto simp: recover_writes_def recovered_def)

section \<open>Writing a block in a transaction\<close>

text \<open>How the file system changes a block: read it, change the buffer, log it and release it.\<close>

definition logged_write :: "nat \<Rightarrow> (block \<Rightarrow> block) \<Rightarrow> 'a klog_scheme \<Rightarrow> (unit, 'a klog_scheme) outcome" where
  "logged_write b f s =
     bindo (bread 1 (word_of_nat b) s) (\<lambda>i s.
     bindo (log_write i (upd_buf i (\<lambda>x. x\<lparr>b_data := f (b_data x)\<rparr>) s)) (\<lambda>_ s. brelse i s))"

lemma absorb_index:
  "b \<notin> set xs \<Longrightarrow> absorb b xs i = i + length xs"
  "b \<in> set xs \<Longrightarrow> \<exists>k < length xs. absorb b xs i = i + k \<and> xs ! k = b"
proof -
  show "b \<notin> set xs \<Longrightarrow> absorb b xs i = i + length xs" by (induction xs arbitrary: i) auto
  show "b \<in> set xs \<Longrightarrow> \<exists>k < length xs. absorb b xs i = i + k \<and> xs ! k = b"
  proof (induction xs arbitrary: i)
    case (Cons x xs)
    show ?case
    proof (cases "x = b")
      case False
      then obtain k where "k < length xs" "absorb b xs (Suc i) = Suc i + k" "xs ! k = b"
        using Cons.IH [of "Suc i"] Cons.prems by auto
      then show ?thesis using False by (intro exI [of _ "Suc k"]) simp
    qed (intro exI [of _ 0], simp)
  qed simp
qed

lemma mark_ok:
  assumes ok: "bcache_ok p H s" and i: "i \<in> H" and b: "holds_block (bufs s ! i) b"
  defines "t \<equiv> upd_buf i (\<lambda>x. x\<lparr>b_dirty := True\<rparr>) s"
  shows "bcache_ok p H t" "content t = content s" "dirty t = insert b (dirty s)" "bio_frame s t"
    "bufs t ! i = (bufs s ! i)\<lparr>b_dirty := True\<rparr>" "disk t = disk s" "dwrites t = dwrites s"
proof -
  note o = bcache_okD [OF ok] and h = held_slot [OF ok i]
  let ?x = "(bufs s ! i)\<lparr>b_dirty := True\<rparr>"
  have t: "t = s\<lparr>bufs := (bufs s)[i := ?x]\<rparr>" by (simp add: t_def upd_buf_def)
  have bn: "unat (b_blockno (bufs s ! i)) = b" using b by (simp add: holds_block_def)
  have x: "holds_block ?x c = (c = b)" for c using h(3) bn by (auto simp: holds_block_def)
  show ok': "bcache_ok p H t"
  proof (rule bcache_ok_slot [OF ok h(1), where x = ?x])
    show "slot_ok p H t i" using o(7) [OF h(1)] i h(1) o(2) by (simp add: slot_ok_def Let_def t)
    show "\<not> holds_block (bufs s ! j) c" if "j < NBUF" "j \<noteq> i" "holds_block ?x c" for j c
      using o(6) [OF that(1) h(1), of c] that b unfolding x by auto
  qed (use o t in simp_all)
  have "content t c = content s c" for c
    using content_slot [OF ok ok' h(1), of ?x c] content_valid [OF ok h(1) b h(4)] h(4) h(7) [of c] bn x [of c] by (auto simp: t)
  then show "content t = content s" by blast
  have nth: "j < NBUF \<Longrightarrow> bufs t ! j = (if j = i then ?x else bufs s ! j)" for j using o(2) by (simp add: t)
  have "c \<in> dirty t \<longleftrightarrow> c = b \<or> c \<in> dirty s" for c
  proof -
    have "c \<in> dirty t \<longleftrightarrow> (\<exists>j < NBUF. (j = i \<or> b_dirty (bufs s ! j)) \<and> c = unat (b_blockno (bufs s ! j)))"
      unfolding dirty_def mem_Collect_eq by (intro ex_cong1) (auto simp: nth split: if_splits)
    then show ?thesis unfolding dirty_def mem_Collect_eq using h(1) bn by auto
  qed
  then show "dirty t = insert b (dirty s)" by blast
qed (use held_slot(1) [OF ok i] bcache_okD(2) [OF ok] in \<open>simp_all add: t_def upd_buf_def\<close>)

lemma klog_locks [simp]:
  "my (s\<lparr>log_outstanding := v0\<rparr>) = my s"
  "cpu_ok (s\<lparr>log_outstanding := v0\<rparr>) = cpu_ok s"
  "lock_free l (s\<lparr>log_outstanding := v0\<rparr>) = lock_free l s"
  "lock_mine l (s\<lparr>log_outstanding := v0\<rparr>) = lock_mine l s"
  "acq l (s\<lparr>log_outstanding := v0\<rparr>) = (acq l s)\<lparr>log_outstanding := v0\<rparr>"
  "rel l (s\<lparr>log_outstanding := v0\<rparr>) = (rel l s)\<lparr>log_outstanding := v0\<rparr>"
  "log_outstanding (acq l s) = log_outstanding s"
  "log_outstanding (rel l s) = log_outstanding s"
  "my (s\<lparr>log_committing := v1\<rparr>) = my s"
  "cpu_ok (s\<lparr>log_committing := v1\<rparr>) = cpu_ok s"
  "lock_free l (s\<lparr>log_committing := v1\<rparr>) = lock_free l s"
  "lock_mine l (s\<lparr>log_committing := v1\<rparr>) = lock_mine l s"
  "acq l (s\<lparr>log_committing := v1\<rparr>) = (acq l s)\<lparr>log_committing := v1\<rparr>"
  "rel l (s\<lparr>log_committing := v1\<rparr>) = (rel l s)\<lparr>log_committing := v1\<rparr>"
  "log_committing (acq l s) = log_committing s"
  "log_committing (rel l s) = log_committing s"
  "my (s\<lparr>lh_n := v2\<rparr>) = my s"
  "cpu_ok (s\<lparr>lh_n := v2\<rparr>) = cpu_ok s"
  "lock_free l (s\<lparr>lh_n := v2\<rparr>) = lock_free l s"
  "lock_mine l (s\<lparr>lh_n := v2\<rparr>) = lock_mine l s"
  "acq l (s\<lparr>lh_n := v2\<rparr>) = (acq l s)\<lparr>lh_n := v2\<rparr>"
  "rel l (s\<lparr>lh_n := v2\<rparr>) = (rel l s)\<lparr>lh_n := v2\<rparr>"
  "lh_n (acq l s) = lh_n s"
  "lh_n (rel l s) = lh_n s"
  "my (s\<lparr>lh_block := v3\<rparr>) = my s"
  "cpu_ok (s\<lparr>lh_block := v3\<rparr>) = cpu_ok s"
  "lock_free l (s\<lparr>lh_block := v3\<rparr>) = lock_free l s"
  "lock_mine l (s\<lparr>lh_block := v3\<rparr>) = lock_mine l s"
  "acq l (s\<lparr>lh_block := v3\<rparr>) = (acq l s)\<lparr>lh_block := v3\<rparr>"
  "rel l (s\<lparr>lh_block := v3\<rparr>) = (rel l s)\<lparr>lh_block := v3\<rparr>"
  "lh_block (acq l s) = lh_block s"
  "lh_block (rel l s) = lh_block s"
  by (simp_all add: my_def cpu_ok_def cpu_index_def lock_free_def lock_mine_def rel_def acq_def fun_eq_iff
      cong: option.case_cong)

lemma log_write_ok:
  fixes b :: nat
  assumes q: "quiet p s" and n: "lh_n s < int LOGSIZE" "lh_n s < log_size s - 1" "1 \<le> log_outstanding s"
  defines "bno \<equiv> sint (b_blockno (bufs s ! b))"
  defines "i \<equiv> absorb bno (take (nat (lh_n s)) (lh_block s)) 0"
  shows "log_write b s = Ok () (upd_buf b (\<lambda>x. x\<lparr>b_dirty := True\<rparr>)
    (s\<lparr>lh_block := (lh_block s)[i := bno], lh_n := (if int i = lh_n s then lh_n s + 1 else lh_n s)\<rparr>))"
  using n quiet_acquire [OF q, of LogLock]
  by (auto simp: log_write_def Let_def upd_buf_def release_ok bno_def i_def)

definition add_block :: "nat \<Rightarrow> nat list \<Rightarrow> nat list" where
  "add_block b bs = (if b \<in> set bs then bs else bs @ [b])"

lemma add_block_props [simp]:
  "set (add_block b bs) = insert b (set bs)" "distinct bs \<Longrightarrow> distinct (add_block b bs)"
  "length (add_block b bs) \<le> Suc (length bs)"
  by (auto simp: add_block_def)

text \<open>The header in memory after \<^verbatim>\<open>log_write\<close>: a block that is in it already is absorbed.\<close>

lemma absorb_add_block:
  fixes b :: nat
  assumes "take (length bs) lh = map int bs" "length bs < length lh"
  defines "i \<equiv> absorb (int b) (take (length bs) lh) 0"
  shows "take (length (add_block b bs)) (lh[i := int b]) = map int (add_block b bs)"
    "(if int i = int (length bs) then int (length bs) + 1 else int (length bs)) = int (length (add_block b bs))"
proof -
  show "take (length (add_block b bs)) (lh[i := int b]) = map int (add_block b bs)"
  proof (cases "b \<in> set bs")
    case True
    then obtain k where k: "k < length bs" "i = k" "int (bs ! k) = int b"
      using absorb_index(2) [of "int b" "map int bs" 0] assms(1) by (auto simp: i_def)
    then have "take (length bs) (lh[i := int b]) = (map int bs)[k := int b]"
      using assms(1) by (simp add: take_update_swap)
    also have "\<dots> = map int bs" using k by (metis list_update_id length_map nth_map)
    finally show ?thesis using True by (simp add: add_block_def)
  next
    case False
    then have "int b \<notin> set (map int bs)" by auto
    then have "i = length bs" using absorb_index(1) [of "int b" "map int bs" 0] assms(1) by (simp add: i_def)
    then show ?thesis using False assms(1,2) by (simp add: add_block_def take_Suc_conv_app_nth)
  qed
  show "(if int i = int (length bs) then int (length bs) + 1 else int (length bs)) = int (length (add_block b bs))"
  proof (cases "b \<in> set bs")
    case True
    then obtain k where "k < length bs" "i = k"
      using absorb_index(2) [of "int b" "map int bs" 0] assms(1) by (auto simp: i_def)
    then show ?thesis using True by (simp add: add_block_def)
  next
    case False
    then have "int b \<notin> set (map int bs)" by auto
    then have "i = length bs" using absorb_index(1) [of "int b" "map int bs" 0] assms(1) by (simp add: i_def)
    then show ?thesis using False by (simp add: add_block_def)
  qed
qed

lemma logged_write_ok:
  assumes ok: "log_ok p bs s" and b: "b < disksize s" "b \<notin> log_area s"
    and room: "int (length bs) + 1 < log_size s" "length bs + 1 < NBUF" and out: "1 \<le> log_outstanding s"
  obtains t where "logged_write b f s = Ok () t" "log_ok p (add_block b bs) t" "content t = (content s)(b := f (content s b))"
    "dirty t = insert b (dirty s)" "disk t = disk s" "dwrites t = dwrites s"
    "log_start t = log_start s" "log_size t = log_size s" "disksize t = disksize s" "log_outstanding t = log_outstanding s"
    "log_committing t = log_committing s"
proof -
  note o = log_okD [OF ok]
  have w: "unat (word_of_nat b :: 32 word) = b"
    using b(1) o(5) by (simp add: unat_of_nat take_bit_nat_eq_self)
  have cd: "card (dirty s) < NBUF" by (rule log_start_facts(5) [OF ok])
  obtain i u where u: "bread 1 (word_of_nat b) s = Ok i u" "i < NBUF" "bcache_ok p {i} u"
    "holds_block (bufs u ! i) b" "b_data (bufs u ! i) = content s b" "content u = content s" "dirty u = dirty s"
    "disk u = disk s" "dwrites u = dwrites s" "bio_frame s u"
    by (rule bread_first [OF o(1) w b(1) cd])
  note fu = bio_frame_log [OF u(10)]
  note m = modify_ok [OF u(3) singletonI u(4) refl, where f = "\<lambda>x. f (b_data x)"]
  let ?v = "upd_buf i (\<lambda>x. x\<lparr>b_data := f (b_data x)\<rparr>) u"
  note fv = bio_frame_log [OF m(4)]
  have hv: "holds_block (bufs ?v ! i) b" using m(5) u(4) by (simp add: holds_block_def)
  have "sint (word_of_nat b :: 32 word) = int b"
    using b(1) o(5) sint_of_int [of "int b"] by simp
  moreover have "b_blockno (bufs ?v ! i) = word_of_nat b" using hv w by (simp add: holds_block_def word_unat_eq_iff)
  ultimately have bno: "sint (b_blockno (bufs ?v ! i)) = int b" by simp
  define k where "k = absorb (int b) (take (length bs) (lh_block s)) 0"
  define v where "v = ?v\<lparr>lh_block := (lh_block s)[k := int b],
    lh_n := (if int k = int (length bs) then int (length bs) + 1 else int (length bs))\<rparr>"
  have ln: "length bs < length (lh_block s)" using o(8) room(2) by (simp add: NBUF_def LOGSIZE_def MAXOPBLOCKS_def)
  note ab = absorb_add_block [OF o(9) ln, of b, folded k_def]
  have "log_write i ?v = Ok () (upd_buf i (\<lambda>x. x\<lparr>b_dirty := True\<rparr>) v)"
    using log_write_ok [OF bcache_okD(1) [OF m(1)], of i] fv fu o(7) room out bno
    by (simp add: v_def k_def NBUF_def LOGSIZE_def MAXOPBLOCKS_def)
  moreover have v: "bcache_ok p {i} v" "holds_block (bufs v ! i) b" "content v = content ?v" "dirty v = dirty ?v"
    using m(1) hv by (simp_all add: v_def)
  note k = mark_ok [OF v(1) singletonI v(2)]
  let ?w = "upd_buf i (\<lambda>x. x\<lparr>b_dirty := True\<rparr>) v"
  note fw = bio_frame_log [OF k(4)]
  have hw: "holds_block (bufs ?w ! i) b" "b_dirty (bufs ?w ! i) \<or> b_data (bufs ?w ! i) = disk ?w b"
    using k(5) v(2) by (simp_all add: holds_block_def)
  obtain t where t: "brelse i ?w = Ok () t" "bcache_ok p ({i} - {i}) t" "content t = content ?w" "dirty t = dirty ?w"
    "bio_frame ?w t" "disk t = disk ?w" "dwrites t = dwrites ?w" "\<forall>j. j \<noteq> i \<longrightarrow> bufs t ! j = bufs ?w ! j"
    by (rule brelse_ok [OF k(1) singletonI hw])
  note ft = bio_frame_log [OF t(5)]
  have vs: "log_start v = log_start s" "log_size v = log_size s" "log_dev v = log_dev s" "disksize v = disksize s"
    "log_outstanding v = log_outstanding s" "log_committing v = log_committing s" "disk v = disk s" "dwrites v = dwrites s"
    "lh_block v = (lh_block s)[k := int b]" "lh_n v = int (length (add_block b bs))" "log_area v = log_area s"
    using fv fu m(7,8) u(8,9) unfolding v_def ab(2) by (simp_all add: log_area_def)
  have nb: "length (add_block b bs) < NBUF" "int (length (add_block b bs)) < log_size s" "dirty s \<subseteq> insert b (set bs)"
    using room add_block_props(3) [of b bs] o(13) by (linarith, linarith, blast)
  have "log_ok p (add_block b bs) t"
    using t(2,4,6) k(3,6) v(4) m(3) u(7) vs ft fw o b ab(1) nb by (simp add: log_ok_def)
  moreover have "logged_write b f s = Ok () t" using u(1) calculation(1) t(1) by (simp add: logged_write_def)
  ultimately show thesis
    using that [of t] t(3,4,6,7) k(2,3,6,7) v(3,4) m(2,3) u(5-7) vs ft fw by simp
qed

section \<open>Transactions\<close>

text \<open>A file system call: \<^verbatim>\<open>begin_op\<close>, changes of blocks, \<^verbatim>\<open>end_op\<close>; and what it means.\<close>

type_synonym block_update = "nat \<times> (block \<Rightarrow> block)"

definition transaction :: "block_update list \<Rightarrow> 'a klog_scheme \<Rightarrow> (unit, 'a klog_scheme) outcome" where
  "transaction us s =
     bindo (begin_op s) (\<lambda>_ s.
     bindo (for_list (\<lambda>(b, f). logged_write b f) us s) (\<lambda>_ s. end_op s))"

fun updated :: "block_update list \<Rightarrow> (nat \<Rightarrow> block) \<Rightarrow> nat \<Rightarrow> block" where
  "updated [] d = d"
| "updated ((b, f) # us) d = updated us (d(b := f (d b)))"

lemma updated_other: "b \<notin> fst ` set us \<Longrightarrow> updated us d b = d b"
  by (induction us d rule: updated.induct) auto

lemma begin_op_ok:
  assumes "quiet p s" "\<not> log_committing s" "\<not> log_full s"
  shows "begin_op s = Ok () (s\<lparr>log_outstanding := log_outstanding s + 1\<rparr>)"
proof -
  have "log_full (acq LogLock s) = log_full s" by (simp add: log_full_def)
  then show ?thesis using assms quiet_acquire [OF assms(1), of LogLock]
    by (simp add: begin_op_def begin_op_loop.simps release_ok)
qed

lemma quiet_klog [simp]:
  "quiet p (s\<lparr>log_outstanding := v\<rparr>) = quiet p s" "quiet p (s\<lparr>log_committing := w\<rparr>) = quiet p s"
  by (simp_all add: quiet_def)

lemma end_op_ok:
  assumes q: "quiet p s" and s: "log_outstanding s = 1" "\<not> log_committing s"
    and c: "commit (s\<lparr>log_outstanding := 0, log_committing := True\<rparr>) = Ok () t" and t: "quiet p t"
  shows "end_op s = Ok () (t\<lparr>log_committing := False\<rparr>)"
proof -
  have "wakeup ChanLog (acq LogLock (t\<lparr>log_committing := False\<rparr>)) = Ok () (acq LogLock (t\<lparr>log_committing := False\<rparr>))"
    by (rule wakeup_acq [of p]) (use t in simp_all)
  then show ?thesis
    using quiet_acquire [OF q, of LogLock] quiet_acquire [OF t, of LogLock] s c
    by (simp add: end_op_def Let_def release_ok)
qed

lemma logged_writes_ok:
  assumes "log_ok p bs s" "distinct bs" "dirty s = set bs" "\<And>b f. (b, f) \<in> set us \<Longrightarrow> b < disksize s \<and> b \<notin> log_area s"
    and "card (set bs \<union> fst ` set us) \<le> MAXOPBLOCKS" "int MAXOPBLOCKS + 1 < log_size s" "1 \<le> log_outstanding s"
  shows "\<exists>bs' t. for_list (\<lambda>(b, f). logged_write b f) us s = Ok () t \<and> log_ok p bs' t \<and> distinct bs' \<and>
    dirty t = set bs' \<and> set bs' = set bs \<union> fst ` set us \<and> content t = updated us (content s) \<and> disk t = disk s \<and>
    dwrites t = dwrites s \<and> log_start t = log_start s \<and> log_size t = log_size s \<and> disksize t = disksize s \<and>
    log_outstanding t = log_outstanding s \<and> log_committing t = log_committing s"
  using assms
proof (induction us arbitrary: s bs)
  case Nil
  then show ?case by (intro exI [of _ bs] exI [of _ s]) simp
next
  case (Cons u us)
  obtain b f where u: "u = (b, f)" by (cases u)
  have "length bs = card (set bs)" using Cons.prems(2) by (simp add: distinct_card)
  also have "\<dots> \<le> card (set bs \<union> fst ` set (u # us))" by (intro card_mono) auto
  finally have len: "length bs \<le> MAXOPBLOCKS" using Cons.prems(5) by simp
  have b: "b < disksize s" "b \<notin> log_area s" using Cons.prems(4) [of b f] by (simp_all add: u)
  have r: "int (length bs) + 1 < log_size s" "length bs + 1 < NBUF"
    using len Cons.prems(6) by (simp_all add: MAXOPBLOCKS_def NBUF_def)
  obtain t where t: "logged_write b f s = Ok () t" "log_ok p (add_block b bs) t" "content t = (content s)(b := f (content s b))"
    "dirty t = insert b (dirty s)" "disk t = disk s" "dwrites t = dwrites s"
    "log_start t = log_start s" "log_size t = log_size s" "disksize t = disksize s" "log_outstanding t = log_outstanding s"
    "log_committing t = log_committing s"
    by (rule logged_write_ok [OF Cons.prems(1) b r Cons.prems(7)])
  have ar: "log_area t = log_area s" using t(7,8) by (simp add: log_area_def)
  have "c < disksize t \<and> c \<notin> log_area t" if "(c, g) \<in> set us" for c g
    using Cons.prems(4) [of c g] that t(9) ar by simp
  moreover have "card (set (add_block b bs) \<union> fst ` set us) \<le> MAXOPBLOCKS"
    using Cons.prems(5) by (simp add: u insert_commute)
  ultimately obtain bs' v where v: "for_list (\<lambda>(b, f). logged_write b f) us t = Ok () v" "log_ok p bs' v" "distinct bs'"
    "dirty v = set bs'" "set bs' = set (add_block b bs) \<union> fst ` set us" "content v = updated us (content t)" "disk v = disk t"
    "dwrites v = dwrites t" "log_start v = log_start t" "log_size v = log_size t" "disksize v = disksize t"
    "log_outstanding v = log_outstanding t" "log_committing v = log_committing t"
    using Cons.IH [OF t(2)] Cons.prems(2,3,6,7) t(4,8,10) by auto
  have "for_list (\<lambda>(b, f). logged_write b f) (u # us) s = Ok () v" using t(1) v(1) by (simp add: u)
  then show ?case using v(2-) t by (intro exI [of _ bs'] exI [of _ v]) (simp add: u)
qed

text \<open>The machine after a crash that left the disk \<open>d\<close>: a freshly initialised kernel on the same file
  system.\<close>

definition reboots :: "nat \<Rightarrow> 'a klog_scheme \<Rightarrow> (nat \<Rightarrow> block) \<Rightarrow> 'b klog_scheme \<Rightarrow> bool" where
  "reboots q s d r = (bcache_ok q {} r \<and> dirty r = {} \<and> length (lh_block r) = LOGSIZE \<and> log_dev r = 1 \<and>
     log_start r = log_start s \<and> log_size r = log_size s \<and> disksize r = disksize s \<and> disk r = d)"

definition log_empty :: "'a klog_scheme \<Rightarrow> bool" where
  "log_empty s = (sint (get32 0 (disk s (nat (log_start s)))) = 0)"

lemma reboot_recovers:
  assumes geom: "0 \<le> log_start s" "0 < log_size s" "log_start s + log_size s \<le> int (disksize s)" "disksize s \<le> 2147483648"
    and d: "logdisk_ok (nat (log_start s)) (nat (log_size s)) (disksize s) d" and r: "reboots q s d r"
  shows "\<exists>u. recover_from_log r = Ok () u \<and> log_ok q [] u \<and>
    dwrites u = dwrites r @ recover_writes (nat (log_start s)) d \<and>
    (\<forall>b. b \<notin> log_area s \<longrightarrow> disk u b = recovered (nat (log_start s)) d b)"
proof -
  have "booted q r" using assms by (simp add: booted_def reboots_def)
  then obtain u where u: "recover_from_log r = Ok () u" "log_ok q [] u"
    "disk u = write_all (recover_writes (nat (log_start r)) (disk r)) (disk r)"
    "dwrites u = dwrites r @ recover_writes (nat (log_start r)) (disk r)"
    by (rule recover_ok)
  have "log_area s = {nat (log_start s)..<nat (log_start s) + nat (log_size s)}"
    using geom by (simp add: log_area_def nat_add_distrib)
  then show ?thesis using u r recover_disk [OF d] geom(2) by (intro exI [of _ u]) (auto simp: reboots_def)
qed

lemma commit_any:
  assumes ok: "log_ok p bs s" and bs: "distinct bs" "dirty s = set bs"
  defines "W \<equiv> if bs = [] then [] else commit_writes (nat (log_start s)) bs (content s) (disk s (nat (log_start s)))"
  obtains t where "commit s = Ok () t" "log_ok p [] t" "disk t = write_all W (disk s)" "dwrites t = dwrites s @ W"
    "log_start t = log_start s" "log_size t = log_size s"
proof (cases "bs = []")
  case True
  then have "commit s = Ok () s" using log_okD(7) [OF ok] by (simp add: commit_def)
  then show thesis using that [of s] ok True by (simp add: W_def)
next
  case False
  let ?W = "commit_writes (nat (log_start s)) bs (content s) (disk s (nat (log_start s)))"
  obtain t where "commit s = Ok () t" "log_ok p [] t" "disk t = write_all ?W (disk s)" "dwrites t = dwrites s @ ?W"
    "log_start t = log_start s" "log_size t = log_size s" by (rule commit_ok [OF ok False bs])
  then show thesis using that [of t] False by (simp add: W_def)
qed

lemma commit_any_prefix:
  fixes c :: "nat \<Rightarrow> block"
  assumes d: "length (d st) = BSIZE" "sint (get32 0 (d st)) = 0" and n: "length bs < min len NBUF"
    and bs: "\<And>b. b \<in> set bs \<Longrightarrow> b < lim \<and> b \<notin> {st..<st + len}" and lim: "lim \<le> 2147483648"
    and W: "W = (if bs = [] then [] else commit_writes st bs c (d st))"
  shows "logdisk_ok st len lim (write_all (take k W) d)"
    "(\<forall>b. b \<notin> {st..<st + len} \<longrightarrow> recovered st (write_all (take k W) d) b = d b) \<or>
     (\<forall>b. b \<notin> {st..<st + len} \<longrightarrow> recovered st (write_all (take k W) d) b = (if b \<in> set bs then c b else d b))"
    "b \<notin> {st..<st + len} \<Longrightarrow> write_all W d b = (if b \<in> set bs then c b else d b)"
    "sint (get32 0 (write_all W d st)) = 0"
proof -
  have z: "sint (get32 0 (head_block [] (head_block (map int bs) (d st)))) = 0"
  proof -
    have "length (head_block (map int bs) (d st)) = BSIZE"
      by (rule header_head_block(2) [OF d(1)]) (use n bs lim in \<open>force simp: NBUF_def LOGSIZE_def MAXOPBLOCKS_def\<close>)+
    then show ?thesis using header_head_block(3) [of "head_block (map int bs) (d st)" "[]"] by simp
  qed
  have nil: "logdisk_ok st len lim d" "recovered st d = d"
    using logdisk_empty [of d st len lim] recovered_empty [of d st] header_zero d n by auto
  note p = commit_prefix [where d = d and st = st and c = c and k = k, OF d n bs lim]
  show "logdisk_ok st len lim (write_all (take k W) d)" using nil(1) p W by simp
  show "(\<forall>b. b \<notin> {st..<st + len} \<longrightarrow> recovered st (write_all (take k W) d) b = d b) \<or>
     (\<forall>b. b \<notin> {st..<st + len} \<longrightarrow> recovered st (write_all (take k W) d) b = (if b \<in> set bs then c b else d b))"
    using nil(2) p W by (cases "k \<le> length bs") simp_all
  show "write_all W d b = (if b \<in> set bs then c b else d b)" if "b \<notin> {st..<st + len}"
  proof -
    have "b \<notin> fst ` set (log_writes st bs c)" "b \<noteq> st" using that n unfolding writes_dom by auto
    then show ?thesis by (simp add: W commit_writes_def write_map write_all_other)
  qed
  show "sint (get32 0 (write_all W d st)) = 0" using d(2) z by (simp add: W commit_writes_def)
qed

section \<open>Atomicity\<close>

text \<open>The end of a transaction: \<^verbatim>\<open>end_op\<close> brings the logged blocks to the disk, all of them or none.\<close>

lemma end_op_atomic:
  assumes ok: "log_ok p bs s" "distinct bs" "dirty s = set bs" and s: "log_outstanding s = 1" "\<not> log_committing s" "log_empty s"
  shows "\<exists>t W. end_op s = Ok () t \<and> log_ok p [] t \<and> log_empty t \<and> disk t = write_all W (disk s) \<and> dwrites t = dwrites s @ W \<and>
    (\<forall>b. b \<notin> log_area s \<longrightarrow> disk t b = content s b) \<and>
    (\<forall>k q (r :: 'b klog_scheme). reboots q s (write_all (take k W) (disk s)) r \<longrightarrow>
       (\<exists>u. recover_from_log r = Ok () u \<and>
          ((\<forall>b. b \<notin> log_area s \<longrightarrow> disk u b = disk s b) \<or> (\<forall>b. b \<notin> log_area s \<longrightarrow> disk u b = content s b))))"
proof -
  note o = log_okD [OF ok(1)]
  let ?st = "nat (log_start s)" and ?len = "nat (log_size s)"
  have pos: "0 < log_size s" using o(11) by linarith
  have area: "log_area s = {?st..<?st + ?len}" using o(3) pos by (simp add: log_area_def nat_add_distrib)
  let ?s = "s\<lparr>log_outstanding := 0, log_committing := True\<rparr>"
  define W where "W = (if bs = [] then [] else commit_writes ?st bs (content s) (disk s ?st))"
  have ok1: "log_ok p bs ?s" "dirty ?s = set bs" using ok by simp_all
  have W: "W = (if bs = [] then [] else commit_writes (nat (log_start ?s)) bs (content ?s) (disk ?s (nat (log_start ?s))))"
    by (simp add: W_def)
  obtain t where "commit ?s = Ok () t" "log_ok p [] t" "disk t = write_all W (disk ?s)" "dwrites t = dwrites ?s @ W"
    "log_start t = log_start ?s" "log_size t = log_size ?s"
    unfolding W by (rule commit_any [OF ok1(1) ok(2) ok1(2)])
  then have t: "commit ?s = Ok () t" "log_ok p [] t" "disk t = write_all W (disk s)" "dwrites t = dwrites s @ W"
    "log_start t = log_start s" by simp_all
  have e: "end_op s = Ok () (t\<lparr>log_committing := False\<rparr>)"
    by (rule end_op_ok [OF bcache_okD(1) [OF o(1)] s(1,2) t(1) bcache_okD(1) [OF log_okD(1) [OF t(2)]]])
  have nb: "length bs < min ?len NBUF" using o(10,11) by simp
  have bb: "c < disksize s \<and> c \<notin> {?st..<?st + ?len}" if "c \<in> set bs" for c using o(12) [OF that] unfolding area by auto
  have new: "(if b \<in> set bs then content s b else disk s b) = content s b" for b
    using content_clean [OF o(1), of b] ok(3) by simp
  note pre = commit_any_prefix [where d = "disk s", OF o(6) s(3) [unfolded log_empty_def] nb bb o(5) W_def, unfolded new]
  have "\<exists>u. recover_from_log r = Ok () u \<and>
      ((\<forall>b. b \<notin> log_area s \<longrightarrow> disk u b = disk s b) \<or> (\<forall>b. b \<notin> log_area s \<longrightarrow> disk u b = content s b))"
    if "reboots q s (write_all (take k W) (disk s)) r" for k q and r :: "'b klog_scheme"
    using reboot_recovers [OF o(3) pos o(4,5) pre(1) that] pre(2) [of k] unfolding area by auto
  moreover have "disk t b = content s b" if "b \<notin> log_area s" for b using pre(3) [of b] that t(3) unfolding area by simp
  moreover have "log_empty (t\<lparr>log_committing := False\<rparr>)" using pre(4) t(3,5) by (simp add: log_empty_def)
  ultimately show ?thesis using e t(2-4) by (intro exI [of _ "t\<lparr>log_committing := False\<rparr>"] exI [of _ W]) auto
qed

text \<open>C2: A file system call is atomic with respect to crashes: \<^verbatim>\<open>begin_op\<close>, any changes of at most
  \<^verbatim>\<open>MAXOPBLOCKS\<close> blocks and \<^verbatim>\<open>end_op\<close> return with every change on the disk; and if the machine stops after
  any number of the block writes, recovery returns and leaves, outside the log, either the disk from
  before the call or the disk with all the changes.\<close>

theorem transaction_atomic:
  assumes ok: "log_ok p [] s" and idle: "log_outstanding s = 0" "\<not> log_committing s" and emp: "log_empty s"
    and room: "int MAXOPBLOCKS + 1 < log_size s" "card (fst ` set us) \<le> MAXOPBLOCKS"
    and us: "\<forall>(b, f) \<in> set us. b < disksize s \<and> b \<notin> log_area s"
  shows "\<exists>t W. transaction us s = Ok () t \<and> log_ok p [] t \<and> log_empty t \<and>
    disk t = write_all W (disk s) \<and> dwrites t = dwrites s @ W \<and>
    (\<forall>b. b \<notin> log_area s \<longrightarrow> disk t b = updated us (disk s) b) \<and>
    (\<forall>k q (r :: 'b klog_scheme). reboots q s (write_all (take k W) (disk s)) r \<longrightarrow>
       (\<exists>u. recover_from_log r = Ok () u \<and>
          ((\<forall>b. b \<notin> log_area s \<longrightarrow> disk u b = disk s b) \<or>
           (\<forall>b. b \<notin> log_area s \<longrightarrow> disk u b = updated us (disk s) b))))"
proof -
  note o = log_okD [OF ok]
  have cd: "content s = disk s" using content_clean [OF o(1)] o(13) by auto
  let ?s1 = "s\<lparr>log_outstanding := 1\<rparr>"
  have b: "begin_op s = Ok () ?s1"
    using begin_op_ok [OF bcache_okD(1) [OF o(1)]] idle o(7) by (simp add: log_full_def MAXOPBLOCKS_def LOGSIZE_def)
  have us': "b < disksize ?s1 \<and> b \<notin> log_area ?s1" if "(b, f) \<in> set us" for b f using us that by auto
  have "\<exists>bs t1. for_list (\<lambda>(b, f). logged_write b f) us ?s1 = Ok () t1 \<and> log_ok p bs t1 \<and> distinct bs \<and>
    dirty t1 = set bs \<and> set bs = set [] \<union> fst ` set us \<and> content t1 = updated us (content ?s1) \<and> disk t1 = disk ?s1 \<and>
    dwrites t1 = dwrites ?s1 \<and> log_start t1 = log_start ?s1 \<and> log_size t1 = log_size ?s1 \<and> disksize t1 = disksize ?s1 \<and>
    log_outstanding t1 = log_outstanding ?s1 \<and> log_committing t1 = log_committing ?s1"
    by (rule logged_writes_ok [OF _ _ _ us']) (use ok o(13) room in auto)
  then obtain bs t1 where "for_list (\<lambda>(b, f). logged_write b f) us ?s1 = Ok () t1 \<and> log_ok p bs t1 \<and> distinct bs \<and>
    dirty t1 = set bs \<and> set bs = set [] \<union> fst ` set us \<and> content t1 = updated us (content ?s1) \<and> disk t1 = disk ?s1 \<and>
    dwrites t1 = dwrites ?s1 \<and> log_start t1 = log_start ?s1 \<and> log_size t1 = log_size ?s1 \<and> disksize t1 = disksize ?s1 \<and>
    log_outstanding t1 = log_outstanding ?s1 \<and> log_committing t1 = log_committing ?s1" by blast
  then have t1: "for_list (\<lambda>(b, f). logged_write b f) us ?s1 = Ok () t1" "log_ok p bs t1" "distinct bs"
    "dirty t1 = set bs" "set bs = fst ` set us" "content t1 = updated us (disk s)" "disk t1 = disk s" "dwrites t1 = dwrites s"
    "log_start t1 = log_start s" "log_size t1 = log_size s" "disksize t1 = disksize s" "log_outstanding t1 = 1"
    "\<not> log_committing t1"
    using idle cd by simp_all
  have e1: "log_empty t1" using emp t1(7,9) by (simp add: log_empty_def)
  have a1: "log_area t1 = log_area s" using t1(9,10) by (simp add: log_area_def)
  have r1: "reboots q t1 = reboots q s" for q :: nat using t1(9-11) by (simp add: reboots_def fun_eq_iff)
  from end_op_atomic [OF t1(2,3,4,12,13) e1, where 'b = 'b] obtain t W where "end_op t1 = Ok () t" "log_ok p [] t" "log_empty t"
    "disk t = write_all W (disk s)" "dwrites t = dwrites s @ W" "\<forall>b. b \<notin> log_area s \<longrightarrow> disk t b = updated us (disk s) b"
    "\<forall>k q (r :: 'b klog_scheme). reboots q s (write_all (take k W) (disk s)) r \<longrightarrow>
       (\<exists>u. recover_from_log r = Ok () u \<and>
          ((\<forall>b. b \<notin> log_area s \<longrightarrow> disk u b = disk s b) \<or> (\<forall>b. b \<notin> log_area s \<longrightarrow> disk u b = updated us (disk s) b)))"
    unfolding t1(6-8) a1 r1 by blast
  then show ?thesis using b t1(1) by (intro exI [of _ t] exI [of _ W]) (simp add: transaction_def)
qed

text \<open>C8: Recovery may itself be interrupted: if the machine stops after any number of the block writes of
  \<^verbatim>\<open>recover_from_log\<close>, the next recovery returns and leaves the same disk outside the log.\<close>

theorem recovery_restartable:
  assumes boot: "booted p s"
  shows "\<exists>t W. recover_from_log s = Ok () t \<and> log_ok p [] t \<and> disk t = write_all W (disk s) \<and> dwrites t = dwrites s @ W \<and>
    (\<forall>b. b \<notin> log_area s \<longrightarrow> disk t b = recovered (nat (log_start s)) (disk s) b) \<and>
    (\<forall>k q (r :: 'b klog_scheme). reboots q s (write_all (take k W) (disk s)) r \<longrightarrow>
       (\<exists>u. recover_from_log r = Ok () u \<and> (\<forall>b. b \<notin> log_area s \<longrightarrow> disk u b = disk t b)))"
proof -
  let ?st = "nat (log_start s)" and ?len = "nat (log_size s)" and ?W = "recover_writes (nat (log_start s)) (disk s)"
  have g: "0 \<le> log_start s" "0 < log_size s" "log_start s + log_size s \<le> int (disksize s)" "disksize s \<le> 2147483648"
    "logdisk_ok ?st ?len (disksize s) (disk s)" using boot by (simp_all add: booted_def)
  have area: "log_area s = {?st..<?st + ?len}" using g by (simp add: log_area_def nat_add_distrib)
  have len: "0 < ?len" using g(2) by simp
  obtain t where t: "recover_from_log s = Ok () t" "log_ok p [] t" "disk t = write_all ?W (disk s)" "dwrites t = dwrites s @ ?W"
    by (rule recover_ok [OF boot])
  have d: "disk t b = recovered ?st (disk s) b" if "b \<notin> log_area s" for b
    using recover_disk [OF g(5) len, of b] that t(3) unfolding area by simp
  note pre = recover_prefix [OF g(5) len]
  have "\<exists>u. recover_from_log r = Ok () u \<and> (\<forall>b. b \<notin> log_area s \<longrightarrow> disk u b = disk t b)"
    if "reboots q s (write_all (take k ?W) (disk s)) r" for k q and r :: "'b klog_scheme"
    using reboot_recovers [OF g(1-4) conjunct1 [OF pre] that] d conjunct2 [OF pre, of k] unfolding area by auto
  then show ?thesis using t d by blast
qed

section \<open>Witnesses\<close>

definition demo_log :: "(nat \<Rightarrow> block) \<Rightarrow> klog" where
  "demo_log d = kbio.extend (demo_bio d) (klog.fields 2 30 0 False 1 0 (replicate 30 0))"

lemma demo_log_fields [simp]:
  "log_start (demo_log d) = 2" "log_size (demo_log d) = 30" "disk (demo_log d) = d" "disksize (demo_log d) = 1000"
  "log_outstanding (demo_log d) = 0" "log_committing (demo_log d) = False" "lh_n (demo_log d) = 0" "log_dev (demo_log d) = 1"
  "lh_block (demo_log d) = replicate 30 0" "dwrites (demo_log d) = []"
  by (simp_all add: demo_log_def demo_bio_def kbio.defs klog.defs kproc.defs)

lemma demo_log_cache: "bcache_ok 0 {} (demo_log d)" "dirty (demo_log d) = {}"
proof -
  let ?b = "\<lparr>b_valid = False, b_dirty = False, b_dev = 0, b_blockno = 0, b_refcnt = 0, b_data = []\<rparr>"
  have f: "bufs (demo_log d) = replicate 30 ?b" "mru (demo_log d) = [0..<30]" "\<not> sl_locked (sleeplocks (demo_log d) l)" for l
    by (simp_all add: demo_log_def demo_bio_def kbio.defs klog.defs kproc.defs)
  have "quiet 0 (demo_log d)"
    by (simp add: quiet_def demo_log_def demo_bio_def demo_idle_def demo_kproc_def demo_kmem_def kbio.defs klog.defs kproc.defs
        cpu_ok_def my_def cpu_index_def lock_free_def NPROC_def)
  then show "bcache_ok 0 {} (demo_log d)" using f by (auto simp: bcache_ok_def slot_ok_def holds_block_def NBUF_def)
  show "dirty (demo_log d) = {}" using f by (simp add: dirty_def NBUF_def)
qed

definition demo_zero :: "nat \<Rightarrow> block" where
  "demo_zero b = replicate 512 0"

lemma demo_zero_head: "length (demo_zero 2) = BSIZE" "sint (get32 0 (demo_zero 2)) = 0"
  by (simp_all add: demo_zero_def BSIZE_def get32_def)

definition demo_updates :: "block_update list" where
  "demo_updates = [(100, \<lambda>x. x[0 := 1]), (200, \<lambda>x. x[5 := 2]), (100, \<lambda>x. x[1 := 3])]"

theorem transaction_atomic_witness:
  "(\<exists>t W. transaction demo_updates (demo_log demo_zero) = Ok () t \<and> disk t = write_all W demo_zero \<and> dwrites t = W \<and>
      disk t 100 = 1 # 3 # replicate 510 0 \<and>
      (\<forall>k. \<exists>u. recover_from_log (demo_log (write_all (take k W) demo_zero)) = Ok () u \<and>
         (disk u 100 = demo_zero 100 \<and> disk u 200 = demo_zero 200 \<or>
          disk u 100 = disk t 100 \<and> disk u 200 = disk t 200)))"
proof -
  let ?s = "demo_log demo_zero"
  have ok: "log_ok 0 [] ?s" using demo_log_cache [of demo_zero] demo_zero_head(1) by (simp add: log_ok_def NBUF_def LOGSIZE_def MAXOPBLOCKS_def)
  have area: "log_area ?s = {2..<32}" by (simp add: log_area_def)
  have r: "reboots 0 ?s d (demo_log d)" for d using demo_log_cache [of d] by (simp add: reboots_def LOGSIZE_def MAXOPBLOCKS_def)
  have e: "log_empty ?s" using demo_zero_head by (simp add: log_empty_def)
  have u: "\<forall>(b, f) \<in> set demo_updates. b < disksize ?s \<and> b \<notin> log_area ?s" by (simp add: demo_updates_def area)
  have c: "card (fst ` set demo_updates) \<le> MAXOPBLOCKS" by (simp add: demo_updates_def MAXOPBLOCKS_def card_insert_if)
  have i: "log_outstanding ?s = 0" "\<not> log_committing ?s" "int MAXOPBLOCKS + 1 < log_size ?s" by (simp_all add: MAXOPBLOCKS_def)
  have h: "updated demo_updates demo_zero 100 = 1 # 3 # replicate 510 0"
    by (simp add: demo_updates_def demo_zero_def numeral_eq_Suc)
  obtain t W where t: "transaction demo_updates ?s = Ok () t" "disk t = write_all W (disk ?s)" "dwrites t = dwrites ?s @ W"
    "\<forall>b. b \<notin> log_area ?s \<longrightarrow> disk t b = updated demo_updates (disk ?s) b"
    "\<forall>k q (r :: klog). reboots q ?s (write_all (take k W) (disk ?s)) r \<longrightarrow>
       (\<exists>u. recover_from_log r = Ok () u \<and>
          ((\<forall>b. b \<notin> log_area ?s \<longrightarrow> disk u b = disk ?s b) \<or>
           (\<forall>b. b \<notin> log_area ?s \<longrightarrow> disk u b = updated demo_updates (disk ?s) b)))"
    using transaction_atomic [OF ok i(1,2) e i(3) c u] by blast
  have d: "disk t 100 = updated demo_updates demo_zero 100" "disk t 200 = updated demo_updates demo_zero 200"
    using t(4) [rule_format, of 100] t(4) [rule_format, of 200] area by simp_all
  have "\<exists>u. recover_from_log (demo_log (write_all (take k W) demo_zero)) = Ok () u \<and>
      (disk u 100 = demo_zero 100 \<and> disk u 200 = demo_zero 200 \<or> disk u 100 = disk t 100 \<and> disk u 200 = disk t 200)" for k
    using t(5) [rule_format, of 0 k "demo_log (write_all (take k W) demo_zero)"] r [of "write_all (take k W) demo_zero"] area d
    by auto
  then show ?thesis using t(1-3) d(1) h by (intro exI [of _ t] exI [of _ W]) simp
qed

definition demo_crashed :: "nat \<Rightarrow> block" where
  "demo_crashed = demo_zero(2 := head_block [100] (demo_zero 2), 3 := replicate 512 7)"

theorem recovery_restartable_witness:
  "\<exists>t W. recover_from_log (demo_log demo_crashed) = Ok () t \<and> dwrites t = W \<and> disk t 100 = replicate 512 7 \<and>
     (\<forall>k. \<exists>u. recover_from_log (demo_log (write_all (take k W) demo_crashed)) = Ok () u \<and> disk u 100 = disk t 100)"
proof -
  let ?s = "demo_log demo_crashed"
  have hd: "header (demo_crashed 2) = [100]" "length (demo_crashed 2) = BSIZE" "sint (get32 0 (demo_crashed 2)) = 1"
    using header_head_block [OF demo_zero_head(1), of "[100]"] by (simp_all add: demo_crashed_def LOGSIZE_def MAXOPBLOCKS_def)
  have b: "booted 0 ?s"
    using demo_log_cache [of demo_crashed] hd by (simp add: booted_def logdisk_ok_def NBUF_def LOGSIZE_def MAXOPBLOCKS_def)
  have area: "log_area ?s = {2..<32}" by (simp add: log_area_def)
  have r: "reboots 0 ?s d (demo_log d)" for d using demo_log_cache [of d] by (simp add: reboots_def LOGSIZE_def MAXOPBLOCKS_def)
  have rec: "recovered 2 demo_crashed 100 = replicate 512 7"
    using hd(1) by (simp add: recovered_def home_writes_def) (simp add: demo_crashed_def)
  obtain t W where t: "recover_from_log ?s = Ok () t" "dwrites t = dwrites ?s @ W"
    "\<forall>b. b \<notin> log_area ?s \<longrightarrow> disk t b = recovered (nat (log_start ?s)) (disk ?s) b"
    "\<forall>k q (r :: klog). reboots q ?s (write_all (take k W) (disk ?s)) r \<longrightarrow>
       (\<exists>u. recover_from_log r = Ok () u \<and> (\<forall>b. b \<notin> log_area ?s \<longrightarrow> disk u b = disk t b))"
    using recovery_restartable [OF b] by blast
  have d: "disk t 100 = replicate 512 7" using t(3) [rule_format, of 100] area rec by simp
  have "\<exists>u. recover_from_log (demo_log (write_all (take k W) demo_crashed)) = Ok () u \<and> disk u 100 = disk t 100" for k
    using t(4) [rule_format, of 0 k "demo_log (write_all (take k W) demo_crashed)"] r [of "write_all (take k W) demo_crashed"] area
    by auto
  then show ?thesis using t(1,2) d by (intro exI [of _ t] exI [of _ W]) simp
qed

end
