(* ===== verification/TxSpec.thy ===== *)
theory TxSpec
  imports CrashSpec Inode
begin

text \<open>
  The file system on top of the log.  \<open>tx_ok p H bs s\<close> says that process \<open>p\<close> runs with the blocks \<open>bs\<close> in the
  log of the current transaction and holds the buffers \<open>H\<close>: the dirty blocks are the logged ones and a held
  buffer that is not dirty holds what the disk holds.  The calls of \<^verbatim>\<open>fs.c\<close> on buffers, \<^verbatim>\<open>bread\<close>, a change
  followed by \<^verbatim>\<open>log_write\<close>, and \<^verbatim>\<open>brelse\<close>, keep it and change nothing else of the kernel (\<open>tx_frame\<close>).
\<close>

definition tx_frame :: "'a klog_scheme \<Rightarrow> 'a klog_scheme \<Rightarrow> bool" where
  "tx_frame s t = (\<exists>a b c d e. t = s\<lparr>sleeplocks := a, bufs := b, mru := c, lh_n := d, lh_block := e\<rparr>)"

lemma tx_frame_refl [simp]: "tx_frame s s"
proof -
  have "s = s\<lparr>sleeplocks := sleeplocks s, bufs := bufs s, mru := mru s, lh_n := lh_n s, lh_block := lh_block s\<rparr>" by simp
  then show ?thesis unfolding tx_frame_def by blast
qed

lemma tx_frame_trans [trans]: "tx_frame s t \<Longrightarrow> tx_frame t u \<Longrightarrow> tx_frame s u"
  unfolding tx_frame_def by force

lemma tx_frame_steps:
  "tx_frame s (s\<lparr>bufs := b\<rparr>)" "tx_frame s (s\<lparr>lh_block := e, lh_n := d\<rparr>)"
proof -
  have "s\<lparr>bufs := b\<rparr> = s\<lparr>sleeplocks := sleeplocks s, bufs := b, mru := mru s, lh_n := lh_n s, lh_block := lh_block s\<rparr>" by simp
  then show "tx_frame s (s\<lparr>bufs := b\<rparr>)" unfolding tx_frame_def by blast
  have "s\<lparr>lh_block := e, lh_n := d\<rparr> =
    s\<lparr>sleeplocks := sleeplocks s, bufs := bufs s, mru := mru s, lh_n := d, lh_block := e\<rparr>" by simp
  then show "tx_frame s (s\<lparr>lh_block := e, lh_n := d\<rparr>)" unfolding tx_frame_def by blast
qed

lemma tx_frame_fields:
  assumes "tx_frame s t"
  shows "disk t = disk s" "dwrites t = dwrites s" "disksize t = disksize s" "log_start t = log_start s"
    "log_size t = log_size s" "log_dev t = log_dev s" "log_outstanding t = log_outstanding s"
    "log_committing t = log_committing s" "log_area t = log_area s" "procs t = procs s" "klog.more t = klog.more s"
  using assms by (auto simp: tx_frame_def log_area_def)

lemma tx_frame_kino:
  assumes "tx_frame s (t :: 'a kino_scheme)"
  shows "inodes t = inodes s" "sblk t = sblk s" "kino.more t = kino.more s"
  using assms by (auto simp: tx_frame_def)

lemma tx_frame_upd:
  assumes "disk t = disk s" "dwrites t = dwrites s" "bio_frame s t"
  shows "tx_frame s (t :: 'a klog_scheme)"
proof -
  obtain a b c d e where "t = s\<lparr>sleeplocks := a, bufs := b, mru := c, disk := d, dwrites := e\<rparr>"
    using assms(3) by (auto simp: bio_frame_def)
  then have "t = s\<lparr>sleeplocks := a, bufs := b, mru := c, lh_n := lh_n s, lh_block := lh_block s\<rparr>"
    using assms(1,2) by simp
  then show ?thesis unfolding tx_frame_def by blast
qed

definition tx_ok :: "nat \<Rightarrow> nat set \<Rightarrow> nat list \<Rightarrow> 'a klog_scheme \<Rightarrow> bool" where
  "tx_ok p H bs s =
     (bcache_ok p H s \<and> log_dev s = 1 \<and> 0 \<le> log_start s \<and> log_start s + log_size s \<le> int (disksize s) \<and>
      disksize s \<le> 2147483648 \<and> length (disk s (nat (log_start s))) = BSIZE \<and> int LOGSIZE \<le> log_size s \<and>
      lh_n s = int (length bs) \<and> length (lh_block s) = LOGSIZE \<and> take (length bs) (lh_block s) = map int bs \<and>
      distinct bs \<and> dirty s = set bs \<and> (\<forall>b \<in> set bs. b < disksize s \<and> b \<notin> log_area s) \<and>
      (\<forall>i \<in> H. b_dirty (bufs s ! i) \<or> b_data (bufs s ! i) = disk s (unat (b_blockno (bufs s ! i)))))"

lemma tx_okD:
  assumes "tx_ok p H bs s"
  shows "bcache_ok p H s" "log_dev s = 1" "0 \<le> log_start s" "log_start s + log_size s \<le> int (disksize s)"
    "disksize s \<le> 2147483648" "length (disk s (nat (log_start s))) = BSIZE" "int LOGSIZE \<le> log_size s"
    "lh_n s = int (length bs)" "length (lh_block s) = LOGSIZE" "take (length bs) (lh_block s) = map int bs"
    "distinct bs" "dirty s = set bs" "b \<in> set bs \<Longrightarrow> b < disksize s \<and> b \<notin> log_area s"
    "i \<in> H \<Longrightarrow> b_dirty (bufs s ! i) \<or> b_data (bufs s ! i) = disk s (unat (b_blockno (bufs s ! i)))"
  using assms by (simp_all add: tx_ok_def)

lemma tx_log_ok: "tx_ok p {} bs s \<Longrightarrow> length bs + 1 \<le> LOGSIZE \<Longrightarrow> log_ok p bs s"
  by (auto simp: tx_ok_def log_ok_def LOGSIZE_def MAXOPBLOCKS_def NBUF_def)

lemma holds_unique: "holds_block x a \<Longrightarrow> holds_block x b \<Longrightarrow> a = b"
  by (simp add: holds_block_def)

text \<open>The blocks a transaction holds.\<close>

definition held :: "nat set \<Rightarrow> 'a kbio_scheme \<Rightarrow> nat set" where
  "held H s = {b. \<exists>i \<in> H. holds_block (bufs s ! i) b}"

lemma held_empty [simp]: "held {} s = {}"
  by (simp add: held_def)

lemma tx_dirty_card:
  assumes "tx_ok p H bs s"
  shows "card (dirty s) = length bs"
  using tx_okD(11,12) [OF assms] by (simp add: distinct_card)

lemma tx_bread:
  assumes ok: "tx_ok p H bs s" and b: "b < disksize s" "unat w = b" "b \<notin> held H s"
    and room: "length bs + card H < NBUF"
  obtains i t where "bread 1 w s = Ok i t" "i \<notin> H" "tx_ok p (insert i H) bs t" "holds_block (bufs t ! i) b"
    "b_data (bufs t ! i) = content s b" "content t = content s" "tx_frame s t" "held (insert i H) t = insert b (held H s)"
    "\<forall>j \<in> H. bufs t ! j = bufs s ! j"
proof -
  note o = tx_okD [OF ok]
  have nh: "\<not> holds_block (bufs s ! i) (unat w)" if "i \<in> H" for i using b(2,3) that by (auto simp: held_def)
  have bw: "unat w < disksize s" using b by simp
  have rm: "unat w \<in> dirty s \<or> card (dirty s) + card H < NBUF" using room tx_dirty_card [OF ok] by simp
  obtain i t where t: "bread 1 w s = Ok i t" "i < NBUF" "i \<notin> H" "bcache_ok p (insert i H) t"
    "holds_block (bufs t ! i) (unat w)" "b_data (bufs t ! i) = content s (unat w)"
    "content t = content s" "dirty t = dirty s" "disk t = disk s" "dwrites t = dwrites s" "bio_frame s t"
    "\<And>j. j < NBUF \<Longrightarrow> j \<noteq> i \<Longrightarrow> bufs t ! j = bufs s ! j"
    by (rule bread_ok [OF o(1) bw nh rm]) blast+
  note f = bio_frame_log [OF t(11)]
  have H: "H \<subseteq> {..<NBUF}" by (rule bcache_okD(5) [OF o(1)])
  have same: "bufs t ! j = bufs s ! j" if "j \<in> H" for j using t(12) [of j] t(3) H that by auto
  have clean: "b_dirty (bufs t ! i) \<or> content s (unat w) = disk s (unat w)"
  proof (cases "unat w \<in> dirty s")
    case True
    then obtain j where j: "j < NBUF" "b_dirty (bufs t ! j)" "unat (b_blockno (bufs t ! j)) = unat w"
      unfolding t(8) [symmetric] by (auto simp: dirty_def)
    have "holds_block (bufs t ! j) (unat w)"
      using bcache_okD(7) [OF t(4) j(1)] j by (simp add: slot_ok_def holds_block_def Let_def)
    then have "j = i" using bcache_okD(6) [OF t(4) j(1) t(2)] t(5) by simp
    then show ?thesis using j by simp
  next
    case False
    then show ?thesis using content_clean [OF o(1)] nh by blast
  qed
  have "unat (b_blockno (bufs t ! i)) = unat w" using t(5) by (simp add: holds_block_def)
  then have "tx_ok p (insert i H) bs t"
    using o t(4,6,8,9) f same clean by (auto simp: tx_ok_def)
  moreover have "tx_frame s t" by (rule tx_frame_upd [OF t(9,10,11)])
  moreover have "held (insert i H) t = insert b (held H s)"
    using same t(5) b(2) by (auto simp: held_def holds_block_def)
  ultimately show thesis using that [of i t] t(1,3,5-7) same b(2) by simp
qed

lemma tx_brelse:
  assumes ok: "tx_ok p H bs s" and i: "i \<in> H" and b: "holds_block (bufs s ! i) b"
  obtains t where "brelse i s = Ok () t" "tx_ok p (H - {i}) bs t" "content t = content s" "tx_frame s t"
    "\<forall>j. j \<noteq> i \<longrightarrow> bufs t ! j = bufs s ! j" "held (H - {i}) t = held H s - {b}"
proof -
  note o = tx_okD [OF ok]
  have sv: "b_dirty (bufs s ! i) \<or> b_data (bufs s ! i) = disk s b"
    using o(14) [OF i] b by (simp add: holds_block_def)
  obtain t where t: "brelse i s = Ok () t" "bcache_ok p (H - {i}) t" "content t = content s" "dirty t = dirty s"
    "bio_frame s t" "disk t = disk s" "dwrites t = dwrites s" "\<forall>j. j \<noteq> i \<longrightarrow> bufs t ! j = bufs s ! j"
    by (rule brelse_ok [OF o(1) i b sv])
  note f = bio_frame_log [OF t(5)]
  have "tx_ok p (H - {i}) bs t" using o t(2,4,6,8) f by (auto simp: tx_ok_def)
  moreover have "tx_frame s t" by (rule tx_frame_upd [OF t(6,7,5)])
  moreover have "held (H - {i}) t = held H s - {b}"
  proof -
    have n: "\<not> holds_block (bufs s ! j) b" if "j \<in> H" "j \<noteq> i" for j
      using bcache_okD(5,6) [OF o(1)] i b that by blast
    have e: "holds_block (bufs t ! j) c = holds_block (bufs s ! j) c" if "j \<noteq> i" for j c using t(8) that by simp
    have 1: "held (H - {i}) t = held (H - {i}) s" unfolding held_def by (rule Collect_cong) (simp add: e)
    have 2: "held (H - {i}) s \<subseteq> held H s - {b}" unfolding held_def by (auto dest: n)
    have "held H s - {b} \<subseteq> held (H - {i}) s"
    proof
      fix c assume "c \<in> held H s - {b}"
      then obtain j where j: "j \<in> H" "holds_block (bufs s ! j) c" "c \<noteq> b" by (auto simp: held_def)
      then have "j \<noteq> i" using b holds_unique by blast
      then show "c \<in> held (H - {i}) s" using j by (auto simp: held_def)
    qed
    with 1 2 show ?thesis by simp
  qed
  ultimately show thesis using that [of t] t(1,3,8) by simp
qed

lemma tx_write:
  assumes ok: "tx_ok p H bs s" and i: "i \<in> H" and b: "holds_block (bufs s ! i) b" "b < disksize s" "b \<notin> log_area s"
    and room: "length bs + 2 \<le> LOGSIZE" and out: "1 \<le> log_outstanding s"
  obtains t where "log_write i (upd_data i f s) = Ok () t" "tx_ok p H (add_block b bs) t" "holds_block (bufs t ! i) b"
    "content t = (content s)(b := f (content s b))" "tx_frame s t" "\<forall>j. j \<noteq> i \<longrightarrow> bufs t ! j = bufs s ! j"
    "held H t = held H s"
proof -
  note o = tx_okD [OF ok]
  note m = modify_ok [OF o(1) i b(1) refl, where f = "\<lambda>x. f (b_data x)"]
  let ?v = "upd_buf i (\<lambda>x. x\<lparr>b_data := f (b_data x)\<rparr>) s"
  note fv = bio_frame_log [OF m(4)]
  have hv: "holds_block (bufs ?v ! i) b" using m(5) b(1) by (simp add: holds_block_def)
  have w: "unat (word_of_nat b :: 32 word) = b"
    using b(2) o(5) by (simp add: unat_of_nat take_bit_nat_eq_self)
  have "sint (word_of_nat b :: 32 word) = int b"
    using b(2) o(5) sint_of_int [of "int b"] by simp
  moreover have "b_blockno (bufs ?v ! i) = word_of_nat b" using hv w by (simp add: holds_block_def word_unat_eq_iff)
  ultimately have bno: "sint (b_blockno (bufs ?v ! i)) = int b" by simp
  define k where "k = absorb (int b) (take (length bs) (lh_block s)) 0"
  define v where "v = ?v\<lparr>lh_block := (lh_block s)[k := int b],
    lh_n := (if int k = int (length bs) then int (length bs) + 1 else int (length bs))\<rparr>"
  have ln: "length bs < length (lh_block s)" using o(9) room by simp
  note ab = absorb_add_block [OF o(10) ln, of b, folded k_def]
  let ?t = "upd_buf i (\<lambda>x. x\<lparr>b_dirty := True\<rparr>) v"
  have lw: "log_write i (upd_data i f s) = Ok () ?t"
    using log_write_ok [OF bcache_okD(1) [OF m(1)], of i] fv o(7,8) room out bno
    by (simp add: v_def k_def upd_data_def)
  have v: "bcache_ok p H v" "holds_block (bufs v ! i) b" "content v = content ?v" "dirty v = dirty ?v"
    using m(1) hv by (simp_all add: v_def)
  note k = mark_ok [OF v(1) i v(2)]
  note ft = bio_frame_log [OF k(4)]
  have vs: "log_start v = log_start s" "log_size v = log_size s" "log_dev v = log_dev s" "disksize v = disksize s"
    "log_outstanding v = log_outstanding s" "disk v = disk s" "dwrites v = dwrites s" "bufs v = bufs ?v"
    "lh_block v = (lh_block s)[k := int b]" "lh_n v = int (length (add_block b bs))" "log_area v = log_area s"
    using fv m(7,8) unfolding v_def ab(2) by (simp_all add: log_area_def)
  have sm: "bufs ?t ! j = bufs s ! j" if "j \<noteq> i" for j using m(6) [OF that] that vs(8) by (simp add: upd_buf_def)
  have "\<forall>j \<in> H. b_dirty (bufs ?t ! j) \<or> b_data (bufs ?t ! j) = disk ?t (unat (b_blockno (bufs ?t ! j)))"
  proof
    fix j assume "j \<in> H"
    then show "b_dirty (bufs ?t ! j) \<or> b_data (bufs ?t ! j) = disk ?t (unat (b_blockno (bufs ?t ! j)))"
      using o(14) [of j] sm [of j] k(5,6) vs(6) by (cases "j = i") simp_all
  qed
  then have "tx_ok p H (add_block b bs) ?t"
    using k(1,3,6) v(4) m(3) vs ft o(2-9,11-13) b ab(1) by (simp add: tx_ok_def)
  moreover have "tx_frame s ?t" unfolding v_def upd_buf_def
    by (intro tx_frame_trans [OF tx_frame_trans [OF tx_frame_steps(1) tx_frame_steps(2)] tx_frame_steps(1)])
  moreover have hb: "holds_block (bufs ?t ! i) b" using k(5) v(2) by (simp add: holds_block_def)
  moreover have "held H ?t = held H s"
  proof -
    have "holds_block (bufs ?t ! j) c = holds_block (bufs s ! j) c" for j c
      using sm [of j] hb b(1) holds_unique by (cases "j = i") auto
    then show ?thesis by (simp add: held_def)
  qed
  moreover have "content ?t = (content s)(b := f (content s b))"
    using k(2) v(3) m(2) content_valid [OF o(1) held_slot(1) [OF o(1) i] b(1) held_slot(4) [OF o(1) i]] by simp
  ultimately show thesis using that [of ?t] lw sm by simp
qed

text \<open>The whole change of a block.\<close>

lemma tx_logged:
  assumes ok: "tx_ok p H bs s" and b: "b < disksize s" "unat w = b" "b \<notin> held H s" "b \<notin> log_area s"
    and room: "length bs + card H + 2 \<le> LOGSIZE" and fin: "finite H" and out: "1 \<le> log_outstanding s"
  obtains t where "bindo (bread 1 w s) (\<lambda>bp s. bindo (log_write bp (upd_data bp f s)) (\<lambda>_ s. brelse bp s)) = Ok () t"
    "tx_ok p H (add_block b bs) t" "content t = (content s)(b := f (content s b))" "tx_frame s t"
    "\<forall>j \<in> H. bufs t ! j = bufs s ! j" "held H t = held H s"
proof -
  have r: "length bs + card H < NBUF" "length bs + 2 \<le> LOGSIZE" using room by (simp_all add: LOGSIZE_def MAXOPBLOCKS_def NBUF_def)
  obtain i t where t: "bread 1 w s = Ok i t" "i \<notin> H" "tx_ok p (insert i H) bs t" "holds_block (bufs t ! i) b"
    "b_data (bufs t ! i) = content s b" "content t = content s" "tx_frame s t" "held (insert i H) t = insert b (held H s)"
    "\<forall>j \<in> H. bufs t ! j = bufs s ! j" by (rule tx_bread [OF ok b(1-3) r(1)])
  note f = tx_frame_fields [OF t(7)]
  have b': "b < disksize t" "b \<notin> log_area t" "1 \<le> log_outstanding t" using b f out by simp_all
  obtain u where u: "log_write i (upd_data i f t) = Ok () u" "tx_ok p (insert i H) (add_block b bs) u" "holds_block (bufs u ! i) b"
    "content u = (content t)(b := f (content t b))" "tx_frame t u" "\<forall>j. j \<noteq> i \<longrightarrow> bufs u ! j = bufs t ! j"
    "held (insert i H) u = held (insert i H) t" by (rule tx_write [OF t(3) insertI1 t(4) b'(1,2) r(2) b'(3)])
  obtain v where v: "brelse i u = Ok () v" "tx_ok p (insert i H - {i}) (add_block b bs) v" "content v = content u" "tx_frame u v"
    "\<forall>j. j \<noteq> i \<longrightarrow> bufs v ! j = bufs u ! j" "held (insert i H - {i}) v = held (insert i H) u - {b}"
    by (rule tx_brelse [OF u(2) insertI1 u(3)])
  have H: "insert i H - {i} = H" using t(2) by blast
  have "held H v = held H s" using v(6) u(7) t(8) b(3) unfolding H by auto
  moreover have "\<forall>j \<in> H. bufs v ! j = bufs s ! j" using v(5) u(6) t(2,9) by metis
  moreover have "tx_frame s v" using t(7) u(5) v(4) by (blast intro: tx_frame_trans)
  ultimately show thesis using that [of v] t(1,6) u(1,4) v(1-3) unfolding H by simp
qed

end
