(* ===== verification/AllocSpec.thy ===== *)
theory AllocSpec
  imports TxSpec
begin

text \<open>
  The block allocator.  \<open>used c sb b\<close> reads the bit of block \<open>b\<close> in the free map on the blocks \<open>c\<close>;
  \<open>fs_ok\<close> says that the areas of the file system do not overlap and that the free map marks them as used.
  \<^verbatim>\<open>balloc\<close> returns a block that was free, fills it with zeros and marks it; \<^verbatim>\<open>bfree\<close> unmarks a block.
\<close>

section \<open>Bits of the free map\<close>

lemma bit_used_iff: "bit_used d bi = bit (d ! (bi div 8)) (bi mod 8)"
proof -
  have m: "bi mod 8 < 8" by simp
  have "(w AND push_bit n 1 \<noteq> 0) = bit w n" if "n < 8" for w :: byte and n
  proof -
    have "bit (w AND push_bit n 1) k = (k = n \<and> bit w n)" for k using that by (auto simp: bit_simps)
    then show ?thesis by (metis bit_0_eq bot_apply bot_bool_def bit_word_eqI)
  qed
  from this [OF m] show ?thesis by (simp add: bit_used_def)
qed

lemma div_mod_8: "bi div 8 = bj div 8 \<Longrightarrow> bi mod 8 = bj mod 8 \<Longrightarrow> bi = (bj :: nat)"
  by (metis div_mult_mod_eq)

definition mark_bit :: "nat \<Rightarrow> block \<Rightarrow> block" where
  "mark_bit bi d = d[bi div 8 := d ! (bi div 8) OR push_bit (bi mod 8) 1]"

definition clear_bit :: "nat \<Rightarrow> block \<Rightarrow> block" where
  "clear_bit bi d = d[bi div 8 := d ! (bi div 8) AND NOT (push_bit (bi mod 8) 1)]"

lemma bit_used_mark:
  assumes "bi < BPB" "length d = BSIZE"
  shows "bit_used (mark_bit bi d) bj = (bj = bi \<or> bit_used d bj)"
proof -
  have l: "bi div 8 < length d" using assms by (simp add: BPB_def BSIZE_def)
  show ?thesis
  proof (cases "bj div 8 = bi div 8")
    case True
    then have "bit_used (mark_bit bi d) bj = (bj mod 8 = bi mod 8 \<or> bit_used d bj)"
      using l by (auto simp: bit_used_iff mark_bit_def bit_simps)
    then show ?thesis using True div_mod_8 [of bj bi] by auto
  next
    case False
    then show ?thesis using l by (auto simp: bit_used_iff mark_bit_def)
  qed
qed

lemma bit_used_clear:
  assumes "bi < BPB" "length d = BSIZE"
  shows "bit_used (clear_bit bi d) bj = (bj \<noteq> bi \<and> bit_used d bj)"
proof -
  have l: "bi div 8 < length d" using assms by (simp add: BPB_def BSIZE_def)
  show ?thesis
  proof (cases "bj div 8 = bi div 8")
    case True
    then have "bit_used (clear_bit bi d) bj = (bj mod 8 \<noteq> bi mod 8 \<and> bit_used d bj)"
      using l by (auto simp: bit_used_iff clear_bit_def bit_simps)
    then show ?thesis using True div_mod_8 [of bj bi] by auto
  next
    case False
    then show ?thesis using l by (auto simp: bit_used_iff clear_bit_def)
  qed
qed

lemma length_mark [simp]: "length (mark_bit bi d) = length d" "length (clear_bit bi d) = length d"
  by (simp_all add: mark_bit_def clear_bit_def)

section \<open>The areas of the file system\<close>

definition bmap_block :: "superblock \<Rightarrow> nat \<Rightarrow> nat" where
  "bmap_block sb b = unat (sb_bmapstart sb) + b div BPB"

definition used :: "(nat \<Rightarrow> block) \<Rightarrow> superblock \<Rightarrow> nat \<Rightarrow> bool" where
  "used c sb b = bit_used (c (bmap_block sb b)) (b mod BPB)"

definition bmap_area :: "superblock \<Rightarrow> nat set" where
  "bmap_area sb = bmap_block sb ` {..<unat (sb_size sb)}"

definition inode_block :: "superblock \<Rightarrow> nat \<Rightarrow> nat" where
  "inode_block sb inum = unat (sb_inodestart sb) + inum div IPB"

definition inode_area :: "superblock \<Rightarrow> nat set" where
  "inode_area sb = inode_block sb ` {..<unat (sb_ninodes sb)}"

definition meta_area :: "'a kino_scheme \<Rightarrow> nat set" where
  "meta_area s = insert 0 (bmap_area (sblk s) \<union> inode_area (sblk s) \<union> log_area s)"

definition fs_ok :: "'a kino_scheme \<Rightarrow> bool" where
  "fs_ok s =
     (unat (sb_size (sblk s)) \<le> disksize s \<and> disksize s \<le> 2147483648 \<and>
      meta_area s \<subseteq> {..<unat (sb_size (sblk s))} \<and> bmap_area (sblk s) \<inter> inode_area (sblk s) = {} \<and>
      log_area s \<inter> (bmap_area (sblk s) \<union> inode_area (sblk s)) = {} \<and>
      (\<forall>b \<in> meta_area s. used (content s) (sblk s) b) \<and> (\<forall>b < disksize s. length (content s b) = BSIZE))"

definition free_blocks :: "'a kino_scheme \<Rightarrow> nat set" where
  "free_blocks s = {b. b < unat (sb_size (sblk s)) \<and> \<not> used (content s) (sblk s) b}"

lemma fs_okD:
  assumes "fs_ok s"
  shows "unat (sb_size (sblk s)) \<le> disksize s" "disksize s \<le> 2147483648"
    "b \<in> meta_area s \<Longrightarrow> b < unat (sb_size (sblk s))" "b \<in> meta_area s \<Longrightarrow> used (content s) (sblk s) b"
    "b < disksize s \<Longrightarrow> length (content s b) = BSIZE"
    "b \<in> bmap_area (sblk s) \<Longrightarrow> b \<notin> log_area s \<and> b \<notin> inode_area (sblk s)"
    "b \<in> inode_area (sblk s) \<Longrightarrow> b \<notin> log_area s \<and> b \<notin> bmap_area (sblk s)"
  using assms by (auto simp: fs_ok_def)

lemma bmap_area_meta: "b < unat (sb_size (sblk s)) \<Longrightarrow> bmap_block (sblk s) b \<in> bmap_area (sblk s)"
  "bmap_area (sblk s) \<subseteq> meta_area s" "inode_area (sblk s) \<subseteq> meta_area s" "log_area s \<subseteq> meta_area s" "0 \<in> meta_area s"
  by (auto simp: bmap_area_def meta_area_def)

lemma free_blocksD:
  assumes "fs_ok s" "b \<in> free_blocks s"
  shows "b < disksize s" "b < unat (sb_size (sblk s))" "b \<notin> meta_area s" "b \<noteq> 0" "b \<notin> log_area s"
    "b \<notin> bmap_area (sblk s)" "b \<notin> inode_area (sblk s)"
proof -
  show l: "b < unat (sb_size (sblk s))" "b < disksize s"
    using assms fs_okD(1) [OF assms(1)] by (auto simp: free_blocks_def)
  show n: "b \<notin> meta_area s" using assms fs_okD(4) [OF assms(1), of b] by (auto simp: free_blocks_def)
  show "b \<noteq> 0" "b \<notin> log_area s" "b \<notin> bmap_area (sblk s)" "b \<notin> inode_area (sblk s)"
    using n by (auto simp: meta_area_def)
qed

lemma unat_of_nat32: "n < 4294967296 \<Longrightarrow> unat (of_nat n :: 32 word) = n"
  by (simp add: unat_of_nat take_bit_nat_eq_self)

lemma BBLOCK_unat:
  assumes "b < 4294967296" "bmap_block sb b < 4294967296"
  shows "unat (BBLOCK (of_nat b) sb) = bmap_block sb b"
proof -
  have "unat ((of_nat b :: 32 word) div of_nat BPB) = b div BPB"
    using assms(1) by (simp add: unat_div unat_of_nat32 BPB_def BSIZE_def)
  moreover have "unat (x + y) = unat x + unat y" if "unat x + unat y < 4294967296" for x y :: "32 word"
    using that unat_add_lem [of x y] by simp
  ultimately show ?thesis using assms(2) by (simp add: BBLOCK_def bmap_block_def add.commute)
qed

text \<open>What a change of blocks outside the areas, and the marking of a block, do to the free map.\<close>

lemma used_other:
  assumes "bmap_block sb b \<noteq> x"
  shows "used (c(x := d)) sb b = used c sb b"
  using assms by (simp add: used_def)

lemma used_mark:
  assumes "length (c (bmap_block sb b)) = BSIZE"
  shows "used (c(bmap_block sb b := mark_bit (b mod BPB) (c (bmap_block sb b)))) sb a = (a = b \<or> used c sb a)"
proof (cases "bmap_block sb a = bmap_block sb b")
  case True
  have "b mod BPB < BPB" by (simp add: BPB_def BSIZE_def)
  then have "used (c(bmap_block sb b := mark_bit (b mod BPB) (c (bmap_block sb b)))) sb a =
    (a mod BPB = b mod BPB \<or> used c sb a)"
    using bit_used_mark [OF _ assms, of "b mod BPB" "a mod BPB"] True by (simp add: used_def)
  moreover have "a div BPB = b div BPB" using True by (simp add: bmap_block_def)
  ultimately show ?thesis by (metis div_mult_mod_eq)
qed (auto simp: used_def)

lemma used_clear:
  assumes "length (c (bmap_block sb b)) = BSIZE"
  shows "used (c(bmap_block sb b := clear_bit (b mod BPB) (c (bmap_block sb b)))) sb a = (a \<noteq> b \<and> used c sb a)"
proof (cases "bmap_block sb a = bmap_block sb b")
  case True
  have "b mod BPB < BPB" by (simp add: BPB_def BSIZE_def)
  then have "used (c(bmap_block sb b := clear_bit (b mod BPB) (c (bmap_block sb b)))) sb a =
    (a mod BPB \<noteq> b mod BPB \<and> used c sb a)"
    using bit_used_clear [OF _ assms, of "b mod BPB" "a mod BPB"] True by (simp add: used_def)
  moreover have "a div BPB = b div BPB" using True by (simp add: bmap_block_def)
  ultimately show ?thesis by (metis div_mult_mod_eq)
qed (auto simp: used_def)

section \<open>Allocation\<close>

definition alloc_content :: "(nat \<Rightarrow> block) \<Rightarrow> superblock \<Rightarrow> nat \<Rightarrow> nat \<Rightarrow> block" where
  "alloc_content c sb b =
     c(bmap_block sb b := mark_bit (b mod BPB) (c (bmap_block sb b)), b := replicate BSIZE 0)"

lemma find_free_bit_Some:
  assumes "find_free_bit b nb d = Some bi"
  shows "bi < BPB" "b + bi < nb" "\<not> bit_used d bi"
  using assms by (auto simp: find_free_bit_def find_Some_iff)

lemma find_free_bit_None:
  assumes "find_free_bit b nb d = None" "bi < BPB" "b + bi < nb"
  shows "bit_used d bi"
  using assms by (auto simp: find_free_bit_def find_None_iff)

lemma bitmap_index:
  assumes "bi < BPB"
  shows "bmap_block sb (k * BPB + bi) = bmap_block sb (k * BPB) \<and> (k * BPB + bi) mod BPB = bi"
proof -
  have "0 < BPB" by (simp add: BPB_def BSIZE_def)
  then show ?thesis using assms by (simp add: bmap_block_def)
qed

text \<open>A bitmap block that \<^verbatim>\<open>balloc\<close> looks at.\<close>

lemma balloc_block:
  assumes fs: "fs_ok s" and k: "k * BPB < unat (sb_size (sblk s))"
  shows "unat (BBLOCK (of_nat (k * BPB)) (sblk s)) = bmap_block (sblk s) (k * BPB)"
    "bmap_block (sblk s) (k * BPB) < disksize s" "bmap_block (sblk s) (k * BPB) \<in> bmap_area (sblk s)"
    "bmap_block (sblk s) (k * BPB) \<notin> log_area s"
proof -
  show a: "bmap_block (sblk s) (k * BPB) \<in> bmap_area (sblk s)" by (rule bmap_area_meta(1) [OF k])
  then have "bmap_block (sblk s) (k * BPB) \<in> meta_area s" using bmap_area_meta(2) by blast
  then show l: "bmap_block (sblk s) (k * BPB) < disksize s" using fs_okD(1,3) [OF fs] by (meson less_le_trans)
  show "bmap_block (sblk s) (k * BPB) \<notin> log_area s" using fs_okD(6) [OF fs a] by blast
  show "unat (BBLOCK (of_nat (k * BPB)) (sblk s)) = bmap_block (sblk s) (k * BPB)"
    by (rule BBLOCK_unat) (use k l fs_okD(1,2) [OF fs] in linarith)+
qed

lemma balloc_skip:
  assumes ok: "tx_ok p H bs s" "fs_ok s" and k: "k * BPB < unat (sb_size (sblk s))"
    and H: "held H s \<inter> bmap_area (sblk s) = {}" and room: "length bs + card H < NBUF"
    and none: "find_free_bit (k * BPB) (unat (sb_size (sblk s))) (content s (bmap_block (sblk s) (k * BPB))) = None"
  obtains t where "balloc_loop 1 (k * BPB # ks) s = balloc_loop 1 ks t" "tx_ok p H bs t" "content t = content s"
    "tx_frame s t" "\<forall>j \<in> H. bufs t ! j = bufs s ! j" "held H t = held H s"
proof -
  note g = balloc_block [OF ok(2) k]
  have nh: "bmap_block (sblk s) (k * BPB) \<notin> held H s" using H g(3) by blast
  obtain i t where t: "bread 1 (BBLOCK (of_nat (k * BPB)) (sblk s)) s = Ok i t" "i \<notin> H" "tx_ok p (insert i H) bs t"
    "holds_block (bufs t ! i) (bmap_block (sblk s) (k * BPB))"
    "b_data (bufs t ! i) = content s (bmap_block (sblk s) (k * BPB))" "content t = content s" "tx_frame s t"
    "held (insert i H) t = insert (bmap_block (sblk s) (k * BPB)) (held H s)" "\<forall>j \<in> H. bufs t ! j = bufs s ! j"
    by (rule tx_bread [OF ok(1) g(2,1) nh room])
  obtain u where u: "brelse i t = Ok () u" "tx_ok p (insert i H - {i}) bs u" "content u = content t" "tx_frame t u"
    "\<forall>j. j \<noteq> i \<longrightarrow> bufs u ! j = bufs t ! j"
    "held (insert i H - {i}) u = held (insert i H) t - {bmap_block (sblk s) (k * BPB)}"
    by (rule tx_brelse [OF t(3) insertI1 t(4)])
  have H': "insert i H - {i} = H" using t(2) by blast
  note f = tx_frame_kino [OF t(7)]
  have "balloc_loop 1 (k * BPB # ks) s = balloc_loop 1 ks u" using t(1,5) u(1) f none by simp
  moreover have "held H u = held H s" using u(6) t(8) nh unfolding H' by auto
  moreover have "\<forall>j \<in> H. bufs u ! j = bufs s ! j" using u(5) t(2,9) by metis
  moreover have "tx_frame s u" using t(7) u(4) by (rule tx_frame_trans)
  ultimately show thesis using that [of u] u(2,3) t(6) unfolding H' by simp
qed

lemma balloc_take:
  assumes ok: "tx_ok p H bs s" "fs_ok s" and k: "k * BPB < unat (sb_size (sblk s))" and fin: "finite H"
    and H: "held H s \<inter> bmap_area (sblk s) = {}" "held H s \<inter> free_blocks s = {}" and room: "length bs + card H + 3 \<le> LOGSIZE"
    and out: "1 \<le> log_outstanding s"
    and bi: "find_free_bit (k * BPB) (unat (sb_size (sblk s))) (content s (bmap_block (sblk s) (k * BPB))) = Some bi"
  obtains t bs' where "balloc_loop 1 (k * BPB # ks) s = Ok (of_nat (k * BPB + bi)) t" "tx_ok p H bs' t"
    "length bs' \<le> length bs + 2" "k * BPB + bi \<in> free_blocks s"
    "content t = alloc_content (content s) (sblk s) (k * BPB + bi)" "tx_frame s t"
    "\<forall>j \<in> H. bufs t ! j = bufs s ! j" "held H t = held H s"
proof -
  note g = balloc_block [OF ok(2) k]
  let ?m = "bmap_block (sblk s) (k * BPB)" and ?b = "k * BPB + bi"
  note d = find_free_bit_Some [OF bi]
  note x = bitmap_index [OF d(1), where sb = "sblk s"]
  have free: "?b \<in> free_blocks s" using d x by (simp add: free_blocks_def used_def)
  note fb = free_blocksD [OF ok(2) free]
  have nh: "?m \<notin> held H s" "?b \<notin> held H s" using H g(3) free by blast+
  have r: "length bs + card H < NBUF" "length bs + 2 \<le> LOGSIZE"
    using room by (simp_all add: LOGSIZE_def MAXOPBLOCKS_def NBUF_def)
  obtain i t where t: "bread 1 (BBLOCK (of_nat (k * BPB)) (sblk s)) s = Ok i t" "i \<notin> H" "tx_ok p (insert i H) bs t"
    "holds_block (bufs t ! i) ?m" "b_data (bufs t ! i) = content s ?m" "content t = content s" "tx_frame s t"
    "held (insert i H) t = insert ?m (held H s)" "\<forall>j \<in> H. bufs t ! j = bufs s ! j"
    by (rule tx_bread [OF ok(1) g(2,1) nh(1) r(1)])
  note f = tx_frame_kino [OF t(7)] tx_frame_fields [OF t(7)]
  have mt: "?m < disksize t" "?m \<notin> log_area t" "1 \<le> log_outstanding t" using g(2,4) f out by simp_all
  obtain u where u: "log_write i (upd_data i (mark_bit bi) t) = Ok () u" "tx_ok p (insert i H) (add_block ?m bs) u"
    "holds_block (bufs u ! i) ?m" "content u = (content t)(?m := mark_bit bi (content t ?m))" "tx_frame t u"
    "\<forall>j. j \<noteq> i \<longrightarrow> bufs u ! j = bufs t ! j" "held (insert i H) u = held (insert i H) t"
    by (rule tx_write [OF t(3) insertI1 t(4) mt(1,2) r(2) mt(3)])
  obtain v where v: "brelse i u = Ok () v" "tx_ok p (insert i H - {i}) (add_block ?m bs) v" "content v = content u"
    "tx_frame u v" "\<forall>j. j \<noteq> i \<longrightarrow> bufs v ! j = bufs u ! j" "held (insert i H - {i}) v = held (insert i H) u - {?m}"
    by (rule tx_brelse [OF u(2) insertI1 u(3)])
  have H': "insert i H - {i} = H" using t(2) by blast
  have vok: "tx_ok p H (add_block ?m bs) v" using v(2) unfolding H' .
  have hv: "held H v = held H s" using v(6) u(7) t(8) nh(1) unfolding H' by auto
  have fr: "tx_frame s v" using t(7) u(5) v(4) by (blast intro: tx_frame_trans)
  note fv = tx_frame_fields [OF fr]
  have bw: "unat (of_nat ?b :: 32 word) = ?b" using fb(1) fs_okD(2) [OF ok(2)] by (intro unat_of_nat32) simp
  have bv: "?b < disksize v" "?b \<notin> held H v" "?b \<notin> log_area v" "1 \<le> log_outstanding v"
    using fb hv nh(2) fv out by simp_all
  have rv: "length (add_block ?m bs) + card H + 2 \<le> LOGSIZE" using room add_block_props(3) [of ?m bs] by linarith
  obtain z where z: "bindo (bread 1 (of_nat ?b) v) (\<lambda>bp s. bindo (log_write bp (upd_data bp (\<lambda>_. replicate BSIZE 0) s)) (\<lambda>_ s. brelse bp s)) = Ok () z"
    "tx_ok p H (add_block ?b (add_block ?m bs)) z" "content z = (content v)(?b := replicate BSIZE 0)" "tx_frame v z"
    "\<forall>j \<in> H. bufs z ! j = bufs v ! j" "held H z = held H v"
    by (rule tx_logged [OF vok bv(1) bw bv(2,3) rv fin bv(4)])
  have mb: "mark_bit bi = (\<lambda>d. d[bi div 8 := d ! (bi div 8) OR push_bit (bi mod 8) 1])"
    by (simp add: fun_eq_iff mark_bit_def)
  have "balloc_loop 1 (k * BPB # ks) s = Ok (of_nat ?b) z"
    using t(1,5) u(1) [unfolded mb] v(1) z(1) f(2) bi by (simp add: bzero_def Let_def)
  moreover have "content z = alloc_content (content s) (sblk s) ?b"
    using z(3) v(3) u(4) t(6) x by (simp add: alloc_content_def)
  moreover have "length (add_block ?b (add_block ?m bs)) \<le> length bs + 2"
    using add_block_props(3) [of ?b "add_block ?m bs"] add_block_props(3) [of ?m bs] by linarith
  moreover have "tx_frame s z" using fr z(4) by (rule tx_frame_trans)
  moreover have "\<forall>j \<in> H. bufs z ! j = bufs s ! j" using z(5) v(5) u(6) t(2,9) by metis
  ultimately show thesis using that [of z "add_block ?b (add_block ?m bs)"] z(2,6) hv free by simp
qed

lemma fs_ok_frame:
  assumes "fs_ok s" "tx_frame s t" "content t = content s"
  shows "fs_ok t" "free_blocks t = free_blocks s" "meta_area t = meta_area s"
proof -
  note f = tx_frame_kino [OF assms(2)] tx_frame_fields [OF assms(2)]
  show "meta_area t = meta_area s" using f by (simp add: meta_area_def)
  then show "fs_ok t" "free_blocks t = free_blocks s" using assms f by (simp_all add: fs_ok_def free_blocks_def)
qed

lemma alloc_content_used:
  assumes fs: "fs_ok s" and b: "b \<in> free_blocks s" and a: "a < unat (sb_size (sblk s))"
  shows "used (alloc_content (content s) (sblk s) b) (sblk s) a = (a = b \<or> used (content s) (sblk s) a)"
proof -
  note fb = free_blocksD [OF fs b]
  have m: "bmap_block (sblk s) b \<in> meta_area s" "bmap_block (sblk s) a \<noteq> b"
    using bmap_area_meta(1) [OF fb(2)] bmap_area_meta(1) [OF a] bmap_area_meta(2) fb(6) by auto
  have "length (content s (bmap_block (sblk s) b)) = BSIZE"
    using fs_okD(1) [OF fs] fs_okD(3) [OF fs m(1)] by (intro fs_okD(5) [OF fs]) simp
  then show ?thesis
    using used_mark [of "content s" "sblk s" b a] m(2) unfolding alloc_content_def by (simp add: used_other)
qed

lemma alloc_content_fs_ok:
  assumes fs: "fs_ok s" and b: "b \<in> free_blocks s" and t: "tx_frame s t" "content t = alloc_content (content s) (sblk s) b"
  shows "fs_ok t" "free_blocks t = free_blocks s - {b}" "meta_area t = meta_area s"
proof -
  note f = tx_frame_kino [OF t(1)] tx_frame_fields [OF t(1)] and u = alloc_content_used [OF fs b]
  note fb = free_blocksD [OF fs b]
  show m: "meta_area t = meta_area s" using f by (simp add: meta_area_def)
  show "free_blocks t = free_blocks s - {b}" using u f t(2) by (auto simp: free_blocks_def)
  have "bmap_block (sblk s) b < disksize s"
    using bmap_area_meta(1) [OF fb(2)] bmap_area_meta(2) [of s] fs_okD(1,3) [OF fs] by (meson less_le_trans subsetD)
  then have "length (content t a) = BSIZE" if "a < disksize s" for a
    using fs_okD(5) [OF fs] that t(2) by (simp add: alloc_content_def)
  moreover have "used (content t) (sblk t) a" if "a \<in> meta_area s" for a
    using u [of a] fs_okD(3,4) [OF fs that] t(2) f by simp
  ultimately show "fs_ok t" using fs m f unfolding fs_ok_def by simp
qed

lemma balloc_loop_ok:
  assumes "tx_ok p H bs s" "fs_ok s" "finite H" "held H s \<inter> bmap_area (sblk s) = {}" "held H s \<inter> free_blocks s = {}"
    "length bs + card H + 3 \<le> LOGSIZE" "1 \<le> log_outstanding s" "n * BPB < unat (sb_size (sblk s)) + BPB" "b \<in> free_blocks s" "k * BPB \<le> b" "b < n * BPB"
  shows "\<exists>b t bs'. balloc_loop 1 (map (\<lambda>k. k * BPB) [k..<n]) s = Ok (of_nat b) t \<and> tx_ok p H bs' t \<and>
    length bs' \<le> length bs + 2 \<and> b \<in> free_blocks s \<and> content t = alloc_content (content s) (sblk s) b \<and> tx_frame s t \<and>
    (\<forall>j \<in> H. bufs t ! j = bufs s ! j) \<and> held H t = held H s"
  using assms
proof (induction "n - k" arbitrary: k s)
  case 0
  then have "n * BPB \<le> k * BPB" by simp
  then show ?case using 0 by linarith
next
  case (Suc m)
  note a = Suc.prems
  have kn: "k < n" using Suc.hyps(2) by simp
  then have ks: "[k..<n] = k # [Suc k..<n]" by (rule upt_conv_Cons)
  have k: "k * BPB < unat (sb_size (sblk s))" using a(9,10) by (auto simp: free_blocks_def)
  let ?d = "content s (bmap_block (sblk s) (k * BPB))"
  show ?case
  proof (cases "find_free_bit (k * BPB) (unat (sb_size (sblk s))) ?d")
    case None
    have r: "length bs + card H < NBUF" using a(6) by (simp add: LOGSIZE_def MAXOPBLOCKS_def NBUF_def)
    obtain t where t: "balloc_loop 1 (k * BPB # map (\<lambda>k. k * BPB) [Suc k..<n]) s = balloc_loop 1 (map (\<lambda>k. k * BPB) [Suc k..<n]) t"
      "tx_ok p H bs t" "content t = content s" "tx_frame s t" "\<forall>j \<in> H. bufs t ! j = bufs s ! j" "held H t = held H s"
      by (rule balloc_skip [OF a(1,2) k a(4) r None])
    note f = tx_frame_kino [OF t(4)] tx_frame_fields(7) [OF t(4)] and g = fs_ok_frame [OF a(2) t(4,3)]
    have "Suc k * BPB \<le> b"
    proof (rule ccontr)
      assume "\<not> Suc k * BPB \<le> b"
      then have l: "b - k * BPB < BPB" using a(10) by simp
      have e: "k * BPB + (b - k * BPB) = b" using a(10) by simp
      then have "bit_used ?d (b - k * BPB)"
        using find_free_bit_None [OF None l] a(9) by (simp add: free_blocks_def)
      then show False using bitmap_index [OF l, of "sblk s" k] e a(9) by (simp add: free_blocks_def used_def)
    qed
    with Suc.hyps(1) [of "Suc k" t] Suc.hyps(2) a t(2,3,6) f g
    have "\<exists>b u bs'. balloc_loop 1 (map (\<lambda>k. k * BPB) [Suc k..<n]) t = Ok (of_nat b) u \<and> tx_ok p H bs' u \<and>
      length bs' \<le> length bs + 2 \<and> b \<in> free_blocks t \<and> content u = alloc_content (content t) (sblk t) b \<and> tx_frame t u \<and>
      (\<forall>j \<in> H. bufs u ! j = bufs t ! j) \<and> held H u = held H t" by simp
    then obtain b u bs' where u: "balloc_loop 1 (map (\<lambda>k. k * BPB) [Suc k..<n]) t = Ok (of_nat b) u" "tx_ok p H bs' u"
      "length bs' \<le> length bs + 2" "b \<in> free_blocks t" "content u = alloc_content (content t) (sblk t) b" "tx_frame t u"
      "\<forall>j \<in> H. bufs u ! j = bufs t ! j" "held H u = held H t" by blast
    have "tx_frame s u" using t(4) u(6) by (rule tx_frame_trans)
    then show ?thesis using t u f g unfolding ks by (intro exI [of _ b] exI [of _ u] exI [of _ bs']) simp
  next
    case (Some bi)
    obtain t bs' where "balloc_loop 1 (k * BPB # map (\<lambda>k. k * BPB) [Suc k..<n]) s = Ok (of_nat (k * BPB + bi)) t" "tx_ok p H bs' t"
      "length bs' \<le> length bs + 2" "k * BPB + bi \<in> free_blocks s"
      "content t = alloc_content (content s) (sblk s) (k * BPB + bi)" "tx_frame s t"
      "\<forall>j \<in> H. bufs t ! j = bufs s ! j" "held H t = held H s"
      by (rule balloc_take [OF a(1,2) k a(3,4,5,6,7) Some])
    then show ?thesis unfolding ks by (intro exI [of _ "k * BPB + bi"] exI [of _ t] exI [of _ bs']) simp
  qed
qed

lemma balloc_ok:
  assumes ok: "tx_ok p H bs s" "fs_ok s" "finite H" "held H s \<inter> bmap_area (sblk s) = {}" "held H s \<inter> free_blocks s = {}"
    "length bs + card H + 3 \<le> LOGSIZE" "1 \<le> log_outstanding s" and free: "free_blocks s \<noteq> {}"
  obtains b t bs' where "balloc 1 s = Ok (of_nat b) t" "tx_ok p H bs' t" "length bs' \<le> length bs + 2"
    "b \<in> free_blocks s" "content t = alloc_content (content s) (sblk s) b" "tx_frame s t"
    "\<forall>j \<in> H. bufs t ! j = bufs s ! j" "held H t = held H s" "fs_ok t" "free_blocks t = free_blocks s - {b}"
proof -
  let ?z = "unat (sb_size (sblk s))" and ?n = "(unat (sb_size (sblk s)) + BPB - 1) div BPB"
  obtain b where b: "b \<in> free_blocks s" "b < ?z" using free by (auto simp: free_blocks_def)
  have p: "0 < BPB" by (simp add: BPB_def BSIZE_def)
  have n: "?n * BPB < ?z + BPB" "?z \<le> ?n * BPB"
    using p div_mult_mod_eq [of "?z + BPB - 1" BPB] mod_less_divisor [OF p, of "?z + BPB - 1"] by linarith+
  have 0: "0 * BPB \<le> b" "b < ?n * BPB" using b n by simp_all
  have "\<exists>b t bs'. balloc_loop 1 (map (\<lambda>k. k * BPB) [0..<?n]) s = Ok (of_nat b) t \<and> tx_ok p H bs' t \<and>
    length bs' \<le> length bs + 2 \<and> b \<in> free_blocks s \<and> content t = alloc_content (content s) (sblk s) b \<and> tx_frame s t \<and>
    (\<forall>j \<in> H. bufs t ! j = bufs s ! j) \<and> held H t = held H s"
    by (rule balloc_loop_ok [OF ok n(1) b(1) 0])
  then obtain b t bs' where t: "balloc_loop 1 (map (\<lambda>k. k * BPB) [0..<?n]) s = Ok (of_nat b) t" "tx_ok p H bs' t"
    "length bs' \<le> length bs + 2" "b \<in> free_blocks s" "content t = alloc_content (content s) (sblk s) b" "tx_frame s t"
    "\<forall>j \<in> H. bufs t ! j = bufs s ! j" "held H t = held H s" by blast
  have "balloc 1 s = Ok (of_nat b) t" using t(1) by (simp add: balloc_def)
  then show thesis using that t(2-) alloc_content_fs_ok [OF ok(2) t(4,6,5)] by blast
qed

lemma balloc_loop_exhausted:
  assumes "tx_ok p H bs s" "fs_ok s" "held H s \<inter> bmap_area (sblk s) = {}" "length bs + card H < NBUF"
    "n * BPB < unat (sb_size (sblk s)) + BPB" "free_blocks s = {}"
  shows "balloc_loop 1 (map (\<lambda>k. k * BPB) [k..<n]) s = Panic ''balloc: out of blocks''"
  using assms
proof (induction "n - k" arbitrary: k s)
  case (Suc m)
  note a = Suc.prems
  have kn: "k < n" using Suc.hyps(2) by simp
  then have ks: "[k..<n] = k # [Suc k..<n]" by (rule upt_conv_Cons)
  have "Suc k * BPB \<le> n * BPB" using kn by (intro mult_le_mono1) simp
  then have k: "k * BPB < unat (sb_size (sblk s))" using a(5) by simp
  have none: "find_free_bit (k * BPB) (unat (sb_size (sblk s))) (content s (bmap_block (sblk s) (k * BPB))) = None"
  proof (cases "find_free_bit (k * BPB) (unat (sb_size (sblk s))) (content s (bmap_block (sblk s) (k * BPB)))")
    case (Some bi)
    note d = find_free_bit_Some [OF Some]
    have "k * BPB + bi \<in> free_blocks s" using d bitmap_index [OF d(1)] by (simp add: free_blocks_def used_def)
    then show ?thesis using a(6) by simp
  qed
  obtain t where t: "balloc_loop 1 (k * BPB # map (\<lambda>k. k * BPB) [Suc k..<n]) s = balloc_loop 1 (map (\<lambda>k. k * BPB) [Suc k..<n]) t"
    "tx_ok p H bs t" "content t = content s" "tx_frame s t" "\<forall>j \<in> H. bufs t ! j = bufs s ! j" "held H t = held H s"
    by (rule balloc_skip [OF a(1,2) k a(3,4) none])
  have "balloc_loop 1 (map (\<lambda>k. k * BPB) [Suc k..<n]) t = Panic ''balloc: out of blocks''"
    using Suc.hyps(1) [of "Suc k" t] Suc.hyps(2) a t(2,6) tx_frame_kino [OF t(4)] fs_ok_frame [OF a(2) t(4,3)] by simp
  then show ?case using t(1) unfolding ks by simp
qed simp

text \<open>C17: Inside a transaction \<^verbatim>\<open>balloc\<close> returns a block that the free map had as free, marks it and no other
  block, fills it with zeros and changes no other block; when every block is used it panics.\<close>

theorem balloc_fresh_block:
  assumes "tx_ok p {} bs s" "fs_ok s" "length bs + 3 \<le> LOGSIZE" "1 \<le> log_outstanding s"
  shows "(if free_blocks s = {} then balloc 1 s = Panic ''balloc: out of blocks''
    else \<exists>b t bs'. balloc 1 s = Ok (of_nat b) t \<and> tx_ok p {} bs' t \<and> fs_ok t \<and> b \<in> free_blocks s \<and>
      free_blocks t = free_blocks s - {b} \<and> content t b = replicate BSIZE 0 \<and>
      (\<forall>a. a \<noteq> b \<and> a \<notin> bmap_area (sblk s) \<longrightarrow> content t a = content s a))"
proof (cases "free_blocks s = {}")
  case True
  let ?z = "unat (sb_size (sblk s))" and ?n = "(unat (sb_size (sblk s)) + BPB - 1) div BPB"
  have p: "0 < BPB" by (simp add: BPB_def BSIZE_def)
  have n: "?n * BPB < ?z + BPB"
    using p div_mult_mod_eq [of "?z + BPB - 1" BPB] mod_less_divisor [OF p, of "?z + BPB - 1"] by linarith
  have r: "held {} s \<inter> bmap_area (sblk s) = {}" "length bs + card {} < NBUF"
    using assms(3) by (simp_all add: LOGSIZE_def MAXOPBLOCKS_def NBUF_def)
  show ?thesis using balloc_loop_exhausted [OF assms(1,2) r n True, of 0] True by (simp add: balloc_def)
next
  case False
  have r: "held {} s \<inter> bmap_area (sblk s) = {}" "held {} s \<inter> free_blocks s = {}" "length bs + card {} + 3 \<le> LOGSIZE"
    using assms(3) by simp_all
  obtain b t bs' where t: "balloc 1 s = Ok (of_nat b) t" "tx_ok p {} bs' t" "length bs' \<le> length bs + 2"
    "b \<in> free_blocks s" "content t = alloc_content (content s) (sblk s) b" "tx_frame s t"
    "\<forall>j \<in> {}. bufs t ! j = bufs s ! j" "held {} t = held {} s" "fs_ok t" "free_blocks t = free_blocks s - {b}"
    by (rule balloc_ok [OF assms(1,2) finite.emptyI r assms(4) False])
  have "bmap_block (sblk s) b \<in> bmap_area (sblk s)" by (rule bmap_area_meta(1) [OF free_blocksD(2) [OF assms(2) t(4)]])
  then have "content t a = content s a" if "a \<noteq> b" "a \<notin> bmap_area (sblk s)" for a
    using that t(5) by (auto simp: alloc_content_def)
  moreover have "content t b = replicate BSIZE 0" using t(5) by (simp add: alloc_content_def)
  ultimately show ?thesis using t False by auto
qed

section \<open>A small file system\<close>

text \<open>A disk of 1000 blocks laid out as \<^verbatim>\<open>mkfs\<close> does, with one file of three bytes in block 59; the log is empty and
  the buffers hold nothing.\<close>

definition demo_sb :: superblock where
  "demo_sb = \<lparr>sb_size = 1000, sb_nblocks = 941, sb_ninodes = 200, sb_nlog = 30, sb_logstart = 2, sb_inodestart = 32,
     sb_bmapstart = 58\<rparr>"

definition demo_inode :: inode where
  "demo_inode = \<lparr>i_dev = 1, i_inum = 1, i_ref = 1, i_valid = True, i_type = 2, i_major = 0, i_minor = 0, i_nlink = 1, i_size = 3,
     i_addrs = 59 # replicate 12 0\<rparr>"

definition demo_map :: block where
  "demo_map = replicate 7 255 @ [15] @ replicate 504 0"

definition demo_disk :: "nat \<Rightarrow> block" where
  "demo_disk = (\<lambda>_. replicate 512 0)(58 := demo_map, 59 := [97, 98, 99] @ replicate 509 0,
     32 := put_dinode 64 (dinode_of demo_inode) (replicate 512 0))"

definition demo_fs :: "'a \<Rightarrow> 'a kino_scheme" where
  "demo_fs m = kino.extend (klog.extend ((demo_log demo_disk)\<lparr>log_outstanding := 1\<rparr>) (kino.fields demo_sb [demo_inode])) m"

lemmas demo_fs_defs = demo_fs_def demo_log_def demo_bio_def demo_idle_def demo_kproc_def demo_kmem_def kino.defs klog.defs
  kbio.defs kproc.defs

lemma demo_fs_fields [simp]:
  "sblk (demo_fs m) = demo_sb" "inodes (demo_fs m) = [demo_inode]" "log_start (demo_fs m) = 2" "log_size (demo_fs m) = 30"
  "disk (demo_fs m) = demo_disk" "disksize (demo_fs m) = 1000" "log_outstanding (demo_fs m) = 1" "log_committing (demo_fs m) = False"
  "lh_n (demo_fs m) = 0" "log_dev (demo_fs m) = 1" "lh_block (demo_fs m) = replicate 30 0" "dwrites (demo_fs m) = []"
  by (simp_all add: demo_fs_defs)

lemma demo_fs_cache: "bcache_ok 0 {} (demo_fs m)" "dirty (demo_fs m) = {}" "content (demo_fs m) = demo_disk"
proof -
  let ?b = "\<lparr>b_valid = False, b_dirty = False, b_dev = 0, b_blockno = 0, b_refcnt = 0, b_data = []\<rparr>"
  have f: "bufs (demo_fs m) = replicate 30 ?b" "mru (demo_fs m) = [0..<30]" "\<not> sl_locked (sleeplocks (demo_fs m) l)" for l
    by (simp_all add: demo_fs_defs)
  have "quiet 0 (demo_fs m)"
    by (simp add: quiet_def demo_fs_defs cpu_ok_def my_def cpu_index_def lock_free_def NPROC_def)
  then show "bcache_ok 0 {} (demo_fs m)" using f by (auto simp: bcache_ok_def slot_ok_def holds_block_def NBUF_def)
  show "dirty (demo_fs m) = {}" using f by (simp add: dirty_def NBUF_def)
  have "content (demo_fs m) b = disk (demo_fs m) b" for b by (rule content_none) (use f in \<open>simp add: NBUF_def\<close>)
  then show "content (demo_fs m) = demo_disk" by (simp add: fun_eq_iff)
qed

lemma demo_areas:
  "log_area (demo_fs m) = {2..<32}" "bmap_area demo_sb = {58}" "inode_area demo_sb \<subseteq> {32..<58}"
  "bmap_block demo_sb b = 58 + b div 4096"
proof -
  show b: "bmap_block demo_sb b = 58 + b div 4096" for b by (simp add: bmap_block_def demo_sb_def BPB_def BSIZE_def)
  show "log_area (demo_fs m) = {2..<32}" by (simp add: log_area_def)
  have "bmap_block demo_sb b = 58" if "b < 1000" for b using that by (simp add: b)
  moreover have "unat (sb_size demo_sb) = 1000" by (simp add: demo_sb_def)
  ultimately have "bmap_area demo_sb = (\<lambda>_. 58) ` {..<1000 :: nat}" unfolding bmap_area_def by (intro image_cong) simp_all
  also have "\<dots> = {58}" by (rule image_constant [of 0]) simp
  finally show "bmap_area demo_sb = {58}" .
  show "inode_area demo_sb \<subseteq> {32..<58}" by (auto simp: inode_area_def inode_block_def demo_sb_def IPB_def BSIZE_def)
qed

lemma demo_used:
  assumes "b < 1000"
  shows "used demo_disk demo_sb b = (b < 60)"
proof -
  have d: "demo_disk (bmap_block demo_sb b) = demo_map" using assms by (simp add: demo_areas(4) demo_disk_def)
  have m: "b mod BPB = b" using assms by (simp add: BPB_def BSIZE_def)
  have r: "b mod 8 < 8" by simp
  have ff: "bit (255 :: byte) n" if "n < 8" for n
  proof -
    have "n \<in> {0, 1, 2, 3, 4, 5, 6, 7}" using that by auto
    then show ?thesis by auto
  qed
  have of: "bit (15 :: byte) n = (n < 4)" if "n < 8" for n
  proof -
    have "n \<in> {0, 1, 2, 3, 4, 5, 6, 7}" using that by auto
    then show ?thesis by auto
  qed
  have "demo_map ! (b div 8) = (if b div 8 < 7 then 255 else if b div 8 = 7 then 15 else 0)"
    using assms by (auto simp: demo_map_def nth_append nth_Cons')
  moreover have "b div 8 = 7 \<Longrightarrow> (b mod 8 < 4) = (b < 60)" by presburger
  ultimately show ?thesis
    using ff [OF r] of [OF r] by (auto simp: used_def d m bit_used_iff)
qed

lemma demo_fs_ok: "fs_ok (demo_fs m)" "free_blocks (demo_fs m) = {60..<1000}" "tx_ok 0 {} [] (demo_fs m)"
proof -
  have mt: "meta_area (demo_fs m) \<subseteq> {..<59}" using demo_areas(3) by (auto simp: meta_area_def demo_areas(1,2))
  have l: "length (demo_disk b) = BSIZE" for b
    by (auto simp: demo_disk_def demo_map_def BSIZE_def put_dinode_def put_bytes_def bytes_dinode_def dinode_of_def demo_inode_def
        bytes32_def bytes16_def numeral_eq_Suc)
  show "fs_ok (demo_fs m)"
  proof -
    have sz: "unat (sb_size demo_sb) = 1000" by (simp add: demo_sb_def)
    have "bmap_area demo_sb \<inter> inode_area demo_sb = {}" "{2..<32} \<inter> (bmap_area demo_sb \<union> inode_area demo_sb) = {}"
      using demo_areas(3) by (auto simp: demo_areas(2))
    moreover have "used demo_disk demo_sb b" if "b \<in> meta_area (demo_fs m)" for b using that mt demo_used [of b] by auto
    ultimately show ?thesis
      unfolding fs_ok_def using mt l by (auto simp: demo_fs_cache demo_areas(1) sz)
  qed
  show "free_blocks (demo_fs m) = {60..<1000}"
  proof -
    have "unat (sb_size demo_sb) = 1000" by (simp add: demo_sb_def)
    then show ?thesis by (auto simp: free_blocks_def demo_fs_cache demo_used)
  qed
  show "tx_ok 0 {} [] (demo_fs m)"
    using demo_fs_cache [of m] l by (simp add: tx_ok_def LOGSIZE_def MAXOPBLOCKS_def)
qed

theorem balloc_fresh_block_witness:
  "\<exists>b t. balloc 1 (demo_fs ()) = Ok (of_nat b) t \<and> 60 \<le> b \<and> b < 1000 \<and> b \<notin> free_blocks t \<and> content t 59 = content (demo_fs ()) 59"
proof -
  have r: "length ([] :: nat list) + 3 \<le> LOGSIZE" "1 \<le> log_outstanding (demo_fs ())" by (simp_all add: LOGSIZE_def MAXOPBLOCKS_def)
  have ne: "free_blocks (demo_fs ()) \<noteq> {}" by (simp add: demo_fs_ok)
  obtain b t where t: "balloc 1 (demo_fs ()) = Ok (of_nat b) t" "b \<in> free_blocks (demo_fs ())" "free_blocks t = free_blocks (demo_fs ()) - {b}"
    "\<forall>a. a \<noteq> b \<and> a \<notin> bmap_area (sblk (demo_fs ())) \<longrightarrow> content t a = content (demo_fs ()) a"
    using balloc_fresh_block [OF demo_fs_ok(3,1) r] ne by auto
  have "59 \<noteq> b" "59 \<notin> bmap_area (sblk (demo_fs ()))" using t(2) by (auto simp: demo_fs_ok demo_areas)
  then show ?thesis using t by (intro exI [of _ b] exI [of _ t]) (auto simp: demo_fs_ok)
qed

end
