(* ===== verification/InodeSpec.thy ===== *)
theory InodeSpec
  imports AllocSpec
begin

text \<open>
  The content of a file.  \<open>fblock c as n\<close> is the block that the addresses \<open>as\<close> of an inode give for block \<open>n\<close> of
  the file, 0 if there is none, and \<open>fdata c as k\<close> the byte \<open>k\<close> of the file, where a missing block reads as
  zeros.  \<open>file_ok\<close> says that these blocks are marked as used and are all different.  \<^verbatim>\<open>bmap\<close> returns the
  block, allocating it and the indirect block if they are missing, and leaves the data of the file as it was.
\<close>

section \<open>The blocks of a file\<close>

definition fblock :: "(nat \<Rightarrow> block) \<Rightarrow> 32 word list \<Rightarrow> nat \<Rightarrow> nat" where
  "fblock c as n =
     (if n < NDIRECT then unat (as ! n)
      else if as ! NDIRECT = 0 then 0
      else unat (get32 (4 * (n - NDIRECT)) (c (unat (as ! NDIRECT)))))"

definition owned :: "(nat \<Rightarrow> block) \<Rightarrow> 32 word list \<Rightarrow> nat set" where
  "owned c as = {b. b \<noteq> 0 \<and> (b = unat (as ! NDIRECT) \<or> (\<exists>n < MAXFILE. b = fblock c as n))}"

definition file_ok :: "nat set \<Rightarrow> (nat \<Rightarrow> block) \<Rightarrow> 32 word list \<Rightarrow> bool" where
  "file_ok U c as =
     (length as = NDIRECT + 1 \<and> owned c as \<subseteq> U \<and>
      (\<forall>n < MAXFILE. fblock c as n \<noteq> 0 \<longrightarrow> fblock c as n \<noteq> unat (as ! NDIRECT) \<and>
         (\<forall>m < MAXFILE. fblock c as m = fblock c as n \<longrightarrow> m = n)))"

definition fdata :: "(nat \<Rightarrow> block) \<Rightarrow> 32 word list \<Rightarrow> nat \<Rightarrow> byte" where
  "fdata c as k = (let b = fblock c as (k div BSIZE) in if b = 0 then 0 else c b ! (k mod BSIZE))"

lemma file_okD:
  assumes "file_ok U c as"
  shows "length as = NDIRECT + 1" "n < MAXFILE \<Longrightarrow> fblock c as n \<noteq> 0 \<Longrightarrow> fblock c as n \<in> U"
    "as ! NDIRECT \<noteq> 0 \<Longrightarrow> unat (as ! NDIRECT) \<in> U"
    "n < MAXFILE \<Longrightarrow> fblock c as n \<noteq> 0 \<Longrightarrow> fblock c as n \<noteq> unat (as ! NDIRECT)"
    "n < MAXFILE \<Longrightarrow> fblock c as n \<noteq> 0 \<Longrightarrow> m < MAXFILE \<Longrightarrow> fblock c as m = fblock c as n \<Longrightarrow> m = n"
  using assms by (auto simp: file_ok_def owned_def unat_eq_zero unat_gt_0)

lemma div_MAXFILE: "k < MAXFILE * BSIZE \<Longrightarrow> k div BSIZE < MAXFILE"
  by (simp add: less_mult_imp_div_less)

text \<open>Changing blocks that do not belong to the file.\<close>

lemma fblock_other:
  assumes "\<And>b. b \<in> owned c as \<Longrightarrow> c' b = c b"
  shows "fblock c' as = fblock c as" "owned c' as = owned c as"
proof -
  have "c' (unat (as ! NDIRECT)) = c (unat (as ! NDIRECT))" if "as ! NDIRECT \<noteq> 0"
    by (rule assms) (use that in \<open>simp add: owned_def unat_eq_zero unat_gt_0\<close>)
  then show "fblock c' as = fblock c as" by (auto simp: fblock_def fun_eq_iff)
  then show "owned c' as = owned c as" by (simp add: owned_def)
qed

lemma file_other:
  assumes "file_ok U c as" "\<And>b. b \<in> owned c as \<Longrightarrow> c' b = c b" "U \<subseteq> U'"
  shows "file_ok U' c' as" "k < MAXFILE * BSIZE \<Longrightarrow> fdata c' as k = fdata c as k"
proof -
  note f = fblock_other [where c = c and c' = c' and as = as, OF assms(2)]
  show "file_ok U' c' as" using assms(1,3) f by (auto simp: file_ok_def)
  show "fdata c' as k = fdata c as k" if "k < MAXFILE * BSIZE"
  proof (cases "fblock c as (k div BSIZE) = 0")
    case False
    then have "fblock c as (k div BSIZE) \<in> owned c as" using div_MAXFILE [OF that] by (auto simp: owned_def)
    then show ?thesis using assms(2) f(1) by (simp add: fdata_def Let_def)
  qed (simp add: fdata_def f(1))
qed

text \<open>Adding a block.\<close>

lemma file_add:
  assumes ok: "file_ok U c as" and n: "n < MAXFILE" "fblock c as n = 0" and b: "b \<notin> U" "b \<noteq> 0"
    and as': "length as' = length as" "as' ! NDIRECT = as ! NDIRECT"
    and f: "\<And>m. m < MAXFILE \<Longrightarrow> fblock c' as' m = (if m = n then b else fblock c as m)"
    and c': "c' b = replicate BSIZE 0" "\<And>x. x \<in> U \<Longrightarrow> x \<noteq> unat (as ! NDIRECT) \<Longrightarrow> c' x = c x"
  shows "file_ok (insert b U) c' as'" "k < MAXFILE * BSIZE \<Longrightarrow> fdata c' as' k = fdata c as k"
proof -
  note o = file_okD [OF ok]
  have nb: "fblock c as m \<noteq> b" if "m < MAXFILE" for m using o(2) [OF that] b by auto
  have ib: "unat (as ! NDIRECT) \<noteq> b" using o(3) b by (cases "as ! NDIRECT = 0") auto
  have ow: "owned c' as' \<subseteq> insert b U"
    using o(2,3) f as' by (auto simp: owned_def unat_eq_zero unat_gt_0 split: if_splits)
  have "fblock c' as' m \<noteq> unat (as' ! NDIRECT) \<and> (\<forall>l < MAXFILE. fblock c' as' l = fblock c' as' m \<longrightarrow> l = m)"
    if "m < MAXFILE" "fblock c' as' m \<noteq> 0" for m
    using that o(4) [of m] o(5) [of m] nb [of m] nb ib f as' by (auto split: if_splits)
  then show "file_ok (insert b U) c' as'" using ow o(1) as' by (simp add: file_ok_def)
  show "fdata c' as' k = fdata c as k" if "k < MAXFILE * BSIZE"
  proof -
    have k: "k div BSIZE < MAXFILE" by (rule div_MAXFILE [OF that])
    have "c' (fblock c as (k div BSIZE)) = c (fblock c as (k div BSIZE))" if "fblock c as (k div BSIZE) \<noteq> 0"
      by (rule c'(2)) (use o(2,4) [OF k that] in auto)
    then show ?thesis using f [OF k] n(2) b(2) c'(1) by (auto simp: fdata_def Let_def BSIZE_def)
  qed
qed

section \<open>Files of the kernel\<close>

lemma kino_locks [simp]:
  "my (s\<lparr>inodes := v\<rparr>) = my s" "cpu_ok (s\<lparr>inodes := v\<rparr>) = cpu_ok s" "lock_free l (s\<lparr>inodes := v\<rparr>) = lock_free l s"
  "quiet p (s\<lparr>inodes := v\<rparr>) = quiet p s"
  by (simp_all add: quiet_def my_def cpu_ok_def cpu_index_def lock_free_def cong: option.case_cong)

lemma kino_inodes [simp]:
  "bcache_ok p H (s\<lparr>inodes := v\<rparr>) = bcache_ok p H s" "content (s\<lparr>inodes := v\<rparr>) = content s"
  "dirty (s\<lparr>inodes := v\<rparr>) = dirty s" "log_area (s\<lparr>inodes := v\<rparr>) = log_area s" "held H (s\<lparr>inodes := v\<rparr>) = held H s"
  by (simp_all add: bcache_ok_def slot_ok_def content_def dirty_def log_area_def held_def fun_eq_iff cong: option.case_cong)

lemma kino_inodes_fs [simp]:
  "tx_ok p H bs (s\<lparr>inodes := v\<rparr>) = tx_ok p H bs s" "meta_area (s\<lparr>inodes := v\<rparr>) = meta_area s"
  "fs_ok (s\<lparr>inodes := v\<rparr>) = fs_ok s" "free_blocks (s\<lparr>inodes := v\<rparr>) = free_blocks s"
  by (simp_all add: tx_ok_def meta_area_def fs_ok_def free_blocks_def)

definition dblocks :: "'a kino_scheme \<Rightarrow> nat set" where
  "dblocks s = {b. b < unat (sb_size (sblk s)) \<and> used (content s) (sblk s) b \<and> b \<notin> meta_area s}"

abbreviation addrs :: "'a kino_scheme \<Rightarrow> nat \<Rightarrow> 32 word list" where
  "addrs s i \<equiv> i_addrs (inodes s ! i)"

definition file_at :: "'a kino_scheme \<Rightarrow> nat \<Rightarrow> bool" where
  "file_at s i = (i < length (inodes s) \<and> i_dev (inodes s ! i) = 1 \<and> file_ok (dblocks s) (content s) (addrs s i))"

definition ino_frame :: "nat \<Rightarrow> 'a kino_scheme \<Rightarrow> 'a kino_scheme \<Rightarrow> bool" where
  "ino_frame i s t = tx_frame (s\<lparr>inodes := (inodes s)[i := (inodes s ! i)\<lparr>i_addrs := addrs t i\<rparr>]\<rparr>) t"

text \<open>What an operation on file \<open>i\<close> in a transaction keeps: \<open>k\<close> bounds the blocks it logs and the blocks it
  allocates.\<close>

definition fstep :: "nat \<Rightarrow> nat \<Rightarrow> nat \<Rightarrow> nat list \<Rightarrow> 'a kino_scheme \<Rightarrow> nat list \<Rightarrow> 'a kino_scheme \<Rightarrow> bool" where
  "fstep k p i bs s bs' t =
     (tx_ok p {} bs' t \<and> length bs' \<le> length bs + k \<and> fs_ok t \<and> file_at t i \<and> ino_frame i s t \<and>
      free_blocks t \<subseteq> free_blocks s \<and> card (free_blocks s) \<le> card (free_blocks t) + k \<and>
      owned (content t) (addrs t i) \<subseteq> owned (content s) (addrs s i) \<union> free_blocks s \<and>
      (\<forall>x. x \<notin> bmap_area (sblk s) \<longrightarrow> x \<notin> free_blocks s \<longrightarrow> x \<notin> owned (content s) (addrs s i) \<longrightarrow> content t x = content s x))"

lemma tx_frame_inodes:
  assumes "tx_frame s t"
  shows "tx_frame (s\<lparr>inodes := v\<rparr>) (t\<lparr>inodes := v\<rparr>)"
proof -
  obtain a b c d e where "t = s\<lparr>sleeplocks := a, bufs := b, mru := c, lh_n := d, lh_block := e\<rparr>"
    using assms unfolding tx_frame_def by blast
  then have "t\<lparr>inodes := v\<rparr> = s\<lparr>inodes := v, sleeplocks := a, bufs := b, mru := c, lh_n := d, lh_block := e\<rparr>" by simp
  then show ?thesis unfolding tx_frame_def by blast
qed

lemma ino_frame_fields:
  assumes "ino_frame i s t"
  shows "inodes t = (inodes s)[i := (inodes s ! i)\<lparr>i_addrs := addrs t i\<rparr>]" "sblk t = sblk s" "disk t = disk s"
    "dwrites t = dwrites s" "disksize t = disksize s" "log_start t = log_start s" "log_size t = log_size s"
    "log_outstanding t = log_outstanding s" "log_committing t = log_committing s" "log_area t = log_area s" "procs t = procs s"
    "kino.more t = kino.more s"
  using tx_frame_kino [OF assms [unfolded ino_frame_def]] tx_frame_fields [OF assms [unfolded ino_frame_def]]
  by simp_all

lemma tx_ino_frame:
  assumes "tx_frame s t"
  shows "ino_frame i s t"
proof -
  have "s\<lparr>inodes := (inodes s)[i := (inodes s ! i)\<lparr>i_addrs := addrs t i\<rparr>]\<rparr> = s"
    using tx_frame_kino(1) [OF assms] by simp
  then show ?thesis using assms by (simp add: ino_frame_def)
qed

lemma ino_frame_trans:
  assumes "ino_frame i s t" "ino_frame i t u" "i < length (inodes s)"
  shows "ino_frame i s u"
proof -
  let ?v = "(inodes t)[i := (inodes t ! i)\<lparr>i_addrs := addrs u i\<rparr>]"
  have 1: "tx_frame (s\<lparr>inodes := ?v\<rparr>) (t\<lparr>inodes := ?v\<rparr>)"
    using tx_frame_inodes [OF assms(1) [unfolded ino_frame_def], of ?v] by simp
  have v: "?v = (inodes s)[i := (inodes s ! i)\<lparr>i_addrs := addrs u i\<rparr>]"
    using ino_frame_fields(1) [OF assms(1)] assms(3)
    by (metis (no_types, lifting) inode.surjective inode.update_convs(10) list_update_overwrite nth_list_update_eq)
  show ?thesis using tx_frame_trans [OF 1 assms(2) [unfolded ino_frame_def]] unfolding ino_frame_def v .
qed

lemma ino_frame_addrs:
  assumes "tx_frame s t" "i < length (inodes s)"
  shows "ino_frame i s (upd_inode i (\<lambda>ip. ip\<lparr>i_addrs := as\<rparr>) t)"
proof -
  have "inodes t = inodes s" by (rule tx_frame_kino(1) [OF assms(1)])
  then show ?thesis
    using tx_frame_inodes [OF assms(1), of "(inodes s)[i := (inodes s ! i)\<lparr>i_addrs := as\<rparr>]"] assms(2)
    by (simp add: ino_frame_def upd_inode_def)
qed

lemma fstep_refl:
  assumes "tx_ok p {} bs s" "fs_ok s" "file_at s i"
  shows "fstep k p i bs s bs s"
  using assms tx_ino_frame [OF tx_frame_refl, of i s] by (auto simp: fstep_def)

lemma fstep_frame:
  assumes "tx_ok p {} bs' t" "length bs' \<le> length bs + k" "fs_ok s" "file_at s i" "tx_frame s t" "content t = content s"
  shows "fstep k p i bs s bs' t"
proof -
  note f = tx_frame_kino [OF assms(5)] and g = fs_ok_frame [OF assms(3,5,6)]
  have "dblocks t = dblocks s" using f g(3) assms(6) by (simp add: dblocks_def)
  then show ?thesis using assms f g tx_ino_frame [OF assms(5)] by (auto simp: fstep_def file_at_def)
qed

lemma fstep_trans:
  assumes s: "fstep k p i bs s cs t" and t: "fstep l p i cs t ds u" and i: "i < length (inodes s)"
  shows "fstep (k + l) p i bs s ds u"
proof -
  have "ino_frame i s u" using s t i ino_frame_trans unfolding fstep_def by blast
  moreover have "sblk t = sblk s" using s ino_frame_fields(2) unfolding fstep_def by blast
  moreover have "owned (content u) (addrs u i) \<subseteq> owned (content s) (addrs s i) \<union> free_blocks s"
    using s t unfolding fstep_def by blast
  moreover have "content u x = content s x"
    if "x \<notin> bmap_area (sblk s)" "x \<notin> free_blocks s" "x \<notin> owned (content s) (addrs s i)" for x
  proof -
    have "x \<notin> free_blocks t" "x \<notin> owned (content t) (addrs t i)" "content t x = content s x"
      using s that unfolding fstep_def by blast+
    then show ?thesis using t that(1) calculation(2) unfolding fstep_def by simp
  qed
  ultimately show ?thesis using s t unfolding fstep_def by auto
qed

lemma dblocks_areas:
  assumes "x \<in> dblocks s"
  shows "x \<notin> bmap_area (sblk s)" "x \<notin> free_blocks s" "x \<notin> inode_area (sblk s)" "x \<notin> log_area s" "x \<noteq> 0"
    "x < unat (sb_size (sblk s))"
  using assms by (auto simp: dblocks_def free_blocks_def meta_area_def)

lemma owned_dblocks: "file_at s i \<Longrightarrow> owned (content s) (addrs s i) \<subseteq> dblocks s"
  by (simp add: file_at_def file_ok_def)

lemma finite_free [simp]: "finite (free_blocks s)"
  by (simp add: free_blocks_def)

text \<open>\<^verbatim>\<open>balloc\<close> as the file operations use it.\<close>

lemma falloc:
  assumes ok: "tx_ok p H bs s" "fs_ok s" "finite H" "held H s \<subseteq> dblocks s" "length bs + card H + 3 \<le> LOGSIZE"
    "1 \<le> log_outstanding s" and free: "free_blocks s \<noteq> {}"
  obtains b t bs' where "balloc 1 s = Ok (of_nat b) t" "tx_ok p H bs' t" "length bs' \<le> length bs + 2" "tx_frame s t"
    "\<forall>j \<in> H. bufs t ! j = bufs s ! j" "held H t = held H s" "fs_ok t" "free_blocks t = free_blocks s - {b}"
    "b \<in> free_blocks s" "unat (of_nat b :: 32 word) = b" "dblocks t = insert b (dblocks s)" "content t b = replicate BSIZE 0"
    "\<forall>x. x \<noteq> b \<longrightarrow> x \<notin> bmap_area (sblk s) \<longrightarrow> content t x = content s x" "\<forall>x \<in> dblocks s. content t x = content s x"
proof -
  have h: "held H s \<inter> bmap_area (sblk s) = {}" "held H s \<inter> free_blocks s = {}"
    using ok(4) dblocks_areas(1,2) by blast+
  obtain b t bs' where t: "balloc 1 s = Ok (of_nat b) t" "tx_ok p H bs' t" "length bs' \<le> length bs + 2"
    "b \<in> free_blocks s" "content t = alloc_content (content s) (sblk s) b" "tx_frame s t"
    "\<forall>j \<in> H. bufs t ! j = bufs s ! j" "held H t = held H s" "fs_ok t" "free_blocks t = free_blocks s - {b}"
    by (rule balloc_ok [OF ok(1-3) h ok(5,6) free])
  note fb = free_blocksD [OF ok(2) t(4)] and f = tx_frame_kino [OF t(6)]
  have "unat (of_nat b :: 32 word) = b" using fb(1) fs_okD(2) [OF ok(2)] by (intro unat_of_nat32) simp
  moreover have "dblocks t = insert b (dblocks s)"
    using alloc_content_used [OF ok(2) t(4)] alloc_content_fs_ok(3) [OF ok(2) t(4,6,5)] f t(5) fb(2,3)
    by (auto simp: dblocks_def)
  moreover have "content t b = replicate BSIZE 0" using t(5) by (simp add: alloc_content_def)
  moreover have "\<forall>x. x \<noteq> b \<longrightarrow> x \<notin> bmap_area (sblk s) \<longrightarrow> content t x = content s x"
    using t(5) bmap_area_meta(1) [OF fb(2)] by (auto simp: alloc_content_def)
  moreover have "\<forall>x \<in> dblocks s. content t x = content s x"
  proof
    fix x assume "x \<in> dblocks s"
    then have "x \<noteq> b" "x \<notin> bmap_area (sblk s)" using dblocks_areas(1,2) t(4) by blast+
    then show "content t x = content s x" using calculation(4) by simp
  qed
  ultimately show thesis using that [of b t bs'] t by simp
qed

section \<open>Finding and allocating a block\<close>

lemma fstep_add:
  assumes s: "fs_ok s" "file_at s i" and n: "n < MAXFILE" "fblock (content s) (addrs s i) n = 0" and b: "b \<in> free_blocks s"
    and t: "tx_ok p {} bs' t" "length bs' \<le> length bs + k" "1 \<le> k" "fs_ok t" "ino_frame i s t"
      "free_blocks t = free_blocks s - {b}" "dblocks t = insert b (dblocks s)" "content t b = replicate BSIZE 0"
    and as': "length (addrs t i) = length (addrs s i)" "addrs t i ! NDIRECT = addrs s i ! NDIRECT"
    and f: "\<And>m. m < MAXFILE \<Longrightarrow> fblock (content t) (addrs t i) m = (if m = n then b else fblock (content s) (addrs s i) m)"
    and c: "\<And>x. x \<noteq> b \<Longrightarrow> x \<notin> bmap_area (sblk s) \<Longrightarrow> x \<noteq> unat (addrs s i ! NDIRECT) \<or> addrs s i ! NDIRECT = 0 \<Longrightarrow>
      content t x = content s x"
  shows "fstep k p i bs s bs' t" "l < MAXFILE * BSIZE \<Longrightarrow> fdata (content t) (addrs t i) l = fdata (content s) (addrs s i) l"
proof -
  note fb = free_blocksD [OF s(1) b]
  have fo: "file_ok (dblocks s) (content s) (addrs s i)" and i: "i < length (inodes s)" "i_dev (inodes s ! i) = 1"
    using s(2) by (simp_all add: file_at_def)
  have nb: "b \<notin> dblocks s" using b dblocks_areas(2) by blast
  have cU: "content t x = content s x" if "x \<in> dblocks s" "x \<noteq> unat (addrs s i ! NDIRECT)" for x
    using c [of x] that dblocks_areas(1) [OF that(1)] nb by blast
  note fa = file_add [OF fo n nb fb(4) as' f t(8) cU]
  show "fdata (content t) (addrs t i) l = fdata (content s) (addrs s i) l" if "l < MAXFILE * BSIZE"
    using fa(2) that by simp
  have "file_at t i" using fa(1) i ino_frame_fields(1) [OF t(5)] t(7)
    by (metis file_at_def inode.select_convs(1) inode.surjective inode.update_convs(10) length_list_update nth_list_update_eq)
  moreover have "owned (content t) (addrs t i) \<subseteq> owned (content s) (addrs s i) \<union> free_blocks s"
    using f as'(2) b by (auto simp: owned_def split: if_splits)
  moreover have "content t x = content s x"
    if "x \<notin> bmap_area (sblk s)" "x \<notin> free_blocks s" "x \<notin> owned (content s) (addrs s i)" for x
  proof (rule c)
    show "x \<noteq> unat (addrs s i ! NDIRECT) \<or> addrs s i ! NDIRECT = 0"
      using that(3) by (auto simp: owned_def unat_eq_zero unat_gt_0)
  qed (use that b in auto)
  moreover have "card (free_blocks s) = card (free_blocks t) + 1"
    using t(6) b card_Suc_Diff1 [OF finite_free b] by simp
  ultimately show "fstep k p i bs s bs' t" using t by (auto simp: fstep_def)
qed

lemma bmap_direct:
  assumes ok: "tx_ok p {} bs s" "fs_ok s" "file_at s i" "length bs + 3 \<le> LOGSIZE" "1 \<le> log_outstanding s"
    and n: "unat bn = n" "n < NDIRECT" "fblock (content s) (addrs s i) n = 0" and free: "free_blocks s \<noteq> {}"
  obtains w t bs' where "bmap i bn s = Ok w t" "fstep 2 p i bs s bs' t" "unat w \<noteq> 0"
    "unat w = fblock (content t) (addrs t i) n"
    "\<forall>m < MAXFILE. m \<noteq> n \<longrightarrow> fblock (content t) (addrs t i) m = fblock (content s) (addrs s i) m"
    "\<forall>l < MAXFILE * BSIZE. fdata (content t) (addrs t i) l = fdata (content s) (addrs s i) l"
proof -
  have h: "held {} s \<subseteq> dblocks s" "length bs + card {} + 3 \<le> LOGSIZE" using ok(4) by simp_all
  obtain b t bs' where t: "balloc 1 s = Ok (of_nat b) t" "tx_ok p {} bs' t" "length bs' \<le> length bs + 2" "tx_frame s t"
    "\<forall>j \<in> {}. bufs t ! j = bufs s ! j" "held {} t = held {} s" "fs_ok t" "free_blocks t = free_blocks s - {b}"
    "b \<in> free_blocks s" "unat (of_nat b :: 32 word) = b" "dblocks t = insert b (dblocks s)" "content t b = replicate BSIZE 0"
    "\<forall>x. x \<noteq> b \<longrightarrow> x \<notin> bmap_area (sblk s) \<longrightarrow> content t x = content s x" "\<forall>x \<in> dblocks s. content t x = content s x"
    by (rule falloc [OF ok(1,2) finite.emptyI h ok(5) free])
  note fr = tx_frame_kino [OF t(4)] and fb = free_blocksD [OF ok(2) t(9)]
  have i: "i < length (inodes s)" "i_dev (inodes s ! i) = 1" and fo: "file_ok (dblocks s) (content s) (addrs s i)"
    using ok(3) by (simp_all add: file_at_def)
  note fo' = file_okD [OF fo]
  let ?as = "(addrs s i)[n := of_nat b]"
  let ?t = "upd_inode i (\<lambda>ip. ip\<lparr>i_addrs := (i_addrs ip)[n := of_nat b]\<rparr>) t"
  have ut: "?t = upd_inode i (\<lambda>ip. ip\<lparr>i_addrs := ?as\<rparr>) t" using fr by (simp add: upd_inode_def)
  have a: "addrs ?t i = ?as" "content ?t = content t" "sblk ?t = sblk s" using fr i by (simp_all add: upd_inode_def)
  have tt: "tx_ok p {} bs' ?t" "fs_ok ?t" "free_blocks ?t = free_blocks s - {b}" "content ?t b = replicate BSIZE 0"
    "dblocks ?t = insert b (dblocks s)" "length (addrs ?t i) = length (addrs s i)" "addrs ?t i ! NDIRECT = addrs s i ! NDIRECT"
    using t n(2) a by (simp_all add: upd_inode_def dblocks_def)
  have fi: "ino_frame i s ?t" unfolding ut by (rule ino_frame_addrs [OF t(4) i(1)])
  have z: "addrs s i ! n = 0" using n by (simp add: fblock_def unat_eq_zero)
  have ind: "content t (unat (addrs s i ! NDIRECT)) = content s (unat (addrs s i ! NDIRECT))" if "addrs s i ! NDIRECT \<noteq> 0"
    using fo'(3) [OF that] t(14) by simp
  have fm: "fblock (content ?t) (addrs ?t i) m = (if m = n then b else fblock (content s) (addrs s i) m)" if "m < MAXFILE" for m
    using ind n(2) t(10) fo'(1) unfolding a fblock_def by auto
  have nM: "n < MAXFILE" using n(2) by (simp add: MAXFILE_def)
  have cc: "content ?t x = content s x" if "x \<noteq> b" "x \<notin> bmap_area (sblk s)" for x using t(13) that a by simp
  note g = fstep_add [where k = 2 and t = ?t, OF ok(2,3) nM n(3) t(9) tt(1) t(3) _ tt(2) fi tt(3,5,4,6,7) fm cc]
  have "bmap i bn s = Ok (of_nat b) ?t" using n(1,2) z i t(1) by (simp add: bmap_def Let_def)
  then show thesis using that [of "of_nat b" ?t bs'] g fm nM t(10) fb(4) by simp
qed

lemma fs_ok_data:
  assumes "fs_ok s" "tx_frame s t" "content t = (content s)(x := d)" "x \<in> dblocks s" "length d = BSIZE"
  shows "fs_ok t" "free_blocks t = free_blocks s" "dblocks t = dblocks s"
proof -
  note f = tx_frame_kino [OF assms(2)] tx_frame_fields [OF assms(2)]
  have m: "meta_area t = meta_area s" using f by (simp add: meta_area_def)
  have u: "used (content t) (sblk t) b = used (content s) (sblk s) b" if "b < unat (sb_size (sblk s))" for b
  proof -
    have "bmap_block (sblk s) b \<noteq> x" using dblocks_areas(1) [OF assms(4)] bmap_area_meta(1) [OF that] by auto
    then show ?thesis using f(2) assms(3) by (simp add: used_other)
  qed
  then show "free_blocks t = free_blocks s" "dblocks t = dblocks s" using f m by (auto simp: free_blocks_def dblocks_def)
  show "fs_ok t" using assms(1,3,5) f m u fs_okD(3) [OF assms(1)] unfolding fs_ok_def by auto
qed

definition bmap_entry :: "nat \<Rightarrow> 32 word \<Rightarrow> 'a kino_scheme \<Rightarrow> (32 word, 'a kino_scheme) outcome" where
  "bmap_entry j addr s =
     bindo (bread 1 addr s) (\<lambda>bp s.
       let a = get32 (4 * j) (b_data (bufs s ! bp)) in
     bindo (if a = 0 then
              bindo (balloc 1 s) (\<lambda>addr s.
                let s = upd_data bp (put32 (4 * j) addr) s in
                bindo (log_write bp s) (\<lambda>_ s. Ok addr s))
            else Ok a s) (\<lambda>addr s.
     bindo (brelse bp s) (\<lambda>_ s. Ok addr s)))"

lemma bmap_entry_present:
  assumes ok: "tx_ok p {} bs s" "fs_ok s" "file_at s i" "length bs < NBUF"
    and n: "j < NINDIRECT" "addrs s i ! NDIRECT \<noteq> 0" "fblock (content s) (addrs s i) (NDIRECT + j) \<noteq> 0"
  obtains w t where "bmap_entry j (addrs s i ! NDIRECT) s = Ok w t" "tx_ok p {} bs t" "tx_frame s t" "content t = content s"
    "unat w = fblock (content s) (addrs s i) (NDIRECT + j)"
proof -
  let ?d = "unat (addrs s i ! NDIRECT)"
  have "?d \<in> dblocks s" using n(2) ok(3) unfolding file_at_def by (blast intro: file_okD(3))
  then have d: "?d < disksize s" using dblocks_areas(6) fs_okD(1) [OF ok(2)] by (meson less_le_trans)
  have r: "?d \<notin> held {} s" "length bs + card {} < NBUF" using ok(4) by simp_all
  obtain b t where t: "bread 1 (addrs s i ! NDIRECT) s = Ok b t" "b \<notin> {}" "tx_ok p {b} bs t" "holds_block (bufs t ! b) ?d"
    "b_data (bufs t ! b) = content s ?d" "content t = content s" "tx_frame s t" "held {b} t = insert ?d (held {} s)"
    "\<forall>j \<in> {}. bufs t ! j = bufs s ! j" by (rule tx_bread [OF ok(1) d refl r])
  obtain u where u: "brelse b t = Ok () u" "tx_ok p ({b} - {b}) bs u" "content u = content t" "tx_frame t u"
    "\<forall>j. j \<noteq> b \<longrightarrow> bufs u ! j = bufs t ! j" "held ({b} - {b}) u = held {b} t - {?d}"
    by (rule tx_brelse [OF t(3) singletonI t(4)])
  let ?w = "get32 (4 * j) (content s ?d)"
  have w: "unat ?w = fblock (content s) (addrs s i) (NDIRECT + j)" using n(2) by (simp add: fblock_def)
  then have "?w \<noteq> 0" using n(3) by auto
  then have "bmap_entry j (addrs s i ! NDIRECT) s = Ok ?w u" using t(1,5) u(1) by (simp add: bmap_entry_def)
  then show thesis using that [of ?w u] u(2,3) t(6) w tx_frame_trans [OF t(7) u(4)] by simp
qed

lemma bmap_entry_absent:
  assumes ok: "tx_ok p {} bs s" "fs_ok s" "file_at s i" "length bs + 4 \<le> LOGSIZE" "1 \<le> log_outstanding s"
    and n: "j < NINDIRECT" "addrs s i ! NDIRECT \<noteq> 0" "fblock (content s) (addrs s i) (NDIRECT + j) = 0"
    and free: "free_blocks s \<noteq> {}"
  obtains w t bs' where "bmap_entry j (addrs s i ! NDIRECT) s = Ok w t" "fstep 3 p i bs s bs' t" "unat w \<noteq> 0"
    "unat w = fblock (content t) (addrs t i) (NDIRECT + j)"
    "\<forall>m < MAXFILE. m \<noteq> NDIRECT + j \<longrightarrow> fblock (content t) (addrs t i) m = fblock (content s) (addrs s i) m"
    "\<forall>l < MAXFILE * BSIZE. fdata (content t) (addrs t i) l = fdata (content s) (addrs s i) l"
proof -
  let ?d = "unat (addrs s i ! NDIRECT)" and ?a = "addrs s i ! NDIRECT"
  have i: "i < length (inodes s)" and fo: "file_ok (dblocks s) (content s) (addrs s i)" using ok(3) by (simp_all add: file_at_def)
  have dd: "?d \<in> dblocks s" using n(2) file_okD(3) [OF fo] by simp
  then have d: "?d < disksize s" using dblocks_areas(6) fs_okD(1) [OF ok(2)] by (meson less_le_trans)
  have r: "?d \<notin> held {} s" "length bs + card {} < NBUF" using ok(4) by (simp_all add: LOGSIZE_def MAXOPBLOCKS_def NBUF_def)
  obtain q t where t: "bread 1 ?a s = Ok q t" "q \<notin> {}" "tx_ok p {q} bs t" "holds_block (bufs t ! q) ?d"
    "b_data (bufs t ! q) = content s ?d" "content t = content s" "tx_frame s t" "held {q} t = insert ?d (held {} s)"
    "\<forall>j \<in> {}. bufs t ! j = bufs s ! j" by (rule tx_bread [OF ok(1) d refl r])
  note ft = tx_frame_kino [OF t(7)] tx_frame_fields [OF t(7)] and gt = fs_ok_frame [OF ok(2) t(7,6)]
  have dt: "dblocks t = dblocks s" using ft gt(3) t(6) by (simp add: dblocks_def)
  have ht: "finite {q}" "held {q} t \<subseteq> dblocks t" "length bs + card {q} + 3 \<le> LOGSIZE" "1 \<le> log_outstanding t" "free_blocks t \<noteq> {}"
    using t(8) dd dt ok(4,5) ft gt(2) free by simp_all
  obtain b u cs where u: "balloc 1 t = Ok (of_nat b) u" "tx_ok p {q} cs u" "length cs \<le> length bs + 2" "tx_frame t u"
    "\<forall>j \<in> {q}. bufs u ! j = bufs t ! j" "held {q} u = held {q} t" "fs_ok u" "free_blocks u = free_blocks t - {b}"
    "b \<in> free_blocks t" "unat (of_nat b :: 32 word) = b" "dblocks u = insert b (dblocks t)" "content u b = replicate BSIZE 0"
    "\<forall>x. x \<noteq> b \<longrightarrow> x \<notin> bmap_area (sblk t) \<longrightarrow> content u x = content t x" "\<forall>x \<in> dblocks t. content u x = content t x"
    by (rule falloc [OF t(3) gt(1) ht])
  note fu = tx_frame_kino [OF u(4)] tx_frame_fields [OF u(4)]
  have hu: "holds_block (bufs u ! q) ?d" "?d < disksize u" "?d \<notin> log_area u" "length cs + 2 \<le> LOGSIZE" "1 \<le> log_outstanding u"
    using u(3,5) t(4) d dblocks_areas(4) [OF dd] ok(4,5) ft fu by simp_all
  obtain v where v: "log_write q (upd_data q (put32 (4 * j) (of_nat b)) u) = Ok () v" "tx_ok p {q} (add_block ?d cs) v"
    "holds_block (bufs v ! q) ?d" "content v = (content u)(?d := put32 (4 * j) (of_nat b) (content u ?d))" "tx_frame u v"
    "\<forall>j. j \<noteq> q \<longrightarrow> bufs v ! j = bufs u ! j" "held {q} v = held {q} u"
    by (rule tx_write [OF u(2) singletonI hu])
  obtain z where z: "brelse q v = Ok () z" "tx_ok p ({q} - {q}) (add_block ?d cs) z" "content z = content v" "tx_frame v z"
    "\<forall>j. j \<noteq> q \<longrightarrow> bufs z ! j = bufs v ! j" "held ({q} - {q}) z = held {q} v - {?d}"
    by (rule tx_brelse [OF v(2) singletonI v(3)])
  have fr: "tx_frame u z" "tx_frame s z" using t(7) u(4) v(5) z(4) by (blast intro: tx_frame_trans)+
  note fz = tx_frame_kino [OF fr(2)] and fi = tx_ino_frame [OF fr(2), of i]
  have cu: "content u ?d = content s ?d" using u(14) dt dd t(6) by simp
  have cz: "content z = (content u)(?d := put32 (4 * j) (of_nat b) (content s ?d))" using z(3) v(4) cu by simp
  have len: "length (content s ?d) = BSIZE" "4 * j + 4 \<le> BSIZE" using fs_okD(5) [OF ok(2) d] n(1) by (simp_all add: NINDIRECT_def BSIZE_def)
  have "length (put32 (4 * j) (of_nat b) (content s ?d)) = BSIZE" using len by simp
  note gz = fs_ok_data [OF u(7) fr(1) cz _ this]
  have du: "?d \<in> dblocks u" using u(11) dd dt by simp
  have bd: "b \<noteq> ?d" "b \<in> free_blocks s" using u(9) gt(2) dblocks_areas(2) [OF dd] by auto
  have fm: "fblock (content z) (addrs z i) m = (if m = NDIRECT + j then b else fblock (content s) (addrs s i) m)" if "m < MAXFILE" for m
  proof (cases "m < NDIRECT")
    case False
    then have "4 * (m - NDIRECT) + 4 \<le> BSIZE" using that by (simp add: MAXFILE_def NINDIRECT_def BSIZE_def)
    moreover have "4 * (m - NDIRECT) + 4 \<le> 4 * j \<or> 4 * j + 4 \<le> 4 * (m - NDIRECT)" if "m \<noteq> NDIRECT + j"
      using False that by arith
    ultimately show ?thesis
      using False n(2) fz len u(10) get32_put32 [of "4 * j" "content s ?d"]
        get32_put32_other [of "4 * j" "content s ?d" "4 * (m - NDIRECT)"] by (auto simp: fblock_def cz)
  qed (simp add: fblock_def fz)
  have nM: "NDIRECT + j < MAXFILE" using n(1) by (simp add: MAXFILE_def)
  have al: "length (add_block ?d cs) \<le> length bs + 3" using add_block_props(3) [of ?d cs] u(3) by linarith
  have zz: "tx_ok p {} (add_block ?d cs) z" "length (add_block ?d cs) \<le> length bs + 3" "fs_ok z" "free_blocks z = free_blocks s - {b}"
    "dblocks z = insert b (dblocks s)" "content z b = replicate BSIZE 0" "length (addrs z i) = length (addrs s i)"
    "addrs z i ! NDIRECT = ?a"
    using z(2) gz [OF du] u(8,11,12) gt(2) dt bd(1) fz al by (simp_all add: cz)
  have cc: "content z x = content s x" if "x \<noteq> b" "x \<notin> bmap_area (sblk s)" "x \<noteq> ?d \<or> ?a = 0" for x
    using that u(13) t(6) ft n(2) by (simp add: cz)
  note g = fstep_add [where k = 3 and t = z, OF ok(2,3) nM n(3) bd(2) zz(1,2) _ zz(3) fi zz(4,5,6,7,8) fm cc]
  have "get32 (4 * j) (content s ?d) = 0" using n(2,3) by (simp add: fblock_def unat_eq_zero)
  then have "bmap_entry j ?a s = Ok (of_nat b) z" using t(1,5) u(1) v(1) z(1) by (simp add: bmap_entry_def Let_def)
  then show thesis using that [of "of_nat b" z "add_block ?d cs"] g fm nM u(10) free_blocksD(4) [OF ok(2) bd(2)] by simp
qed

lemma bmap_indirect:
  assumes "unat bn = NDIRECT + j" "j < NINDIRECT" "i_dev (inodes s ! i) = 1"
  shows "bmap i bn s =
    (if addrs s i ! NDIRECT = 0 then
       bindo (balloc 1 s) (\<lambda>addr s.
         bmap_entry j addr (upd_inode i (\<lambda>ip. ip\<lparr>i_addrs := (i_addrs ip)[NDIRECT := addr]\<rparr>) s))
     else bmap_entry j (addrs s i ! NDIRECT) s)"
proof (cases "balloc 1 s")
  case (Ok a t)
  then show ?thesis using assms by (simp add: bmap_def bmap_entry_def Let_def cong: if_cong)
qed (use assms in \<open>simp_all add: bmap_def bmap_entry_def Let_def cong: if_cong\<close>)

text \<open>The indirect block itself.\<close>

lemma balloc_indirect:
  assumes ok: "tx_ok p {} bs s" "fs_ok s" "file_at s i" "length bs + 3 \<le> LOGSIZE" "1 \<le> log_outstanding s"
    and z: "addrs s i ! NDIRECT = 0" and free: "free_blocks s \<noteq> {}"
  obtains b t u bs' where "balloc 1 s = Ok (of_nat b) t"
    "u = upd_inode i (\<lambda>ip. ip\<lparr>i_addrs := (i_addrs ip)[NDIRECT := of_nat b]\<rparr>) t" "fstep 2 p i bs s bs' u"
    "addrs u i ! NDIRECT = of_nat b" "addrs u i ! NDIRECT \<noteq> 0" "free_blocks u = free_blocks s - {b}" "b \<in> free_blocks s"
    "\<forall>m < MAXFILE. fblock (content u) (addrs u i) m = fblock (content s) (addrs s i) m"
    "\<forall>l < MAXFILE * BSIZE. fdata (content u) (addrs u i) l = fdata (content s) (addrs s i) l"
proof -
  have h: "held {} s \<subseteq> dblocks s" "length bs + card {} + 3 \<le> LOGSIZE" using ok(4) by simp_all
  obtain b t bs' where t: "balloc 1 s = Ok (of_nat b) t" "tx_ok p {} bs' t" "length bs' \<le> length bs + 2" "tx_frame s t"
    "\<forall>j \<in> {}. bufs t ! j = bufs s ! j" "held {} t = held {} s" "fs_ok t" "free_blocks t = free_blocks s - {b}"
    "b \<in> free_blocks s" "unat (of_nat b :: 32 word) = b" "dblocks t = insert b (dblocks s)" "content t b = replicate BSIZE 0"
    "\<forall>x. x \<noteq> b \<longrightarrow> x \<notin> bmap_area (sblk s) \<longrightarrow> content t x = content s x" "\<forall>x \<in> dblocks s. content t x = content s x"
    by (rule falloc [OF ok(1,2) finite.emptyI h ok(5) free])
  note fr = tx_frame_kino [OF t(4)] and fb = free_blocksD [OF ok(2) t(9)]
  have i: "i < length (inodes s)" "i_dev (inodes s ! i) = 1" and fo: "file_ok (dblocks s) (content s) (addrs s i)"
    using ok(3) by (simp_all add: file_at_def)
  note fo' = file_okD [OF fo]
  let ?as = "(addrs s i)[NDIRECT := of_nat b]"
  let ?t = "upd_inode i (\<lambda>ip. ip\<lparr>i_addrs := (i_addrs ip)[NDIRECT := of_nat b]\<rparr>) t"
  have ut: "?t = upd_inode i (\<lambda>ip. ip\<lparr>i_addrs := ?as\<rparr>) t" using fr by (simp add: upd_inode_def)
  have a: "addrs ?t i = ?as" "content ?t = content t" "sblk ?t = sblk s" "inodes ?t ! i = (inodes s ! i)\<lparr>i_addrs := ?as\<rparr>"
    "length (inodes ?t) = length (inodes s)"
    using fr i by (simp_all add: upd_inode_def)
  have tt: "tx_ok p {} bs' ?t" "fs_ok ?t" "free_blocks ?t = free_blocks s - {b}" "dblocks ?t = insert b (dblocks s)"
    using t a by (simp_all add: upd_inode_def dblocks_def)
  have fi: "ino_frame i s ?t" unfolding ut by (rule ino_frame_addrs [OF t(4) i(1)])
  have b0: "(of_nat b :: 32 word) \<noteq> 0" using t(10) fb(4) by (metis unat_0)
  have ab: "addrs ?t i ! NDIRECT = of_nat b" using fo'(1) unfolding a by simp
  have "get32 (4 * (m - NDIRECT)) (replicate BSIZE 0) = 0" if "m < MAXFILE" for m
    using that by (simp add: get32_def BSIZE_def MAXFILE_def NDIRECT_def NINDIRECT_def)
  then have fm: "fblock (content ?t) (addrs ?t i) m = fblock (content s) (addrs s i) m" if "m < MAXFILE" for m
    using that t(10,12) z b0 fo'(1) unfolding a fblock_def by auto
  have nb: "b \<notin> dblocks s" using t(9) dblocks_areas(2) by blast
  have "owned (content ?t) (addrs ?t i) \<subseteq> insert b (owned (content s) (addrs s i))"
    using fm ab t(10) by (auto simp: owned_def)
  then have ow: "owned (content ?t) (addrs ?t i) \<subseteq> owned (content s) (addrs s i) \<union> free_blocks s"
    "owned (content ?t) (addrs ?t i) \<subseteq> dblocks ?t"
    using t(9) tt(4) owned_dblocks [OF ok(3)] by blast+
  have "fblock (content s) (addrs s i) m \<noteq> b" if "m < MAXFILE" for m using fo'(2) [OF that] nb fb(4) by auto
  then have "file_ok (dblocks ?t) (content ?t) (addrs ?t i)"
    using ow(2) fm fo'(1,5) ab t(10) a(1) by (auto simp: file_ok_def)
  then have fa: "file_at ?t i" using i a by (simp add: file_at_def)
  have "content ?t x = content s x" if "x \<notin> bmap_area (sblk s)" "x \<notin> free_blocks s" for x
    using t(9,13) that a(2) by auto
  moreover have "card (free_blocks s) = card (free_blocks ?t) + 1"
    using tt(3) card_Suc_Diff1 [OF finite_free t(9)] by simp
  ultimately have st: "fstep 2 p i bs s bs' ?t" using tt t(3) fa fi ow(1) unfolding fstep_def by auto
  have "fdata (content ?t) (addrs ?t i) l = fdata (content s) (addrs s i) l" if "l < MAXFILE * BSIZE" for l
  proof (cases "fblock (content s) (addrs s i) (l div BSIZE) = 0")
    case False
    then have "content t (fblock (content s) (addrs s i) (l div BSIZE)) = content s (fblock (content s) (addrs s i) (l div BSIZE))"
      using fo'(2) [OF div_MAXFILE [OF that]] t(14) by simp
    then show ?thesis using fm [OF div_MAXFILE [OF that]] a(2) by (simp add: fdata_def Let_def)
  qed (simp add: fdata_def fm [OF div_MAXFILE [OF that]])
  then show thesis using that [of b t ?t bs'] t(1,9) st ab b0 tt(3) fm by simp
qed

lemma bmap_present:
  assumes ok: "tx_ok p {} bs s" "fs_ok s" "file_at s i" "length bs < NBUF"
    and n: "unat bn = n" "n < MAXFILE" "fblock (content s) (addrs s i) n \<noteq> 0"
  obtains w t where "bmap i bn s = Ok w t" "tx_ok p {} bs t" "tx_frame s t" "content t = content s"
    "unat w = fblock (content s) (addrs s i) n"
proof (cases "n < NDIRECT")
  case True
  then have "bmap i bn s = Ok (addrs s i ! n) s" using n by (auto simp: bmap_def Let_def fblock_def)
  then show thesis using that [of "addrs s i ! n" s] ok(1) True by (simp add: fblock_def)
next
  case False
  then obtain j where j: "n = NDIRECT + j" "j < NINDIRECT" using n(2) by (metis MAXFILE_def le_add_diff_inverse nat_add_left_cancel_less not_less)
  have a: "addrs s i ! NDIRECT \<noteq> 0" using n(3) j by (auto simp: fblock_def)
  have dev: "i_dev (inodes s ! i) = 1" using ok(3) by (simp add: file_at_def)
  have nz: "fblock (content s) (addrs s i) (NDIRECT + j) \<noteq> 0" using n(3) j by simp
  obtain w t where "bmap_entry j (addrs s i ! NDIRECT) s = Ok w t" "tx_ok p {} bs t" "tx_frame s t" "content t = content s"
    "unat w = fblock (content s) (addrs s i) (NDIRECT + j)" by (rule bmap_entry_present [OF ok j(2) a nz])
  then show thesis using that [of w t] bmap_indirect [OF _ j(2) dev] n(1) j(1) a by simp
qed

lemma fstep_weaken: "fstep k p i bs s bs' t \<Longrightarrow> k \<le> l \<Longrightarrow> fstep l p i bs s bs' t"
  by (auto simp: fstep_def)

lemma fstepD:
  assumes "fstep k p i bs s bs' t"
  shows "tx_ok p {} bs' t" "length bs' \<le> length bs + k" "fs_ok t" "file_at t i" "ino_frame i s t"
    "card (free_blocks s) \<le> card (free_blocks t) + k"
  using assms by (simp_all add: fstep_def)

lemma bmap_ok:
  assumes ok: "tx_ok p {} bs s" "fs_ok s" "file_at s i" "length bs + 6 \<le> LOGSIZE" "1 \<le> log_outstanding s"
    and n: "unat bn = n" "n < MAXFILE" and free: "2 \<le> card (free_blocks s)"
  obtains w t bs' where "bmap i bn s = Ok w t" "fstep 5 p i bs s bs' t" "unat w \<noteq> 0"
    "unat w = fblock (content t) (addrs t i) n"
    "\<forall>m < MAXFILE. m \<noteq> n \<longrightarrow> fblock (content t) (addrs t i) m = fblock (content s) (addrs s i) m"
    "\<forall>l < MAXFILE * BSIZE. fdata (content t) (addrs t i) l = fdata (content s) (addrs s i) l"
    "fblock (content s) (addrs s i) n \<noteq> 0 \<longrightarrow> addrs t i = addrs s i"
proof (cases "fblock (content s) (addrs s i) n = 0")
  case False
  have r: "length bs < NBUF" using ok(4) by (simp add: LOGSIZE_def MAXOPBLOCKS_def NBUF_def)
  obtain w t where t: "bmap i bn s = Ok w t" "tx_ok p {} bs t" "tx_frame s t" "content t = content s"
    "unat w = fblock (content s) (addrs s i) n" by (rule bmap_present [OF ok(1-3) r n False])
  have "fstep 5 p i bs s bs t" by (rule fstep_frame [OF t(2) _ ok(2,3) t(3,4)]) simp
  then show thesis using that [of w t bs] t False tx_frame_kino(1) [OF t(3)] by simp
next
  case True
  have fn: "free_blocks s \<noteq> {}" using free by auto
  have i: "i < length (inodes s)" and dev: "i_dev (inodes s ! i) = 1" using ok(3) by (simp_all add: file_at_def)
  show thesis
  proof (cases "n < NDIRECT")
    case d: True
    have r: "length bs + 3 \<le> LOGSIZE" using ok(4) by simp
    obtain w t bs' where t: "bmap i bn s = Ok w t" "fstep 2 p i bs s bs' t" "unat w \<noteq> 0"
      "unat w = fblock (content t) (addrs t i) n"
      "\<forall>m < MAXFILE. m \<noteq> n \<longrightarrow> fblock (content t) (addrs t i) m = fblock (content s) (addrs s i) m"
      "\<forall>l < MAXFILE * BSIZE. fdata (content t) (addrs t i) l = fdata (content s) (addrs s i) l"
      by (rule bmap_direct [OF ok(1-3) r ok(5) n(1) d True fn])
    show thesis using that [of w t bs'] fstep_weaken [OF t(2), of 5] t(1,3-6) True by simp
  next
    case False
    then obtain j where j: "n = NDIRECT + j" "j < NINDIRECT"
      using n(2) by (metis MAXFILE_def le_add_diff_inverse nat_add_left_cancel_less not_less)
    have nj: "unat bn = NDIRECT + j" "fblock (content s) (addrs s i) (NDIRECT + j) = 0" using n(1) j True by simp_all
    note bi = bmap_indirect [OF nj(1) j(2) dev]
    show thesis
    proof (cases "addrs s i ! NDIRECT = 0")
      case a: False
      have r: "length bs + 4 \<le> LOGSIZE" using ok(4) by simp
      obtain w t bs' where t: "bmap_entry j (addrs s i ! NDIRECT) s = Ok w t" "fstep 3 p i bs s bs' t" "unat w \<noteq> 0"
        "unat w = fblock (content t) (addrs t i) (NDIRECT + j)"
        "\<forall>m < MAXFILE. m \<noteq> NDIRECT + j \<longrightarrow> fblock (content t) (addrs t i) m = fblock (content s) (addrs s i) m"
        "\<forall>l < MAXFILE * BSIZE. fdata (content t) (addrs t i) l = fdata (content s) (addrs s i) l"
        by (rule bmap_entry_absent [OF ok(1-3) r ok(5) j(2) a nj(2) fn])
      have "bmap i bn s = Ok w t" using bi a t(1) by simp
      then show thesis using that [of w t bs'] fstep_weaken [OF t(2), of 5] t(3-) j(1) True by simp
    next
      case a: True
      have r: "length bs + 3 \<le> LOGSIZE" using ok(4) by simp
      obtain b t0 u cs where u: "balloc 1 s = Ok (of_nat b) t0"
        "u = upd_inode i (\<lambda>ip. ip\<lparr>i_addrs := (i_addrs ip)[NDIRECT := of_nat b]\<rparr>) t0" "fstep 2 p i bs s cs u"
        "addrs u i ! NDIRECT = of_nat b" "addrs u i ! NDIRECT \<noteq> 0" "free_blocks u = free_blocks s - {b}" "b \<in> free_blocks s"
        "\<forall>m < MAXFILE. fblock (content u) (addrs u i) m = fblock (content s) (addrs s i) m"
        "\<forall>l < MAXFILE * BSIZE. fdata (content u) (addrs u i) l = fdata (content s) (addrs s i) l"
        by (rule balloc_indirect [OF ok(1-3) r ok(5) a fn])
      note us = fstepD [OF u(3)]
      have nM: "NDIRECT + j < MAXFILE" using j by (simp add: MAXFILE_def)
      have ur: "length cs + 4 \<le> LOGSIZE" "1 \<le> log_outstanding u" "fblock (content u) (addrs u i) (NDIRECT + j) = 0"
        using us(2) ok(4,5) ino_frame_fields(8) [OF us(5)] u(8) nM nj(2) by simp_all
      have "card (free_blocks u) + 1 = card (free_blocks s)" using u(6) card_Suc_Diff1 [OF finite_free u(7)] by simp
      then have fu: "free_blocks u \<noteq> {}" using free by auto
      obtain w t bs' where t: "bmap_entry j (addrs u i ! NDIRECT) u = Ok w t" "fstep 3 p i cs u bs' t" "unat w \<noteq> 0"
        "unat w = fblock (content t) (addrs t i) (NDIRECT + j)"
        "\<forall>m < MAXFILE. m \<noteq> NDIRECT + j \<longrightarrow> fblock (content t) (addrs t i) m = fblock (content u) (addrs u i) m"
        "\<forall>l < MAXFILE * BSIZE. fdata (content t) (addrs t i) l = fdata (content u) (addrs u i) l"
        by (rule bmap_entry_absent [OF us(1,3,4) ur(1,2) j(2) u(5) ur(3) fu])
      have "bmap i bn s = Ok w t" using bi a t(1) u(1,2,4) by simp
      moreover have "fstep 5 p i bs s bs' t" using fstep_trans [OF u(3) t(2) i] by simp
      ultimately show thesis using that [of w t bs'] t(3-) u(8,9) j(1) True by simp
    qed
  qed
qed

end
