(* ===== verification/FileSpec.thy ===== *)
theory FileSpec
  imports InodeSpec Fs
begin

text \<open>
  Files as byte sequences.  \<open>file_bytes s i\<close> is the content of the file of cached inode \<open>i\<close>: \<^verbatim>\<open>readi\<close> returns a piece of
  it, \<^verbatim>\<open>writei\<close> replaces a piece of it and leaves the blocks of every other file alone.  \<open>disk_file\<close> is the
  content of a file as the disk has it; a \<^verbatim>\<open>writei\<close> in a transaction of its own is atomic against crashes.
\<close>

section \<open>Disk inodes\<close>

lemma get_put_bytes_word:
  assumes "off + length bs \<le> length d" "off \<le> pos"
  shows "pos + 2 \<le> off + length bs \<Longrightarrow> get16 pos (put_bytes off bs d) = get16 (pos - off) bs"
    "pos + 4 \<le> off + length bs \<Longrightarrow> get32 pos (put_bytes off bs d) = get32 (pos - off) bs"
proof -
  have n: "put_bytes off bs d ! (pos + k) = bs ! (pos - off + k)" if "pos + k < off + length bs" for k
    using nth_put_bytes [OF assms(1), of "pos + k"] assms that by simp
  show "get16 pos (put_bytes off bs d) = get16 (pos - off) bs" if "pos + 2 \<le> off + length bs"
    using n [of 0] n [of 1] that by (simp add: get16_def)
  show "get32 pos (put_bytes off bs d) = get32 (pos - off) bs" if "pos + 4 \<le> off + length bs"
    using n [of 0] n [of 1] n [of 2] n [of 3] that by (simp add: get32_def)
qed

lemma get_append: "get16 (length xs + k) (xs @ d) = get16 k d" "get32 (length xs + k) (xs @ d) = get32 k d"
proof -
  have n: "(xs @ d) ! (length xs + k + j) = d ! (k + j)" for j by (metis add.assoc nth_append_length_plus)
  show "get16 (length xs + k) (xs @ d) = get16 k d" using n [of 0] n [of 1] unfolding get16_def by simp
  show "get32 (length xs + k) (xs @ d) = get32 k d"
    using n [of 0] n [of 1] n [of 2] n [of 3] unfolding get32_def by simp
qed

lemma get32_concat: "i < length ws \<Longrightarrow> get32 (4 * i) (concat (map bytes32 ws)) = ws ! i"
proof (induction ws arbitrary: i)
  case (Cons w ws)
  show ?case
  proof (cases i)
    case 0
    then show ?thesis using get32_bytes [of w "concat (map bytes32 ws)"] by simp
  next
    case (Suc k)
    have "get32 (4 + 4 * k) (bytes32 w @ concat (map bytes32 ws)) = get32 (4 * k) (concat (map bytes32 ws))"
      using get_append(2) [of "bytes32 w"] by simp
    then show ?thesis using Cons Suc by simp
  qed
qed simp

lemma length_concat_words: "length (concat (map bytes32 ws)) = 4 * length ws"
  by (induction ws) simp_all

lemma length_bytes_dinode: "length (d_addrs di) = NDIRECT + 1 \<Longrightarrow> length (bytes_dinode di) = 64"
  by (simp add: bytes_dinode_def length_concat_words NDIRECT_def)

text \<open>Reading back an inode that was written into its block.\<close>

lemma get_put_dinode:
  assumes "length (d_addrs di) = NDIRECT + 1" "off + 64 \<le> length d"
  shows "get_dinode off (put_dinode off di d) = di"
proof -
  let ?b = "bytes_dinode di" and ?t = "d_type di" and ?c = "concat (map bytes32 (d_addrs di))"
  note l = length_bytes_dinode [OF assms(1)]
  have "off + length ?b \<le> length d" using assms(2) l by simp
  note g = get_put_bytes_word [OF this]
  have 1: "get16 0 ?b = d_type di" "get16 2 ?b = d_major di" "get16 4 ?b = d_minor di" "get16 6 ?b = d_nlink di"
    "get32 8 ?b = d_size di"
    using get16_bytes [of "d_type di" "[]"] get16_bytes [of "d_major di" "[]"] get16_bytes [of "d_minor di" "[]"]
      get16_bytes [of "d_nlink di" "[]"] get32_bytes [of "d_size di" "[]"]
    by (simp_all add: bytes_dinode_def bytes16_def bytes32_def get16_def get32_def)
  have 2: "get32 (12 + 4 * k) ?b = d_addrs di ! k" if "k < NDIRECT + 1" for k
  proof -
    let ?h = "bytes16 ?t @ bytes16 (d_major di) @ bytes16 (d_minor di) @ bytes16 (d_nlink di) @ bytes32 (d_size di)"
    have "get32 (12 + 4 * k) ?b = get32 (4 * k) ?c"
      using get_append(2) [of ?h "4 * k" ?c] by (simp add: bytes_dinode_def)
    then show ?thesis using get32_concat [of k "d_addrs di"] that assms(1) by simp
  qed
  have "get32 (off + 12 + 4 * k) (put_dinode off di d) = d_addrs di ! k" if "k < NDIRECT + 1" for k
    using g(2) [of "off + 12 + 4 * k"] 2 [OF that] that l by (simp add: put_dinode_def NDIRECT_def)
  then have "map (\<lambda>k. get32 (off + 12 + 4 * k) (put_dinode off di d)) [0..<NDIRECT + 1] = d_addrs di"
    using assms(1) by (intro nth_equalityI) (simp_all del: upt_Suc)
  then show ?thesis
    using g(1) [of off] g(1) [of "off + 2"] g(1) [of "off + 4"] g(1) [of "off + 6"] g(2) [of "off + 8"] 1 l
    unfolding get_dinode_def by (simp add: put_dinode_def del: upt_Suc)
qed

section \<open>Pieces of a file\<close>

lemma chunk_same_block:
  assumes "off \<le> k" "k < off + chunk off n"
  shows "k div BSIZE = off div BSIZE" "k mod BSIZE = off mod BSIZE + (k - off)"
proof -
  have "off mod BSIZE + (k - off) < BSIZE" using assms by (simp add: chunk_def)
  moreover have "k = off div BSIZE * BSIZE + (off mod BSIZE + (k - off))" using assms by simp
  ultimately show "k div BSIZE = off div BSIZE" "k mod BSIZE = off mod BSIZE + (k - off)"
    by (metis div_mult_self3 div_less add.right_neutral BSIZE_def zero_neq_numeral, metis mod_mult_self3 mod_less)
qed

lemma get_bytes_fdata:
  assumes "fblock c as (off div BSIZE) \<noteq> 0" "length (c (fblock c as (off div BSIZE))) = BSIZE"
  shows "get_bytes (off mod BSIZE) (chunk off n) (c (fblock c as (off div BSIZE))) = map (fdata c as) [off..<off + chunk off n]"
proof (rule nth_equalityI)
  have l: "off mod BSIZE + chunk off n \<le> BSIZE" by (simp add: chunk_def BSIZE_def)
  then show "length (get_bytes (off mod BSIZE) (chunk off n) (c (fblock c as (off div BSIZE)))) =
    length (map (fdata c as) [off..<off + chunk off n])" using assms(2) by (simp add: get_bytes_def)
  fix k assume "k < length (get_bytes (off mod BSIZE) (chunk off n) (c (fblock c as (off div BSIZE))))"
  then have k: "k < chunk off n" using l assms(2) by (simp add: get_bytes_def)
  then show "get_bytes (off mod BSIZE) (chunk off n) (c (fblock c as (off div BSIZE))) ! k =
    map (fdata c as) [off..<off + chunk off n] ! k"
    using chunk_same_block [of off "off + k" n] assms l by (simp add: nth_get_bytes fdata_def Let_def)
qed

lemma fdata_write:
  assumes ok: "file_ok U c as" and n: "n < MAXFILE" "b = fblock c as n" "b \<noteq> 0"
    and d: "length (c b) = BSIZE" "off + length xs \<le> BSIZE" and c': "c' = c(b := put_bytes off xs (c b))"
  shows "fblock c' as = fblock c as" "file_ok U c' as"
    "l < MAXFILE * BSIZE \<Longrightarrow> fdata c' as l =
       (if n * BSIZE + off \<le> l \<and> l < n * BSIZE + off + length xs then xs ! (l - (n * BSIZE + off)) else fdata c as l)"
proof -
  note o = file_okD [OF ok]
  have "b \<noteq> unat (as ! NDIRECT)" using o(4) n by simp
  then show f: "fblock c' as = fblock c as" by (auto simp: fblock_def c' fun_eq_iff)
  then show "file_ok U c' as" using ok by (simp add: file_ok_def owned_def)
  show "fdata c' as l =
       (if n * BSIZE + off \<le> l \<and> l < n * BSIZE + off + length xs then xs ! (l - (n * BSIZE + off)) else fdata c as l)"
    if l: "l < MAXFILE * BSIZE"
  proof (cases "l div BSIZE = n")
    case True
    define r where "r = l mod BSIZE"
    have r: "r < BSIZE" "l = n * BSIZE + r" using True by (auto simp: r_def BSIZE_def)
    have "off + length xs \<le> length (c b)" "r < length (c b)" using d r by simp_all
    note w = nth_put_bytes [OF this]
    have "fdata c' as l = put_bytes off xs (c b) ! r" "fdata c as l = c b ! r"
      using True n f by (simp_all add: fdata_def c' Let_def r_def)
    then show ?thesis using w unfolding r(2) by auto
  next
    case False
    have "\<not> (n * BSIZE + off \<le> l \<and> l < n * BSIZE + off + length xs)"
    proof
      assume "n * BSIZE + off \<le> l \<and> l < n * BSIZE + off + length xs"
      then have "BSIZE * n \<le> l" "l < BSIZE * Suc n" using d(2) by (simp_all add: mult.commute)
      then show False using div_nat_eqI [of BSIZE n l] False by simp
    qed
    moreover have "fblock c as (l div BSIZE) \<noteq> b" using o(5) [OF n(1) _ div_MAXFILE [OF l]] n False by auto
    ultimately show ?thesis using f by (auto simp: fdata_def c' Let_def)
  qed
qed

section \<open>Reading\<close>

declare readi_loop.simps [simp del] writei_loop.simps [simp del]

lemma fblock_bound:
  assumes "fs_ok s" "file_at s i" "n < MAXFILE" "fblock (content s) (addrs s i) n \<noteq> 0"
  shows "fblock (content s) (addrs s i) n \<in> dblocks s" "fblock (content s) (addrs s i) n < disksize s"
    "length (content s (fblock (content s) (addrs s i) n)) = BSIZE"
proof -
  show d: "fblock (content s) (addrs s i) n \<in> dblocks s"
    using assms(2-4) unfolding file_at_def by (blast intro: file_okD(2))
  show l: "fblock (content s) (addrs s i) n < disksize s" using dblocks_areas(6) [OF d] fs_okD(1) [OF assms(1)] by simp
  show "length (content s (fblock (content s) (addrs s i) n)) = BSIZE" by (rule fs_okD(5) [OF assms(1) l])
qed

lemma file_at_frame: "file_at s i \<Longrightarrow> tx_frame s t \<Longrightarrow> content t = content s \<Longrightarrow> fs_ok s \<Longrightarrow> file_at t i"
  using tx_frame_kino [of s t] fs_ok_frame(3) [of s t] by (simp add: file_at_def dblocks_def)

lemma block_number: "k < MAXFILE * BSIZE \<Longrightarrow> unat (of_nat (k div BSIZE) :: 32 word) = k div BSIZE"
  by (rule unat_of_nat32) (simp add: MAXFILE_def NINDIRECT_def NDIRECT_def BSIZE_def)

lemma readi_loop_ok:
  assumes "tx_ok p {} bs s" "fs_ok s" "file_at s i" "length bs < NBUF" "off + n \<le> MAXFILE * BSIZE"
    "\<And>k. off \<le> k \<Longrightarrow> k < off + n \<Longrightarrow> fblock (content s) (addrs s i) (k div BSIZE) \<noteq> 0"
  shows "\<exists>t. readi_loop i off n dst s = Ok (dst @ map (fdata (content s) (addrs s i)) [off..<off + n]) t \<and>
    tx_ok p {} bs t \<and> tx_frame s t \<and> content t = content s"
  using assms
proof (induction n arbitrary: off dst s rule: less_induct)
  case (less n)
  note a = less.prems
  show ?case
  proof (cases "n = 0")
    case True
    then show ?thesis using a(1) by (intro exI [of _ s]) (simp add: readi_loop.simps)
  next
    case False
    let ?m = "chunk off n" and ?c = "content s" and ?as = "addrs s i"
    let ?b = "fblock ?c ?as (off div BSIZE)"
    have m: "0 < ?m" "?m \<le> n" using chunk_pos [OF False] chunk_le by auto
    have k: "off < MAXFILE * BSIZE" "?b \<noteq> 0" using a(5) a(6) [of off] False by auto
    note bn = block_number [OF k(1)] and bM = div_MAXFILE [OF k(1)]
    obtain w t where t: "bmap i (of_nat (off div BSIZE)) s = Ok w t" "tx_ok p {} bs t" "tx_frame s t" "content t = content s"
      "unat w = ?b" by (rule bmap_present [OF a(1-4) bn bM k(2)])
    note ft = tx_frame_kino [OF t(3)] tx_frame_fields [OF t(3)]
    note fb = fblock_bound [OF a(2,3) bM k(2)]
    have bt: "?b < disksize t" "?b \<notin> held {} t" "length bs + card {} < NBUF" using fb(2) ft a(4) by simp_all
    obtain q u where u: "bread 1 w t = Ok q u" "q \<notin> {}" "tx_ok p {q} bs u" "holds_block (bufs u ! q) ?b"
      "b_data (bufs u ! q) = content t ?b" "content u = content t" "tx_frame t u" "held {q} u = insert ?b (held {} t)"
      "\<forall>j \<in> {}. bufs u ! j = bufs t ! j" by (rule tx_bread [OF t(2) bt(1) t(5) bt(2,3)])
    obtain v where v: "brelse q u = Ok () v" "tx_ok p ({q} - {q}) bs v" "content v = content u" "tx_frame u v"
      "\<forall>j. j \<noteq> q \<longrightarrow> bufs v ! j = bufs u ! j" "held ({q} - {q}) v = held {q} u - {?b}"
      by (rule tx_brelse [OF u(3) singletonI u(4)])
    have fr: "tx_frame s v" using t(3) u(7) v(4) by (blast intro: tx_frame_trans)
    have cv: "content v = ?c" using v(3) u(6) t(4) by simp
    note fv = tx_frame_kino [OF fr]
    have dev: "i_dev (inodes s ! i) = 1" using a(3) by (simp add: file_at_def)
    let ?dst = "dst @ map (fdata ?c ?as) [off..<off + ?m]"
    have step: "readi_loop i off n dst s = readi_loop i (off + ?m) (n - ?m) ?dst v"
      using False t(1,4) u(1,5) v(1) ft(1) dev get_bytes_fdata [OF k(2) fb(3)]
      by (subst readi_loop.simps) (simp add: Let_def)
    have av: "tx_ok p {} bs v" "fs_ok v" "file_at v i" "off + ?m + (n - ?m) \<le> MAXFILE * BSIZE"
      using v(2) fs_ok_frame(1) [OF a(2) fr cv] file_at_frame [OF a(3) fr cv a(2)] a(5) m by simp_all
    have nz: "fblock (content v) (addrs v i) (k div BSIZE) \<noteq> 0" if "off + ?m \<le> k" "k < off + ?m + (n - ?m)" for k
      using a(6) [of k] that m cv fv by simp
    have "n - ?m < n" using m by simp
    from less.IH [OF this av(1-3) a(4) av(4) nz, of ?dst]
    obtain z where z: "readi_loop i (off + ?m) (n - ?m) ?dst v = Ok (?dst @ map (fdata ?c ?as) [off + ?m..<off + ?m + (n - ?m)]) z"
      "tx_ok p {} bs z" "tx_frame v z" "content z = content v" unfolding cv fv(1) by blast
    have "[off..<off + n] = [off..<off + ?m] @ [off + ?m..<off + ?m + (n - ?m)]"
      using upt_add_eq_append [of off "off + ?m" "n - ?m"] m by simp
    then show ?thesis using step z cv tx_frame_trans [OF fr z(3)] by (intro exI [of _ z]) simp
  qed
qed

section \<open>Writing\<close>

text \<open>One data block.\<close>

lemma write_block_ok:
  assumes ok: "tx_ok p {} bs s" "fs_ok s" "file_at s i" "length bs + 2 \<le> LOGSIZE" "1 \<le> log_outstanding s"
    and n: "n < MAXFILE" "unat w = fblock (content s) (addrs s i) n" "unat w \<noteq> 0" and d: "off + length xs \<le> BSIZE"
  obtains t bs' where "bindo (bread 1 w s) (\<lambda>bp s. bindo (log_write bp (upd_data bp (put_bytes off xs) s)) (\<lambda>_ s. brelse bp s)) = Ok () t"
    "fstep 1 p i bs s bs' t" "inodes t = inodes s" "fblock (content t) (addrs t i) = fblock (content s) (addrs s i)"
    "\<forall>l < MAXFILE * BSIZE. fdata (content t) (addrs t i) l =
       (if n * BSIZE + off \<le> l \<and> l < n * BSIZE + off + length xs then xs ! (l - (n * BSIZE + off))
        else fdata (content s) (addrs s i) l)"
proof -
  let ?b = "unat w"
  have nz: "fblock (content s) (addrs s i) n \<noteq> 0" using n by simp
  note fb = fblock_bound [OF ok(2,3) n(1) nz]
  have db: "?b \<in> dblocks s" using fb(1) n(2) by simp
  have b: "?b < disksize s" "?b \<notin> held {} s" "?b \<notin> log_area s" "length bs + card {} + 2 \<le> LOGSIZE"
    using fb(2) n(2) dblocks_areas(4) [OF db] ok(4) by simp_all
  obtain t where t: "bindo (bread 1 w s) (\<lambda>bp s. bindo (log_write bp (upd_data bp (put_bytes off xs) s)) (\<lambda>_ s. brelse bp s)) = Ok () t"
    "tx_ok p {} (add_block ?b bs) t" "content t = (content s)(?b := put_bytes off xs (content s ?b))" "tx_frame s t"
    "\<forall>j \<in> {}. bufs t ! j = bufs s ! j" "held {} t = held {} s"
    by (rule tx_logged [OF ok(1) b(1) refl b(2-4) finite.emptyI ok(5)])
  note f = tx_frame_kino [OF t(4)]
  have fo: "file_ok (dblocks s) (content s) (addrs s i)" and i: "i < length (inodes s)" "i_dev (inodes s ! i) = 1"
    using ok(3) by (simp_all add: file_at_def)
  have lb: "length (content s ?b) = BSIZE" using fb(3) n(2) by simp
  note w = fdata_write [OF fo n(1,2,3) lb d t(3)]
  have "length (put_bytes off xs (content s ?b)) = BSIZE" using lb d by simp
  note g = fs_ok_data [OF ok(2) t(4,3) db this]
  have ow: "owned (content t) (addrs t i) = owned (content s) (addrs s i)" using w(1) f by (simp add: owned_def)
  have "?b \<in> owned (content s) (addrs s i)" using n by (auto simp: owned_def)
  then have "content t x = content s x" if "x \<notin> owned (content s) (addrs s i)" for x using that t(3) by auto
  then have "fstep 1 p i bs s (add_block ?b bs) t"
    using t(2) g w(2) f i ow tx_ino_frame [OF t(4), of i] by (simp add: fstep_def file_at_def)
  then show thesis using that [of t "add_block ?b bs"] t(1) w(1,3) f by simp
qed

definition nchunks :: "nat \<Rightarrow> nat \<Rightarrow> nat" where
  "nchunks off n = (if n = 0 then 0 else (off mod BSIZE + n + BSIZE - 1) div BSIZE)"

lemma nchunks_step:
  assumes "n \<noteq> 0"
  shows "nchunks (off + chunk off n) (n - chunk off n) + 1 \<le> nchunks off n"
proof (cases "n \<le> BSIZE - off mod BSIZE")
  case True
  have "BSIZE \<le> off mod BSIZE + n + BSIZE - 1" using assms by simp
  then have "1 \<le> nchunks off n"
    using assms div_le_mono [of BSIZE "off mod BSIZE + n + BSIZE - 1" BSIZE] by (simp add: nchunks_def BSIZE_def)
  then show ?thesis using True by (simp add: nchunks_def chunk_def)
next
  case False
  let ?m = "BSIZE - off mod BSIZE"
  have p: "0 < BSIZE" by (simp add: BSIZE_def)
  have m: "chunk off n = ?m" "?m < n" using False by (simp_all add: chunk_def)
  have "off + ?m = off div BSIZE * BSIZE + BSIZE"
    using mod_less_divisor [OF p, of off] div_mult_mod_eq [of off BSIZE] by linarith
  then have z: "(off + ?m) mod BSIZE = 0" by simp
  have e: "off mod BSIZE + n + BSIZE - 1 = (n - ?m + BSIZE - 1) + BSIZE"
    using m(2) mod_less_divisor [OF p, of off] by linarith
  have "(off mod BSIZE + n + BSIZE - 1) div BSIZE = (n - ?m + BSIZE - 1) div BSIZE + 1"
    unfolding e by (rule div_add_self2) (use p in simp)
  then show ?thesis unfolding nchunks_def m(1) z using m(2) assms by (simp only: if_False add_0) simp
qed

text \<open>What writing the bytes \<open>xs\<close> at \<open>off\<close> does to the blocks and the data of file \<open>i\<close>.\<close>

definition spliced :: "nat \<Rightarrow> nat \<Rightarrow> byte list \<Rightarrow> 'a kino_scheme \<Rightarrow> 'a kino_scheme \<Rightarrow> bool" where
  "spliced i off xs s t =
     ((\<forall>l < MAXFILE * BSIZE. fdata (content t) (addrs t i) l =
         (if off \<le> l \<and> l < off + length xs then xs ! (l - off) else fdata (content s) (addrs s i) l)) \<and>
      (\<forall>k. off \<le> k \<longrightarrow> k < off + length xs \<longrightarrow> fblock (content t) (addrs t i) (k div BSIZE) \<noteq> 0) \<and>
      (\<forall>m < MAXFILE. fblock (content s) (addrs s i) m \<noteq> 0 \<longrightarrow> fblock (content t) (addrs t i) m \<noteq> 0) \<and>
      ((\<forall>k. off \<le> k \<longrightarrow> k < off + length xs \<longrightarrow> fblock (content s) (addrs s i) (k div BSIZE) \<noteq> 0) \<longrightarrow> addrs t i = addrs s i))"

lemma spliced_empty: "spliced i off [] s s"
  by (auto simp: spliced_def)

lemma spliced_append:
  assumes s: "spliced i off xs s t" and t: "spliced i (off + length xs) ys t u" and n: "off + length xs + length ys \<le> MAXFILE * BSIZE"
  shows "spliced i off (xs @ ys) s u"
proof -
  have "fdata (content u) (addrs u i) l =
    (if off \<le> l \<and> l < off + length (xs @ ys) then (xs @ ys) ! (l - off) else fdata (content s) (addrs s i) l)"
    if "l < MAXFILE * BSIZE" for l
    using s t that unfolding spliced_def by (auto simp: nth_append)
  moreover have nz: "fblock (content u) (addrs u i) (k div BSIZE) \<noteq> 0" if "off \<le> k" "k < off + length (xs @ ys)" for k
  proof (cases "k < off + length xs")
    case True
    then have "fblock (content t) (addrs t i) (k div BSIZE) \<noteq> 0" using s that unfolding spliced_def by blast
    then show ?thesis using t div_MAXFILE [of k] that n unfolding spliced_def by auto
  qed (use t that in \<open>simp add: spliced_def\<close>)
  moreover have "addrs u i = addrs s i"
    if e: "\<forall>k. off \<le> k \<longrightarrow> k < off + length (xs @ ys) \<longrightarrow> fblock (content s) (addrs s i) (k div BSIZE) \<noteq> 0"
  proof -
    have "addrs t i = addrs s i" using s e unfolding spliced_def by auto
    moreover have "fblock (content t) (addrs t i) (k div BSIZE) \<noteq> 0" if "off + length xs \<le> k" "k < off + length xs + length ys" for k
      using s e div_MAXFILE [of k] that n unfolding spliced_def by auto
    ultimately show ?thesis using t unfolding spliced_def by simp
  qed
  ultimately show ?thesis using s t unfolding spliced_def by auto
qed

lemma writei_chunk:
  assumes ok: "tx_ok p {} bs s" "fs_ok s" "file_at s i" "length bs + 7 \<le> LOGSIZE" "1 \<le> log_outstanding s"
    and n: "src \<noteq> []" "off + length src \<le> MAXFILE * BSIZE" and free: "2 \<le> card (free_blocks s)"
  defines "m \<equiv> chunk off (length src)"
  obtains t bs' where "writei_loop i off src s = writei_loop i (off + m) (drop m src) t" "fstep 6 p i bs s bs' t"
    "spliced i off (take m src) s t"
proof -
  let ?n = "off div BSIZE"
  have l: "off < MAXFILE * BSIZE" using n by (cases src) auto
  have r: "length bs + 6 \<le> LOGSIZE" using ok(4) by simp
  note bn = block_number [OF l] and bM = div_MAXFILE [OF l]
  obtain w t cs where t: "bmap i (of_nat ?n) s = Ok w t" "fstep 5 p i bs s cs t" "unat w \<noteq> 0"
    "unat w = fblock (content t) (addrs t i) ?n"
    "\<forall>m < MAXFILE. m \<noteq> ?n \<longrightarrow> fblock (content t) (addrs t i) m = fblock (content s) (addrs s i) m"
    "\<forall>l < MAXFILE * BSIZE. fdata (content t) (addrs t i) l = fdata (content s) (addrs s i) l"
    "fblock (content s) (addrs s i) ?n \<noteq> 0 \<longrightarrow> addrs t i = addrs s i"
    by (rule bmap_ok [OF ok(1-3) r ok(5) bn bM free])
  note ts = fstepD [OF t(2)] and tf = ino_frame_fields [OF fstepD(5) [OF t(2)]]
  have i: "i < length (inodes s)" "i_dev (inodes t ! i) = 1" using ok(3) ts(4) by (simp_all add: file_at_def)
  have tr: "length cs + 2 \<le> LOGSIZE" "1 \<le> log_outstanding t" using ts(2) ok(4,5) tf by simp_all
  have mb: "off mod BSIZE + length (take m src) \<le> BSIZE" by (simp add: m_def chunk_def BSIZE_def)
  obtain u bs' where u: "bindo (bread 1 w t) (\<lambda>bp s. bindo (log_write bp (upd_data bp (put_bytes (off mod BSIZE) (take m src)) s)) (\<lambda>_ s. brelse bp s)) = Ok () u"
    "fstep 1 p i cs t bs' u" "inodes u = inodes t" "fblock (content u) (addrs u i) = fblock (content t) (addrs t i)"
    "\<forall>l < MAXFILE * BSIZE. fdata (content u) (addrs u i) l =
       (if ?n * BSIZE + off mod BSIZE \<le> l \<and> l < ?n * BSIZE + off mod BSIZE + length (take m src)
        then take m src ! (l - (?n * BSIZE + off mod BSIZE)) else fdata (content t) (addrs t i) l)"
    by (rule write_block_ok [OF ts(1,3,4) tr bM t(4,3) mb])
  have step: "fstep 6 p i bs s bs' u" using fstep_trans [OF t(2) u(2) i(1)] by simp
  have "writei_loop i off src s = bindo (bindo (bread 1 w t) (\<lambda>bp s.
      bindo (log_write bp (upd_data bp (put_bytes (off mod BSIZE) (take m src)) s)) (\<lambda>_ s. brelse bp s)))
      (\<lambda>_ s. writei_loop i (off + m) (drop m src) s)"
    using n(1) t(1) i(2) by (subst writei_loop.simps) (simp add: Let_def bindo_assoc m_def)
  then have run: "writei_loop i off src s = writei_loop i (off + m) (drop m src) u" using u(1) by simp
  have same: "k div BSIZE = ?n" if "off \<le> k" "k < off + length (take m src)" for k
    using chunk_same_block(1) [of off k "length src"] that by (simp add: m_def)
  have ne: "off < off + length (take m src)" using n(1) chunk_pos [of "length src" off] by (simp add: m_def)
  have "spliced i off (take m src) s u" unfolding spliced_def
  proof (intro conjI allI impI)
    fix l assume "l < MAXFILE * BSIZE"
    then show "fdata (content u) (addrs u i) l =
      (if off \<le> l \<and> l < off + length (take m src) then take m src ! (l - off) else fdata (content s) (addrs s i) l)"
      using u(5) t(6) by simp
  next
    fix k assume "off \<le> k" "k < off + length (take m src)"
    then show "fblock (content u) (addrs u i) (k div BSIZE) \<noteq> 0" using same [of k] u(4) t(3,4) by simp
  next
    fix a assume "a < MAXFILE" "fblock (content s) (addrs s i) a \<noteq> 0"
    then show "fblock (content u) (addrs u i) a \<noteq> 0" using u(4) t(3,4,5) by (cases "a = ?n") simp_all
  next
    assume "\<forall>k. off \<le> k \<longrightarrow> k < off + length (take m src) \<longrightarrow> fblock (content s) (addrs s i) (k div BSIZE) \<noteq> 0"
    then show "addrs u i = addrs s i" using u(3) t(7) ne by auto
  qed
  then show thesis using that [of u bs'] run step by simp
qed

lemma writei_loop_ok:
  assumes "tx_ok p {} bs s" "fs_ok s" "file_at s i" "1 \<le> log_outstanding s" "off + length src \<le> MAXFILE * BSIZE"
    "length bs + 6 * nchunks off (length src) + 1 \<le> LOGSIZE" "6 * nchunks off (length src) \<le> card (free_blocks s)"
  shows "\<exists>t bs'. writei_loop i off src s = Ok (off + length src) t \<and>
    fstep (6 * nchunks off (length src)) p i bs s bs' t \<and> spliced i off src s t"
  using assms
proof (induction "length src" arbitrary: off src s bs rule: less_induct)
  case less
  note a = less.prems
  show ?case
  proof (cases "src = []")
    case True
    then show ?thesis using fstep_refl [OF a(1-3)] spliced_empty
      by (intro exI [of _ s] exI [of _ bs]) (simp add: writei_loop.simps)
  next
    case False
    define m where "m = chunk off (length src)"
    have m: "0 < m" "m \<le> length src" using chunk_pos [of "length src" off] chunk_le False by (auto simp: m_def)
    have nc: "nchunks (off + m) (length (drop m src)) + 1 \<le> nchunks off (length src)"
      using nchunks_step [of "length src" off] False by (simp add: m_def)
    have r: "length bs + 7 \<le> LOGSIZE" "2 \<le> card (free_blocks s)" using a(6,7) nc by linarith+
    obtain t cs where t: "writei_loop i off src s = writei_loop i (off + m) (drop m src) t" "fstep 6 p i bs s cs t"
      "spliced i off (take m src) s t"
      using writei_chunk [OF a(1-3) r(1) a(4) False a(5) r(2)] unfolding m_def [symmetric] by blast
    note ts = fstepD [OF t(2)] and tf = ino_frame_fields [OF fstepD(5) [OF t(2)]]
    have i: "i < length (inodes s)" using a(3) by (simp add: file_at_def)
    let ?N = "nchunks (off + m) (length (drop m src))"
    have "length (drop m src) < length src" using m by simp
    moreover have "1 \<le> log_outstanding t" "off + m + length (drop m src) \<le> MAXFILE * BSIZE" using a(4,5) tf m by simp_all
    moreover have "length cs + 6 * ?N + 1 \<le> LOGSIZE" "6 * ?N \<le> card (free_blocks t)"
      using a(6,7) nc ts(2,6) by linarith+
    ultimately have "\<exists>u bs'. writei_loop i (off + m) (drop m src) t = Ok (off + m + length (drop m src)) u \<and>
      fstep (6 * ?N) p i cs t bs' u \<and> spliced i (off + m) (drop m src) t u"
      by (intro less.hyps [OF _ ts(1,3,4)])
    then obtain u bs' where u: "writei_loop i (off + m) (drop m src) t = Ok (off + m + length (drop m src)) u"
      "fstep (6 * ?N) p i cs t bs' u" "spliced i (off + m) (drop m src) t u" by blast
    have "spliced i off (take m src @ drop m src) s u" by (rule spliced_append [OF t(3)]) (use u(3) m a(5) in simp_all)
    moreover have "fstep (6 * nchunks off (length src)) p i bs s bs' u"
      by (rule fstep_weaken [OF fstep_trans [OF t(2) u(2) i]]) (use nc in simp)
    ultimately show ?thesis using t(1) u(1) m by (intro exI [of _ u] exI [of _ bs']) simp
  qed
qed

section \<open>Files\<close>

definition file_bytes :: "'a kino_scheme \<Rightarrow> nat \<Rightarrow> byte list" where
  "file_bytes s i = map (fdata (content s) (addrs s i)) [0..<unat (i_size (inodes s ! i))]"

definition file_wf :: "'a kino_scheme \<Rightarrow> nat \<Rightarrow> bool" where
  "file_wf s i =
     (file_at s i \<and> i_type (inodes s ! i) \<noteq> T_DEV \<and> unat (i_size (inodes s ! i)) \<le> MAXFILE * BSIZE \<and>
      (\<forall>k < unat (i_size (inodes s ! i)). fblock (content s) (addrs s i) (k div BSIZE) \<noteq> 0))"

lemma file_wfD:
  assumes "file_wf s i"
  shows "file_at s i" "i_type (inodes s ! i) \<noteq> T_DEV" "unat (i_size (inodes s ! i)) \<le> MAXFILE * BSIZE"
    "k < unat (i_size (inodes s ! i)) \<Longrightarrow> fblock (content s) (addrs s i) (k div BSIZE) \<noteq> 0"
  using assms by (simp_all add: file_wf_def)

lemma file_piece:
  assumes "off + n \<le> unat (i_size (inodes s ! i))"
  shows "map (fdata (content s) (addrs s i)) [off..<off + n] = get_bytes off n (file_bytes s i)"
  using assms by (intro nth_equalityI) (simp_all add: file_bytes_def get_bytes_def)

lemma plus_no_wrap:
  fixes a b :: "32 word"
  assumes "\<not> a + b < a"
  shows "unat (a + b) = unat a + unat b"
proof -
  have "unat w < 2 ^ LENGTH(32)" for w :: "32 word" by (rule unsigned_less)
  then have "unat a < 4294967296" "unat b < 4294967296" by (simp_all del: unsigned_less)
  then show ?thesis using assms by (simp add: unat_plus_if' word_less_nat_alt split: if_splits)
qed

lemma sint_small:
  fixes w :: "32 word"
  assumes "unat w < 2147483648"
  shows "sint w = int (unat w)"
proof -
  have "int (unat w) < 2147483648" using assms by linarith
  then show ?thesis using sint_of_int [of "int (unat w)"] by simp
qed

lemma readi_ok:
  assumes ok: "tx_ok p {} bs s" "fs_ok s" "file_wf s i" "length bs < NBUF"
  shows "\<exists>t. readi i off n s =
    Ok (if off > i_size (inodes s ! i) \<or> off + n < off then (- 1, [])
        else (int (length (get_bytes (unat off) (unat n) (file_bytes s i))), get_bytes (unat off) (unat n) (file_bytes s i))) t \<and>
    tx_ok p {} bs t \<and> tx_frame s t \<and> content t = content s"
proof (cases "off > i_size (inodes s ! i) \<or> off + n < off")
  case True
  then show ?thesis using ok(1) file_wfD(2) [OF ok(3)] by (intro exI [of _ s]) (simp add: readi_def Let_def)
next
  case False
  let ?z = "unat (i_size (inodes s ! i))" and ?n = "if off + n > i_size (inodes s ! i) then i_size (inodes s ! i) - off else n"
  note w = file_wfD [OF ok(3)]
  have o: "unat off \<le> ?z" "unat (off + n) = unat off + unat n" "off \<le> i_size (inodes s ! i)"
    using False plus_no_wrap [of off n] by (simp_all add: word_le_nat_alt not_less)
  have n: "unat ?n = min (unat n) (?z - unat off)" using o by (auto simp: word_less_nat_alt unat_sub)
  have l: "unat off + unat ?n \<le> ?z" using n o(1) by simp
  have nz: "fblock (content s) (addrs s i) (k div BSIZE) \<noteq> 0" if "unat off \<le> k" "k < unat off + unat ?n" for k
    using w(4) [of k] that l by simp
  have "unat off + unat ?n \<le> MAXFILE * BSIZE" using l w(3) by simp
  from readi_loop_ok [OF ok(1,2) w(1) ok(4) this nz, of "[]"]
  obtain t where t: "readi_loop i (unat off) (unat ?n) [] s = Ok (map (fdata (content s) (addrs s i)) [unat off..<unat off + unat ?n]) t"
    "tx_ok p {} bs t" "tx_frame s t" "content t = content s" by auto
  have g: "get_bytes (unat off) (unat ?n) (file_bytes s i) = get_bytes (unat off) (unat n) (file_bytes s i)"
    using n o(1) by (simp add: get_bytes_def file_bytes_def min_def)
  have "unat ?n < 2147483648" using l w(3) by (simp add: MAXFILE_def NDIRECT_def NINDIRECT_def BSIZE_def)
  note sn = sint_small [OF this]
  have "readi i off n s = bindo (readi_loop i (unat off) (unat ?n) [] s) (\<lambda>dst s. Ok (sint ?n, dst) s)"
    using False w(2) by (simp add: readi_def Let_def)
  moreover have "length (get_bytes (unat off) (unat n) (file_bytes s i)) = unat ?n"
    using n o(1) by (simp add: get_bytes_def file_bytes_def min.commute)
  ultimately show ?thesis using t False g sn file_piece [OF l] by (intro exI [of _ t]) simp
qed

section \<open>Updating the inode\<close>

definition synced :: "'a kino_scheme \<Rightarrow> nat \<Rightarrow> bool" where
  "synced s i =
     (unat (i_inum (inodes s ! i)) < unat (sb_ninodes (sblk s)) \<and>
      get_dinode (ino_off (i_inum (inodes s ! i))) (content s (inode_block (sblk s) (unat (i_inum (inodes s ! i))))) =
        dinode_of (inodes s ! i))"

lemma inode_block_facts:
  assumes "fs_ok s" "unat inum < unat (sb_ninodes (sblk s))"
  shows "inode_block (sblk s) (unat inum) \<in> inode_area (sblk s)" "inode_block (sblk s) (unat inum) < disksize s"
    "inode_block (sblk s) (unat inum) \<notin> log_area s" "inode_block (sblk s) (unat inum) \<notin> bmap_area (sblk s)"
    "unat (IBLOCK inum (sblk s)) = inode_block (sblk s) (unat inum)" "inode_block (sblk s) (unat inum) \<notin> free_blocks s"
proof -
  let ?b = "inode_block (sblk s) (unat inum)"
  show a: "?b \<in> inode_area (sblk s)" using assms(2) by (auto simp: inode_area_def)
  then have m: "?b \<in> meta_area s" using bmap_area_meta(3) by blast
  show l: "?b < disksize s" using fs_okD(1) [OF assms(1)] fs_okD(3) [OF assms(1) m] by simp
  show "?b \<notin> log_area s" "?b \<notin> bmap_area (sblk s)" using fs_okD(7) [OF assms(1) a] by simp_all
  show "?b \<notin> free_blocks s" using free_blocksD(3) [OF assms(1)] m by blast
  have "unat (inum div of_nat IPB) = unat inum div IPB" by (simp add: unat_div IPB_def BSIZE_def)
  moreover have "unat (x + y) = unat x + unat y" if "unat x + unat y < 4294967296" for x y :: "32 word"
    using that unat_add_lem [of x y] by simp
  ultimately show "unat (IBLOCK inum (sblk s)) = ?b"
    using l fs_okD(2) [OF assms(1)] by (simp add: IBLOCK_def inode_block_def add.commute)
qed

lemma ino_off_fits: "ino_off inum + 64 \<le> BSIZE"
proof -
  have "unat inum mod IPB < 8" by (simp add: IPB_def BSIZE_def)
  then show ?thesis by (simp add: ino_off_def BSIZE_def)
qed

lemma iupdate_ok:
  assumes ok: "tx_ok p {} bs s" "fs_ok s" "file_at s i" "length bs + 2 \<le> LOGSIZE" "1 \<le> log_outstanding s"
    and n: "unat (i_inum (inodes s ! i)) < unat (sb_ninodes (sblk s))"
  defines "b \<equiv> inode_block (sblk s) (unat (i_inum (inodes s ! i)))"
  obtains t where "iupdate i s = Ok () t" "tx_ok p {} (add_block b bs) t" "tx_frame s t" "fs_ok t" "file_at t i" "synced t i" "free_blocks t = free_blocks s"
    "\<forall>x. x \<noteq> b \<longrightarrow> content t x = content s x" "fblock (content t) (addrs t i) = fblock (content s) (addrs s i)"
    "\<forall>l < MAXFILE * BSIZE. fdata (content t) (addrs t i) l = fdata (content s) (addrs s i) l"
proof -
  let ?ip = "inodes s ! i"
  let ?f = "put_dinode (ino_off (i_inum ?ip)) (dinode_of ?ip)"
  note g = inode_block_facts [OF ok(2) n, folded b_def]
  have i: "i < length (inodes s)" "i_dev ?ip = 1" and fo: "file_ok (dblocks s) (content s) (addrs s i)"
    using ok(3) by (simp_all add: file_at_def)
  have h: "b \<notin> held {} s" "length bs + card {} + 2 \<le> LOGSIZE" using ok(4) by simp_all
  obtain t where t: "bindo (bread 1 (IBLOCK (i_inum ?ip) (sblk s)) s) (\<lambda>bp s. bindo (log_write bp (upd_data bp ?f s)) (\<lambda>_ s. brelse bp s)) = Ok () t"
    "tx_ok p {} (add_block b bs) t" "content t = (content s)(b := ?f (content s b))" "tx_frame s t"
    "\<forall>j \<in> {}. bufs t ! j = bufs s ! j" "held {} t = held {} s"
    by (rule tx_logged [OF ok(1) g(2,5) h(1) g(3) h(2) finite.emptyI ok(5)])
  note f = tx_frame_kino [OF t(4)] tx_frame_fields [OF t(4)]
  have r: "length bs + card {} < NBUF" using ok(4) by (simp add: LOGSIZE_def MAXOPBLOCKS_def NBUF_def)
  obtain q u where u: "bread 1 (IBLOCK (i_inum ?ip) (sblk s)) s = Ok q u" "inodes u = inodes s"
    using tx_bread [OF ok(1) g(2,5) h(1) r] tx_frame_kino(1) by (metis (no_types, lifting))
  have "iupdate i s = Ok () t" using t(1) u i(2) by (simp add: iupdate_def Let_def)
  moreover have da: "length (i_addrs ?ip) = NDIRECT + 1" using file_okD(1) [OF fo] .
  have lb: "length (content s b) = BSIZE" by (rule fs_okD(5) [OF ok(2) g(2)])
  have sb: "length (bytes_dinode (dinode_of ?ip)) = 64" using length_bytes_dinode [of "dinode_of ?ip"] da by (simp add: dinode_of_def)
  then have lf: "length (?f (content s b)) = BSIZE" using lb ino_off_fits [of "i_inum ?ip"] by (simp add: put_dinode_def)
  have m: "meta_area t = meta_area s" using f by (simp add: meta_area_def)
  have us: "used (content t) (sblk t) x = used (content s) (sblk s) x" if "x < unat (sb_size (sblk s))" for x
    using bmap_area_meta(1) [OF that] g(4) f t(3) by (auto simp: used_def)
  have fs: "fs_ok t" using ok(2) t(3) f m us fs_okD(3) [OF ok(2)] lf unfolding fs_ok_def by auto
  have db: "dblocks t = dblocks s" and fe: "free_blocks t = free_blocks s"
    using f m us by (auto simp: dblocks_def free_blocks_def)
  have same: "content t x = content s x" if "x \<in> owned (content s) (addrs s i)" for x
    using that owned_dblocks [OF ok(3)] dblocks_areas(3) g(1) t(3) by auto
  have fa: "file_at t i" using file_other(1) [OF fo same subset_refl] i f db by (simp add: file_at_def)
  have "get_dinode (ino_off (i_inum ?ip)) (?f (content s b)) = dinode_of ?ip"
    by (rule get_put_dinode) (use da lb ino_off_fits [of "i_inum ?ip"] in \<open>simp_all add: dinode_of_def\<close>)
  then have "synced t i" using f n t(3) by (simp add: synced_def b_def)
  ultimately show thesis
    using that [of t] t(2-4) fs fa fe f fblock_other(1) [where c' = "content t" and c = "content s" and as = "addrs s i", OF same]
      file_other(2) [where c' = "content t", OF fo same subset_refl] by simp
qed

section \<open>Writing a file\<close>

lemma spliced_bytes:
  assumes "spliced i off xs s t" "off \<le> z" "z \<le> MAXFILE * BSIZE" "off + length xs \<le> MAXFILE * BSIZE"
  shows "map (fdata (content t) (addrs t i)) [0..<max z (off + length xs)] =
    put_bytes off xs (map (fdata (content s) (addrs s i)) [0..<z])"
proof (rule nth_equalityI)
  show "length (map (fdata (content t) (addrs t i)) [0..<max z (off + length xs)]) =
    length (put_bytes off xs (map (fdata (content s) (addrs s i)) [0..<z]))"
    using assms(2) by (simp add: put_bytes_def)
  fix k assume "k < length (map (fdata (content t) (addrs t i)) [0..<max z (off + length xs)])"
  then have k: "k < max z (off + length xs)" by simp
  then have "k < MAXFILE * BSIZE" using assms(3,4) by linarith
  then have "fdata (content t) (addrs t i) k =
    (if off \<le> k \<and> k < off + length xs then xs ! (k - off) else fdata (content s) (addrs s i) k)"
    using assms(1) by (simp add: spliced_def)
  moreover have "k - off - length xs + (off + length xs) = k" if "\<not> k < off + length xs" using that by simp
  ultimately show "map (fdata (content t) (addrs t i)) [0..<max z (off + length xs)] ! k =
    put_bytes off xs (map (fdata (content s) (addrs s i)) [0..<z]) ! k"
    using k assms(2) by (auto simp: put_bytes_def nth_append min_def)
qed

definition write_frame :: "nat \<Rightarrow> 'a kino_scheme \<Rightarrow> 'a kino_scheme \<Rightarrow> bool" where
  "write_frame i s t =
     (disk t = disk s \<and> dwrites t = dwrites s \<and> disksize t = disksize s \<and> log_start t = log_start s \<and> log_size t = log_size s \<and>
      log_outstanding t = log_outstanding s \<and> log_committing t = log_committing s \<and> sblk t = sblk s \<and>
      length (inodes t) = length (inodes s) \<and> (\<forall>j. j \<noteq> i \<longrightarrow> inodes t ! j = inodes s ! j) \<and>
      i_inum (inodes t ! i) = i_inum (inodes s ! i) \<and> meta_area t = meta_area s \<and> free_blocks t \<subseteq> free_blocks s \<and>
      (\<forall>x. x \<notin> bmap_area (sblk s) \<longrightarrow> x \<notin> free_blocks s \<longrightarrow> x \<notin> owned (content s) (addrs s i) \<longrightarrow>
         x \<noteq> inode_block (sblk s) (unat (i_inum (inodes s ! i))) \<longrightarrow> content t x = content s x))"

lemma fstep_write_frame:
  assumes "fstep k p i bs s bs' t" "i < length (inodes s)"
  shows "write_frame i s t" "inodes t ! i = (inodes s ! i)\<lparr>i_addrs := addrs t i\<rparr>"
proof -
  note f = ino_frame_fields [OF fstepD(5) [OF assms(1)]]
  have e: "inodes t ! j = ((inodes s)[i := (inodes s ! i)\<lparr>i_addrs := addrs t i\<rparr>]) ! j" for j
    using arg_cong [OF f(1), of "\<lambda>xs. xs ! j"] .
  show i: "inodes t ! i = (inodes s ! i)\<lparr>i_addrs := addrs t i\<rparr>"
    using e [of i] assms(2) by (simp only: nth_list_update_eq)
  have l: "length (inodes t) = length (inodes s)" using arg_cong [OF f(1), of length] by (simp only: length_list_update)
  have o: "inodes t ! j = inodes s ! j" if "j \<noteq> i" for j using e [of j] that by (simp only: nth_list_update_neq)
  have "i_inum (inodes t ! i) = i_inum (inodes s ! i)" using arg_cong [OF i, of i_inum] by simp
  moreover have "meta_area t = meta_area s" using f(2,10) by (simp add: meta_area_def)
  ultimately show "write_frame i s t" using f(2-) l o assms(1) unfolding write_frame_def fstep_def by blast
qed

lemma writei_ok:
  assumes ok: "tx_ok p {} bs s" "fs_ok s" "file_wf s i" "synced s i" "1 \<le> log_outstanding s"
    and off: "off \<le> i_size (inodes s ! i)" "unat off + length src \<le> MAXFILE * BSIZE"
    and room: "length bs + 6 * nchunks (unat off) (length src) + 2 \<le> LOGSIZE" "6 * nchunks (unat off) (length src) \<le> card (free_blocks s)"
  shows "\<exists>t bs'. writei i src off s = Ok (int (length src)) t \<and> tx_ok p {} bs' t \<and> length bs' + 1 \<le> LOGSIZE \<and> fs_ok t \<and> file_wf t i \<and>
    synced t i \<and> file_bytes t i = put_bytes (unat off) src (file_bytes s i) \<and> write_frame i s t"
proof -
  let ?z = "unat (i_size (inodes s ! i))" and ?e = "unat off + length src" and ?n = "of_nat (length src) :: 32 word"
  note w = file_wfD [OF ok(3)]
  have i: "i < length (inodes s)" using w(1) by (simp add: file_at_def)
  have big: "MAXFILE * BSIZE < 2147483648" by (simp add: MAXFILE_def NDIRECT_def NINDIRECT_def BSIZE_def)
  have n: "unat ?n = length src" using off(2) big by (intro unat_of_nat32) linarith
  have sn: "sint ?n = int (length src)" using sint_small [of ?n] n off(2) big by linarith
  have on: "unat (off + ?n) = ?e" using unat_add_lem [of off ?n] n off(2) big by simp
  have oz: "unat off \<le> ?z" using off(1) by (simp add: word_le_nat_alt)
  have mx: "unat (of_nat (MAXFILE * BSIZE) :: 32 word) = MAXFILE * BSIZE" using big by (intro unat_of_nat32) linarith
  have c: "\<not> off > i_size (inodes s ! i)" "\<not> off + ?n < off" "\<not> off + ?n > of_nat (MAXFILE * BSIZE)"
    using off on mx by (simp_all add: word_less_nat_alt word_le_nat_alt not_less)
  have r1: "length bs + 6 * nchunks (unat off) (length src) + 1 \<le> LOGSIZE" using room(1) by simp
  obtain u cs where u: "writei_loop i (unat off) src s = Ok ?e u" "fstep (6 * nchunks (unat off) (length src)) p i bs s cs u"
    "spliced i (unat off) src s u" using writei_loop_ok [OF ok(1,2) w(1) ok(5) off(2) r1 room(2)] by blast
  note us = fstepD [OF u(2)] and wf = fstep_write_frame [OF u(2) i]
  have lc: "length cs + 2 \<le> LOGSIZE" using us(2) room(1) by linarith
  have iu: "i < length (inodes u)" "i_size (inodes u ! i) = i_size (inodes s ! i)" "i_type (inodes u ! i) = i_type (inodes s ! i)"
    "i_inum (inodes u ! i) = i_inum (inodes s ! i)"
    using i wf(1) arg_cong [OF wf(2), of i_size] arg_cong [OF wf(2), of i_type] unfolding write_frame_def by simp_all
  have run: "writei i src off s = (if ?n > 0 \<and> ?e > ?z then
      bindo (iupdate i (upd_inode i (\<lambda>ip. ip\<lparr>i_size := of_nat ?e\<rparr>) u)) (\<lambda>_ s. Ok (int (length src)) s) else Ok (int (length src)) u)"
    using c w(2) u(1) iu(2) sn unfolding writei_def Let_def by simp
  have blk: "fblock (content u) (addrs u i) (k div BSIZE) \<noteq> 0" if "k < max ?z ?e" for k
  proof (cases "unat off \<le> k \<and> k < ?e")
    case True
    then show ?thesis using u(3) by (simp add: spliced_def)
  next
    case False
    then have "k < ?z" using that oz by auto
    then show ?thesis using w(3,4) u(3) div_MAXFILE [of k] by (simp add: spliced_def)
  qed
  have fb: "map (fdata (content u) (addrs u i)) [0..<max ?z ?e] = put_bytes (unat off) src (file_bytes s i)"
    unfolding file_bytes_def by (rule spliced_bytes [OF u(3) oz w(3) off(2)])
  show ?thesis
  proof (cases "?n > 0 \<and> ?e > ?z")
    case False
    have "?n > 0 \<longleftrightarrow> src \<noteq> []" using n by (simp add: word_less_nat_alt)
    then have ez: "?e \<le> ?z" using False oz by auto
    have ad: "addrs u i = addrs s i"
    proof -
      have "\<forall>k. unat off \<le> k \<longrightarrow> k < ?e \<longrightarrow> fblock (content s) (addrs s i) (k div BSIZE) \<noteq> 0" using w(4) ez by simp
      then show ?thesis using u(3) unfolding spliced_def by blast
    qed
    have ie: "inodes u ! i = inodes s ! i" using wf(2) ad by simp
    have sb: "sblk u = sblk s" using wf(1) by (simp add: write_frame_def)
    have ni: "unat (i_inum (inodes s ! i)) < unat (sb_ninodes (sblk s))" using ok(4) by (simp add: synced_def)
    note ib = inode_block_facts [OF ok(2) ni]
    have "inode_block (sblk s) (unat (i_inum (inodes s ! i))) \<notin> owned (content s) (addrs s i)"
      using owned_dblocks [OF w(1)] dblocks_areas(3) ib(1) by blast
    then have "content u (inode_block (sblk s) (unat (i_inum (inodes s ! i)))) = content s (inode_block (sblk s) (unat (i_inum (inodes s ! i))))"
      using u(2) ib(4,6) by (simp add: fstep_def)
    then have "synced u i" using ok(4) ie sb by (simp add: synced_def)
    moreover have "file_wf u i" using us(4) w(2,3) blk ez iu by (auto simp: file_wf_def)
    moreover have "file_bytes u i = put_bytes (unat off) src (file_bytes s i)" using fb ez iu(2) by (simp add: file_bytes_def)
    ultimately show ?thesis using run False us(1,3) lc wf(1) by (intro exI [of _ u] exI [of _ cs]) simp
  next
    case True
    let ?v = "upd_inode i (\<lambda>ip. ip\<lparr>i_size := of_nat ?e\<rparr>) u"
    have ue: "unat (of_nat ?e :: 32 word) = ?e" using off(2) big by (intro unat_of_nat32) linarith
    have v: "inodes ?v ! i = (inodes u ! i)\<lparr>i_size := of_nat ?e\<rparr>" "content ?v = content u" "sblk ?v = sblk u"
      "length (inodes ?v) = length (inodes u)" "\<And>j. j \<noteq> i \<Longrightarrow> inodes ?v ! j = inodes u ! j" "tx_ok p {} cs ?v" "fs_ok ?v"
      "dblocks ?v = dblocks u" "log_outstanding ?v = log_outstanding u"
      using iu(1) us(1,3) by (simp_all add: upd_inode_def dblocks_def)
    have vf: "file_at ?v i" "1 \<le> log_outstanding ?v" "unat (i_inum (inodes ?v ! i)) < unat (sb_ninodes (sblk ?v))"
      using us(4) v wf(1) ok(4,5) iu(4) by (simp_all add: file_at_def write_frame_def synced_def)
    let ?b = "inode_block (sblk ?v) (unat (i_inum (inodes ?v ! i)))"
    obtain t where t: "iupdate i ?v = Ok () t" "tx_ok p {} (add_block ?b cs) t" "tx_frame ?v t" "fs_ok t" "file_at t i" "synced t i"
      "free_blocks t = free_blocks ?v" "\<forall>x. x \<noteq> ?b \<longrightarrow> content t x = content ?v x" "fblock (content t) (addrs t i) = fblock (content ?v) (addrs ?v i)"
      "\<forall>l < MAXFILE * BSIZE. fdata (content t) (addrs t i) l = fdata (content ?v) (addrs ?v i) l"
      by (rule iupdate_ok [OF v(6,7) vf(1) lc vf(2,3)])
    note ft = tx_frame_kino [OF t(3)] tx_frame_fields [OF t(3)]
    have it: "inodes t ! i = (inodes u ! i)\<lparr>i_size := of_nat ?e\<rparr>" using ft(1) v(1) by simp
    have al: "length (add_block ?b cs) + 1 \<le> LOGSIZE" using add_block_props(3) [of ?b cs] lc by linarith
    have mxe: "max ?z ?e = ?e" using True by simp
    have "file_wf t i" using t(5) it w(2) iu(3) ue off(2) blk t(9) v(1,2) mxe by (simp add: file_wf_def)
    moreover have "file_bytes t i = put_bytes (unat off) src (file_bytes s i)"
    proof -
      have "file_bytes t i = map (fdata (content u) (addrs u i)) [0..<?e]"
        using t(10) it ue v(1,2) off(2) by (simp add: file_bytes_def)
      then show ?thesis using fb mxe by simp
    qed
    moreover have "meta_area t = meta_area u" using ft by (simp add: meta_area_def upd_inode_def)
    then have "write_frame i s t"
      using wf(1) ft v it iu(4) t(7,8) by (simp add: write_frame_def upd_inode_def)
    ultimately show ?thesis using run True t al by (intro exI [of _ t] exI [of _ "add_block ?b cs"]) simp
  qed
qed

text \<open>The other files.\<close>

lemma write_other_file:
  assumes wf: "write_frame i s t" and j: "file_wf s j" "j \<noteq> i" and i: "file_at s i" "synced s i" "fs_ok s"
    and d: "owned (content s) (addrs s j) \<inter> owned (content s) (addrs s i) = {}"
  shows "file_wf t j" "file_bytes t j = file_bytes s j"
proof -
  note w = file_wfD [OF j(1)]
  have fo: "file_ok (dblocks s) (content s) (addrs s j)" using w(1) by (simp add: file_at_def)
  have ni: "unat (i_inum (inodes s ! i)) < unat (sb_ninodes (sblk s))" using i(2) by (simp add: synced_def)
  note ib = inode_block_facts(1) [OF i(3) ni]
  have same: "content t x = content s x" if "x \<in> owned (content s) (addrs s j)" for x
  proof -
    have "x \<in> dblocks s" using that owned_dblocks [OF w(1)] by blast
    then have "x \<notin> bmap_area (sblk s)" "x \<notin> free_blocks s" "x \<noteq> inode_block (sblk s) (unat (i_inum (inodes s ! i)))"
      using dblocks_areas(1,2,3) ib by blast+
    then show ?thesis using wf that d unfolding write_frame_def by blast
  qed
  have ij: "inodes t ! j = inodes s ! j" "length (inodes t) = length (inodes s)" "sblk t = sblk s" "meta_area t = meta_area s"
    "free_blocks t \<subseteq> free_blocks s" using wf j(2) unfolding write_frame_def by blast+
  have "dblocks s \<subseteq> dblocks t" using ij by (auto simp: dblocks_def free_blocks_def)
  note f = file_other [where c' = "content t", OF fo same this]
  have fb: "fblock (content t) (addrs s j) = fblock (content s) (addrs s j)"
    by (rule fblock_other(1)) (rule same)
  show "file_wf t j" using f(1) w ij fb by (simp add: file_wf_def file_at_def)
  show "file_bytes t j = file_bytes s j" using f(2) w(3) ij by (simp add: file_bytes_def)
qed

text \<open>C16: \<^verbatim>\<open>readi\<close> returns the bytes of the file from \<^verbatim>\<open>off\<close> on, at most \<^verbatim>\<open>n\<close> of them and not beyond the end, whether
  their blocks are direct or indirect; it returns -1 exactly for an offset behind the end or a range that
  wraps around, and changes the content of no block.\<close>

theorem readi_reads_file:
  assumes ok: "tx_ok p {} bs s" "fs_ok s" "file_wf s i" "length bs < NBUF"
  shows "\<exists>t. readi i off n s =
    Ok (if off > i_size (inodes s ! i) \<or> off + n < off then (- 1, [])
        else (int (length (get_bytes (unat off) (unat n) (file_bytes s i))), get_bytes (unat off) (unat n) (file_bytes s i))) t \<and>
    tx_ok p {} bs t \<and> tx_frame s t \<and> content t = content s"
  by (rule readi_ok [OF assms])

text \<open>C15: In a transaction \<^verbatim>\<open>writei\<close> replaces the bytes of the file from \<^verbatim>\<open>off\<close> on by the given ones, extending the file
  and allocating direct and indirect blocks where needed; reading the range back gives the bytes that were
  written, and every file with other blocks keeps its content.\<close>

theorem writei_updates_file:
  assumes ok: "tx_ok p {} bs s" "fs_ok s" "file_wf s i" "synced s i" "1 \<le> log_outstanding s"
    and off: "off \<le> i_size (inodes s ! i)" "unat off + length src \<le> MAXFILE * BSIZE"
    and room: "length bs + 6 * nchunks (unat off) (length src) + 2 \<le> LOGSIZE" "6 * nchunks (unat off) (length src) \<le> card (free_blocks s)"
  shows "\<exists>t. writei i src off s = Ok (int (length src)) t \<and> fs_ok t \<and> file_wf t i \<and> synced t i \<and>
    file_bytes t i = put_bytes (unat off) src (file_bytes s i) \<and>
    (\<exists>u. readi i off (of_nat (length src)) t = Ok (int (length src), src) u \<and> content u = content t) \<and>
    (\<forall>j. j \<noteq> i \<longrightarrow> file_wf s j \<longrightarrow> owned (content s) (addrs s j) \<inter> owned (content s) (addrs s i) = {} \<longrightarrow>
       file_wf t j \<and> file_bytes t j = file_bytes s j)"
proof -
  obtain t bs' where t: "writei i src off s = Ok (int (length src)) t" "tx_ok p {} bs' t" "length bs' + 1 \<le> LOGSIZE" "fs_ok t"
    "file_wf t i" "synced t i" "file_bytes t i = put_bytes (unat off) src (file_bytes s i)" "write_frame i s t"
    using writei_ok [OF assms] by blast
  let ?n = "of_nat (length src) :: 32 word"
  have big: "MAXFILE * BSIZE < 4294967296" by (simp add: MAXFILE_def NDIRECT_def NINDIRECT_def BSIZE_def)
  have n: "unat ?n = length src" using off(2) big by (intro unat_of_nat32) linarith
  have on: "unat (off + ?n) = unat off + length src" using unat_add_lem [of off ?n] n off(2) big by simp
  have oz: "unat off \<le> length (file_bytes s i)" using off(1) by (simp add: word_le_nat_alt file_bytes_def)
  then have "unat off \<le> length (file_bytes t i)" using t(7) by (simp add: put_bytes_def)
  then have "\<not> (off > i_size (inodes t ! i) \<or> off + ?n < off)" using on by (simp add: word_less_nat_alt file_bytes_def)
  moreover have "get_bytes (unat off) (length src) (file_bytes t i) = src"
    using t(7) oz by (simp add: get_bytes_def put_bytes_def)
  moreover have "length bs' < NBUF" using t(3) by (simp add: LOGSIZE_def MAXOPBLOCKS_def NBUF_def)
  ultimately have "\<exists>u. readi i off ?n t = Ok (int (length src), src) u \<and> content u = content t"
    using readi_ok [OF t(2,4,5), of off ?n] n by auto
  then show ?thesis
    using t write_other_file [OF t(8) _ _ file_wfD(1) [OF ok(3)] ok(4,2)] by (intro exI [of _ t]) blast
qed

section \<open>A write against crashes\<close>

definition disk_file :: "(nat \<Rightarrow> block) \<Rightarrow> superblock \<Rightarrow> 32 word \<Rightarrow> byte list" where
  "disk_file d sb inum =
     (let di = get_dinode (ino_off inum) (d (inode_block sb (unat inum)))
      in map (fdata d (d_addrs di)) [0..<unat (d_size di)])"

definition write_op :: "nat \<Rightarrow> byte list \<Rightarrow> 32 word \<Rightarrow> 'a kcons_scheme \<Rightarrow> (int, 'a kcons_scheme) outcome" where
  "write_op i src off s =
     bindo (begin_op s) (\<lambda>_ s.
     bindo (writei i src off s) (\<lambda>r s.
     bindo (end_op s) (\<lambda>_ s. Ok r s)))"

lemma disk_file_synced:
  assumes "fs_ok s" "file_wf s i" "synced s i" "\<And>b. b \<notin> log_area s \<Longrightarrow> d b = content s b"
  shows "disk_file d (sblk s) (i_inum (inodes s ! i)) = file_bytes s i"
proof -
  let ?b = "inode_block (sblk s) (unat (i_inum (inodes s ! i)))"
  note w = file_wfD [OF assms(2)]
  have ni: "unat (i_inum (inodes s ! i)) < unat (sb_ninodes (sblk s))" using assms(3) by (simp add: synced_def)
  have "d ?b = content s ?b" by (rule assms(4) [OF inode_block_facts(3) [OF assms(1) ni]])
  then have di: "get_dinode (ino_off (i_inum (inodes s ! i))) (d ?b) = dinode_of (inodes s ! i)"
    using assms(3) by (simp add: synced_def)
  have fo: "file_ok (dblocks s) (content s) (addrs s i)" using w(1) by (simp add: file_at_def)
  have same: "d x = content s x" if "x \<in> owned (content s) (addrs s i)" for x
    using assms(4) dblocks_areas(4) owned_dblocks [OF w(1)] that by blast
  show ?thesis using di file_other(2) [where c' = d, OF fo same subset_refl] w(3)
    by (simp add: disk_file_def file_bytes_def dinode_of_def)
qed

lemma kcons_outstanding [simp]:
  "tx_ok p H bs (s\<lparr>log_outstanding := v\<rparr>) = tx_ok p H bs s" "fs_ok (s'\<lparr>log_outstanding := v\<rparr>) = fs_ok s'"
  "free_blocks (s'\<lparr>log_outstanding := v\<rparr>) = free_blocks s'" "file_wf (s'\<lparr>log_outstanding := v\<rparr>) i = file_wf s' i"
  "synced (s'\<lparr>log_outstanding := v\<rparr>) i = synced s' i" "file_bytes (s'\<lparr>log_outstanding := v\<rparr>) i = file_bytes s' i"
  by (simp_all add: tx_ok_def fs_ok_def free_blocks_def file_wf_def file_at_def dblocks_def meta_area_def synced_def file_bytes_def)

lemma nchunks_bound: "n \<le> 1536 \<Longrightarrow> nchunks off n \<le> 4"
proof -
  assume "n \<le> 1536"
  moreover have "off mod BSIZE < 512" by (simp add: BSIZE_def)
  ultimately have "off mod BSIZE + n + BSIZE - 1 \<le> 2558" by (simp add: BSIZE_def)
  then have "(off mod BSIZE + n + BSIZE - 1) div BSIZE \<le> 2558 div BSIZE" by (rule div_le_mono)
  then show ?thesis by (simp add: nchunks_def BSIZE_def)
qed

text \<open>C3: Writing to a file is atomic with respect to crashes.  \<^verbatim>\<open>begin_op\<close>, \<^verbatim>\<open>writei\<close> of at most the 1536 bytes that
  \<^verbatim>\<open>filewrite\<close> writes at once, and \<^verbatim>\<open>end_op\<close> return with the file on the disk changed as asked; and if the machine
  stops after any number of the block writes, recovery returns and the file on the disk has either its old
  content or the new one.\<close>

theorem file_write_atomic:
  assumes ok: "tx_ok p {} [] s" "fs_ok s" "file_wf s i" "synced s i" and idle: "log_outstanding s = 0" "\<not> log_committing s" "log_empty s"
    and off: "off \<le> i_size (inodes s ! i)" "unat off + length src \<le> MAXFILE * BSIZE" and len: "length src \<le> 1536"
    and free: "24 \<le> card (free_blocks s)"
  shows "\<exists>t W. write_op i src off s = Ok (int (length src)) t \<and> log_empty t \<and>
    disk t = write_all W (disk s) \<and> dwrites t = dwrites s @ W \<and>
    disk_file (disk t) (sblk s) (i_inum (inodes s ! i)) = put_bytes (unat off) src (file_bytes s i) \<and>
    (\<forall>k q (r :: 'b klog_scheme). reboots q s (write_all (take k W) (disk s)) r \<longrightarrow>
       (\<exists>u. recover_from_log r = Ok () u \<and>
          (disk_file (disk u) (sblk s) (i_inum (inodes s ! i)) = file_bytes s i \<or>
           disk_file (disk u) (sblk s) (i_inum (inodes s ! i)) = put_bytes (unat off) src (file_bytes s i))))"
proof -
  note o = tx_okD [OF ok(1)]
  let ?s = "s\<lparr>log_outstanding := 1\<rparr>" and ?n = "i_inum (inodes s ! i)"
  have b: "begin_op s = Ok () ?s"
    using begin_op_ok [OF bcache_okD(1) [OF o(1)]] idle o(8) by (simp add: log_full_def MAXOPBLOCKS_def LOGSIZE_def)
  note nc = nchunks_bound [OF len, of "unat off"]
  have r: "length ([] :: nat list) + 6 * nchunks (unat off) (length src) + 2 \<le> LOGSIZE" "6 * nchunks (unat off) (length src) \<le> card (free_blocks ?s)"
    using nc free by (simp_all add: LOGSIZE_def MAXOPBLOCKS_def)
  have s1: "tx_ok p {} [] ?s" "fs_ok ?s" "file_wf ?s i" "synced ?s i" "1 \<le> log_outstanding ?s" "off \<le> i_size (inodes ?s ! i)"
    using ok off(1) by simp_all
  obtain t bs where t: "writei i src off ?s = Ok (int (length src)) t" "tx_ok p {} bs t" "length bs + 1 \<le> LOGSIZE" "fs_ok t"
    "file_wf t i" "synced t i" "file_bytes t i = put_bytes (unat off) src (file_bytes ?s i)" "write_frame i ?s t"
    using writei_ok [OF s1 off(2) r] by blast
  have f: "disk t = disk s" "dwrites t = dwrites s" "disksize t = disksize s" "log_start t = log_start s" "log_size t = log_size s"
    "log_outstanding t = 1" "\<not> log_committing t" "sblk t = sblk s" "i_inum (inodes t ! i) = ?n" "log_area t = log_area s"
    using t(8) idle by (simp_all add: write_frame_def log_area_def)
  have e: "log_empty t" using idle(3) f by (simp add: log_empty_def)
  have rb: "reboots q t = reboots q s" for q :: nat using f by (simp add: reboots_def fun_eq_iff)
  note lo = tx_log_ok [OF t(2,3)] tx_okD(11,12) [OF t(2)]
  from end_op_atomic [OF lo f(6,7) e, where 'b = 'b] obtain u W where u: "end_op t = Ok () u" "log_empty u"
    "disk u = write_all W (disk s)" "dwrites u = dwrites s @ W" "\<forall>b. b \<notin> log_area s \<longrightarrow> disk u b = content t b"
    "\<forall>k q (r :: 'b klog_scheme). reboots q s (write_all (take k W) (disk s)) r \<longrightarrow>
       (\<exists>v. recover_from_log r = Ok () v \<and>
          ((\<forall>b. b \<notin> log_area s \<longrightarrow> disk v b = disk s b) \<or> (\<forall>b. b \<notin> log_area s \<longrightarrow> disk v b = content t b)))"
    unfolding f(1,2,10) rb by blast
  have cs: "content s = disk s" using content_clean [OF o(1)] o(12) by auto
  have old: "disk_file d (sblk s) ?n = file_bytes s i" if "\<And>b. b \<notin> log_area s \<Longrightarrow> d b = disk s b" for d
    by (rule disk_file_synced [OF ok(2-4)]) (use that cs in simp)
  have new: "disk_file d (sblk s) ?n = put_bytes (unat off) src (file_bytes s i)"
    if "\<And>b. b \<notin> log_area s \<Longrightarrow> d b = content t b" for d
    using disk_file_synced [OF t(4-6), of d] that f(8-10) t(7) by simp
  have "\<exists>v. recover_from_log r = Ok () v \<and>
    (disk_file (disk v) (sblk s) ?n = file_bytes s i \<or> disk_file (disk v) (sblk s) ?n = put_bytes (unat off) src (file_bytes s i))"
    if "reboots q s (write_all (take k W) (disk s)) r" for k q and r :: "'b klog_scheme"
    using u(6) that old new by blast
  moreover have "write_op i src off s = Ok (int (length src)) u" using b t(1) u(1) by (simp add: write_op_def)
  ultimately show ?thesis using u(2-5) new by (intro exI [of _ u] exI [of _ W]) blast
qed

section \<open>Witnesses\<close>

definition demo_files :: kcons where
  "demo_files = demo_fs \<lparr>in_buf = [], in_r = 0, in_w = 0, in_e = 0, devsw = (\<lambda>_. None)\<rparr>"

lemma demo_file_wf: "file_wf (demo_fs m) 0" "synced (demo_fs m) 0" "file_bytes (demo_fs m) 0 = [97, 98, 99]"
proof -
  let ?as = "59 # replicate 12 0 :: 32 word list"
  have nd: "?as ! n = (if n = 0 then 59 else 0)" if "n < 13" for n using that by (simp add: nth_Cons')
  have b: "fblock demo_disk ?as n = (if n = 0 then 59 else 0)" for n
    using nd [of n] nd [of 12] by (auto simp: fblock_def NDIRECT_def)
  have d59: "59 \<in> dblocks (demo_fs m)"
  proof -
    have "59 \<notin> meta_area (demo_fs m)" using demo_areas(3) by (auto simp: meta_area_def demo_areas(1,2))
    moreover have "unat (sb_size demo_sb) = 1000" by (simp add: demo_sb_def)
    ultimately show ?thesis by (simp add: dblocks_def demo_fs_cache demo_used)
  qed
  have "owned demo_disk ?as \<subseteq> {59}" using nd [of 12] by (auto simp: owned_def b NDIRECT_def split: if_splits)
  then have "file_ok (dblocks (demo_fs m)) demo_disk ?as"
    using d59 nd [of 12] by (auto simp: file_ok_def b NDIRECT_def split: if_splits)
  then have fa: "file_at (demo_fs m) 0" by (simp add: file_at_def demo_fs_cache) (simp add: demo_inode_def)
  show "file_wf (demo_fs m) 0"
    using fa by (simp add: file_wf_def demo_fs_cache)
      (simp add: demo_inode_def b T_DEV_def MAXFILE_def NDIRECT_def NINDIRECT_def BSIZE_def)
  have off: "ino_off 1 = 64" by (simp add: ino_off_def IPB_def BSIZE_def)
  have "get_dinode 64 (put_dinode 64 (dinode_of demo_inode) (replicate 512 0)) = dinode_of demo_inode"
    by (rule get_put_dinode) (simp_all add: dinode_of_def demo_inode_def NDIRECT_def)
  then show "synced (demo_fs m) 0"
    by (simp add: synced_def demo_fs_cache)
      (simp add: demo_inode_def off inode_block_def demo_sb_def IPB_def BSIZE_def demo_disk_def)
  have "[0..<3] = [0, 1, 2 :: nat]" by (simp add: upt_rec)
  moreover have "fdata demo_disk ?as 0 = 97" "fdata demo_disk ?as 1 = 98" "fdata demo_disk ?as 2 = 99"
  proof -
    have "demo_disk 59 = [97, 98, 99] @ replicate 509 0" by (simp add: demo_disk_def)
    then show "fdata demo_disk ?as 0 = 97" "fdata demo_disk ?as 1 = 98" "fdata demo_disk ?as 2 = 99"
      by (simp_all add: fdata_def b BSIZE_def Let_def)
  qed
  ultimately show "file_bytes (demo_fs m) 0 = [97, 98, 99]"
    by (simp add: file_bytes_def demo_fs_cache) (simp add: demo_inode_def)
qed

lemma demo_files_ok:
  "tx_ok 0 {} [] demo_files" "fs_ok demo_files" "file_wf demo_files 0" "synced demo_files 0" "file_bytes demo_files 0 = [97, 98, 99]"
  "free_blocks demo_files = {60..<1000}" "i_size (inodes demo_files ! 0) = 3" "log_outstanding demo_files = 1"
  unfolding demo_files_def by (rule demo_fs_ok demo_file_wf)+ (simp_all add: demo_inode_def)

theorem readi_reads_file_witness: "\<exists>t. readi 0 1 10 demo_files = Ok (2, [98, 99]) t"
proof -
  have n: "length ([] :: nat list) < NBUF" by (simp add: NBUF_def)
  have "\<not> (1 > i_size (inodes demo_files ! 0) \<or> 1 + 10 < (1 :: 32 word))" by (simp add: demo_files_ok)
  moreover have "get_bytes (unat (1 :: 32 word)) (unat (10 :: 32 word)) (file_bytes demo_files 0) = [98, 99]"
    by (simp add: demo_files_ok get_bytes_def)
  ultimately show ?thesis
    using readi_reads_file [OF demo_files_ok(1-3) n, where off = 1 and n = 10] by auto
qed

lemma demo_write_room:
  "unat (2 :: 32 word) + length [120, 121, 122 :: byte] \<le> MAXFILE * BSIZE"
  "nchunks (unat (2 :: 32 word)) (length [120, 121, 122 :: byte]) = 1"
  by (simp_all add: MAXFILE_def NDIRECT_def NINDIRECT_def BSIZE_def nchunks_def)

theorem writei_updates_file_witness:
  "\<exists>t u. writei 0 [120, 121, 122] 2 demo_files = Ok 3 t \<and> file_bytes t 0 = [97, 98, 120, 121, 122] \<and>
     readi 0 2 3 t = Ok (3, [120, 121, 122]) u"
proof -
  have r: "length ([] :: nat list) + 6 * nchunks (unat (2 :: 32 word)) (length [120, 121, 122 :: byte]) + 2 \<le> LOGSIZE"
    "6 * nchunks (unat (2 :: 32 word)) (length [120, 121, 122 :: byte]) \<le> card (free_blocks demo_files)"
    unfolding demo_write_room(2) by (simp_all add: LOGSIZE_def MAXOPBLOCKS_def demo_files_ok)
  have o: "1 \<le> log_outstanding demo_files" "(2 :: 32 word) \<le> i_size (inodes demo_files ! 0)" by (simp_all add: demo_files_ok)
  have "put_bytes (unat (2 :: 32 word)) [120, 121, 122] (file_bytes demo_files 0) = [97, 98, 120, 121, 122]"
    by (simp add: demo_files_ok put_bytes_def)
  then show ?thesis using writei_updates_file [OF demo_files_ok(1-4) o demo_write_room(1) r] by auto
qed

text \<open>The same state outside a transaction.\<close>

definition demo_idle_files :: kcons where
  "demo_idle_files = demo_files\<lparr>log_outstanding := 0\<rparr>"

theorem file_write_atomic_witness:
  "\<exists>t W. write_op 0 [120, 121, 122] 2 demo_idle_files = Ok 3 t \<and> disk t = write_all W demo_disk \<and> dwrites t = W \<and>
     disk_file (disk t) demo_sb 1 = [97, 98, 120, 121, 122] \<and>
     (\<forall>k. \<exists>u. recover_from_log (demo_log (write_all (take k W) demo_disk)) = Ok () u \<and>
        (disk_file (disk u) demo_sb 1 = [97, 98, 99] \<or> disk_file (disk u) demo_sb 1 = [97, 98, 120, 121, 122]))"
proof -
  let ?s = demo_idle_files
  have s: "tx_ok 0 {} [] ?s" "fs_ok ?s" "file_wf ?s 0" "synced ?s 0" "file_bytes ?s 0 = [97, 98, 99]"
    by (simp_all add: demo_idle_files_def demo_files_ok)
  have f: "log_outstanding ?s = 0" "\<not> log_committing ?s" "disk ?s = demo_disk" "dwrites ?s = []" "sblk ?s = demo_sb"
    "i_inum (inodes ?s ! 0) = 1" "log_start ?s = 2" "log_size ?s = 30" "disksize ?s = 1000" "free_blocks ?s = {60..<1000}"
    by (simp_all add: demo_idle_files_def demo_files_ok) (simp_all add: demo_files_def demo_inode_def)
  have "demo_disk 2 = replicate 512 0" by (simp add: demo_disk_def)
  then have e: "log_empty ?s" by (simp add: log_empty_def f get32_def)
  have o: "(2 :: 32 word) \<le> i_size (inodes ?s ! 0)" "length [120, 121, 122 :: byte] \<le> 1536" "24 \<le> card (free_blocks ?s)"
    by (simp_all add: f) (simp add: demo_idle_files_def demo_files_ok)
  have pb: "put_bytes (unat (2 :: 32 word)) [120, 121, 122] (file_bytes ?s 0) = [97, 98, 120, 121, 122]"
    by (simp add: s(5) put_bytes_def)
  have rb: "reboots 0 ?s d (demo_log d)" for d
    using demo_log_cache [of d] by (simp add: reboots_def f LOGSIZE_def MAXOPBLOCKS_def)
  obtain t W where t: "write_op 0 [120, 121, 122] 2 ?s = Ok (int (length [120, 121, 122 :: byte])) t" "disk t = write_all W (disk ?s)"
    "dwrites t = dwrites ?s @ W" "disk_file (disk t) (sblk ?s) (i_inum (inodes ?s ! 0)) = [97, 98, 120, 121, 122]"
    "\<forall>k q (r :: klog). reboots q ?s (write_all (take k W) (disk ?s)) r \<longrightarrow>
       (\<exists>u. recover_from_log r = Ok () u \<and>
          (disk_file (disk u) (sblk ?s) (i_inum (inodes ?s ! 0)) = file_bytes ?s 0 \<or>
           disk_file (disk u) (sblk ?s) (i_inum (inodes ?s ! 0)) = [97, 98, 120, 121, 122]))"
    using file_write_atomic [OF s(1-4) f(1,2) e o(1) demo_write_room(1) o(2,3)] unfolding pb by blast
  have "\<exists>u. recover_from_log (demo_log (write_all (take k W) demo_disk)) = Ok () u \<and>
      (disk_file (disk u) demo_sb 1 = [97, 98, 99] \<or> disk_file (disk u) demo_sb 1 = [97, 98, 120, 121, 122])" for k
    using t(5) rb unfolding f s(5) by blast
  then show ?thesis using t(1-4) unfolding f by (intro exI [of _ t] exI [of _ W]) simp
qed

end
