(* ===== verification/PipeSpec.thy ===== *)
theory PipeSpec
  imports Pipe Quiet
begin

text \<open>
  A pipe is a first-in first-out queue of at most \<^verbatim>\<open>PIPESIZE\<close> bytes, whatever the values of its
  free-running indices, which wrap around at \<open>2 ^ 32\<close>.
\<close>

interpretation pipe_ring: ring_buffer PIPESIZE
  by unfold_locales (simp_all add: PIPESIZE_def)

definition pipe_contents :: "pipe \<Rightarrow> byte list" where
  "pipe_contents x = ring_contents PIPESIZE (p_data x) (p_nread x) (p_nwrite x)"

definition pipe_ok :: "pipe \<Rightarrow> bool" where
  "pipe_ok x = (length (p_data x) = PIPESIZE \<and> unat (p_nwrite x - p_nread x) \<le> PIPESIZE)"

section \<open>The ring\<close>

lemma length_pipe_contents: "length (pipe_contents x) = unat (p_nwrite x - p_nread x)"
  by (simp add: pipe_contents_def pipe_ring.ring_length)

lemma pipe_full_iff: "pipe_full x = (length (pipe_contents x) = PIPESIZE)"
proof -
  have "p_nwrite x = p_nread x + of_nat PIPESIZE \<longleftrightarrow> p_nwrite x - p_nread x = of_nat PIPESIZE" by (auto simp: algebra_simps)
  also have "\<dots> \<longleftrightarrow> unat (p_nwrite x - p_nread x) = unat (of_nat PIPESIZE :: 32 word)" by (simp add: word_unat_eq_iff)
  finally show ?thesis by (simp add: pipe_full_def length_pipe_contents PIPESIZE_def)
qed

lemma pipe_put_ok:
  assumes "pipe_ok x" "length (pipe_contents x) < PIPESIZE"
  shows "pipe_contents (pipe_put b x) = pipe_contents x @ [b]" "pipe_ok (pipe_put b x)"
proof -
  show c: "pipe_contents (pipe_put b x) = pipe_contents x @ [b]"
    using assms pipe_ring.ring_push [of "p_nwrite x" "p_nread x" "p_data x" b]
    by (simp add: pipe_contents_def pipe_put_def pipe_ok_def pipe_ring.ring_length)
  show "pipe_ok (pipe_put b x)"
    using assms c length_pipe_contents [of "pipe_put b x"] by (simp add: pipe_ok_def pipe_put_def)
qed

lemma pipe_get_ok:
  assumes "pipe_ok x" "p_nread x \<noteq> p_nwrite x"
  shows "pipe_contents x = fst (pipe_get x) # pipe_contents (snd (pipe_get x))" "pipe_ok (snd (pipe_get x))"
proof -
  show c: "pipe_contents x = fst (pipe_get x) # pipe_contents (snd (pipe_get x))"
    using pipe_ring.ring_pop [OF assms(2), of "p_data x"] by (simp add: pipe_contents_def pipe_get_def)
  show "pipe_ok (snd (pipe_get x))"
    using assms(1) arg_cong [OF c, of length] length_pipe_contents [of x] length_pipe_contents [of "snd (pipe_get x)"]
    by (simp add: pipe_ok_def pipe_get_def)
qed

lemma pipe_empty_iff: "pipe_contents x = [] \<longleftrightarrow> p_nread x = p_nwrite x"
  using length_pipe_contents [of x] by (auto simp: unat_eq_0)

lemma piperead_copy_ok:
  assumes "pipe_ok x"
  shows "fst (piperead_copy n x) = take n (pipe_contents x) \<and>
    pipe_contents (snd (piperead_copy n x)) = drop n (pipe_contents x) \<and> pipe_ok (snd (piperead_copy n x))"
  using assms
proof (induction n arbitrary: x)
  case (Suc n)
  show ?case
  proof (cases "p_nread x = p_nwrite x")
    case True
    then show ?thesis using Suc.prems pipe_empty_iff [of x] by simp
  next
    case False
    note g = pipe_get_ok [OF Suc.prems False]
    show ?thesis using Suc.IH [OF g(2)] g(1) False by (simp add: case_prod_beta Let_def)
  qed
qed simp

lemma pipe_puts_ok:
  assumes "pipe_ok x" "length (pipe_contents x) + length bs \<le> PIPESIZE"
  shows "pipe_contents (foldl (\<lambda>x b. pipe_put b x) x bs) = pipe_contents x @ bs \<and> pipe_ok (foldl (\<lambda>x b. pipe_put b x) x bs)"
  using assms
proof (induction bs arbitrary: x)
  case (Cons b bs)
  then show ?case using pipe_put_ok [of x b] by simp
qed simp

section \<open>The system calls\<close>

lemma put_page_simps [simp]:
  "put_page p v (put_page p w s) = put_page p v s" "mem (put_page p v s) p = v" "quiet q (put_page p v s) = quiet q s"
  "acq l (put_page p v s) = put_page p v (acq l s)" "rel l (put_page p v s) = put_page p v (rel l s)"
  "cpu_ok (put_page p v s) = cpu_ok s" "lock_mine l (put_page p v s) = lock_mine l s" "my (put_page p v s) = my s"
  "cpus (put_page p v s) = cpus s"
  by (simp_all add: put_page_def quiet_def)

lemma put_page_same: "mem s p = v \<Longrightarrow> put_page p v s = s"
  by (auto simp: put_page_def)

lemma pipewrite_loop_ok:
  assumes "quiet q s" "mem s p = PipePage x" "pipe_ok x" "length (pipe_contents x) + length bs \<le> PIPESIZE"
  shows "pipewrite_loop p bs n (acq (PipeLock p) s) =
    Some (Ok n (put_page p (PipePage (foldl (\<lambda>x b. pipe_put b x) x bs)) s))"
  using assms
proof (induction bs arbitrary: s x)
  case Nil
  then have "put_page p (PipePage x) s = s" by (simp add: put_page_same)
  then show ?case
    using quiet_acquire [OF Nil.prems(1), of "PipeLock p"] wakeup_acq [OF Nil.prems(1), of "PipeLock p" "ChanPipeRead p"]
    by (simp add: pipewrite_loop.simps [of p "[]"] release_ok)
next
  case (Cons b bs)
  let ?t = "(put_page p (PipePage (pipe_put b x)) s)"
  have "\<not> pipe_full x" using Cons.prems(4) by (simp add: pipe_full_iff)
  then have "pipewrite_loop p (b # bs) n (acq (PipeLock p) s) = pipewrite_loop p bs n (acq (PipeLock p) ?t)"
    using Cons.prems(2) by (simp add: pipewrite_loop.simps [of p "b # bs"] load_pipe_def upd_pipe_def)
  also have "\<dots> = Some (Ok n (put_page p (PipePage (foldl (\<lambda>x b. pipe_put b x) (pipe_put b x) bs)) ?t))"
    by (rule Cons.IH) (use Cons.prems pipe_put_ok [OF Cons.prems(3), of b] in simp_all)
  finally show ?case by simp
qed

lemma pipewrite_ok:
  assumes "quiet q s" "mem s p = PipePage x" "pipe_ok x" "length (pipe_contents x) + length bs \<le> PIPESIZE"
  shows "\<exists>x'. pipewrite p bs s = Ok (int (length bs)) (put_page p (PipePage x') s) \<and> pipe_ok x' \<and>
    pipe_contents x' = pipe_contents x @ bs"
  using pipewrite_loop_ok [OF assms] quiet_acquire [OF assms(1), of "PipeLock p"] pipe_puts_ok [OF assms(3,4)]
  by (simp add: pipewrite_def) blast

lemma piperead_ok:
  assumes q: "quiet q s" and x: "mem s p = PipePage x" "pipe_ok x" "pipe_contents x \<noteq> [] \<or> \<not> p_writeopen x"
  shows "\<exists>x'. piperead p (int n) s =
      Ok (int (length (take n (pipe_contents x))), take n (pipe_contents x)) (put_page p (PipePage x') s) \<and>
    pipe_ok x' \<and> pipe_contents x' = drop n (pipe_contents x)"
proof -
  define x' where "x' = snd (piperead_copy n x)"
  have c: "piperead_copy n x = (take n (pipe_contents x), x')" "pipe_ok x'" "pipe_contents x' = drop n (pipe_contents x)"
    using piperead_copy_ok [OF x(2), of n] by (simp_all add: x'_def prod_eq_iff)
  let ?t = "(put_page p (PipePage x') s)"
  have qt: "quiet q ?t" and e: "\<not> (p_nread x = p_nwrite x \<and> p_writeopen x)"
    using q x(3) by (simp_all add: pipe_empty_iff)
  have "piperead_loop p n (acq (PipeLock p) s) = Some (Ok (int (length (take n (pipe_contents x))), take n (pipe_contents x)) ?t)"
    using x(1) e c(1) quiet_acquire [OF q, of "PipeLock p"] wakeup_acq [OF qt, of "PipeLock p" "ChanPipeWrite p"]
    by (subst piperead_loop.simps, cases "p_nread x = p_nwrite x") (simp_all add: load_pipe_def upd_pipe_def release_ok)
  then show ?thesis using quiet_acquire [OF q, of "PipeLock p"] c(2,3)
    by (intro exI [of _ x']) (simp add: piperead_def)
qed

text \<open>A sequence of calls on one pipe, with the bytes that the reads returned, in their order; no result if
  one of the calls fails or waits.\<close>

datatype pipe_op = PWrite "byte list" | PRead nat

fun pipe_run :: "addr \<Rightarrow> pipe_op list \<Rightarrow> 'a kproc_scheme \<Rightarrow> (byte list \<times> 'a kproc_scheme) option" where
  "pipe_run p [] s = Some ([], s)"
| "pipe_run p (PWrite bs # ops) s =
     (case pipewrite p bs s of Ok n s \<Rightarrow> if n = int (length bs) then pipe_run p ops s else None | _ \<Rightarrow> None)"
| "pipe_run p (PRead n # ops) s =
     (case piperead p (int n) s of
        Ok r s \<Rightarrow> if fst r = - 1 then None else map_option (\<lambda>(d, s). (snd r @ d, s)) (pipe_run p ops s)
      | _ \<Rightarrow> None)"

fun pipe_written :: "pipe_op list \<Rightarrow> byte list" where
  "pipe_written [] = []"
| "pipe_written (PWrite bs # ops) = bs @ pipe_written ops"
| "pipe_written (PRead n # ops) = pipe_written ops"

text \<open>Nobody has to wait: writes find room, reads find bytes; \<open>n\<close> is the number of bytes in the pipe.\<close>

fun pipe_fits :: "nat \<Rightarrow> pipe_op list \<Rightarrow> bool" where
  "pipe_fits n [] = True"
| "pipe_fits n (PWrite bs # ops) = (n + length bs \<le> PIPESIZE \<and> pipe_fits (n + length bs) ops)"
| "pipe_fits n (PRead m # ops) = (0 < n \<and> pipe_fits (n - m) ops)"

lemma pipe_run_ok:
  assumes "quiet q s" "mem s p = PipePage x" "pipe_ok x" "pipe_fits (length (pipe_contents x)) ops"
  shows "\<exists>d x'. pipe_run p ops s = Some (d, put_page p (PipePage x') s) \<and> pipe_ok x' \<and>
    pipe_contents x @ pipe_written ops = d @ pipe_contents x'"
  using assms
proof (induction ops arbitrary: s x)
  case Nil
  then have "put_page p (PipePage x) s = s" by (simp add: put_page_same)
  then show ?case using Nil by (intro exI [of _ "[]"] exI [of _ x]) simp
next
  case (Cons a ops)
  show ?case
  proof (cases a)
    case (PWrite bs)
    obtain y where y: "pipewrite p bs s = Ok (int (length bs)) (put_page p (PipePage y) s)" "pipe_ok y"
      "pipe_contents y = pipe_contents x @ bs"
      using pipewrite_ok [OF Cons.prems(1-3)] Cons.prems(4) PWrite by auto
    have "\<exists>d x'. pipe_run p ops (put_page p (PipePage y) s) =
        Some (d, put_page p (PipePage x') (put_page p (PipePage y) s)) \<and>
        pipe_ok x' \<and> pipe_contents y @ pipe_written ops = d @ pipe_contents x'"
      by (rule Cons.IH) (use Cons.prems y PWrite in simp_all)
    then show ?thesis using y PWrite by simp
  next
    case (PRead n)
    have ne: "pipe_contents x \<noteq> [] \<or> \<not> p_writeopen x" using Cons.prems(4) PRead by auto
    obtain y where y: "piperead p (int n) s =
        Ok (int (length (take n (pipe_contents x))), take n (pipe_contents x)) (put_page p (PipePage y) s)"
      "pipe_ok y" "pipe_contents y = drop n (pipe_contents x)"
      using piperead_ok [OF Cons.prems(1-3) ne] by blast
    have "\<exists>d x'. pipe_run p ops (put_page p (PipePage y) s) =
        Some (d, put_page p (PipePage x') (put_page p (PipePage y) s)) \<and>
        pipe_ok x' \<and> pipe_contents y @ pipe_written ops = d @ pipe_contents x'"
      by (rule Cons.IH) (use Cons.prems y PRead in simp_all)
    then obtain d x' where d: "pipe_run p ops (put_page p (PipePage y) s) =
        Some (d, put_page p (PipePage x') s)" "pipe_ok x'" "pipe_contents y @ pipe_written ops = d @ pipe_contents x'"
      by auto
    have "pipe_contents x @ pipe_written ops = take n (pipe_contents x) @ (pipe_contents y @ pipe_written ops)"
      unfolding y(3) append_assoc [symmetric] by simp
    then have "pipe_contents x @ pipe_written ops = (take n (pipe_contents x) @ d) @ pipe_contents x'" by (simp add: d(3))
    then show ?thesis using y(1) d(1,2) PRead by (intro exI [of _ "take n (pipe_contents x) @ d"] exI [of _ x']) simp
  qed
qed

text \<open>C18: A pipe delivers the bytes in the order they were written, none lost and none doubled, for every
  sequence of \<^verbatim>\<open>pipewrite\<close> and \<^verbatim>\<open>piperead\<close> calls in which nobody has to wait: what was in the pipe followed by
  what was written is what was read followed by what remains; nothing else in memory changes.  The
  indices may wrap around.\<close>

theorem pipe_fifo:
  assumes "quiet q s" "mem s p = PipePage x" "pipe_ok x" "pipe_fits (length (pipe_contents x)) ops"
  shows "\<exists>d x'. pipe_run p ops s = Some (d, put_page p (PipePage x') s) \<and> pipe_ok x' \<and>
    pipe_contents x @ pipe_written ops = d @ pipe_contents x'"
  by (rule pipe_run_ok [OF assms])

definition demo_pipe :: pipe where
  "demo_pipe = \<lparr>p_data = replicate 512 0, p_nread = - 2, p_nwrite = - 2, p_readopen = True, p_writeopen = True\<rparr>"

theorem pipe_fifo_witness:
  "\<exists>d x'. pipe_run 0x80400000 [PWrite [1, 2, 3, 4], PRead 3] (put_page 0x80400000 (PipePage demo_pipe) demo_idle) =
      Some (d, put_page 0x80400000 (PipePage x') demo_idle) \<and> [1, 2, 3, 4] = d @ pipe_contents x'"
proof -
  let ?s = "put_page 0x80400000 (PipePage demo_pipe) demo_idle"
  have c: "pipe_contents demo_pipe = []" by (simp add: pipe_empty_iff demo_pipe_def)
  have o: "pipe_ok demo_pipe" by (simp add: pipe_ok_def demo_pipe_def PIPESIZE_def)
  show ?thesis
    using pipe_fifo [of 0 ?s "0x80400000" demo_pipe "[PWrite [1, 2, 3, 4], PRead 3]"] demo_idle_quiet c o
    by (simp add: PIPESIZE_def del: pipe_run.simps) blast
qed

end
