(* ===== verification/VmSpec.thy ===== *)
theory VmSpec
  imports Vm
begin

text \<open>
  What the page tables of \<^verbatim>\<open>vm.c\<close> mean.

  \<open>pt_entry m d va\<close> is the page table entry the hardware finds for the virtual address \<open>va\<close> under
  the page directory \<open>d\<close>, 0 when there is no page table.  \<open>pgdir_ok\<close> is the shape every operation
  keeps: the directory and the tables it names are different pages of words.  Under it
  \<^verbatim>\<open>mappages\<close> changes the entries of the range it is called for and no others, \<^verbatim>\<open>allocuvm\<close> extends
  the user memory by zeroed pages, and \<^verbatim>\<open>copyout\<close> writes to user pages only.
\<close>

section \<open>Indices\<close>

lemma and_3FF: "(a :: 32 word) AND 0x3FF = take_bit 10 a"
  by (simp add: take_bit_eq_mask mask_eq_exp_minus_1)

lemma unat_PDX: "unat (PDX va) = unat va div 4194304"
proof -
  have "unat va div 4194304 < 1024" using unsigned_less [of va, where 'a = nat] by simp
  then show ?thesis
    by (simp add: PDX_def and_3FF drop_bit_eq_div take_bit_eq_mod unat_div_distrib unat_mod_distrib)
qed

lemma unat_PTX: "unat (PTX va) = unat va div 4096 mod 1024"
  by (simp add: PTX_def and_3FF drop_bit_eq_div take_bit_eq_mod unat_div_distrib unat_mod_distrib)

lemma PDX_bound: "unat (PDX va) < 1024"
  using unsigned_less [of va, where 'a = nat] by (simp add: unat_PDX)

lemma same_page:
  "unat (PDX a) = unat (PDX b) \<and> unat (PTX a) = unat (PTX b) \<longleftrightarrow> unat a div 4096 = unat b div 4096"
proof -
  have d: "x div 4194304 = x div 4096 div 1024" for x :: nat by (simp add: div_mult2_eq [symmetric])
  show ?thesis
    unfolding unat_PDX unat_PTX d
    using div_mult_mod_eq [of "unat a div 4096" 1024] div_mult_mod_eq [of "unat b div 4096" 1024] by metis
qed

lemma PTE_ADDR_flags:
  assumes "pa mod 4096 = 0"
  shows "PTE_ADDR (pa OR 7) = pa" "(pa OR 7) AND PTE_P \<noteq> 0"
proof -
  have "take_bit 12 pa = 0" using assms by (simp add: take_bit_eq_mod)
  then have lo: "\<not> bit pa n" if "n < 12" for n
    using that by (metis bit_0_eq bit_take_bit_iff bot_apply bot_bool_def)
  have m: "(4095 :: 32 word) = mask 12" "(7 :: 32 word) = mask 3" by (simp_all add: mask_eq_exp_minus_1)
  show "PTE_ADDR (pa OR 7) = pa"
    unfolding PTE_ADDR_def m by (rule bit_word_eqI) (use lo in \<open>auto simp: bit_simps not_less intro: leI\<close>)
  have "bit ((pa OR 7) AND PTE_P) 0" by (simp add: PTE_P_def bit_simps m(2))
  then show "(pa OR 7) AND PTE_P \<noteq> 0" by (metis bit_0_eq bot_apply bot_bool_def)
qed

lemma or_flags: "(pa OR PTE_P OR PTE_W OR PTE_U) = pa OR 7"
  by (simp add: PTE_P_def PTE_W_def PTE_U_def or.assoc)

section \<open>The meaning of a page directory\<close>

definition table_of :: "(addr \<Rightarrow> page) \<Rightarrow> addr \<Rightarrow> addr \<Rightarrow> addr option" where
  "table_of m d va =
     (case m d of
        WordPage w \<Rightarrow>
          if w (unat (PDX va)) AND PTE_P = 0 then None
          else Some (PTE_ADDR (w (unat (PDX va))) + KERNBASE)
      | _ \<Rightarrow> None)"

definition pt_entry :: "(addr \<Rightarrow> page) \<Rightarrow> addr \<Rightarrow> addr \<Rightarrow> addr" where
  "pt_entry m d va =
     (case table_of m d va of
        None \<Rightarrow> 0
      | Some t \<Rightarrow> (case m t of WordPage w \<Rightarrow> w (unat (PTX va)) | _ \<Rightarrow> 0))"

definition pgdir_ok :: "(addr \<Rightarrow> page) \<Rightarrow> addr \<Rightarrow> bool" where
  "pgdir_ok m d =
     (d \<noteq> NULL \<and>
      (\<exists>w. m d = WordPage w \<and>
         (\<forall>i < 1024. w i AND PTE_P \<noteq> 0 \<longrightarrow>
            PTE_ADDR (w i) \<le> KERNBASE \<and> PTE_ADDR (w i) + KERNBASE \<noteq> d \<and>
            PTE_ADDR (w i) + KERNBASE \<noteq> NULL \<and>
            (\<exists>tw. m (PTE_ADDR (w i) + KERNBASE) = WordPage tw)) \<and>
         (\<forall>i < 1024. \<forall>j < 1024. w i AND PTE_P \<noteq> 0 \<longrightarrow> w j AND PTE_P \<noteq> 0 \<longrightarrow>
            PTE_ADDR (w i) = PTE_ADDR (w j) \<longrightarrow> i = j)))"

lemma pgdir_okE:
  assumes "pgdir_ok m d"
  obtains w where "m d = WordPage w" "d \<noteq> NULL"
    "\<And>i. i < 1024 \<Longrightarrow> w i AND PTE_P \<noteq> 0 \<Longrightarrow> PTE_ADDR (w i) \<le> KERNBASE \<and>
       PTE_ADDR (w i) + KERNBASE \<noteq> d \<and> PTE_ADDR (w i) + KERNBASE \<noteq> NULL \<and>
       (\<exists>tw. m (PTE_ADDR (w i) + KERNBASE) = WordPage tw)"
    "\<And>i j. i < 1024 \<Longrightarrow> j < 1024 \<Longrightarrow> w i AND PTE_P \<noteq> 0 \<Longrightarrow> w j AND PTE_P \<noteq> 0 \<Longrightarrow>
       PTE_ADDR (w i) = PTE_ADDR (w j) \<Longrightarrow> i = j"
  using assms unfolding pgdir_ok_def by blast

lemma load_word_word: "mem s a = WordPage w \<Longrightarrow> a \<noteq> NULL \<Longrightarrow> load_word a i s = Ok (w i) s"
  by (simp add: load_word_def)

lemma store_word_word:
  "mem s a = WordPage w \<Longrightarrow> a \<noteq> NULL \<Longrightarrow>
   store_word a i v s = Ok () (s\<lparr>mem := (mem s)(a := WordPage (w(i := v)))\<rparr>)"
  by (simp add: store_word_def put_page_def)

lemma table_ofD:
  assumes "pgdir_ok m d" "table_of m d va = Some t"
  shows "t \<noteq> d" "t \<noteq> NULL" "\<exists>tw. m t = WordPage tw"
  using assms(1)
  by (rule pgdir_okE, use assms(2) PDX_bound [of va] in \<open>auto simp: table_of_def split: if_splits\<close>)+

lemma table_of_inj:
  assumes "pgdir_ok m d" "table_of m d va = Some t" "table_of m d vb = Some t"
  shows "unat (PDX va) = unat (PDX vb)"
  using assms(1)
  by (rule pgdir_okE) (use assms(2,3) PDX_bound [of va] PDX_bound [of vb] in \<open>auto simp: table_of_def split: if_splits\<close>)

lemma table_of_PDX: "unat (PDX va) = unat (PDX vb) \<Longrightarrow> table_of m d va = table_of m d vb"
  by (simp add: table_of_def split: page.split)

lemma walkpgdir_present:
  assumes "pgdir_ok (mem s) d" "table_of (mem s) d va = Some t"
  shows "walkpgdir d va alloc s = Ok (Some (t, unat (PTX va))) s"
  using assms(1)
proof (rule pgdir_okE)
  fix w assume w: "mem s d = WordPage w" "d \<noteq> NULL"
    and i: "\<And>i. i < 1024 \<Longrightarrow> w i AND PTE_P \<noteq> 0 \<Longrightarrow> PTE_ADDR (w i) \<le> KERNBASE \<and>
       PTE_ADDR (w i) + KERNBASE \<noteq> d \<and> PTE_ADDR (w i) + KERNBASE \<noteq> NULL \<and>
       (\<exists>tw. mem s (PTE_ADDR (w i) + KERNBASE) = WordPage tw)"
  have p: "w (unat (PDX va)) AND PTE_P \<noteq> 0" "t = PTE_ADDR (w (unat (PDX va))) + KERNBASE"
    using assms(2) w(1) by (auto simp: table_of_def split: if_splits)
  moreover have "PTE_ADDR (w (unat (PDX va))) \<le> KERNBASE" using i [OF PDX_bound p(1)] by simp
  ultimately show ?thesis
    by (simp add: walkpgdir_def load_word_word [OF w] P2V_def not_less)
qed

lemma walkpgdir_absent:
  assumes "pgdir_ok (mem s) d" "table_of (mem s) d va = None"
  shows "walkpgdir d va False s = Ok None s"
  using assms(1)
  by (rule pgdir_okE) (use assms(2) in \<open>simp add: walkpgdir_def load_word_word table_of_def split: if_splits\<close>)

text \<open>A step that only moves memory and the free list.\<close>

definition mem_step :: "'a kmem_scheme \<Rightarrow> 'a kmem_scheme \<Rightarrow> bool" where
  "mem_step s t = (\<exists>m f. t = s\<lparr>mem := m, freelist := f\<rparr>)"

lemma mem_step_refl [simp]: "mem_step s s"
  unfolding mem_step_def by (intro exI [of _ "mem s"] exI [of _ "freelist s"]) simp

lemma mem_step_trans: "mem_step s t \<Longrightarrow> mem_step t u \<Longrightarrow> mem_step s u"
  unfolding mem_step_def by (elim exE, intro exI [of _ "mem u"] exI [of _ "freelist u"]) simp

lemma mem_step_upd [simp]:
  "mem_step s (s\<lparr>mem := m\<rparr>)" "mem_step s (s\<lparr>freelist := f\<rparr>)" "mem_step s (s\<lparr>mem := m, freelist := f\<rparr>)"
  "mem_step s (s\<lparr>freelist := f, mem := m\<rparr>)"
proof -
  show "mem_step s (s\<lparr>mem := m\<rparr>)"
    unfolding mem_step_def by (intro exI [of _ m] exI [of _ "freelist s"]) simp
  show "mem_step s (s\<lparr>freelist := f\<rparr>)"
    unfolding mem_step_def by (intro exI [of _ "mem s"] exI [of _ f]) simp
  show "mem_step s (s\<lparr>mem := m, freelist := f\<rparr>)" "mem_step s (s\<lparr>freelist := f, mem := m\<rparr>)"
    unfolding mem_step_def by (intro exI [of _ m] exI [of _ f]; simp)+
qed

lemma mem_step_frame:
  assumes "mem_step s t"
  shows "kmem_lockable t = kmem_lockable s" "phys_page t = phys_page s"
  using assms by (auto simp: mem_step_def)

section \<open>Walking with allocation\<close>

text \<open>Linking a fresh zeroed page as a page table changes no translation.\<close>

lemma link_table:
  assumes ok: "pgdir_ok m d" and none: "table_of m d va = None"
    and dw: "m d = WordPage w"
    and t: "t - KERNBASE \<le> KERNBASE" "(t - KERNBASE) mod 4096 = 0" "t \<noteq> NULL" "\<And>x. m t \<noteq> WordPage x"
    and m': "m' = m(t := WordPage (\<lambda>_. 0), d := WordPage (w(unat (PDX va) := (t - KERNBASE) OR 7)))"
  shows "pgdir_ok m' d" "table_of m' d va = Some t" "pt_entry m' d vb = pt_entry m d vb"
    "\<And>vb u. table_of m d vb = Some u \<Longrightarrow> table_of m' d vb = Some u"
proof -
  let ?e = "(t - KERNBASE) OR 7" and ?i = "unat (PDX va)"
  have e: "PTE_ADDR ?e + KERNBASE = t" "PTE_ADDR ?e = t - KERNBASE" "?e AND PTE_P \<noteq> 0"
    using PTE_ADDR_flags [OF t(2)] by simp_all
  have td: "t \<noteq> d" using t(4) dw by auto
  from ok obtain w' where "m d = WordPage w'" "d \<noteq> NULL" and
    i: "\<And>i. i < 1024 \<Longrightarrow> w' i AND PTE_P \<noteq> 0 \<Longrightarrow> PTE_ADDR (w' i) \<le> KERNBASE \<and>
       PTE_ADDR (w' i) + KERNBASE \<noteq> d \<and> PTE_ADDR (w' i) + KERNBASE \<noteq> NULL \<and>
       (\<exists>tw. m (PTE_ADDR (w' i) + KERNBASE) = WordPage tw)" and
    inj: "\<And>i j. i < 1024 \<Longrightarrow> j < 1024 \<Longrightarrow> w' i AND PTE_P \<noteq> 0 \<Longrightarrow> w' j AND PTE_P \<noteq> 0 \<Longrightarrow>
       PTE_ADDR (w' i) = PTE_ADDR (w' j) \<Longrightarrow> i = j"
    by (rule pgdir_okE) blast
  then have w': "w' = w" "d \<noteq> NULL" using dw by simp_all
  note i = i [unfolded w'(1)] and inj = inj [unfolded w'(1)]
  have other: "PTE_ADDR (w i) + KERNBASE \<noteq> t" "PTE_ADDR (w i) \<noteq> t - KERNBASE"
    if "i < 1024" "w i AND PTE_P \<noteq> 0" for i
  proof -
    show ne: "PTE_ADDR (w i) + KERNBASE \<noteq> t" using i [OF that] t(4) by auto
    show "PTE_ADDR (w i) \<noteq> t - KERNBASE"
    proof
      assume "PTE_ADDR (w i) = t - KERNBASE"
      then show False using ne by simp
    qed
  qed
  have md: "m' d = WordPage (w(?i := ?e))" by (simp add: m')
  show "table_of m' d va = Some t" using e by (simp add: table_of_def md)
  show keep: "table_of m' d vb = Some u" if "table_of m d vb = Some u" for vb u
  proof -
    have "unat (PDX vb) \<noteq> ?i" using that none by (metis option.distinct(1) table_of_PDX)
    then show ?thesis using that by (simp add: table_of_def md dw split: if_splits)
  qed
  show "pgdir_ok m' d"
    unfolding pgdir_ok_def
  proof (rule conjI [OF w'(2)], rule exI [of _ "w(?i := ?e)"], intro conjI allI impI)
    show "m' d = WordPage (w(?i := ?e))" by (rule md)
  next
    fix j assume j: "j < 1024" "(w(?i := ?e)) j AND PTE_P \<noteq> 0"
    show "PTE_ADDR ((w(?i := ?e)) j) \<le> KERNBASE"
      using i [of j] e(2) t(1) j by (auto split: if_splits)
    show "PTE_ADDR ((w(?i := ?e)) j) + KERNBASE \<noteq> d" "PTE_ADDR ((w(?i := ?e)) j) + KERNBASE \<noteq> NULL"
      using i [of j] e(1) t(3) td j by (auto split: if_splits)
    show "\<exists>tw. m' (PTE_ADDR ((w(?i := ?e)) j) + KERNBASE) = WordPage tw"
      using i [of j] e(1) td other [of j] j by (cases "j = ?i") (auto simp: m')
  next
    fix j k assume "j < 1024" "k < 1024" "(w(?i := ?e)) j AND PTE_P \<noteq> 0" "(w(?i := ?e)) k AND PTE_P \<noteq> 0"
      "PTE_ADDR ((w(?i := ?e)) j) = PTE_ADDR ((w(?i := ?e)) k)"
    then show "j = k"
      using inj [of j k] other [of j] other [of k] e(2) by (auto split: if_splits)
  qed
  show "pt_entry m' d vb = pt_entry m d vb"
  proof (cases "table_of m d vb")
    case None
    show ?thesis
    proof (cases "unat (PDX vb) = ?i")
      case True
      then have "table_of m' d vb = Some t" using e by (simp add: table_of_def md)
      then show ?thesis using None td by (simp add: pt_entry_def m')
    next
      case False
      then have "table_of m' d vb = None" using None by (simp add: table_of_def md dw split: if_splits)
      then show ?thesis using None by (simp add: pt_entry_def)
    qed
  next
    case (Some u)
    then have "u \<noteq> d" "\<exists>tw. m u = WordPage tw" using table_ofD [OF ok] by auto
    moreover from this have "u \<noteq> t" using t(4) by auto
    ultimately show ?thesis using keep [OF Some] Some by (simp add: pt_entry_def m')
  qed
qed

definition vm_ok :: "addr \<Rightarrow> addr list \<Rightarrow> 'a kmem_scheme \<Rightarrow> bool" where
  "vm_ok d fs s = (pgdir_ok (mem s) d \<and> kmem_ok fs s \<and> kmem_lockable s)"

lemma phys_page_arith:
  assumes "phys_page s t"
  shows "\<not> t < KERNBASE" "t - KERNBASE \<le> KERNBASE" "(t - KERNBASE) mod 4096 = 0" "t \<noteq> NULL"
proof -
  have u: "unat t mod 4096 = 0" "2147483648 \<le> unat t" "unat t < 2382364672" "t \<noteq> 0"
    using assms phys_page_unat [of s t] by (simp_all add: phys_page_def)
  show k: "\<not> t < KERNBASE" "t \<noteq> NULL"
    using u by (simp_all add: word_less_nat_alt KERNBASE_def NULL_def)
  then have d: "unat (t - KERNBASE) = unat t - 2147483648" by (simp add: unat_sub) (simp add: KERNBASE_def)
  then show "t - KERNBASE \<le> KERNBASE" using u by (simp add: word_le_nat_alt KERNBASE_def)
  have "4096 dvd unat t - 2147483648" using u(1) by (intro dvd_diff_nat) (simp_all add: mod_0_imp_dvd)
  moreover have "unat ((t - KERNBASE) mod 4096) = (unat t - 2147483648) mod 4096"
    by (simp add: unat_mod_distrib d)
  ultimately show "(t - KERNBASE) mod 4096 = 0" by (simp add: unat_eq_zero)
qed

lemma kmem_ok_used: "kmem_ok fs s \<Longrightarrow> \<not> is_free (mem s a) \<Longrightarrow> a \<notin> set fs"
  unfolding kmem_ok_def by blast

lemma walkpgdir_alloc:
  assumes ok: "vm_ok d fs s" and fs: "fs \<noteq> []"
  shows "\<exists>T t fs'. walkpgdir d va True s = Ok (Some (T, unat (PTX va))) t \<and> mem_step s t \<and> vm_ok d fs' t \<and>
    (fs' = fs \<or> fs' = tl fs) \<and> table_of (mem t) d va = Some T \<and>
    (\<forall>vb. pt_entry (mem t) d vb = pt_entry (mem s) d vb) \<and>
    (\<forall>x. x \<notin> set fs \<longrightarrow> (\<forall>w. mem s x \<noteq> WordPage w) \<longrightarrow> mem t x = mem s x)"
proof (cases "table_of (mem s) d va")
  case (Some T)
  then show ?thesis
    using walkpgdir_present [of s d va T True] ok
    by (intro exI [of _ T] exI [of _ s] exI [of _ fs]) (simp add: vm_ok_def)
next
  case None
  obtain a fs' where a: "fs = a # fs'" using fs by (cases fs) auto
  have pd: "pgdir_ok (mem s) d" and km: "kmem_ok (a # fs') s" and lk: "kmem_lockable s"
    using ok a by (simp_all add: vm_ok_def)
  from kalloc_step [OF lk km] obtain nx where
    nx: "mem s a = FreePage nx" "kalloc s = Ok a (s\<lparr>freelist := nx, mem := (mem s)(a := RawPage nx)\<rparr>)"
    by blast
  from pd obtain w where w: "mem s d = WordPage w" "d \<noteq> NULL" by (rule pgdir_okE)
  have ad: "a \<noteq> d" using nx(1) w(1) by auto
  have pp: "phys_page s a" using km by (simp add: kmem_ok_def)
  note ar = phys_page_arith [OF pp]
  have abs: "w (unat (PDX va)) AND PTE_P = 0" using None w(1) by (simp add: table_of_def split: if_splits)
  let ?m = "(mem s)(a := WordPage (\<lambda>_. 0), d := WordPage (w(unat (PDX va) := (a - KERNBASE) OR 7)))"
  let ?t = "s\<lparr>freelist := nx, mem := ?m\<rparr>"
  have walk: "walkpgdir d va True s = Ok (Some (a, unat (PTX va))) ?t"
    using ad ar(1,4)
    by (simp add: walkpgdir_def load_word_word [OF w] abs nx(2) V2P_def put_page_def store_word_word [OF _ w(2)] w
        or_flags fun_upd_twist [OF ad] Let_def)
  have nw: "mem s a \<noteq> WordPage x" for x using nx(1) by simp
  note lt = link_table [OF pd None w(1) ar(2,3,4) nw refl]
  have "d \<notin> set fs'" using kmem_ok_used [OF km, of d] w(1) by simp
  then have "kmem_ok fs' ?t"
    using km nx(1) w(1) ad by (auto simp: kmem_ok_def flist_upd)
  then have "vm_ok d fs' ?t" using lt(1) lk by (simp add: vm_ok_def)
  then show ?thesis
    using walk lt a w(1) by (intro exI [of _ a] exI [of _ ?t] exI [of _ fs']) auto
qed

text \<open>Storing an entry in the table of an address changes the translation of its page only.\<close>

lemma set_entry:
  assumes ok: "pgdir_ok m d" and T: "table_of m d va = Some T" and tw: "m T = WordPage tw"
    and m': "m' = m(T := WordPage (tw(unat (PTX va) := e)))"
  shows "pgdir_ok m' d" "table_of m' d = table_of m d"
    "pt_entry m' d vb = (if unat vb div 4096 = unat va div 4096 then e else pt_entry m d vb)"
proof -
  have Td: "T \<noteq> d" using table_ofD [OF ok T] by simp
  show tab: "table_of m' d = table_of m d" using Td by (simp add: table_of_def m' fun_eq_iff)
  from ok show "pgdir_ok m' d"
    by (rule pgdir_okE) (use Td tw in \<open>auto simp: pgdir_ok_def m'\<close>)
  show "pt_entry m' d vb = (if unat vb div 4096 = unat va div 4096 then e else pt_entry m d vb)"
  proof (cases "table_of m d vb")
    case None
    then have "unat (PDX vb) \<noteq> unat (PDX va)" using T by (metis option.distinct(1) table_of_PDX)
    then have "unat vb div 4096 \<noteq> unat va div 4096" using same_page [of vb va] by blast
    then show ?thesis using None tab by (simp add: pt_entry_def)
  next
    case (Some u)
    show ?thesis
    proof (cases "u = T")
      case True
      then have "unat (PDX vb) = unat (PDX va)" using table_of_inj [OF ok] Some T by blast
      then have "unat (PTX vb) = unat (PTX va) \<longleftrightarrow> unat vb div 4096 = unat va div 4096"
        using same_page [of vb va] by blast
      then show ?thesis using Some True tab tw by (simp add: pt_entry_def m')
    next
      case False
      then have "unat (PDX vb) \<noteq> unat (PDX va)" using Some T by (metis option.inject table_of_PDX)
      then have "unat vb div 4096 \<noteq> unat va div 4096" using same_page [of vb va] by blast
      then show ?thesis using Some False tab by (simp add: pt_entry_def m')
    qed
  qed
qed

lemma kmem_ok_word:
  assumes "kmem_ok fs s" "mem s a = WordPage w"
  shows "kmem_ok fs (s\<lparr>mem := (mem s)(a := WordPage w')\<rparr>)"
proof -
  have "a \<notin> set fs" using kmem_ok_used assms by fastforce
  then show ?thesis using assms by (intro kmem_ok_mem) auto
qed

lemma map_page_ok:
  assumes ok: "vm_ok d fs s" and fs: "fs \<noteq> []" and free: "pt_entry (mem s) d a AND PTE_P = 0"
  shows "\<exists>t fs'. map_page d a pa perm s = Ok True t \<and> mem_step s t \<and> vm_ok d fs' t \<and> (fs' = fs \<or> fs' = tl fs) \<and>
    (\<forall>vb. pt_entry (mem t) d vb =
       (if unat vb div 4096 = unat a div 4096 then pa OR perm OR PTE_P else pt_entry (mem s) d vb)) \<and>
    (\<forall>x. x \<notin> set fs \<longrightarrow> (\<forall>w. mem s x \<noteq> WordPage w) \<longrightarrow> mem t x = mem s x)"
proof -
  obtain T t fs' where walk: "walkpgdir d a True s = Ok (Some (T, unat (PTX a))) t" and st: "mem_step s t"
    and t: "vm_ok d fs' t" and fs': "fs' = fs \<or> fs' = tl fs" and T: "table_of (mem t) d a = Some T"
    and same: "\<forall>vb. pt_entry (mem t) d vb = pt_entry (mem s) d vb"
    and fr: "\<forall>x. x \<notin> set fs \<longrightarrow> (\<forall>w. mem s x \<noteq> WordPage w) \<longrightarrow> mem t x = mem s x"
    using walkpgdir_alloc [OF ok fs, of a] by blast
  have pd: "pgdir_ok (mem t) d" and km: "kmem_ok fs' t" and lk: "kmem_lockable t" using t by (simp_all add: vm_ok_def)
  obtain tw where tw: "mem t T = WordPage tw" "T \<noteq> NULL" using table_ofD [OF pd T] by blast
  let ?e = "pa OR perm OR PTE_P"
  let ?u = "t\<lparr>mem := (mem t)(T := WordPage (tw(unat (PTX a) := ?e)))\<rparr>"
  have "tw (unat (PTX a)) AND PTE_P = 0" using free same [rule_format, of a, symmetric] T tw by (simp add: pt_entry_def)
  then have run: "map_page d a pa perm s = Ok True ?u"
    by (simp add: map_page_def walk load_word_word [OF tw] store_word_word [OF tw])
  note se = set_entry [OF pd T tw(1) refl, of ?e]
  have "vm_ok d fs' ?u" using se(1) kmem_ok_word [OF km tw(1)] lk by (simp add: vm_ok_def)
  moreover have "mem ?u x = mem s x" if "x \<notin> set fs" "\<forall>w. mem s x \<noteq> WordPage w" for x
    using fr that tw(1) by (cases "x = T") auto
  moreover have "mem_step s ?u" by (rule mem_step_trans [OF st]) simp
  ultimately show ?thesis
    using run fs' se(3) same by (intro exI [of _ ?u] exI [of _ fs']) simp
qed

section \<open>Mapping a range\<close>

lemma mem_step_kmem: "mem_step s t \<Longrightarrow> use_lock t = use_lock s \<and> kend t = kend s"
  by (auto simp: mem_step_def)

lemma set_tl_sub: "set (tl xs) \<subseteq> set xs"
  by (cases xs) auto

lemma unat_next_page:
  assumes "unat a + 4096 < 4294967296"
  shows "unat (a + PGSIZE) = unat a + 4096" "unat (a + PGSIZE) div 4096 = unat a div 4096 + 1"
  using unat_page [of a 1] assms by simp_all

lemma mappages_loop_ok:
  assumes "vm_ok d fs s" "n < length fs" "unat b = unat a + n * 4096"
    and "\<And>vb. unat a div 4096 \<le> unat vb div 4096 \<Longrightarrow> unat vb div 4096 \<le> unat a div 4096 + n \<Longrightarrow>
      pt_entry (mem s) d vb AND PTE_P = 0"
  shows "\<exists>t fs'. mappages_loop d a b pa perm s = Some (Ok 0 t) \<and> mem_step s t \<and> vm_ok d fs' t \<and>
    set fs' \<subseteq> set fs \<and> length fs \<le> length fs' + n + 1 \<and>
    (\<forall>vb. pt_entry (mem t) d vb =
       (if unat a div 4096 \<le> unat vb div 4096 \<and> unat vb div 4096 \<le> unat a div 4096 + n
        then (pa + of_nat (unat vb div 4096 - unat a div 4096) * PGSIZE) OR perm OR PTE_P
        else pt_entry (mem s) d vb)) \<and>
    (\<forall>x. x \<notin> set fs \<longrightarrow> (\<forall>w. mem s x \<noteq> WordPage w) \<longrightarrow> mem t x = mem s x)"
  using assms
proof (induction n arbitrary: a pa s fs)
  case 0
  have ab: "a = b" using 0(3) by (simp add: word_unat_eq_iff)
  obtain t fs' where t: "map_page d a pa perm s = Ok True t" "mem_step s t" "vm_ok d fs' t" "fs' = fs \<or> fs' = tl fs"
    "\<forall>vb. pt_entry (mem t) d vb =
       (if unat vb div 4096 = unat a div 4096 then pa OR perm OR PTE_P else pt_entry (mem s) d vb)"
    "\<forall>x. x \<notin> set fs \<longrightarrow> (\<forall>w. mem s x \<noteq> WordPage w) \<longrightarrow> mem t x = mem s x"
    using map_page_ok [OF 0(1), of a pa perm] 0(2) 0(4) [of a] by auto
  have "set fs' \<subseteq> set fs" "length fs \<le> length fs' + 1" using t(4) set_tl_sub [of fs] by auto
  then show ?case
    using t ab by (intro exI [of _ t] exI [of _ fs']) (simp add: mappages_loop.simps)
next
  case (Suc n)
  have big: "unat a + 4096 < 4294967296"
    using Suc.prems(3) unsigned_less [of b, where 'a = nat] by simp
  note nx = unat_next_page [OF big]
  have ab: "a \<noteq> b" using Suc.prems(3) by auto
  have ne: "fs \<noteq> []" using Suc.prems(2) by auto
  obtain t fs' where t: "map_page d a pa perm s = Ok True t" "mem_step s t" "vm_ok d fs' t" "fs' = fs \<or> fs' = tl fs"
    "\<forall>vb. pt_entry (mem t) d vb =
       (if unat vb div 4096 = unat a div 4096 then pa OR perm OR PTE_P else pt_entry (mem s) d vb)"
    "\<forall>x. x \<notin> set fs \<longrightarrow> (\<forall>w. mem s x \<noteq> WordPage w) \<longrightarrow> mem t x = mem s x"
    using map_page_ok [OF Suc.prems(1) ne, of a pa perm] Suc.prems(4) [of a] by auto
  have fs': "set fs' \<subseteq> set fs" "length fs \<le> length fs' + 1" "n < length fs'"
    using t(4) Suc.prems(2) set_tl_sub [of fs] by auto
  obtain u fs'' where u: "mappages_loop d (a + PGSIZE) b (pa + PGSIZE) perm t = Some (Ok 0 u)" "mem_step t u"
    "vm_ok d fs'' u" "set fs'' \<subseteq> set fs'" "length fs' \<le> length fs'' + n + 1"
    "\<forall>vb. pt_entry (mem u) d vb =
       (if unat (a + PGSIZE) div 4096 \<le> unat vb div 4096 \<and> unat vb div 4096 \<le> unat (a + PGSIZE) div 4096 + n
        then (pa + PGSIZE + of_nat (unat vb div 4096 - unat (a + PGSIZE) div 4096) * PGSIZE) OR perm OR PTE_P
        else pt_entry (mem t) d vb)"
    "\<forall>x. x \<notin> set fs' \<longrightarrow> (\<forall>w. mem t x \<noteq> WordPage w) \<longrightarrow> mem u x = mem t x"
    using Suc.IH [OF t(3) fs'(3), of "a + PGSIZE" "pa + PGSIZE"] nx Suc.prems(3,4) t(5) by auto
  have entry: "pt_entry (mem u) d vb =
       (if unat a div 4096 \<le> unat vb div 4096 \<and> unat vb div 4096 \<le> unat a div 4096 + Suc n
        then (pa + of_nat (unat vb div 4096 - unat a div 4096) * PGSIZE) OR perm OR PTE_P
        else pt_entry (mem s) d vb)" for vb
  proof (cases "unat a div 4096 + 1 \<le> unat vb div 4096")
    case True
    then obtain k where k: "unat vb div 4096 = unat a div 4096 + 1 + k" by (metis le_iff_add)
    then show ?thesis using u(6) t(5) nx(2) by (simp add: algebra_simps)
  next
    case False
    then show ?thesis using u(6) t(5) nx(2) by auto
  qed
  have keep: "mem u x = mem s x" if "x \<notin> set fs" "\<forall>w. mem s x \<noteq> WordPage w" for x
    using that t(6) u(7) fs'(1) by (metis subsetD)
  have "mappages_loop d a b pa perm s = Some (Ok 0 u)"
    using t(1) u(1) ab by (subst mappages_loop.simps) simp
  then show ?case
    using u(3,4,5) fs' mem_step_trans [OF t(2) u(2)] entry keep
    by (intro exI [of _ u] exI [of _ fs'']) auto
qed

lemma mappages_ok:
  assumes "vm_ok d fs s" "0 < unat sz" "unat va + unat sz \<le> 4294967296"
    and "n = (unat va + unat sz - 1) div 4096 - unat va div 4096" "n < length fs"
    and "\<And>vb. unat va div 4096 \<le> unat vb div 4096 \<Longrightarrow> unat vb div 4096 \<le> unat va div 4096 + n \<Longrightarrow>
      pt_entry (mem s) d vb AND PTE_P = 0"
  shows "\<exists>t fs'. mappages d va sz pa perm s = Ok 0 t \<and> mem_step s t \<and> vm_ok d fs' t \<and>
    set fs' \<subseteq> set fs \<and> length fs \<le> length fs' + n + 1 \<and>
    (\<forall>vb. pt_entry (mem t) d vb =
       (if unat va div 4096 \<le> unat vb div 4096 \<and> unat vb div 4096 \<le> unat va div 4096 + n
        then (pa + of_nat (unat vb div 4096 - unat va div 4096) * PGSIZE) OR perm OR PTE_P
        else pt_entry (mem s) d vb)) \<and>
    (\<forall>x. x \<notin> set fs \<longrightarrow> (\<forall>w. mem s x \<noteq> WordPage w) \<longrightarrow> mem t x = mem s x)"
proof -
  have "sz \<noteq> 0" using assms(2) by auto
  then have "unat (sz - 1) = unat sz - 1" by (rule unat_minus_one)
  then have "unat (va + (sz - 1)) = unat va + (unat sz - 1)"
    using assms(2,3) by (subst unat_add_lem [THEN iffD1]) simp_all
  then have l: "unat (va + sz - 1) = unat va + unat sz - 1" using assms(2) by (simp add: algebra_simps)
  have le: "unat va div 4096 \<le> (unat va + unat sz - 1) div 4096" using assms(2) by (intro div_le_mono) simp
  then have b: "unat (PGROUNDDOWN (va + sz - 1)) = unat (PGROUNDDOWN va) + n * 4096"
    unfolding unat_PGROUNDDOWN l assms(4) by (simp add: add_mult_distrib [symmetric])
  have a: "unat (PGROUNDDOWN va) div 4096 = unat va div 4096" by (simp add: unat_PGROUNDDOWN)
  show ?thesis
    using mappages_loop_ok [OF assms(1,5) b, of pa perm] assms(6) unfolding mappages_def a by fastforce
qed

lemma mappages_one:
  assumes "vm_ok d fs s" "fs \<noteq> []" "unat a mod 4096 = 0" "pt_entry (mem s) d a AND PTE_P = 0"
  shows "\<exists>t fs'. mappages d a PGSIZE pa perm s = Ok 0 t \<and> mem_step s t \<and> vm_ok d fs' t \<and>
    set fs' \<subseteq> set fs \<and> length fs \<le> length fs' + 1 \<and>
    (\<forall>vb. pt_entry (mem t) d vb =
       (if unat vb div 4096 = unat a div 4096 then pa OR perm OR PTE_P else pt_entry (mem s) d vb)) \<and>
    (\<forall>x. x \<notin> set fs \<longrightarrow> (\<forall>w. mem s x \<noteq> WordPage w) \<longrightarrow> mem t x = mem s x)"
proof -
  have dm: "unat a = unat a div 4096 * 4096" using div_mult_mod_eq [of "unat a" 4096] assms(3) by simp
  have "unat a + 4095 < 4294967296"
  proof -
    have "unat a div 4096 < 1048576" using unsigned_less [of a, where 'a = nat] by simp
    then show ?thesis using dm by linarith
  qed
  then have "unat (a + PGSIZE - 1) = unat a + 4095"
    by (simp add: PGSIZE_def add_diff_eq [symmetric] unat_add_lem [THEN iffD1])
  moreover have "(unat a + 4095) div 4096 = unat a div 4096" using assms(3) by (simp add: div_add1_eq)
  ultimately have r: "PGROUNDDOWN (a + PGSIZE - 1) = PGROUNDDOWN a" "PGROUNDDOWN a = a"
    using dm by (simp_all add: word_unat_eq_iff unat_PGROUNDDOWN)
  obtain t fs' where t: "map_page d a pa perm s = Ok True t" "mem_step s t" "vm_ok d fs' t" "fs' = fs \<or> fs' = tl fs"
    "\<forall>vb. pt_entry (mem t) d vb =
       (if unat vb div 4096 = unat a div 4096 then pa OR perm OR PTE_P else pt_entry (mem s) d vb)"
    "\<forall>x. x \<notin> set fs \<longrightarrow> (\<forall>w. mem s x \<noteq> WordPage w) \<longrightarrow> mem t x = mem s x"
    using map_page_ok [OF assms(1,2,4), of pa perm] by blast
  have "set fs' \<subseteq> set fs" "length fs \<le> length fs' + 1" using t(4) set_tl_sub [of fs] by auto
  then show ?thesis
    using t r by (intro exI [of _ t] exI [of _ fs']) (simp add: mappages_def mappages_loop.simps)
qed

section \<open>Growing user memory\<close>

lemma or_user_flags: "pa OR (PTE_W OR PTE_U) OR PTE_P = pa OR 7"
  by (simp add: PTE_P_def PTE_W_def PTE_U_def or.assoc)

text \<open>Changing a page that holds no words changes no translation.\<close>

lemma page_change:
  assumes ok: "pgdir_ok m d" and nw: "\<And>w. m g \<noteq> WordPage w"
  shows "pgdir_ok (m(g := p)) d" "pt_entry (m(g := p)) d vb = pt_entry m d vb"
    "table_of (m(g := p)) d vb = table_of m d vb"
proof -
  from ok obtain w where w: "m d = WordPage w" "d \<noteq> NULL" and
    i: "\<And>i. i < 1024 \<Longrightarrow> w i AND PTE_P \<noteq> 0 \<Longrightarrow> PTE_ADDR (w i) \<le> KERNBASE \<and>
       PTE_ADDR (w i) + KERNBASE \<noteq> d \<and> PTE_ADDR (w i) + KERNBASE \<noteq> NULL \<and>
       (\<exists>tw. m (PTE_ADDR (w i) + KERNBASE) = WordPage tw)" and
    inj: "\<And>i j. i < 1024 \<Longrightarrow> j < 1024 \<Longrightarrow> w i AND PTE_P \<noteq> 0 \<Longrightarrow> w j AND PTE_P \<noteq> 0 \<Longrightarrow>
       PTE_ADDR (w i) = PTE_ADDR (w j) \<Longrightarrow> i = j"
    by (rule pgdir_okE) blast
  have gd: "g \<noteq> d" using w(1) nw by auto
  have ng: "PTE_ADDR (w i) + KERNBASE \<noteq> g" if "i < 1024" "w i AND PTE_P \<noteq> 0" for i
    using i [OF that] nw by auto
  show "pgdir_ok (m(g := p)) d"
    unfolding pgdir_ok_def by (intro conjI exI [of _ w] w(2)) (use w gd i ng inj in auto)
  show tab: "table_of (m(g := p)) d vb = table_of m d vb" for vb
    using gd by (simp add: table_of_def)
  show "pt_entry (m(g := p)) d vb = pt_entry m d vb"
  proof (cases "table_of m d vb")
    case (Some T)
    then have "T \<noteq> g" using table_ofD [OF ok Some] nw by blast
    then show ?thesis using Some tab by (simp add: pt_entry_def)
  qed (simp add: pt_entry_def tab)
qed

lemma alloc_page_ok:
  assumes ok: "vm_ok d fs s" and fs: "2 \<le> length fs" and a: "unat a mod 4096 = 0"
    and free: "pt_entry (mem s) d a AND PTE_P = 0"
  shows "\<exists>t fs' g. alloc_page d a oldsz newsz s = Ok True t \<and> mem_step s t \<and> vm_ok d fs' t \<and>
    set fs' \<subseteq> set fs \<and> length fs \<le> length fs' + 2 \<and> g \<in> set fs \<and> g \<notin> set fs' \<and>
    mem t g = BytePage (\<lambda>_. 0) \<and>
    (\<forall>vb. pt_entry (mem t) d vb =
       (if unat vb div 4096 = unat a div 4096 then (g - KERNBASE) OR 7 else pt_entry (mem s) d vb)) \<and>
    (\<forall>x. x \<notin> set fs \<longrightarrow> (\<forall>w. mem s x \<noteq> WordPage w) \<longrightarrow> mem t x = mem s x)"
proof -
  obtain g fs1 where g: "fs = g # fs1" using fs by (cases fs) auto
  have pd: "pgdir_ok (mem s) d" and km: "kmem_ok (g # fs1) s" and lk: "kmem_lockable s"
    using ok g by (simp_all add: vm_ok_def)
  from kalloc_step [OF lk km] obtain nx where
    nx: "mem s g = FreePage nx" "kalloc s = Ok g (s\<lparr>freelist := nx, mem := (mem s)(g := RawPage nx)\<rparr>)"
    by blast
  have pp: "phys_page s g" "g \<notin> set fs1" using km by (simp_all add: kmem_ok_def)
  note ar = phys_page_arith [OF pp(1)]
  let ?m = "(mem s)(g := BytePage (\<lambda>_. 0))"
  let ?s = "s\<lparr>freelist := nx, mem := ?m\<rparr>"
  have nw: "mem s g \<noteq> WordPage w" for w using nx(1) by simp
  note pc = page_change [OF pd nw, of "BytePage (\<lambda>_. 0)"]
  have km': "kmem_ok fs1 ?s" using km nx(1) by (auto simp: kmem_ok_def flist_upd)
  have ok1: "vm_ok d fs1 ?s" using pc(1) km' lk by (simp add: vm_ok_def)
  have ne: "fs1 \<noteq> []" and fr: "pt_entry (mem ?s) d a AND PTE_P = 0" using fs g free pc(2) by auto
  obtain t fs' where t: "mappages d a PGSIZE (g - KERNBASE) (PTE_W OR PTE_U) ?s = Ok 0 t" "mem_step ?s t"
    "vm_ok d fs' t" "set fs' \<subseteq> set fs1" "length fs1 \<le> length fs' + 1"
    "\<forall>vb. pt_entry (mem t) d vb = (if unat vb div 4096 = unat a div 4096 then (g - KERNBASE) OR 7
        else pt_entry (mem ?s) d vb)"
    "\<forall>x. x \<notin> set fs1 \<longrightarrow> (\<forall>w. mem ?s x \<noteq> WordPage w) \<longrightarrow> mem t x = mem ?s x"
    using mappages_one [OF ok1 ne a fr, of "g - KERNBASE" "PTE_W OR PTE_U", unfolded or_user_flags] by blast
  have run: "alloc_page d a oldsz newsz s = Ok True t"
    using ar(1,4) t(1) by (simp add: alloc_page_def nx(2) put_page_def V2P_def Let_def)
  have st: "mem_step s t" by (rule mem_step_trans [OF _ t(2)]) simp
  have keep: "mem t x = mem s x" if x: "x \<notin> set fs" "\<forall>w. mem s x \<noteq> WordPage w" for x
    using x t(7) g by simp
  show ?thesis
    using run st t(3,4,5,6,7) pp(2) g keep pc(2)
    by (intro exI [of _ t] exI [of _ fs'] exI [of _ g]) auto
qed

lemma allocuvm_loop_ok:
  assumes "vm_ok d fs s" "2 * n \<le> length fs" "unat a mod 4096 = 0"
    and "unat newsz \<le> unat a + n * 4096" "n = 0 \<or> unat a + n * 4096 < unat newsz + 4096"
    and "unat newsz < 2147483648"
    and "\<And>vb. unat a div 4096 \<le> unat vb div 4096 \<Longrightarrow> unat vb div 4096 < unat a div 4096 + n \<Longrightarrow>
      pt_entry (mem s) d vb AND PTE_P = 0"
  shows "\<exists>t fs' g. allocuvm_loop d a oldsz newsz s = Some (Ok newsz t) \<and> mem_step s t \<and> vm_ok d fs' t \<and>
    set fs' \<subseteq> set fs \<and> (\<forall>i < n. g i \<in> set fs \<and> g i \<notin> set fs' \<and> mem t (g i) = BytePage (\<lambda>_. 0)) \<and>
    inj_on g {..<n} \<and>
    (\<forall>vb. pt_entry (mem t) d vb =
       (if unat a div 4096 \<le> unat vb div 4096 \<and> unat vb div 4096 < unat a div 4096 + n
        then (g (unat vb div 4096 - unat a div 4096) - KERNBASE) OR 7 else pt_entry (mem s) d vb)) \<and>
    (\<forall>x. x \<notin> set fs \<longrightarrow> (\<forall>w. mem s x \<noteq> WordPage w) \<longrightarrow> mem t x = mem s x)"
  using assms
proof (induction n arbitrary: a s fs)
  case 0
  then have "\<not> a < newsz" by (simp add: word_less_nat_alt)
  then show ?case
    using 0(1) by (intro exI [of _ s] exI [of _ fs] exI) (auto simp: allocuvm_loop.simps)
next
  case (Suc n)
  have lt: "a < newsz" "unat a + 4096 < 4294967296" using Suc.prems by (simp_all add: word_less_nat_alt)
  note nx = unat_next_page [OF lt(2)]
  have len: "2 \<le> length fs" using Suc.prems(2) by simp
  obtain t fs1 p where t: "alloc_page d a oldsz newsz s = Ok True t" "mem_step s t" "vm_ok d fs1 t"
    "set fs1 \<subseteq> set fs" "length fs \<le> length fs1 + 2" "p \<in> set fs" "p \<notin> set fs1" "mem t p = BytePage (\<lambda>_. 0)"
    "\<forall>vb. pt_entry (mem t) d vb =
       (if unat vb div 4096 = unat a div 4096 then (p - KERNBASE) OR 7 else pt_entry (mem s) d vb)"
    "\<forall>x. x \<notin> set fs \<longrightarrow> (\<forall>w. mem s x \<noteq> WordPage w) \<longrightarrow> mem t x = mem s x"
    using alloc_page_ok [OF Suc.prems(1) len Suc.prems(3), of oldsz newsz] Suc.prems(7) [of a] by auto
  have "\<exists>u fs' g. allocuvm_loop d (a + PGSIZE) oldsz newsz t = Some (Ok newsz u) \<and> mem_step t u \<and> vm_ok d fs' u \<and>
    set fs' \<subseteq> set fs1 \<and> (\<forall>i < n. g i \<in> set fs1 \<and> g i \<notin> set fs' \<and> mem u (g i) = BytePage (\<lambda>_. 0)) \<and>
    inj_on g {..<n} \<and>
    (\<forall>vb. pt_entry (mem u) d vb =
       (if unat (a + PGSIZE) div 4096 \<le> unat vb div 4096 \<and> unat vb div 4096 < unat (a + PGSIZE) div 4096 + n
        then (g (unat vb div 4096 - unat (a + PGSIZE) div 4096) - KERNBASE) OR 7 else pt_entry (mem t) d vb)) \<and>
    (\<forall>x. x \<notin> set fs1 \<longrightarrow> (\<forall>w. mem t x \<noteq> WordPage w) \<longrightarrow> mem u x = mem t x)"
    by (rule Suc.IH) (use t(3,5,9) nx Suc.prems in \<open>auto simp: mod_add_right_eq\<close>)
  then obtain u fs' g where u: "allocuvm_loop d (a + PGSIZE) oldsz newsz t = Some (Ok newsz u)" "mem_step t u"
    "vm_ok d fs' u" "set fs' \<subseteq> set fs1"
    "\<forall>i < n. g i \<in> set fs1 \<and> g i \<notin> set fs' \<and> mem u (g i) = BytePage (\<lambda>_. 0)" "inj_on g {..<n}"
    "\<forall>vb. pt_entry (mem u) d vb =
       (if unat (a + PGSIZE) div 4096 \<le> unat vb div 4096 \<and> unat vb div 4096 < unat (a + PGSIZE) div 4096 + n
        then (g (unat vb div 4096 - unat (a + PGSIZE) div 4096) - KERNBASE) OR 7 else pt_entry (mem t) d vb)"
    "\<forall>x. x \<notin> set fs1 \<longrightarrow> (\<forall>w. mem t x \<noteq> WordPage w) \<longrightarrow> mem u x = mem t x"
    by blast
  let ?g = "case_nat p g"
  have run: "allocuvm_loop d a oldsz newsz s = Some (Ok newsz u)"
    using lt(1) t(1) u(1) by (subst allocuvm_loop.simps) simp
  have pages: "?g i \<in> set fs \<and> ?g i \<notin> set fs' \<and> mem u (?g i) = BytePage (\<lambda>_. 0)" if "i < Suc n" for i
    using that t(4,6,7,8) u(4,5,8) by (cases i) auto
  have inj: "inj_on ?g {..<Suc n}"
    using u(5,6) t(7) by (auto simp: inj_on_def split: nat.split)
  have entry: "pt_entry (mem u) d vb =
       (if unat a div 4096 \<le> unat vb div 4096 \<and> unat vb div 4096 < unat a div 4096 + Suc n
        then (?g (unat vb div 4096 - unat a div 4096) - KERNBASE) OR 7 else pt_entry (mem s) d vb)" for vb
  proof (cases "unat a div 4096 + 1 \<le> unat vb div 4096")
    case True
    then obtain k where k: "unat vb div 4096 = unat a div 4096 + 1 + k" by (metis le_iff_add)
    then show ?thesis using u(7) t(9) nx(2) by simp
  next
    case False
    then show ?thesis using u(7) t(9) nx(2) by auto
  qed
  have keep: "mem u x = mem s x" if "x \<notin> set fs" "\<forall>w. mem s x \<noteq> WordPage w" for x
    using that t(4,10) u(8) by (metis subsetD)
  show ?case
    using run mem_step_trans [OF t(2) u(2)] u(3,4) t(4) pages inj entry keep
    by (intro exI [of _ u] exI [of _ fs'] exI [of _ ?g]) blast
qed

section \<open>Copying to user memory\<close>

definition user_entry :: "addr \<Rightarrow> bool" where
  "user_entry e = (e AND PTE_P \<noteq> 0 \<and> e AND PTE_U \<noteq> 0)"

definition frame_of :: "(addr \<Rightarrow> page) \<Rightarrow> addr \<Rightarrow> addr \<Rightarrow> addr" where
  "frame_of m d va = PTE_ADDR (pt_entry m d va) + KERNBASE"

definition ubyte :: "(addr \<Rightarrow> page) \<Rightarrow> addr \<Rightarrow> addr \<Rightarrow> byte option" where
  "ubyte m d va =
     (if user_entry (pt_entry m d va)
      then (case m (frame_of m d va) of BytePage f \<Rightarrow> Some (f (unat va mod 4096)) | _ \<Rightarrow> None)
      else None)"

lemma and_PTE_0 [simp]: "0 AND PTE_P = 0" "0 AND PTE_U = 0" by simp_all

lemma uva2ka_closed:
  assumes "pgdir_ok (mem s) d"
  shows "uva2ka d va s =
    (if table_of (mem s) d va = None then Fault ''uva2ka: null pte''
     else if user_entry (pt_entry (mem s) d va) then P2V (PTE_ADDR (pt_entry (mem s) d va)) s
     else Ok NULL s)"
proof (cases "table_of (mem s) d va")
  case None
  then show ?thesis by (simp add: uva2ka_def walkpgdir_absent [OF assms])
next
  case (Some T)
  then obtain tw where tw: "mem s T = WordPage tw" "T \<noteq> NULL" using table_ofD [OF assms Some] by blast
  have "pt_entry (mem s) d va = tw (unat (PTX va))" using Some tw by (simp add: pt_entry_def)
  then show ?thesis
    using Some by (simp add: uva2ka_def walkpgdir_present [OF assms Some] load_word_word [OF tw] user_entry_def)
qed

lemma uva2ka_Ok:
  assumes "pgdir_ok (mem s) d" "uva2ka d va s = Ok x t" "x \<noteq> NULL"
  shows "t = s" "user_entry (pt_entry (mem s) d va)" "x = frame_of (mem s) d va"
  using assms by (auto simp: uva2ka_closed P2V_def frame_of_def split: if_splits)

lemma write_bytes_Ok:
  assumes "write_bytes a off bs s = Ok u t"
  obtains f where "mem s a = BytePage f" "t = s\<lparr>mem := (mem s)(a := BytePage (page_bytes bs off f))\<rparr>"
  using assms by (auto simp: write_bytes_def put_page_def split: page.splits)

text \<open>What a run of \<^verbatim>\<open>copyout\<close> does before its next iteration.\<close>

lemma copyout_step:
  assumes "pgdir_ok (mem s) d" "copyout d va buf s = Ok r t" "buf \<noteq> []"
  obtains "t = s" "r = - 1"
  | f n where "user_entry (pt_entry (mem s) d (PGROUNDDOWN va))"
      "mem s (frame_of (mem s) d (PGROUNDDOWN va)) = BytePage f"
      "n = min (4096 - unat va mod 4096) (length buf)"
      "copyout d (PGROUNDDOWN va + PGSIZE) (drop n buf)
         (s\<lparr>mem := (mem s)(frame_of (mem s) d (PGROUNDDOWN va) :=
            BytePage (page_bytes (take n buf) (unat va mod 4096) f))\<rparr>) = Ok r t"
proof -
  from assms(2,3) obtain x s' where x: "uva2ka d (PGROUNDDOWN va) s = Ok x s'"
    by (subst (asm) copyout.simps) (auto simp: Let_def elim!: bindo_OkE)
  show thesis
  proof (cases "x = NULL")
    case True
    then have "s' = s" using assms(1) x by (auto simp: uva2ka_closed P2V_def split: if_splits)
    with True x assms(2,3) have "t = s" "r = - 1" by (subst (asm) copyout.simps, simp)+
    then show thesis by (rule that(1))
  next
    case False
    note u = uva2ka_Ok [OF assms(1) x False]
    let ?n = "min (4096 - unat va mod 4096) (length buf)"
    have n: "(if length buf < 4096 - unat va mod 4096 then length buf else 4096 - unat va mod 4096) = ?n"
      by simp
    obtain s'' where w: "write_bytes x (unat va mod 4096) (take ?n buf) s = Ok () s''"
      and c: "copyout d (PGROUNDDOWN va + PGSIZE) (drop ?n buf) s'' = Ok r t"
      using assms(2,3) x False u(1)
      by (subst (asm) copyout.simps) (auto simp: Let_def unat_page_rest unat_page_offset n elim!: bindo_OkE)
    from w obtain f where "mem s x = BytePage f"
      "s'' = s\<lparr>mem := (mem s)(x := BytePage (page_bytes (take ?n buf) (unat va mod 4096) f))\<rparr>"
      by (rule write_bytes_Ok)
    with c u show thesis by (intro that(2) [of f ?n]) simp_all
  qed
qed

lemma copyout_safe:
  assumes "pgdir_ok (mem s) d" "copyout d va buf s = Ok r t"
  shows "pgdir_ok (mem t) d \<and> (\<forall>vb. pt_entry (mem t) d vb = pt_entry (mem s) d vb) \<and>
    (\<forall>x. mem t x \<noteq> mem s x \<longrightarrow> (\<exists>vb. user_entry (pt_entry (mem s) d vb) \<and> x = frame_of (mem s) d vb))"
  using assms
proof (induction "length buf" arbitrary: va buf s rule: less_induct)
  case less
  show ?case
  proof (cases "buf = []")
    case True
    then show ?thesis using less.prems by (simp add: copyout.simps)
  next
    case False
    from less.prems(1,2) False show ?thesis
    proof (cases rule: copyout_step)
      case 1
      then show ?thesis using less.prems(1) by simp
    next
      case (2 f n)
      let ?x = "frame_of (mem s) d (PGROUNDDOWN va)"
      let ?p = "BytePage (page_bytes (take n buf) (unat va mod 4096) f)"
      have nw: "mem s ?x \<noteq> WordPage w" for w using 2(2) by simp
      note pc = page_change [OF less.prems(1) nw, of ?p]
      have n: "length (drop n buf) < length buf" using False 2(3) by simp
      have fr: "frame_of ((mem s)(?x := ?p)) d vb = frame_of (mem s) d vb" for vb
        using pc(2) by (simp add: frame_of_def)
      show ?thesis
        using less.hyps [OF n _ 2(4)] pc 2(1) fr by (fastforce split: if_splits)
    qed
  qed
qed

definition user_ok :: "(addr \<Rightarrow> page) \<Rightarrow> addr \<Rightarrow> bool" where
  "user_ok m d =
     (pgdir_ok m d \<and>
      (\<forall>va. user_entry (pt_entry m d va) \<longrightarrow>
         PTE_ADDR (pt_entry m d va) \<le> KERNBASE \<and> frame_of m d va \<noteq> NULL \<and>
         (\<exists>f. m (frame_of m d va) = BytePage f)) \<and>
      (\<forall>va vb. user_entry (pt_entry m d va) \<longrightarrow> user_entry (pt_entry m d vb) \<longrightarrow>
         frame_of m d va = frame_of m d vb \<longrightarrow> unat va div 4096 = unat vb div 4096))"

lemma pt_entry_page:
  "unat a div 4096 = unat b div 4096 \<Longrightarrow> pt_entry m d a = pt_entry m d b \<and> frame_of m d a = frame_of m d b"
  using same_page [of a b] table_of_PDX [of a b m d]
  by (simp add: pt_entry_def frame_of_def split: option.split page.split)

lemma user_entry_table: "user_entry (pt_entry m d va) \<Longrightarrow> table_of m d va \<noteq> None"
  by (cases "table_of m d va") (simp_all add: pt_entry_def user_entry_def)

lemma user_page_write:
  assumes ok: "user_ok m d" and e: "user_entry (pt_entry m d va)" and f: "m (frame_of m d va) = BytePage f"
    and m': "m' = m(frame_of m d va := BytePage g)"
  shows "user_ok m' d" "pt_entry m' d vb = pt_entry m d vb"
    "ubyte m' d vb = (if unat vb div 4096 = unat va div 4096 then Some (g (unat vb mod 4096)) else ubyte m d vb)"
proof -
  have pd: "pgdir_ok m d" using ok unfolding user_ok_def by blast
  have nw: "m (frame_of m d va) \<noteq> WordPage w" for w using f by simp
  note pc = page_change [OF pd nw, of "BytePage g", folded m']
  show ent: "pt_entry m' d vb = pt_entry m d vb" for vb by (rule pc(2))
  then have fr: "frame_of m' d vb = frame_of m d vb" for vb by (simp add: frame_of_def)
  have mx: "m' x = (if x = frame_of m d va then BytePage g else m x)" for x by (simp add: m')
  have byte: "\<exists>h. m' (frame_of m d vb) = BytePage h" if "user_entry (pt_entry m d vb)" for vb
    using ok that by (auto simp: user_ok_def m')
  then show "user_ok m' d" using ok pc(1) unfolding user_ok_def ent fr by blast
  show "ubyte m' d vb = (if unat vb div 4096 = unat va div 4096 then Some (g (unat vb mod 4096)) else ubyte m d vb)"
  proof (cases "unat vb div 4096 = unat va div 4096")
    case True
    then show ?thesis using pt_entry_page [OF True, of m d] e by (simp add: ubyte_def ent fr mx)
  next
    case False
    then have "frame_of m d vb \<noteq> frame_of m d va" if "user_entry (pt_entry m d vb)"
      using ok e that unfolding user_ok_def by blast
    then show ?thesis using False by (simp add: ubyte_def ent fr mx)
  qed
qed

lemma copyout_page:
  assumes ok: "user_ok (mem s) d" and e: "user_entry (pt_entry (mem s) d va)" and buf: "buf \<noteq> []"
    and n: "n = min (4096 - unat va mod 4096) (length buf)"
  shows "\<exists>t. copyout d va buf s = copyout d (PGROUNDDOWN va + PGSIZE) (drop n buf) t \<and> user_ok (mem t) d \<and>
    (\<forall>vb. pt_entry (mem t) d vb = pt_entry (mem s) d vb) \<and>
    (\<forall>vb. ubyte (mem t) d vb =
       (if unat va \<le> unat vb \<and> unat vb < unat va + n then Some (buf ! (unat vb - unat va)) else ubyte (mem s) d vb))"
proof -
  let ?a = "PGROUNDDOWN va" and ?x = "frame_of (mem s) d va"
  have pg: "pt_entry (mem s) d ?a = pt_entry (mem s) d va" "frame_of (mem s) d ?a = ?x"
    using pt_entry_page [of ?a va "mem s" d] by (simp_all add: unat_PGROUNDDOWN)
  have pd: "pgdir_ok (mem s) d" and x: "PTE_ADDR (pt_entry (mem s) d va) \<le> KERNBASE" "?x \<noteq> NULL"
    and "\<exists>f. mem s ?x = BytePage f" using ok e unfolding user_ok_def by blast+
  then obtain f where f: "mem s ?x = BytePage f" by blast
  have u: "uva2ka d ?a s = Ok ?x s"
    using uva2ka_closed [OF pd, of ?a] user_entry_table [of "mem s" d ?a] e x pg
    by (simp add: P2V_def frame_of_def)
  let ?g = "page_bytes (take n buf) (unat va mod 4096) f"
  let ?t = "s\<lparr>mem := (mem s)(?x := BytePage ?g)\<rparr>"
  have nn: "(if length buf < 4096 - unat va mod 4096 then length buf else 4096 - unat va mod 4096) = n"
    using n by simp
  have run: "copyout d va buf s = copyout d (?a + PGSIZE) (drop n buf) ?t"
    using buf x(2)
    by (subst copyout.simps) (simp add: Let_def u unat_page_rest unat_page_offset nn write_bytes_def f put_page_def)
  note w = user_page_write [OF ok e f refl, of ?g]
  have byte: "ubyte (mem ?t) d vb = (if unat va \<le> unat vb \<and> unat vb < unat va + n
      then Some (buf ! (unat vb - unat va)) else ubyte (mem s) d vb)" for vb
  proof (cases "unat vb div 4096 = unat va div 4096")
    case True
    let ?k = "unat va div 4096"
    have v: "unat va = ?k * 4096 + unat va mod 4096" "unat vb = ?k * 4096 + unat vb mod 4096"
      using div_mult_mod_eq [of "unat va" 4096] div_mult_mod_eq [of "unat vb" 4096] True by simp_all
    have "ubyte (mem s) d vb = Some (f (unat vb mod 4096))"
      using pt_entry_page [OF True, of "mem s" d] e f by (simp add: ubyte_def)
    moreover have "(unat va \<le> unat vb) = (unat va mod 4096 \<le> unat vb mod 4096)"
      "(unat vb < unat va + n) = (unat vb mod 4096 < unat va mod 4096 + n)"
      "unat vb - unat va = unat vb mod 4096 - unat va mod 4096" using v by linarith+
    moreover have "length (take n buf) = n" using n by simp
    moreover have "take n buf ! (unat vb mod 4096 - unat va mod 4096) = buf ! (unat vb mod 4096 - unat va mod 4096)"
      if "unat va mod 4096 \<le> unat vb mod 4096" "unat vb mod 4096 < unat va mod 4096 + n"
      by (rule nth_take) (use that in linarith)
    ultimately show ?thesis using w(3) [of vb] True by (auto simp: page_bytes_def)
  next
    case False
    have "unat va mod 4096 + n \<le> 4096" using n mod_less_divisor [of 4096 "unat va"] by simp
    then have up: "unat va + n \<le> (unat va div 4096 + 1) * 4096" using div_mult_mod_eq [of "unat va" 4096] unfolding add_mult_distrib by linarith
    have "unat vb div 4096 = unat va div 4096" if "unat va \<le> unat vb" "unat vb < unat va + n"
    proof -
      have "unat va div 4096 \<le> unat vb div 4096" using that(1) by (rule div_le_mono)
      moreover have "unat vb div 4096 < unat va div 4096 + 1"
        using that(2) up by (intro less_mult_imp_div_less) linarith
      ultimately show ?thesis by simp
    qed
    then have "\<not> (unat va \<le> unat vb \<and> unat vb < unat va + n)" using False by blast
    then show ?thesis using w(3) [of vb] False by auto
  qed
  show ?thesis
    using run w(1,2) byte by (intro exI [of _ ?t]) simp
qed

lemma copyout_stores:
  assumes "user_ok (mem s) d" "unat va + length buf \<le> 2147483648"
    and "\<And>vb. unat va \<le> unat vb \<Longrightarrow> unat vb < unat va + length buf \<Longrightarrow> user_entry (pt_entry (mem s) d vb)"
  shows "\<exists>t. copyout d va buf s = Ok 0 t \<and>
    (\<forall>vb. ubyte (mem t) d vb =
       (if unat va \<le> unat vb \<and> unat vb < unat va + length buf then Some (buf ! (unat vb - unat va))
        else ubyte (mem s) d vb))"
  using assms
proof (induction "length buf" arbitrary: va buf s rule: less_induct)
  case less
  show ?case
  proof (cases "buf = []")
    case True
    then show ?thesis by (intro exI [of _ s]) (auto simp: copyout.simps)
  next
    case False
    define n where "n = min (4096 - unat va mod 4096) (length buf)"
    have e: "user_entry (pt_entry (mem s) d va)" using less.prems(3) [of va] False by simp
    obtain u where u: "copyout d va buf s = copyout d (PGROUNDDOWN va + PGSIZE) (drop n buf) u"
      "user_ok (mem u) d" "\<And>vb. pt_entry (mem u) d vb = pt_entry (mem s) d vb"
      "\<And>vb. ubyte (mem u) d vb = (if unat va \<le> unat vb \<and> unat vb < unat va + n
         then Some (buf ! (unat vb - unat va)) else ubyte (mem s) d vb)"
      using copyout_page [OF less.prems(1) e False n_def] by blast
    have n: "0 < n" "n \<le> length buf" using False by (simp_all add: n_def)
    show ?thesis
    proof (cases "n = length buf")
      case True
      then have "copyout d va buf s = Ok 0 u" using u(1) by (simp add: copyout.simps)
      then show ?thesis using u(4) True by (intro exI [of _ u]) simp
    next
      case f: False
      then have n': "n = 4096 - unat va mod 4096" using n_def n(2) by simp
      have m: "unat va mod 4096 < 4096" by simp
      have va: "unat va = unat va div 4096 * 4096 + unat va mod 4096" by (simp add: div_mult_mod_eq)
      have nva: "unat va + n = unat va div 4096 * 4096 + 4096" using va m n' by linarith
      then have "unat (PGROUNDDOWN va) + 4096 < 4294967296"
        using less.prems(2) n(2) by (simp add: unat_PGROUNDDOWN)
      then have a: "unat (PGROUNDDOWN va + PGSIZE) = unat va + n"
        using unat_next_page(1) [of "PGROUNDDOWN va"] nva by (simp add: unat_PGROUNDDOWN)
      have len: "length (drop n buf) < length buf" using n False by simp
      obtain t where t: "copyout d (PGROUNDDOWN va + PGSIZE) (drop n buf) u = Ok 0 t"
        "\<And>vb. ubyte (mem t) d vb =
          (if unat va + n \<le> unat vb \<and> unat vb < unat va + length buf then Some (drop n buf ! (unat vb - (unat va + n)))
           else ubyte (mem u) d vb)"
        using less.hyps [OF len u(2), of "PGROUNDDOWN va + PGSIZE"] less.prems(2,3) n(2) by (auto simp: a u(3))
      have "ubyte (mem t) d vb = (if unat va \<le> unat vb \<and> unat vb < unat va + length buf
          then Some (buf ! (unat vb - unat va)) else ubyte (mem s) d vb)" for vb
        using t(2) [of vb] u(4) [of vb] n by (auto simp: nth_drop)
      then show ?thesis using u(1) t(1) by (intro exI [of _ t]) simp
    qed
  qed
qed

section \<open>Properties\<close>

text \<open>
  C20: \<^verbatim>\<open>mappages\<close> on an unmapped range returns 0 and gives page \<open>i\<close> of the range the entry for
  physical page \<open>pa + i * 4096\<close> with the permissions and the present bit; the translation of every
  address outside the range is unchanged, whatever page tables it had to allocate.
\<close>

theorem mappages_maps_range:
  assumes "vm_ok d fs s" "0 < unat sz" "unat va + unat sz \<le> 4294967296"
    and "n = (unat va + unat sz - 1) div 4096 - unat va div 4096" "n < length fs"
    and "\<And>vb. unat va div 4096 \<le> unat vb div 4096 \<Longrightarrow> unat vb div 4096 \<le> unat va div 4096 + n \<Longrightarrow>
      pt_entry (mem s) d vb AND PTE_P = 0"
  shows "\<exists>t. mappages d va sz pa perm s = Ok 0 t \<and> pgdir_ok (mem t) d \<and>
    (\<forall>vb. pt_entry (mem t) d vb =
       (if unat va div 4096 \<le> unat vb div 4096 \<and> unat vb div 4096 \<le> unat va div 4096 + n
        then (pa + of_nat (unat vb div 4096 - unat va div 4096) * PGSIZE) OR perm OR PTE_P
        else pt_entry (mem s) d vb))"
  using mappages_ok [OF assms, of pa perm] by (auto simp: vm_ok_def)

text \<open>
  C19: \<^verbatim>\<open>allocuvm\<close> from \<open>oldsz\<close> to \<open>newsz\<close>, with enough free pages, returns \<open>newsz\<close> and maps every
  new page, writable and for the user, to a page of its own that was free and now holds zeros;
  all other translations are unchanged.
\<close>

theorem allocuvm_zeroed_pages:
  assumes "vm_ok d fs s" "oldsz \<le> newsz" "newsz < KERNBASE"
    and "k = (unat oldsz + 4095) div 4096" "n = (unat newsz + 4095) div 4096 - k" "2 * n \<le> length fs"
    and "\<And>vb. k \<le> unat vb div 4096 \<Longrightarrow> unat vb div 4096 < k + n \<Longrightarrow> pt_entry (mem s) d vb AND PTE_P = 0"
  shows "\<exists>t g. allocuvm d oldsz newsz s = Ok newsz t \<and> pgdir_ok (mem t) d \<and> inj_on g {..<n} \<and>
    (\<forall>i < n. g i \<in> set fs \<and> mem t (g i) = BytePage (\<lambda>_. 0)) \<and>
    (\<forall>vb. pt_entry (mem t) d vb =
       (if k \<le> unat vb div 4096 \<and> unat vb div 4096 < k + n
        then (g (unat vb div 4096 - k) - KERNBASE) OR (PTE_W OR PTE_U) OR PTE_P else pt_entry (mem s) d vb))"
proof -
  have lt: "unat oldsz \<le> unat newsz" "unat newsz < 2147483648"
    using assms(2,3) by (simp_all add: word_le_nat_alt word_less_nat_alt KERNBASE_def)
  have up: "unat (PGROUNDUP oldsz) = k * 4096" using unat_PGROUNDUP [of oldsz] lt assms(4) by simp
  have kn: "k + n = (unat newsz + 4095) div 4096"
    using assms(4,5) div_le_mono [of "unat oldsz + 4095" "unat newsz + 4095" 4096] lt(1) by simp
  have b: "unat newsz + 4095 < (k + n) * 4096 + 4096" "(k + n) * 4096 \<le> unat newsz + 4095"
    unfolding kn using div_mult_mod_eq [of "unat newsz + 4095" 4096] mod_less_divisor [of 4096 "unat newsz + 4095"]
    by linarith+
  obtain t fs' g where t: "allocuvm_loop d (PGROUNDUP oldsz) oldsz newsz s = Some (Ok newsz t)" "vm_ok d fs' t"
    "\<forall>i < n. g i \<in> set fs \<and> g i \<notin> set fs' \<and> mem t (g i) = BytePage (\<lambda>_. 0)" "inj_on g {..<n}"
    "\<forall>vb. pt_entry (mem t) d vb =
       (if k \<le> unat vb div 4096 \<and> unat vb div 4096 < k + n
        then (g (unat vb div 4096 - k) - KERNBASE) OR 7 else pt_entry (mem s) d vb)"
    using allocuvm_loop_ok [OF assms(1,6), of "PGROUNDUP oldsz" newsz oldsz] up b lt(2) assms(7)
    by (auto simp: algebra_simps)
  have "\<not> KERNBASE \<le> newsz" "\<not> newsz < oldsz" using assms(2,3) by auto
  then have "allocuvm d oldsz newsz s = Ok newsz t" using t(1) by (simp add: allocuvm_def)
  then show ?thesis
    using t(2,3,4,5) by (intro exI [of _ t] exI [of _ g]) (simp add: vm_ok_def or_user_flags)
qed

text \<open>
  C21: Whatever the user passes as address and length, \<^verbatim>\<open>copyout\<close> changes only pages that the page
  directory maps present and accessible to the user, and no translation.
\<close>

theorem copyout_writes_only_user_pages:
  assumes "pgdir_ok (mem s) d" "copyout d va buf s = Ok r t"
  shows "pt_entry (mem t) d = pt_entry (mem s) d \<and>
    {x. mem t x \<noteq> mem s x} \<subseteq> {PTE_ADDR (pt_entry (mem s) d vb) + KERNBASE | vb.
       pt_entry (mem s) d vb AND PTE_P \<noteq> 0 \<and> pt_entry (mem s) d vb AND PTE_U \<noteq> 0}"
  using copyout_safe [OF assms] by (auto simp: user_entry_def frame_of_def fun_eq_iff)

text \<open>
  C22: On a range of user pages \<^verbatim>\<open>copyout\<close> returns 0; afterwards the user reads the buffer in the
  range and the old bytes everywhere else, also when the range crosses page boundaries.
\<close>

theorem copyout_user_reads_buffer:
  assumes "user_ok (mem s) d" "unat va + length buf \<le> 2147483648"
    and "\<And>vb. unat va \<le> unat vb \<Longrightarrow> unat vb < unat va + length buf \<Longrightarrow> user_entry (pt_entry (mem s) d vb)"
  shows "\<exists>t. copyout d va buf s = Ok 0 t \<and>
    (\<forall>vb. ubyte (mem t) d vb =
       (if unat va \<le> unat vb \<and> unat vb < unat va + length buf then Some (buf ! (unat vb - unat va))
        else ubyte (mem s) d vb))"
  by (rule copyout_stores [OF assms])

text \<open>
  C35: \<^verbatim>\<open>copyout\<close> to an address for which the page directory has no page table dereferences the
  null pointer \<^verbatim>\<open>walkpgdir\<close> returned, instead of returning -1 as for an unmapped page.
\<close>

theorem copyout_without_table_faults:
  assumes "pgdir_ok (mem s) d" "table_of (mem s) d va = None" "buf \<noteq> []"
  shows "copyout d va buf s = Fault ''uva2ka: null pte''"
proof -
  have "table_of (mem s) d (PGROUNDDOWN va) = None"
    using assms(2) table_of_PDX [of "PGROUNDDOWN va" va] same_page [of "PGROUNDDOWN va" va]
    by (simp add: unat_PGROUNDDOWN)
  then show ?thesis using assms(3) by (simp add: copyout.simps uva2ka_closed [OF assms(1)] Let_def)
qed

section \<open>Witnesses\<close>

text \<open>
  A page directory at \<open>0x80300000\<close>, empty in \<open>demo_vm\<close>; in \<open>demo_user\<close> with a page table that
  maps the first user page to \<open>0x80302000\<close>.
\<close>

definition demo_vm :: "nat \<Rightarrow> kout" where
  "demo_vm n = kmem.extend ((demo_kmem n)\<lparr>mem := (mem (demo_kmem n))(0x80300000 := WordPage (\<lambda>_. 0))\<rparr>)
     \<lparr>cons_locking = False, outbuf = []\<rparr>"

definition demo_user :: "nat \<Rightarrow> kout" where
  "demo_user n = (demo_vm n)\<lparr>mem := (mem (demo_vm n))
     (0x80300000 := WordPage (\<lambda>i. if i = 0 then 0x301007 else 0),
      0x80301000 := WordPage (\<lambda>i. if i = 0 then 0x302007 else 0),
      0x80302000 := BytePage (\<lambda>_. 0))\<rparr>"

lemma demo_vm_ok: "n \<le> 50000 \<Longrightarrow> vm_ok 0x80300000 (demo_pages n) (demo_vm n)"
proof -
  assume n: "n \<le> 50000"
  have "kend (demo_kmem n) = 0x80400000" by (simp add: demo_kmem_def)
  then have "0x80300000 \<notin> set (demo_pages n)"
    using demo_pages_phys [OF n, of "demo_kmem n" "0x80300000"] by (auto simp: phys_page_unat)
  then have "kmem_ok (demo_pages n) ((demo_kmem n)\<lparr>mem := (mem (demo_kmem n))(0x80300000 := WordPage (\<lambda>_. 0))\<rparr>)"
    using demo_kmem_ok [OF n] by (intro kmem_ok_mem) (auto simp: kmem_ok_def)
  then have "kmem_ok (demo_pages n) (demo_vm n)"
    by (simp add: demo_vm_def kmem_ok_def phys_page_def kmem.defs demo_kmem_def)
  moreover have "kmem_lockable (demo_vm n)"
    by (simp add: demo_vm_def kmem_lockable_def demo_kmem_def cpu_ok_def cpu_index_def lock_free_def kmem.defs)
  moreover have "pgdir_ok (mem (demo_vm n)) 0x80300000"
    by (simp add: pgdir_ok_def demo_vm_def kmem.defs NULL_def)
  ultimately show ?thesis by (simp add: vm_ok_def)
qed

lemma demo_vm_entry: "pt_entry (mem (demo_vm n)) 0x80300000 vb = 0" "table_of (mem (demo_vm n)) 0x80300000 vb = None"
  by (simp_all add: pt_entry_def table_of_def demo_vm_def kmem.defs)

theorem mappages_maps_range_witness:
  "\<exists>t. mappages 0x80300000 0x3FFF00 0x1200 0x5000 PTE_W (demo_vm 8) = Ok 0 t \<and>
     pt_entry (mem t) 0x80300000 0x3FFFFC = 0x5003 \<and> pt_entry (mem t) 0x80300000 0x400004 = 0x6003 \<and>
     pt_entry (mem t) 0x80300000 0x402000 = 0"
proof -
  have "\<exists>t. mappages 0x80300000 0x3FFF00 0x1200 0x5000 PTE_W (demo_vm 8) = Ok 0 t \<and> pgdir_ok (mem t) 0x80300000 \<and>
    (\<forall>vb. pt_entry (mem t) 0x80300000 vb =
       (if unat (0x3FFF00 :: addr) div 4096 \<le> unat vb div 4096 \<and> unat vb div 4096 \<le> unat (0x3FFF00 :: addr) div 4096 + 2
        then (0x5000 + of_nat (unat vb div 4096 - unat (0x3FFF00 :: addr) div 4096) * PGSIZE) OR PTE_W OR PTE_P
        else pt_entry (mem (demo_vm 8)) 0x80300000 vb))"
    by (rule mappages_maps_range [OF demo_vm_ok]) (simp_all add: demo_vm_entry)
  then show ?thesis by (auto simp: demo_vm_entry PTE_W_def PTE_P_def PGSIZE_def)
qed

theorem allocuvm_zeroed_pages_witness:
  "\<exists>t g. allocuvm 0x80300000 0x10 0x2001 (demo_vm 8) = Ok 0x2001 t \<and> g (0 :: nat) \<noteq> g 1 \<and>
     mem t (g 0) = BytePage (\<lambda>_. 0) \<and> mem t (g 1) = BytePage (\<lambda>_. 0) \<and>
     pt_entry (mem t) 0x80300000 0x1004 = (g 0 - KERNBASE) OR 7 \<and>
     pt_entry (mem t) 0x80300000 0x2000 = (g 1 - KERNBASE) OR 7 \<and> pt_entry (mem t) 0x80300000 0x10 = 0"
proof -
  have "\<exists>t g. allocuvm 0x80300000 0x10 0x2001 (demo_vm 8) = Ok 0x2001 t \<and> pgdir_ok (mem t) 0x80300000 \<and> inj_on g {..<2} \<and>
    (\<forall>i < 2. g i \<in> set (demo_pages 8) \<and> mem t (g i) = BytePage (\<lambda>_. 0)) \<and>
    (\<forall>vb. pt_entry (mem t) 0x80300000 vb =
       (if 1 \<le> unat vb div 4096 \<and> unat vb div 4096 < 1 + 2
        then (g (unat vb div 4096 - 1) - KERNBASE) OR (PTE_W OR PTE_U) OR PTE_P
        else pt_entry (mem (demo_vm 8)) 0x80300000 vb))"
    by (rule allocuvm_zeroed_pages [OF demo_vm_ok]) (simp_all add: demo_vm_entry KERNBASE_def)
  then obtain t g where t: "allocuvm 0x80300000 0x10 0x2001 (demo_vm 8) = Ok 0x2001 t" "inj_on g {..<2 :: nat}"
    "\<forall>i < 2. g i \<in> set (demo_pages 8) \<and> mem t (g i) = BytePage (\<lambda>_. 0)"
    "\<forall>vb. pt_entry (mem t) 0x80300000 vb =
       (if 1 \<le> unat vb div 4096 \<and> unat vb div 4096 < 1 + 2 then (g (unat vb div 4096 - 1) - KERNBASE) OR 7 else 0)"
    by (auto simp: or_user_flags demo_vm_entry)
  have "g 0 \<noteq> g 1" using inj_onD [OF t(2), of 0 1] by auto
  then show ?thesis using t by (intro exI [of _ t] exI [of _ g]) simp
qed

lemma demo_user_entry:
  "pt_entry (mem (demo_user n)) 0x80300000 vb = (if unat vb < 4096 then 0x302007 else 0)"
  "table_of (mem (demo_user n)) 0x80300000 vb = (if unat vb < 4194304 then Some 0x80301000 else None)"
proof -
  show tab: "table_of (mem (demo_user n)) 0x80300000 vb = (if unat vb < 4194304 then Some 0x80301000 else None)"
    by (auto simp: table_of_def demo_user_def unat_PDX PTE_P_def PTE_ADDR_def KERNBASE_def div_eq_0_iff)
  have "unat vb < 4096 \<longleftrightarrow> unat vb < 4194304 \<and> unat vb div 4096 mod 1024 = 0"
  proof
    assume r: "unat vb < 4194304 \<and> unat vb div 4096 mod 1024 = 0"
    then have "unat vb div 4096 < 1024" by (simp add: div_less_iff_less_mult)
    with r have "unat vb div 4096 = 0" by simp
    then show "unat vb < 4096" by (simp add: div_eq_0_iff)
  qed simp
  moreover have "pt_entry (mem (demo_user n)) 0x80300000 vb =
      (if unat vb < 4194304 \<and> unat vb div 4096 mod 1024 = 0 then 0x302007 else 0)"
    unfolding pt_entry_def tab by (simp add: demo_user_def unat_PTX)
  ultimately show "pt_entry (mem (demo_user n)) 0x80300000 vb = (if unat vb < 4096 then 0x302007 else 0)"
    by metis
qed

lemma demo_user_ok: "user_ok (mem (demo_user n)) 0x80300000"
  unfolding user_ok_def
proof (intro conjI allI impI)
  show "pgdir_ok (mem (demo_user n)) 0x80300000"
    by (auto simp: pgdir_ok_def demo_user_def NULL_def PTE_ADDR_def KERNBASE_def)
  fix va vb assume va: "user_entry (pt_entry (mem (demo_user n)) 0x80300000 va)"
  then have lo: "unat va < 4096" by (auto simp: demo_user_entry user_entry_def split: if_splits)
  then show "PTE_ADDR (pt_entry (mem (demo_user n)) 0x80300000 va) \<le> KERNBASE"
    "frame_of (mem (demo_user n)) 0x80300000 va \<noteq> NULL"
    "\<exists>f. mem (demo_user n) (frame_of (mem (demo_user n)) 0x80300000 va) = BytePage f"
    by (simp_all add: demo_user_entry frame_of_def PTE_ADDR_def KERNBASE_def NULL_def, simp add: demo_user_def)
  assume vb: "user_entry (pt_entry (mem (demo_user n)) 0x80300000 vb)"
  then have "unat vb < 4096" by (auto simp: demo_user_entry user_entry_def split: if_splits)
  then show "unat va div 4096 = unat vb div 4096" using lo by simp
qed

theorem copyout_user_reads_buffer_witness:
  "\<exists>t. copyout 0x80300000 0xFFE [65, 66] (demo_user 4) = Ok 0 t \<and>
     ubyte (mem t) 0x80300000 0xFFD = Some 0 \<and> ubyte (mem t) 0x80300000 0xFFE = Some 65 \<and>
     ubyte (mem t) 0x80300000 0xFFF = Some 66"
proof -
  have "\<exists>t. copyout 0x80300000 0xFFE [65, 66] (demo_user 4) = Ok 0 t \<and>
    (\<forall>vb. ubyte (mem t) 0x80300000 vb =
       (if unat (0xFFE :: addr) \<le> unat vb \<and> unat vb < unat (0xFFE :: addr) + length [65, 66 :: byte]
        then Some ([65, 66] ! (unat vb - unat (0xFFE :: addr)))
        else ubyte (mem (demo_user 4)) 0x80300000 vb))"
    by (rule copyout_user_reads_buffer [OF demo_user_ok]) (simp_all add: demo_user_entry user_entry_def PTE_P_def PTE_U_def)
  moreover have "ubyte (mem (demo_user 4)) 0x80300000 0xFFD = Some 0"
    by (simp add: ubyte_def demo_user_entry user_entry_def PTE_P_def PTE_U_def frame_of_def PTE_ADDR_def KERNBASE_def)
      (simp add: demo_user_def)
  ultimately show ?thesis by auto
qed

theorem copyout_writes_only_user_pages_witness:
  "\<exists>t. copyout 0x80300000 0xFFE [65, 66] (demo_user 4) = Ok 0 t \<and>
     {x. mem t x \<noteq> mem (demo_user 4) x} \<subseteq> {0x80302000}"
proof -
  let ?s = "demo_user 4" and ?d = "0x80300000 :: addr"
  obtain t where t: "copyout ?d 0xFFE [65, 66] ?s = Ok 0 t"
    using copyout_stores [OF demo_user_ok, of "0xFFE" "[65, 66]" 4]
    by (auto simp: demo_user_entry user_entry_def PTE_P_def PTE_U_def)
  have pd: "pgdir_ok (mem ?s) ?d" using demo_user_ok [of 4] unfolding user_ok_def by blast
  have "{PTE_ADDR (pt_entry (mem ?s) ?d vb) + KERNBASE | vb.
      pt_entry (mem ?s) ?d vb AND PTE_P \<noteq> 0 \<and> pt_entry (mem ?s) ?d vb AND PTE_U \<noteq> 0} \<subseteq> {0x80302000}"
    by (auto simp: demo_user_entry PTE_ADDR_def KERNBASE_def)
  with t copyout_writes_only_user_pages [OF pd t] show ?thesis by blast
qed

theorem copyout_without_table_faults_witness:
  "copyout 0x80300000 0x1000 [1] (demo_vm 4) = Fault ''uva2ka: null pte''"
proof -
  have "pgdir_ok (mem (demo_vm 4)) 0x80300000" using demo_vm_ok [of 4] by (simp add: vm_ok_def)
  then show ?thesis by (rule copyout_without_table_faults) (simp_all add: demo_vm_entry)
qed

end
