(* ===== verification/Strings.thy ===== *)
theory Strings
  imports Printf
begin

text \<open>
  Byte and string routines: \<^verbatim>\<open>string.c\<close> of the kernel and \<^verbatim>\<open>ulib.c\<close> of user space.

  Memory is a function from 32-bit addresses to bytes, so that the overlap of source and
  destination is visible.  A \<^verbatim>\<open>while\<close> loop that counts down is a recursion on the count; a
  loop that looks for a terminating zero is a \<^theory_text>\<open>partial_function\<close>, \<open>None\<close> when there is none.
  \<^verbatim>\<open>stosb\<close> and \<^verbatim>\<open>stosl\<close> of \<^verbatim>\<open>x86.h\<close> store a byte, or a little-endian word, repeatedly.
\<close>

type_synonym bytes = "addr \<Rightarrow> byte"

section \<open>Kernel routines\<close>

fun stosb :: "nat \<Rightarrow> addr \<Rightarrow> byte \<Rightarrow> bytes \<Rightarrow> bytes" where
  "stosb 0 a c m = m"
| "stosb (Suc n) a c m = stosb n (a + 1) c (m(a := c))"

definition store_word32 :: "addr \<Rightarrow> 32 word \<Rightarrow> bytes \<Rightarrow> bytes" where
  "store_word32 a w m =
     m(a := ucast w, a + 1 := ucast (drop_bit 8 w), a + 2 := ucast (drop_bit 16 w), a + 3 := ucast (drop_bit 24 w))"

fun stosl :: "nat \<Rightarrow> addr \<Rightarrow> 32 word \<Rightarrow> bytes \<Rightarrow> bytes" where
  "stosl 0 a w m = m"
| "stosl (Suc n) a w m = stosl n (a + 4) w (store_word32 a w m)"

definition memset :: "addr \<Rightarrow> 32 word \<Rightarrow> 32 word \<Rightarrow> bytes \<Rightarrow> bytes" where
  "memset dst c n m =
     (if sint dst smod 4 = 0 \<and> n mod 4 = 0 then
        let c = c AND 0xFF in
        stosl (unat (n div 4)) dst (push_bit 24 c OR push_bit 16 c OR push_bit 8 c OR c) m
      else stosb (unat n) dst (ucast c) m)"

fun memcmp :: "nat \<Rightarrow> addr \<Rightarrow> addr \<Rightarrow> bytes \<Rightarrow> int" where
  "memcmp 0 s1 s2 m = 0"
| "memcmp (Suc n) s1 s2 m =
     (if m s1 \<noteq> m s2 then uint (m s1) - uint (m s2) else memcmp n (s1 + 1) (s2 + 1) m)"

fun copy_up :: "nat \<Rightarrow> addr \<Rightarrow> addr \<Rightarrow> bytes \<Rightarrow> bytes" where
  "copy_up 0 d s m = m"
| "copy_up (Suc n) d s m = copy_up n (d + 1) (s + 1) (m(d := m s))"

fun copy_down :: "nat \<Rightarrow> addr \<Rightarrow> addr \<Rightarrow> bytes \<Rightarrow> bytes" where
  "copy_down 0 d s m = m"
| "copy_down (Suc n) d s m = copy_down n (d - 1) (s - 1) (m(d - 1 := m (s - 1)))"

definition memmove :: "addr \<Rightarrow> addr \<Rightarrow> 32 word \<Rightarrow> bytes \<Rightarrow> bytes" where
  "memmove dst src n m =
     (if src < dst \<and> src + n > dst then copy_down (unat n) (dst + n) (src + n) m
      else copy_up (unat n) dst src m)"

definition memcpy :: "addr \<Rightarrow> addr \<Rightarrow> 32 word \<Rightarrow> bytes \<Rightarrow> bytes" where
  "memcpy dst src n m = memmove dst src n m"

fun strncmp :: "nat \<Rightarrow> addr \<Rightarrow> addr \<Rightarrow> bytes \<Rightarrow> int" where
  "strncmp 0 p q m = 0"
| "strncmp (Suc n) p q m =
     (if m p \<noteq> 0 \<and> m p = m q then strncmp n (p + 1) (q + 1) m else uint (m p) - uint (m q))"

fun strncpy :: "nat \<Rightarrow> addr \<Rightarrow> addr \<Rightarrow> bytes \<Rightarrow> bytes" where
  "strncpy 0 s t m = m"
| "strncpy (Suc n) s t m =
     (if m t \<noteq> 0 then strncpy n (s + 1) (t + 1) (m(s := m t))
      else stosb n (s + 1) 0 (m(s := m t)))"

fun safestrcpy_loop :: "nat \<Rightarrow> addr \<Rightarrow> addr \<Rightarrow> bytes \<Rightarrow> addr \<times> bytes" where
  "safestrcpy_loop 0 s t m = (s, m)"
| "safestrcpy_loop (Suc n) s t m =
     (if m t \<noteq> 0 then safestrcpy_loop n (s + 1) (t + 1) (m(s := m t))
      else (s + 1, m(s := m t)))"

definition safestrcpy :: "addr \<Rightarrow> addr \<Rightarrow> int \<Rightarrow> bytes \<Rightarrow> bytes" where
  "safestrcpy s t n m =
     (if n \<le> 0 then m
      else case safestrcpy_loop (nat (n - 1)) s t m of (s', m') \<Rightarrow> m'(s' := 0))"

partial_function (option) strlen_loop :: "bytes \<Rightarrow> addr \<Rightarrow> int \<Rightarrow> int option" where
  "strlen_loop m s n = (if m (s + word_of_int n) \<noteq> 0 then strlen_loop m s (n + 1) else Some n)"

definition strlen :: "addr \<Rightarrow> bytes \<Rightarrow> int option" where
  "strlen s m = strlen_loop m s 0"

section \<open>User routines\<close>

partial_function (option) strcpy :: "addr \<Rightarrow> addr \<Rightarrow> bytes \<Rightarrow> bytes option" where
  "strcpy s t m =
     (let m' = m(s := m t) in
      if m t \<noteq> 0 then strcpy (s + 1) (t + 1) m' else Some m')"

partial_function (option) strcmp :: "addr \<Rightarrow> addr \<Rightarrow> bytes \<Rightarrow> int option" where
  "strcmp p q m =
     (if m p \<noteq> 0 \<and> m p = m q then strcmp (p + 1) (q + 1) m else Some (uint (m p) - uint (m q)))"

definition user_strlen :: "addr \<Rightarrow> bytes \<Rightarrow> int option" where
  "user_strlen s m = strlen_loop m s 0"

definition user_memset :: "addr \<Rightarrow> 32 word \<Rightarrow> 32 word \<Rightarrow> bytes \<Rightarrow> bytes" where
  "user_memset dst c n m = stosb (unat n) dst (ucast c) m"

partial_function (option) strchr :: "addr \<Rightarrow> byte \<Rightarrow> bytes \<Rightarrow> addr option" where
  "strchr s c m =
     (if m s \<noteq> 0 then (if m s = c then Some s else strchr (s + 1) c m) else Some 0)"

text \<open>
  \<^verbatim>\<open>gets\<close> reads from descriptor 0 byte by byte: the bytes that \<^verbatim>\<open>read\<close> still delivers are a list,
  and at its end \<^verbatim>\<open>read\<close> returns 0.
\<close>

fun gets_loop :: "nat \<Rightarrow> addr \<Rightarrow> byte list \<Rightarrow> bytes \<Rightarrow> addr \<times> byte list \<times> bytes" where
  "gets_loop 0 b inp m = (b, inp, m)"
| "gets_loop (Suc n) b [] m = (b, [], m)"
| "gets_loop (Suc n) b (c # inp) m =
     (if c = 10 \<or> c = 13 then (b + 1, inp, m(b := c)) else gets_loop n (b + 1) inp (m(b := c)))"

definition gets :: "addr \<Rightarrow> int \<Rightarrow> byte list \<Rightarrow> bytes \<Rightarrow> byte list \<times> bytes" where
  "gets buf mx inp m =
     (case gets_loop (nat (mx - 1)) buf inp m of (b, inp', m') \<Rightarrow> (inp', m'(b := 0)))"

fun atoi_loop :: "string \<Rightarrow> int \<Rightarrow> int" where
  "atoi_loop [] n = n"
| "atoi_loop (c # cs) n =
     (if of_char CHR ''0'' \<le> (of_char c :: int) \<and> of_char c \<le> (of_char CHR ''9'' :: int)
      then atoi_loop cs (s32 (s32 (s32 (n * 10) + of_char c) - of_char CHR ''0'')) else n)"

definition atoi :: "string \<Rightarrow> int" where
  "atoi s = atoi_loop s 0"

fun user_memmove :: "nat \<Rightarrow> addr \<Rightarrow> addr \<Rightarrow> bytes \<Rightarrow> bytes" where
  "user_memmove 0 d s m = m"
| "user_memmove (Suc n) d s m = user_memmove n (d + 1) (s + 1) (m(d := m s))"

section \<open>Blocks of memory\<close>

definition block :: "bytes \<Rightarrow> addr \<Rightarrow> nat \<Rightarrow> byte list" where
  "block m a n = map (\<lambda>i. m (a + of_nat i)) [0..<n]"

definition in_block :: "addr \<Rightarrow> nat \<Rightarrow> addr \<Rightarrow> bool" where
  "in_block a n x = (\<exists>i<n. x = a + of_nat i)"

lemma unat_add_of_nat: "unat a + i < 4294967296 \<Longrightarrow> unat (a + of_nat i :: addr) = unat a + i"
proof -
  assume a: "unat a + i < 4294967296"
  then have "unat (of_nat i :: addr) = i" by (simp add: unat_of_nat take_bit_eq_mod)
  with a show ?thesis by (subst unat_add_lem [THEN iffD1]) simp_all
qed

lemma of_nat_addr_inj: "i < 4294967296 \<Longrightarrow> j < 4294967296 \<Longrightarrow> (of_nat i = (of_nat j :: addr)) = (i = j)"
  by (auto simp: word_unat_eq_iff unat_of_nat take_bit_eq_mod)

lemma self_not_shifted: "n < 4294967296 \<Longrightarrow> i < n \<Longrightarrow> (d :: addr) \<noteq> d + 1 + of_nat i"
  using of_nat_addr_inj [of 0 "Suc i"] by (simp add: add.assoc)

lemma in_block_Suc: "in_block a (Suc n) x = (x = a \<or> in_block (a + 1) n x)"
proof -
  have "(\<exists>i<Suc n. x = a + of_nat i) = (x = a \<or> (\<exists>i<n. x = a + of_nat (Suc i)))"
    by (auto simp: less_Suc_eq_0_disj)
  then show ?thesis by (simp add: in_block_def algebra_simps)
qed

lemma in_block_unat:
  "unat a + n \<le> 4294967296 \<Longrightarrow> in_block a n x = (unat a \<le> unat x \<and> unat x < unat a + n)"
proof -
  assume a: "unat a + n \<le> 4294967296"
  have "unat (a + of_nat i) = unat a + i" if "i < n" for i
    using that a by (intro unat_add_of_nat) simp
  moreover have "x = a + of_nat (unat x - unat a)" if "unat a \<le> unat x"
    using that by (simp add: of_nat_diff)
  ultimately show ?thesis
    unfolding in_block_def by (metis add_diff_inverse_nat le_add1 nat_add_left_cancel_less not_less)
qed

section \<open>Filling\<close>

lemma stosb_at: "n < 4294967296 \<Longrightarrow> stosb n a c m x = (if in_block a n x then c else m x)"
proof (induction n arbitrary: a m)
  case 0
  then show ?case by (simp add: in_block_def)
next
  case (Suc n)
  have "\<not> in_block (a + 1) n a"
    using self_not_shifted [of n _ a] Suc.prems by (auto simp: in_block_def)
  with Suc show ?case by (auto simp: in_block_Suc)
qed

lemma stosb_append: "stosb (k + n) a c m = stosb n (a + of_nat k) c (stosb k a c m)"
proof (induction k arbitrary: a m)
  case (Suc k)
  have "stosb (Suc k + n) a c m = stosb (k + n) (a + 1) c (m(a := c))" by simp
  also have "\<dots> = stosb n (a + 1 + of_nat k) c (stosb k (a + 1) c (m(a := c)))" by (rule Suc)
  also have "\<dots> = stosb n (a + of_nat (Suc k)) c (stosb (Suc k) a c m)" by (simp add: add.assoc)
  finally show ?case .
qed simp

lemma store_word32_fill:
  "ucast w = c \<Longrightarrow> ucast (drop_bit 8 w) = c \<Longrightarrow> ucast (drop_bit 16 w) = c \<Longrightarrow> ucast (drop_bit 24 w) = c \<Longrightarrow>
   store_word32 a w m = stosb 4 a c m"
  by (simp add: store_word32_def numeral_eq_Suc algebra_simps)

lemma stosl_fill:
  assumes "ucast w = c" "ucast (drop_bit 8 w) = c" "ucast (drop_bit 16 w) = c" "ucast (drop_bit 24 w) = c"
  shows "stosl n a w m = stosb (4 * n) a c m"
proof (induction n arbitrary: a m)
  case (Suc n)
  have "stosb (4 * Suc n) a c m = stosb (4 + 4 * n) a c m" by simp
  also have "\<dots> = stosb (4 * n) (a + 4) c (stosb 4 a c m)" by (subst stosb_append) simp
  finally show ?case using Suc by (simp add: store_word32_fill [OF assms])
qed simp

lemma replicate_byte:
  fixes c :: "32 word"
  defines "d \<equiv> c AND 0xFF"
  defines "w \<equiv> push_bit 24 d OR push_bit 16 d OR push_bit 8 d OR d"
  shows "(ucast w :: byte) = ucast c" "(ucast (drop_bit 8 w) :: byte) = ucast c"
    "(ucast (drop_bit 16 w) :: byte) = ucast c" "(ucast (drop_bit 24 w) :: byte) = ucast c"
proof -
  have m: "(0xFF :: 32 word) = mask 8" by (simp add: mask_eq_exp_minus_1)
  show "(ucast w :: byte) = ucast c" "(ucast (drop_bit 8 w) :: byte) = ucast c"
    "(ucast (drop_bit 16 w) :: byte) = ucast c" "(ucast (drop_bit 24 w) :: byte) = ucast c"
    unfolding w_def d_def m by (rule bit_word_eqI; auto simp: bit_simps)+
qed

lemma memset_eq_stosb: "memset dst c n m = stosb (unat n) dst (ucast c) m"
proof (cases "sint dst smod 4 = 0 \<and> n mod 4 = 0")
  case True
  then have "unat (n mod 4) = 0" by simp
  then have "unat n mod 4 = 0" by (simp add: unat_mod_distrib)
  then have "4 * unat (n div 4) = unat n" using mult_div_mod_eq [of 4 "unat n"] by (simp add: unat_div_distrib)
  then show ?thesis
    using True stosl_fill [OF replicate_byte [of c], of "unat (n div 4)" dst m] by (simp add: memset_def Let_def)
next
  case False
  then show ?thesis by (auto simp: memset_def)
qed

section \<open>Copying\<close>

lemma copy_up_outside: "\<not> in_block d n x \<Longrightarrow> copy_up n d s m x = m x"
  by (induction n arbitrary: d s m) (auto simp: in_block_Suc)

lemma copy_up_at:
  assumes "n < 4294967296" "\<And>i j. i < j \<Longrightarrow> j < n \<Longrightarrow> d + of_nat i \<noteq> s + of_nat j" "k < n"
  shows "copy_up n d s m (d + of_nat k) = m (s + of_nat k)"
  using assms
proof (induction n arbitrary: d s m k)
  case (Suc n)
  have out: "\<not> in_block (d + 1) n d"
    using self_not_shifted [of n _ d] Suc.prems(1) by (auto simp: in_block_def)
  show ?case
  proof (cases k)
    case 0
    then show ?thesis using copy_up_outside [OF out] by simp
  next
    case (Suc k')
    have "copy_up n (d + 1) (s + 1) (m(d := m s)) (d + 1 + of_nat k') = (m(d := m s)) (s + 1 + of_nat k')"
    proof (rule Suc.IH)
      show "d + 1 + of_nat i \<noteq> s + 1 + of_nat j" if "i < j" "j < n" for i j
        using Suc.prems(2) [of "Suc i" "Suc j"] that by (simp add: algebra_simps)
    qed (use Suc.prems Suc in auto)
    moreover have "d \<noteq> s + 1 + of_nat k'"
      using Suc.prems(2) [of 0 "Suc k'"] Suc.prems(3) Suc by (simp add: algebra_simps)
    ultimately show ?thesis using Suc by (simp add: algebra_simps)
  qed
qed simp

lemma in_block_last: "in_block d (Suc n) x = (x = d + of_nat n \<or> in_block d n x)"
  by (auto simp: in_block_def less_Suc_eq)

lemma copy_down_Suc:
  "copy_down (Suc n) (d + of_nat (Suc n)) (s + of_nat (Suc n)) m =
   copy_down n (d + of_nat n) (s + of_nat n) (m(d + of_nat n := m (s + of_nat n)))"
  by (simp add: algebra_simps)

lemma copy_down_outside: "\<not> in_block d n x \<Longrightarrow> copy_down n (d + of_nat n) (s + of_nat n) m x = m x"
proof (induction n arbitrary: m)
  case (Suc n)
  then show ?case unfolding copy_down_Suc by (simp add: in_block_last)
qed simp

lemma copy_down_at:
  assumes "n < 4294967296" "\<And>i j. j < i \<Longrightarrow> i < n \<Longrightarrow> d + of_nat i \<noteq> s + of_nat j" "k < n"
  shows "copy_down n (d + of_nat n) (s + of_nat n) m (d + of_nat k) = m (s + of_nat k)"
  using assms
proof (induction n arbitrary: m k)
  case (Suc n)
  show ?case
  proof (cases "k = n")
    case True
    have "\<not> in_block d n (d + of_nat n)"
      using of_nat_addr_inj [of n] Suc.prems(1) by (auto simp: in_block_def)
    then show ?thesis unfolding copy_down_Suc True by (simp add: copy_down_outside)
  next
    case False
    then have k: "k < n" using Suc.prems(3) by simp
    have "copy_down n (d + of_nat n) (s + of_nat n) (m(d + of_nat n := m (s + of_nat n))) (d + of_nat k) =
        (m(d + of_nat n := m (s + of_nat n))) (s + of_nat k)"
      by (rule Suc.IH) (use Suc.prems k in auto)
    then show ?thesis unfolding copy_down_Suc using Suc.prems(2) [of k n] k by auto
  qed
qed simp

lemma memmove_at:
  assumes "unat dst + unat n < 4294967296" "unat src + unat n < 4294967296"
  shows "k < unat n \<Longrightarrow> memmove dst src n m (dst + of_nat k) = m (src + of_nat k)"
    "\<not> in_block dst (unat n) x \<Longrightarrow> memmove dst src n m x = m x"
proof -
  let ?n = "unat n"
  have n: "of_nat ?n = n" by simp
  have lt: "?n < 4294967296" using assms by simp
  have du: "unat (dst + of_nat i) = unat dst + i" "unat (src + of_nat i) = unat src + i" if "i \<le> ?n" for i
    using that assms by (simp_all add: unat_add_of_nat)
  have su: "unat (src + n) = unat src + ?n" using du(2) [of ?n] by simp
  have up: "dst + of_nat i \<noteq> src + of_nat j" if "\<not> (src < dst \<and> src + n > dst)" "i < j" "j < ?n" for i j
  proof
    assume "dst + of_nat i = src + of_nat j"
    then have "unat dst + i = unat src + j" using du [of i] du [of j] that by simp
    with that su show False by (auto simp: word_less_nat_alt)
  qed
  have down: "dst + of_nat i \<noteq> src + of_nat j" if "src < dst" "j < i" "i < ?n" for i j
  proof
    assume "dst + of_nat i = src + of_nat j"
    then have "unat dst + i = unat src + j" using du [of i] du [of j] that by simp
    with that show False by (auto simp: word_less_nat_alt)
  qed
  show "memmove dst src n m (dst + of_nat k) = m (src + of_nat k)" if "k < ?n"
    using copy_up_at [OF lt, of dst src k m] copy_down_at [OF lt, of dst src k m] up down that
    by (auto simp: memmove_def n)
  show "memmove dst src n m x = m x" if "\<not> in_block dst ?n x"
    using copy_up_outside [OF that] copy_down_outside [OF that] by (simp add: memmove_def n)
qed

section \<open>Strings\<close>

text \<open>The C string at an address, cut off after \<open>n\<close> bytes.\<close>

definition cstr :: "nat \<Rightarrow> bytes \<Rightarrow> addr \<Rightarrow> byte list" where
  "cstr n m a = takeWhile (\<lambda>c. c \<noteq> 0) (block m a n)"

lemma block_simps [simp]: "block m a 0 = []" "block m a (Suc n) = m a # block m (a + 1) n"
  by (simp_all add: block_def upt_conv_Cons map_Suc_upt [symmetric] o_def add.assoc del: upt_Suc)

lemma length_block [simp]: "length (block m a n) = n"
  by (simp add: block_def)

lemma nth_block: "i < n \<Longrightarrow> block m a n ! i = m (a + of_nat i)"
  by (simp add: block_def)

lemma block_cong: "(\<And>x. in_block a n x \<Longrightarrow> m' x = m x) \<Longrightarrow> block m' a n = block m a n"
  unfolding block_def in_block_def by (intro map_cong) auto

lemma block_upd: "\<not> in_block a n x \<Longrightarrow> block (m(x := c)) a n = block m a n"
  by (rule block_cong) auto

lemma cstr_simps [simp]: "cstr 0 m a = []" "cstr (Suc n) m a = (if m a = 0 then [] else m a # cstr n m (a + 1))"
  by (simp_all add: cstr_def)

lemma length_cstr: "length (cstr n m a) \<le> n"
  using length_takeWhile_le [of "\<lambda>c. c \<noteq> 0" "block m a n"] by (simp add: cstr_def)

lemma block_append: "block m a (i + j) = block m a i @ block m (a + of_nat i) j"
  by (rule nth_equalityI) (auto simp: nth_block nth_append)

lemma not_in_own_tail: "n < 4294967296 \<Longrightarrow> \<not> in_block (a + 1) n a"
  using self_not_shifted [of n _ a] by (auto simp: in_block_def)

lemma strncpy_outside: "n < 4294967296 \<Longrightarrow> \<not> in_block s n x \<Longrightarrow> strncpy n s t m x = m x"
  by (induction n arbitrary: s t m) (auto simp: in_block_Suc stosb_at)

lemma block_stosb: "n < 4294967296 \<Longrightarrow> block (stosb n a c m) a n = replicate n c"
  by (rule nth_equalityI) (auto simp: nth_block stosb_at in_block_def)

lemma strncpy_block:
  assumes "n < 4294967296" "\<And>x. in_block s n x \<Longrightarrow> \<not> in_block t n x"
  shows "block (strncpy n s t m) s n = cstr n m t @ replicate (n - length (cstr n m t)) 0"
  using assms
proof (induction n arbitrary: s t m)
  case (Suc n)
  have s: "\<not> in_block (s + 1) n s" by (rule not_in_own_tail) (use Suc.prems in simp)
  have st: "\<not> in_block (t + 1) n s" using Suc.prems(2) [of s] by (simp add: in_block_Suc)
  show ?case
  proof (cases "m t = 0")
    case True
    then show ?thesis
      using Suc.prems(1) s block_stosb [of n "s + 1" 0 "m(s := m t)"] stosb_at [of n "s + 1" 0 "m(s := m t)" s] by simp
  next
    case False
    have "block (strncpy n (s + 1) (t + 1) (m(s := m t))) (s + 1) n =
        cstr n (m(s := m t)) (t + 1) @ replicate (n - length (cstr n (m(s := m t)) (t + 1))) 0"
      by (rule Suc.IH [of "s + 1" "t + 1" "m(s := m t)"]) (use Suc.prems in \<open>auto simp: in_block_Suc\<close>)
    moreover have "cstr n (m(s := m t)) (t + 1) = cstr n m (t + 1)" using st by (simp add: cstr_def block_upd)
    ultimately show ?thesis
      using False Suc.prems(1) s by (simp add: strncpy_outside)
  qed
qed simp

lemma safestrcpy_loop_ok:
  assumes "n < 4294967295" "\<And>x. in_block s n x \<Longrightarrow> \<not> in_block t n x" "safestrcpy_loop n s t m = (s', m')"
  shows "\<exists>k \<le> n. s' = s + of_nat k \<and> length (cstr n m t) \<le> k \<and> block m' s k = take k (cstr n m t @ [0]) \<and>
    (\<forall>x. \<not> in_block s k x \<longrightarrow> m' x = m x)"
  using assms
proof (induction n arbitrary: s t m)
  case 0
  then show ?case by (simp add: in_block_def)
next
  case (Suc n)
  have s: "\<not> in_block (s + 1) n s" by (rule not_in_own_tail) (use Suc.prems in simp)
  have st: "\<not> in_block (t + 1) n s" using Suc.prems(2) [of s] by (simp add: in_block_Suc)
  show ?case
  proof (cases "m t = 0")
    case True
    then show ?thesis
      using Suc.prems(3) by (intro exI [of _ 1]) (auto simp: in_block_Suc)
  next
    case False
    have "\<exists>k \<le> n. s' = s + 1 + of_nat k \<and> length (cstr n (m(s := m t)) (t + 1)) \<le> k \<and>
        block m' (s + 1) k = take k (cstr n (m(s := m t)) (t + 1) @ [0]) \<and>
        (\<forall>x. \<not> in_block (s + 1) k x \<longrightarrow> m' x = (m(s := m t)) x)"
      by (rule Suc.IH [of "s + 1" "t + 1" "m(s := m t)"]) (use Suc.prems False in \<open>auto simp: in_block_Suc fun_upd_def\<close>)
    then obtain k where k: "k \<le> n" "s' = s + 1 + of_nat k" "length (cstr n (m(s := m t)) (t + 1)) \<le> k"
      "block m' (s + 1) k = take k (cstr n (m(s := m t)) (t + 1) @ [0])"
      "\<And>x. \<not> in_block (s + 1) k x \<Longrightarrow> m' x = (m(s := m t)) x" by blast
    have cs: "cstr n (m(s := m t)) (t + 1) = cstr n m (t + 1)" using st by (simp add: cstr_def block_upd)
    have "m' s = m t" using k(5) [of s] not_in_own_tail [of k s] k(1) Suc.prems(1) by simp
    then show ?thesis
      using k False cs by (intro exI [of _ "Suc k"]) (auto simp: in_block_Suc algebra_simps)
  qed
qed

section \<open>Numbers\<close>

lemma decimal_digit:
  "k < 10 \<Longrightarrow> of_char (HEXDIGITS ! k) = 48 + int k" for k :: nat
proof -
  assume "k < 10"
  then have "k \<in> set [0, 1, 2, 3, 4, 5, 6, 7, 8, 9]" by auto
  then show ?thesis by (auto simp: HEXDIGITS_def)
qed

definition is_decimal :: "char \<Rightarrow> bool" where
  "is_decimal c = (48 \<le> (of_char c :: int) \<and> of_char c \<le> (57 :: int))"

lemma atoi_loop_append:
  "\<forall>c \<in> set ds. is_decimal c \<Longrightarrow> atoi_loop (ds @ es) n = atoi_loop es (atoi_loop ds n)"
  by (induction ds arbitrary: n) (auto simp: is_decimal_def)

lemma digs_decimal: "c \<in> set (digs HEXDIGITS 10 x) \<Longrightarrow> is_decimal c"
proof (induction x rule: less_induct)
  case (less x)
  have "is_decimal (HEXDIGITS ! (x mod 10))" by (simp add: is_decimal_def decimal_digit)
  moreover have "c = HEXDIGITS ! (x mod 10) \<or> (x div 10 \<noteq> 0 \<and> c \<in> set (digs HEXDIGITS 10 (x div 10)))"
    using less.prems by (subst (asm) digs.simps) (auto split: if_splits)
  moreover have "x div 10 \<noteq> 0 \<Longrightarrow> x div 10 < x" by (simp add: div_greater_zero_iff)
  ultimately show ?case using less.IH [of "x div 10"] by blast
qed

lemma atoi_digit: "k < 10 \<Longrightarrow> atoi_loop [HEXDIGITS ! k] n = s32 (s32 (n * 10) + int k)"
  by (simp add: decimal_digit algebra_simps)

lemma atoi_digs: "int x < 2147483648 \<Longrightarrow> atoi_loop (rev (digs HEXDIGITS 10 x)) 0 = int x"
proof (induction x rule: less_induct)
  case (less x)
  have val: "s32 (s32 (int (x div 10) * 10) + int (x mod 10)) = int x"
  proof -
    have "int (x div 10) * 10 + int (x mod 10) = int x" by (simp add: zdiv_int zmod_int)
    then show ?thesis using less.prems by (simp add: s32_id)
  qed
  show ?case
  proof (cases "x div 10 = 0")
    case True
    then show ?thesis using val atoi_digit [of "x mod 10" 0] by (subst digs.simps) simp
  next
    case False
    then have lt: "x div 10 < x" by (simp add: div_greater_zero_iff)
    have "digs HEXDIGITS 10 x = HEXDIGITS ! (x mod 10) # digs HEXDIGITS 10 (x div 10)"
      using False by (subst digs.simps) simp
    moreover have "atoi_loop (rev (digs HEXDIGITS 10 (x div 10))) 0 = int (x div 10)"
      using less.IH [OF lt] less.prems lt by simp
    ultimately show ?thesis
      using val atoi_digit [of "x mod 10" "int (x div 10)"]
      by (simp add: atoi_loop_append digs_decimal del: atoi_loop.simps)
  qed
qed

section \<open>Properties\<close>

text \<open>C36: The kernel's \<^verbatim>\<open>memmove\<close> copies the source block to the destination block as it was before the
  call, also when the two overlap, and changes no byte outside the destination.\<close>

theorem memmove_copies_overlapping:
  assumes "unat dst + unat n < 4294967296" "unat src + unat n < 4294967296"
  shows "block (memmove dst src n m) dst (unat n) = block m src (unat n) \<and>
    (\<forall>x. \<not> in_block dst (unat n) x \<longrightarrow> memmove dst src n m x = m x)"
  using memmove_at [OF assms] by (auto intro!: nth_equalityI simp: nth_block)

theorem memmove_copies_overlapping_witness:
  "block (memmove 0x1002 0x1000 5 ucast) 0x1002 5 = [0, 1, 2, 3, 4]"
proof -
  have "block ucast 0x1000 5 = [0, 1, 2, 3, 4]" by code_simp
  then show ?thesis using memmove_copies_overlapping [of "0x1002" 5 "0x1000" ucast] by simp
qed

text \<open>The kernel's \<^verbatim>\<open>memset\<close>, which stores words when address and length allow it, has the same
  effect as storing the low byte of its argument at every address of the block.\<close>

lemma memset_equals_bytewise:
  "memset dst c n m = user_memset dst c n m \<and>
   memset dst c n m x = (if in_block dst (unat n) x then ucast c else m x)"
  using stosb_at [of "unat n" dst "ucast c" m x] unsigned_less [of n, where 'a = nat]
  by (simp add: memset_eq_stosb user_memset_def)

text \<open>C37: \<^verbatim>\<open>safestrcpy\<close> leaves a terminated string in the destination, the longest prefix of the source
  that fits, and writes only to the destination's \<open>n\<close> bytes.\<close>

theorem safestrcpy_terminates_string:
  assumes "0 < n" "n < 4294967295" "\<And>x. in_block s (nat n) x \<Longrightarrow> \<not> in_block t (nat n) x"
  shows "cstr (nat n) (safestrcpy s t n m) s = cstr (nat n - 1) m t \<and>
    length (cstr (nat n) (safestrcpy s t n m) s) < nat n \<and>
    (\<forall>x. \<not> in_block s (nat n) x \<longrightarrow> safestrcpy s t n m x = m x)"
proof -
  let ?k = "nat (n - 1)"
  define L where "L = cstr ?k m t"
  have nk: "nat n = Suc ?k" using assms(1) by simp
  obtain s' m' where loop: "safestrcpy_loop ?k s t m = (s', m')" by fastforce
  have "\<exists>k \<le> ?k. s' = s + of_nat k \<and> length L \<le> k \<and> block m' s k = take k (L @ [0]) \<and>
      (\<forall>x. \<not> in_block s k x \<longrightarrow> m' x = m x)"
    unfolding L_def
    by (rule safestrcpy_loop_ok [OF _ _ loop]) (use assms nk in \<open>auto simp: in_block_last\<close>)
  then obtain k where k: "k \<le> ?k" "s' = s + of_nat k" "length L \<le> k" "block m' s k = take k (L @ [0])"
    "\<And>x. \<not> in_block s k x \<Longrightarrow> m' x = m x" by blast
  let ?M = "m'(s' := 0)"
  have run: "safestrcpy s t n m = ?M" using loop assms(1) by (simp add: safestrcpy_def)
  have "\<not> in_block s k s'"
    using of_nat_addr_inj [of k] k(1) assms(2) by (auto simp: in_block_def k(2))
  then have bk: "block ?M s k = take k (L @ [0])" using k(4) by (simp add: block_upd)
  have "nat n = k + Suc (?k - k)" using nk k(1) by simp
  then have "block ?M s (nat n) = block ?M s k @ block ?M (s + of_nat k) (Suc (?k - k))"
    using block_append [of ?M s k "Suc (?k - k)"] by simp
  then have "block ?M s (nat n) = take k (L @ [0]) @ 0 # block ?M (s + of_nat k + 1) (?k - k)"
    using bk k(2) by simp
  moreover have "\<exists>r. take k (L @ [0]) @ 0 # u = L @ 0 # r" for u
    using k(3) by (cases "k - length L") auto
  ultimately obtain r where "block ?M s (nat n) = L @ 0 # r" by metis
  moreover have "\<forall>c \<in> set L. c \<noteq> 0" by (auto simp: L_def cstr_def dest: set_takeWhileD)
  ultimately have "cstr (nat n) ?M s = L" by (simp add: cstr_def takeWhile_append2)
  moreover have "length L < nat n" using length_cstr [of ?k m t] nk by (simp add: L_def)
  moreover have "?M x = m x" if "\<not> in_block s (nat n) x" for x
  proof -
    have "x \<noteq> s'" "\<not> in_block s k x" using that k(1,2) nk by (auto simp: in_block_def)
    then show ?thesis using k(5) by simp
  qed
  ultimately show ?thesis using nk by (simp add: run L_def)
qed

theorem safestrcpy_terminates_string_witness:
  "cstr 16 (safestrcpy 0x2000 0x1001 16 ucast) 0x2000 = cstr 15 ucast 0x1001"
proof -
  have "\<not> in_block 0x1001 16 x" if "in_block 0x2000 16 x" for x :: addr
    using that by (simp add: in_block_unat)
  then show ?thesis using safestrcpy_terminates_string [of 16 "0x2000" "0x1001" ucast] by simp
qed

text \<open>\<^verbatim>\<open>strncpy\<close> fills the destination with the string and pads it with zeroes to exactly \<open>n\<close> bytes.\<close>

lemma strncpy_pads:
  assumes "n < 4294967296" "\<And>x. in_block s n x \<Longrightarrow> \<not> in_block t n x"
  shows "block (strncpy n s t m) s n = cstr n m t @ replicate (n - length (cstr n m t)) 0 \<and>
    (\<forall>x. \<not> in_block s n x \<longrightarrow> strncpy n s t m x = m x)"
  using strncpy_block [OF assms] strncpy_outside [OF assms(1)] by simp

text \<open>\<^verbatim>\<open>strncmp\<close> returns 0 exactly for strings that are equal up to \<open>n\<close> characters.\<close>

lemma strncmp_zero_iff: "(strncmp n p q m = 0) = (cstr n m p = cstr n m q)"
  by (induction n arbitrary: p q) (auto simp: word_uint_eq_iff)

text \<open>C38: What user \<^verbatim>\<open>printf\<close> writes for \<^verbatim>\<open>%d\<close> is read back by \<^verbatim>\<open>atoi\<close>, for every number that is
  not negative.\<close>

theorem atoi_printf_roundtrip:
  assumes "0 \<le> sint x"
  shows "\<exists>t. user_printf False ''%d'' [CInt x] = Some t \<and> atoi t = sint x"
proof -
  have "sint x < 2147483648" using sint_lt [of x] by simp
  moreover have u: "int (unat x) = sint x" using assms unsigned_less [of x, where 'a = int] by (auto simp: sint_uint32 split: if_splits)
  ultimately have "atoi_loop (rev (digs HEXDIGITS 10 (unat x))) 0 = sint x" using atoi_digs [of "unat x"] by simp
  then show ?thesis
    using assms by (simp add: atoi_def user_printint_def printint_buf_def Let_def)
qed

theorem atoi_printf_roundtrip_witness:
  "\<exists>t. user_printf False ''%d'' [CInt 2147483647] = Some t \<and> atoi t = 2147483647"
  using atoi_printf_roundtrip [of 2147483647] by simp



end
