(* ===== verification/Ide.thy ===== *)
theory Ide
  imports Bio
begin

text \<open>
  The IDE disk driver: \<^verbatim>\<open>ide.c\<close>, which can take the place of \<^verbatim>\<open>memide.c\<close> below the buffer cache.  Its
  functions carry the prefix \<open>ide_\<close> where \<^verbatim>\<open>memide.c\<close> has one of the same name.

  The request queue through \<^verbatim>\<open>qnext\<close> is a list of buffers.  \<open>ide_out\<close> is the sequence of port
  writes, \<open>ide_in\<close> the values the next reads of the status port will give; waiting for a disk that
  never becomes ready does not return.  What \<^verbatim>\<open>insl\<close> reads from the data port is an argument of the
  interrupt handler.
\<close>

definition IDE_BSY :: byte where "IDE_BSY = 0x80"
definition IDE_DRDY :: byte where "IDE_DRDY = 0x40"
definition IDE_DF :: byte where "IDE_DF = 0x20"
definition IDE_ERR :: byte where "IDE_ERR = 0x01"
definition IDE_CMD_READ :: byte where "IDE_CMD_READ = 0x20"
definition IDE_CMD_WRITE :: byte where "IDE_CMD_WRITE = 0x30"
definition IDE_CMD_RDMUL :: byte where "IDE_CMD_RDMUL = 0xc4"
definition IDE_CMD_WRMUL :: byte where "IDE_CMD_WRMUL = 0xc5"
definition SECTOR_SIZE :: nat where "SECTOR_SIZE = 512"
definition FSSIZE :: nat where "FSSIZE = 2000"

datatype portio = Outb "16 word" byte | Outsl "16 word" block

record kide = kbio +
  idequeue :: "nat list"
  havedisk1 :: bool
  ide_in :: "byte list"
  ide_out :: "portio list"

definition outb :: "16 word \<Rightarrow> byte \<Rightarrow> 'a kide_scheme \<Rightarrow> 'a kide_scheme" where
  "outb p v s = s\<lparr>ide_out := ide_out s @ [Outb p v]\<rparr>"

fun wait_ready :: "byte list \<Rightarrow> (byte \<times> byte list) option" where
  "wait_ready [] = None"
| "wait_ready (r # rs) = (if r AND (IDE_BSY OR IDE_DRDY) \<noteq> IDE_DRDY then wait_ready rs else Some (r, rs))"

definition idewait :: "bool \<Rightarrow> 'a kide_scheme \<Rightarrow> (int, 'a kide_scheme) outcome" where
  "idewait checkerr s =
     (case wait_ready (ide_in s) of
        None \<Rightarrow> Diverge
      | Some (r, rs) \<Rightarrow>
          Ok (if checkerr \<and> r AND (IDE_DF OR IDE_ERR) \<noteq> 0 then - 1 else 0) (s\<lparr>ide_in := rs\<rparr>))"

definition ide_ideinit :: "'a kide_scheme \<Rightarrow> (unit, 'a kide_scheme) outcome" where
  "ide_ideinit s =
     bindo (initlock IdeLock ''ide'' s) (\<lambda>_ s.
     bindo (idewait False s) (\<lambda>_ s.
       let s = outb 0x1f6 (0xe0 OR push_bit 4 1) s;
           probe = take 1000 (ide_in s);
           quiet = takeWhile (\<lambda>r. r = 0) probe;
           s = (if length quiet < length probe
                then s\<lparr>havedisk1 := True, ide_in := drop (length quiet + 1) (ide_in s)\<rparr>
                else s\<lparr>ide_in := drop 1000 (ide_in s)\<rparr>)
       in Ok () (outb 0x1f6 0xe0 s)))"

definition idestart :: "nat option \<Rightarrow> 'a kide_scheme \<Rightarrow> (unit, 'a kide_scheme) outcome" where
  "idestart q s =
     (case q of
        None \<Rightarrow> Panic ''idestart''
      | Some i \<Rightarrow>
          let b = bufs s ! i in
          if unat (b_blockno b) \<ge> FSSIZE then Panic ''incorrect blockno''
          else
            let sector_per_block = BSIZE div SECTOR_SIZE;
                sector = b_blockno b * of_nat sector_per_block;
                read_cmd = (if sector_per_block = 1 then IDE_CMD_READ else IDE_CMD_RDMUL);
                write_cmd = (if sector_per_block = 1 then IDE_CMD_WRITE else IDE_CMD_WRMUL)
            in if sector_per_block > 7 then Panic ''idestart''
               else bindo (idewait False s) (\<lambda>_ s.
                 let s = outb 0x3f6 0 s;
                     s = outb 0x1f2 (of_nat sector_per_block) s;
                     s = outb 0x1f3 (ucast (sector AND 0xff)) s;
                     s = outb 0x1f4 (ucast (drop_bit 8 sector AND 0xff)) s;
                     s = outb 0x1f5 (ucast (drop_bit 16 sector AND 0xff)) s;
                     s = outb 0x1f6 (0xe0 OR ucast (push_bit 4 (b_dev b AND 1)) OR
                                     ucast (drop_bit 24 sector AND 0x0f)) s
                 in Ok () (if b_dirty b
                           then let s = outb 0x1f7 write_cmd s in s\<lparr>ide_out := ide_out s @ [Outsl 0x1f0 (b_data b)]\<rparr>
                           else outb 0x1f7 read_cmd s)))"

definition ide_ideintr :: "block \<Rightarrow> 'a kide_scheme \<Rightarrow> (unit, 'a kide_scheme) outcome" where
  "ide_ideintr data s =
     bindo (acquire IdeLock s) (\<lambda>_ s.
       case idequeue s of
         [] \<Rightarrow> release IdeLock s
       | i # rest \<Rightarrow>
           let s = s\<lparr>idequeue := rest\<rparr> in
           bindo (if \<not> b_dirty (bufs s ! i) then
                    bindo (idewait True s) (\<lambda>r s.
                      Ok () (if r \<ge> 0 then upd_buf i (\<lambda>b. b\<lparr>b_data := data\<rparr>) s else s))
                  else Ok () s) (\<lambda>_ s.
           bindo (wakeup (ChanBuf i) (upd_buf i (\<lambda>b. b\<lparr>b_valid := True, b_dirty := False\<rparr>) s)) (\<lambda>_ s.
           bindo (case idequeue s of [] \<Rightarrow> Ok () s | j # _ \<Rightarrow> idestart (Some j) s) (\<lambda>_ s.
             release IdeLock s))))"

definition buf_done :: "buf \<Rightarrow> bool" where
  "buf_done b = (b_valid b \<and> \<not> b_dirty b)"

partial_function (option) ide_wait_done ::
  "nat \<Rightarrow> 'a kide_scheme \<Rightarrow> (unit, 'a kide_scheme) outcome option" where
  "ide_wait_done i s =
     (if \<not> buf_done (bufs s ! i) then
        (case sleep (ChanBuf i) (Some IdeLock) s of
           Ok u s \<Rightarrow> ide_wait_done i s
         | Switch s \<Rightarrow> Some (Switch s)
         | Panic m \<Rightarrow> Some (Panic m)
         | Fault m \<Rightarrow> Some (Fault m)
         | Diverge \<Rightarrow> Some Diverge)
      else Some (release IdeLock s))"

definition ide_iderw :: "nat \<Rightarrow> 'a kide_scheme \<Rightarrow> (unit, 'a kide_scheme) outcome" where
  "ide_iderw i s =
     bindo (holdingsleep (BufLock i) s) (\<lambda>h s.
       if \<not> h then Panic ''iderw: buf not locked''
       else if buf_done (bufs s ! i) then Panic ''iderw: nothing to do''
       else if b_dev (bufs s ! i) \<noteq> 0 \<and> \<not> havedisk1 s then Panic ''iderw: ide disk 1 not present''
       else
     bindo (acquire IdeLock s) (\<lambda>_ s.
       let s = s\<lparr>idequeue := idequeue s @ [i]\<rparr> in
     bindo (if hd (idequeue s) = i then idestart (Some i) s else Ok () s) (\<lambda>_ s.
       returns (ide_wait_done i s))))"

definition ide_iderw_resume :: "nat \<Rightarrow> nat \<Rightarrow> 'a kide_scheme \<Rightarrow> (unit, 'a kide_scheme) outcome" where
  "ide_iderw_resume p i s = bindo (sleep_resume p IdeLock s) (\<lambda>_ s. returns (ide_wait_done i s))"

end
