(* ===== verification/UserIo.thy ===== *)
theory UserIo
  imports Prelude
begin

text \<open>
  User programs that filter text: \<^verbatim>\<open>cat.c\<close>, \<^verbatim>\<open>wc.c\<close> and \<^verbatim>\<open>grep.c\<close>.  A file open for reading is the list
  of the pieces the successive \<^verbatim>\<open>read\<close> calls find, as a pipe or the console delivers them; a call
  with a limit takes at most that many bytes of the first piece, and an empty piece or none is the
  end.  What a program writes to its standard output is its result.
\<close>

type_synonym stream = "byte list list"

fun read :: "nat \<Rightarrow> stream \<Rightarrow> byte list \<times> stream" where
  "read n [] = ([], [])"
| "read n (p # ps) = (take n p, if length p \<le> n then ps else drop n p # ps)"

definition left_over :: "stream \<Rightarrow> nat" where
  "left_over s = sum_list (map (\<lambda>p. Suc (length p)) s)"

lemma read_less:
  assumes "read n s = (bs, s')" "bs \<noteq> []"
  shows "left_over s' < left_over s"
  using assms by (cases s) (auto simp: left_over_def split: if_splits)

section \<open>cat\<close>

function cat :: "stream \<Rightarrow> byte list" where
  "cat s =
     (let (bs, s') = read 512 s in
      if bs \<noteq> [] then bs @ cat s' else [])"
  by pat_completeness auto
termination
  by (relation "measure left_over") (auto dest: read_less [OF sym])

declare cat.simps [simp del]

section \<open>wc\<close>

record wcount =
  w_lines :: nat
  w_words :: nat
  w_chars :: nat
  w_inword :: bool

definition wc_space :: "byte \<Rightarrow> bool" where
  "wc_space b = (b \<in> {32, 13, 9, 10, 11})"

definition wc_char :: "byte \<Rightarrow> wcount \<Rightarrow> wcount" where
  "wc_char b w =
     (let w = w\<lparr>w_chars := w_chars w + 1\<rparr>;
          w = (if b = 10 then w\<lparr>w_lines := w_lines w + 1\<rparr> else w)
      in if wc_space b then w\<lparr>w_inword := False\<rparr>
         else if \<not> w_inword w then w\<lparr>w_words := w_words w + 1, w_inword := True\<rparr>
         else w)"

function wc_loop :: "stream \<Rightarrow> wcount \<Rightarrow> wcount" where
  "wc_loop s w =
     (let (bs, s') = read 512 s in
      if bs \<noteq> [] then wc_loop s' (fold wc_char bs w) else w)"
  by pat_completeness auto
termination
  by (relation "measure (\<lambda>(s, w). left_over s)") (auto dest: read_less [OF sym])

declare wc_loop.simps [simp del]

definition wc :: "stream \<Rightarrow> nat \<times> nat \<times> nat" where
  "wc s =
     (let w = wc_loop s \<lparr>w_lines = 0, w_words = 0, w_chars = 0, w_inword = False\<rparr>
      in (w_lines w, w_words w, w_chars w))"

section \<open>grep\<close>

definition STAR :: byte where "STAR = 42"
definition CARET :: byte where "CARET = 94"
definition DOLLAR :: byte where "DOLLAR = 36"
definition PERIOD :: byte where "PERIOD = 46"
definition NEWLINE :: byte where "NEWLINE = 10"

function matchhere :: "byte list \<Rightarrow> byte list \<Rightarrow> bool"
  and matchstar :: "byte \<Rightarrow> byte list \<Rightarrow> byte list \<Rightarrow> bool" where
  "matchhere re text =
     (if re = [] then True
      else if tl re \<noteq> [] \<and> hd (tl re) = STAR then matchstar (hd re) (tl (tl re)) text
      else if hd re = DOLLAR \<and> tl re = [] then text = []
      else if text \<noteq> [] \<and> (hd re = PERIOD \<or> hd re = hd text) then matchhere (tl re) (tl text)
      else False)"
| "matchstar c re text =
     (if matchhere re text then True
      else if text \<noteq> [] \<and> (hd text = c \<or> c = PERIOD) then matchstar c re (tl text)
      else False)"
  by pat_completeness auto
termination
  by (relation "measures [\<lambda>x. case x of Inl (re, t) \<Rightarrow> length re | Inr (c, re, t) \<Rightarrow> Suc (length re),
                          \<lambda>x. case x of Inl (re, t) \<Rightarrow> length t | Inr (c, re, t) \<Rightarrow> length t]")
     (auto simp: neq_Nil_conv)

declare matchhere.simps [simp del] matchstar.simps [simp del]

fun match_from :: "byte list \<Rightarrow> byte list \<Rightarrow> bool" where
  "match_from re [] = matchhere re []"
| "match_from re (c # text) = (if matchhere re (c # text) then True else match_from re text)"

definition match_re :: "byte list \<Rightarrow> byte list \<Rightarrow> bool" where
  "match_re re text =
     (if re \<noteq> [] \<and> hd re = CARET then matchhere (tl re) text else match_from re text)"

definition find_newline :: "byte list \<Rightarrow> nat option" where
  "find_newline p =
     (let n = length (takeWhile (\<lambda>c. c \<noteq> NEWLINE \<and> c \<noteq> 0) p)
      in if n < length p \<and> p ! n = NEWLINE then Some n else None)"

function grep_lines :: "byte list \<Rightarrow> byte list \<Rightarrow> byte list \<times> byte list" where
  "grep_lines pat p =
     (case find_newline p of
        None \<Rightarrow> ([], p)
      | Some q \<Rightarrow>
          let (out, rest) = grep_lines pat (drop (Suc q) p)
          in ((if match_re pat (take q p) then take (Suc q) p else []) @ out, rest))"
  by pat_completeness auto
termination
  by (relation "measure (\<lambda>(pat, p). length p)") (auto simp: find_newline_def Let_def split: if_splits)

declare grep_lines.simps [simp del]

function grep :: "byte list \<Rightarrow> byte list \<Rightarrow> stream \<Rightarrow> byte list" where
  "grep pat kept s =
     (let (bs, s') = read (1024 - length kept - 1) s in
      if bs \<noteq> [] then
        let p = kept @ bs;
            (out, rest) = grep_lines pat p;
            kept = (if length rest = length p then [] else rest)
        in out @ grep pat kept s'
      else [])"
  by pat_completeness auto
termination
  by (relation "measure (\<lambda>(pat, kept, s). left_over s)") (auto dest: read_less [OF sym])

declare grep.simps [simp del]

end
