(* ===== verification/UserIoSpec.thy ===== *)
theory UserIoSpec
  imports UserIo
begin

text \<open>
  What the text filters compute: \<^verbatim>\<open>cat\<close> and \<^verbatim>\<open>wc\<close> do not depend on how the input is cut into
  pieces, the matcher of \<^verbatim>\<open>grep\<close> is the language of its pattern, and \<^verbatim>\<open>grep\<close> selects the matching
  lines as long as every \<^verbatim>\<open>read\<close> delivers whole lines.
\<close>

section \<open>The bytes of a stream\<close>

definition text_of :: "stream \<Rightarrow> byte list" where
  "text_of s = concat (takeWhile (\<lambda>p. p \<noteq> []) s)"

lemma read_text:
  assumes "0 < n" "read n s = (bs, s')"
  shows "(bs = [] \<longrightarrow> text_of s = []) \<and> (bs \<noteq> [] \<longrightarrow> text_of s = bs @ text_of s')"
  using assms by (cases s) (auto simp: text_of_def)

lemma cat_text: "cat s = text_of s"
proof (induction s rule: cat.induct)
  case (1 s)
  obtain bs s' where r: "read 512 s = (bs, s')" by (cases "read 512 s") auto
  show ?case
    using 1 [OF r [symmetric] refl] read_text [OF _ r] r by (cases "bs = []") (simp_all add: cat.simps [of s])
qed

lemma wc_loop_text: "wc_loop s w = fold wc_char (text_of s) w"
proof (induction s w rule: wc_loop.induct)
  case (1 s w)
  obtain bs s' where r: "read 512 s = (bs, s')" by (cases "read 512 s") auto
  show ?case
    using 1 [OF r [symmetric] refl] read_text [OF _ r] r by (cases "bs = []") (simp_all add: wc_loop.simps [of s w])
qed

section \<open>Counting words\<close>

definition word_starts :: "byte list \<Rightarrow> nat set" where
  "word_starts t = {i. i < length t \<and> \<not> wc_space (t ! i) \<and> (i = 0 \<or> wc_space (t ! (i - 1)))}"

lemma finite_word_starts [simp]: "finite (word_starts t)"
  by (simp add: word_starts_def)

lemma word_starts_snoc:
  "word_starts (t @ [b]) =
     word_starts t \<union> (if \<not> wc_space b \<and> (t = [] \<or> wc_space (last t)) then {length t} else {})"
  by (cases t rule: rev_cases) (auto simp: word_starts_def nth_append less_Suc_eq)

lemma length_not_word_start [simp]: "length t \<notin> word_starts t"
  by (simp add: word_starts_def)

lemma wc_fold:
  "fold wc_char t \<lparr>w_lines = 0, w_words = 0, w_chars = 0, w_inword = False\<rparr> =
   \<lparr>w_lines = length (filter (\<lambda>b. b = 10) t), w_words = card (word_starts t), w_chars = length t,
    w_inword = (t \<noteq> [] \<and> \<not> wc_space (last t))\<rparr>"
proof (induction t rule: rev_induct)
  case Nil
  then show ?case by (simp add: word_starts_def)
next
  case (snoc b t)
  then show ?case by (auto simp: wc_char_def word_starts_snoc Let_def)
qed

section \<open>Patterns\<close>

datatype atom = One byte | Many byte

definition accepts :: "byte \<Rightarrow> byte \<Rightarrow> bool" where
  "accepts c x = (c = PERIOD \<or> c = x)"

fun parse_re :: "byte list \<Rightarrow> atom list \<times> bool" where
  "parse_re [] = ([], False)"
| "parse_re [c] = (if c = DOLLAR then ([], True) else ([One c], False))"
| "parse_re (c # d # r) =
     (if d = STAR then let (as, e) = parse_re r in (Many c # as, e)
      else let (as, e) = parse_re (d # r) in (One c # as, e))"

fun lang :: "atom list \<Rightarrow> byte list set" where
  "lang [] = {[]}"
| "lang (One c # as) = {x # v | x v. accepts c x \<and> v \<in> lang as}"
| "lang (Many c # as) = {u @ v | u v. list_all (accepts c) u \<and> v \<in> lang as}"

definition matches_at :: "byte list \<Rightarrow> byte list \<Rightarrow> bool" where
  "matches_at re t =
     (\<exists>v w. t = v @ w \<and> v \<in> lang (fst (parse_re re)) \<and> (snd (parse_re re) \<longrightarrow> w = []))"

lemma matches_at_nil [simp]: "matches_at [] t"
  by (simp add: matches_at_def)

lemma matches_at_dollar [simp]: "matches_at [DOLLAR] t = (t = [])"
  by (auto simp: matches_at_def)

lemma matches_at_one:
  assumes "r = [] \<longrightarrow> c \<noteq> DOLLAR" "r \<noteq> [] \<longrightarrow> hd r \<noteq> STAR"
  shows "matches_at (c # r) t = (t \<noteq> [] \<and> accepts c (hd t) \<and> matches_at r (tl t))"
proof -
  have p: "parse_re (c # r) = (One c # fst (parse_re r), snd (parse_re r))"
    using assms by (cases r) (auto split: prod.splits)
  show ?thesis unfolding matches_at_def p by (cases t) (auto simp: append_eq_Cons_conv Cons_eq_append_conv)
qed

lemma matches_at_many:
  "matches_at (c # STAR # r) t = (\<exists>u w. t = u @ w \<and> list_all (accepts c) u \<and> matches_at r w)"
proof -
  have p: "parse_re (c # STAR # r) = (Many c # fst (parse_re r), snd (parse_re r))"
    by (simp split: prod.splits)
  show ?thesis
  proof
    assume "matches_at (c # STAR # r) t"
    then obtain u v w where "t = (u @ v) @ w" "list_all (accepts c) u" "v \<in> lang (fst (parse_re r))"
      "snd (parse_re r) \<longrightarrow> w = []" unfolding matches_at_def p lang.simps fst_conv snd_conv by blast
    then show "\<exists>u w. t = u @ w \<and> list_all (accepts c) u \<and> matches_at r w"
      unfolding matches_at_def by (intro exI [of _ u] exI [of _ "v @ w"]) auto
  next
    assume "\<exists>u w. t = u @ w \<and> list_all (accepts c) u \<and> matches_at r w"
    then obtain u v w where "t = u @ v @ w" "list_all (accepts c) u" "v \<in> lang (fst (parse_re r))"
      "snd (parse_re r) \<longrightarrow> w = []" unfolding matches_at_def by blast
    then show "matches_at (c # STAR # r) t"
      unfolding matches_at_def p by (intro exI [of _ "u @ v"] exI [of _ w]) auto
  qed
qed

lemma matches_at_many_step:
  "matches_at (c # STAR # r) t =
     (matches_at r t \<or> t \<noteq> [] \<and> accepts c (hd t) \<and> matches_at (c # STAR # r) (tl t))"
proof
  assume "matches_at (c # STAR # r) t"
  then obtain u w where t: "t = u @ w" "list_all (accepts c) u" "matches_at r w" by (auto simp: matches_at_many)
  then show "matches_at r t \<or> t \<noteq> [] \<and> accepts c (hd t) \<and> matches_at (c # STAR # r) (tl t)"
    by (cases u) (auto simp: matches_at_many)
next
  assume "matches_at r t \<or> t \<noteq> [] \<and> accepts c (hd t) \<and> matches_at (c # STAR # r) (tl t)"
  then show "matches_at (c # STAR # r) t"
  proof
    assume "matches_at r t"
    then show ?thesis unfolding matches_at_many by (intro exI [of _ "[]"] exI [of _ t]) simp
  next
    assume a: "t \<noteq> [] \<and> accepts c (hd t) \<and> matches_at (c # STAR # r) (tl t)"
    then obtain u w where t: "tl t = u @ w" "list_all (accepts c) u" "matches_at r w" by (auto simp: matches_at_many)
    then show ?thesis unfolding matches_at_many
      using a by (intro exI [of _ "hd t # u"] exI [of _ w]) (auto simp: neq_Nil_conv)
  qed
qed

lemma matchhere_nil [simp]: "matchhere [] t"
  by (simp add: matchhere.simps)

lemma matchhere_cons:
  "matchhere (c # r) t =
     (if r \<noteq> [] \<and> hd r = STAR then matchstar c (tl r) t
      else if c = DOLLAR \<and> r = [] then t = []
      else t \<noteq> [] \<and> accepts c (hd t) \<and> matchhere r (tl t))"
  by (subst matchhere.simps) (auto simp: accepts_def)

lemma matchstar_step:
  "matchstar c re t = (matchhere re t \<or> t \<noteq> [] \<and> accepts c (hd t) \<and> matchstar c re (tl t))"
  by (subst matchstar.simps) (auto simp: accepts_def)

lemma matcher_correct:
  "matchhere re t = matches_at re t" "matchstar c re t = matches_at (c # STAR # re) t"
proof (induction re t and c re t rule: matchhere_matchstar.induct)
  case (1 re t)
  note star = 1(1) and more = 1(2)
  show ?case
  proof (cases re)
    case (Cons c r)
    consider "r \<noteq> [] \<and> hd r = STAR" | "c = DOLLAR" "r = []" | "r = [] \<longrightarrow> c \<noteq> DOLLAR" "r \<noteq> [] \<longrightarrow> hd r \<noteq> STAR"
      by blast
    then show ?thesis
    proof cases
      case 1
      then have "r = STAR # tl r" by (cases r) auto
      then have "matches_at (c # STAR # tl r) t = matches_at re t" using Cons by simp
      then show ?thesis using star Cons 1 by (simp add: matchhere_cons)
    next
      case 3
      then show ?thesis
        using more Cons matches_at_one [OF 3] by (auto simp: matchhere_cons accepts_def)
    qed (simp add: Cons matchhere_cons)
  qed simp
next
  case (2 c re t)
  then show ?case
    by (subst matches_at_many_step, subst matchstar_step) (auto simp: accepts_def)
qed

lemma match_from_suffix: "match_from re t = (\<exists>u w. t = u @ w \<and> matchhere re w)"
proof (induction t)
  case (Cons c t)
  show ?case
  proof
    assume "match_from re (c # t)"
    then show "\<exists>u w. c # t = u @ w \<and> matchhere re w"
      using Cons by (auto split: if_splits intro: exI [of _ "[]"]) (metis append_Cons)
  next
    assume "\<exists>u w. c # t = u @ w \<and> matchhere re w"
    then show "match_from re (c # t)" using Cons by (auto simp: Cons_eq_append_conv)
  qed
qed simp

section \<open>Lines\<close>

definition whole_line :: "byte list \<Rightarrow> bool" where
  "whole_line l = (NEWLINE \<notin> set l \<and> 0 \<notin> set l)"

lemma find_newline_line:
  assumes "whole_line l"
  shows "find_newline (l @ NEWLINE # t) = Some (length l)"
proof -
  have "takeWhile (\<lambda>c. c \<noteq> NEWLINE \<and> c \<noteq> 0) (l @ NEWLINE # t) = l"
    using assms by (subst takeWhile_append2) (auto simp: whole_line_def)
  then show ?thesis by (simp add: find_newline_def Let_def)
qed

lemma find_newline_none: "NEWLINE \<notin> set p \<Longrightarrow> find_newline p = None"
  by (auto simp: find_newline_def Let_def in_set_conv_nth)

lemma grep_lines_none: "NEWLINE \<notin> set p \<Longrightarrow> grep_lines pat p = ([], p)"
  by (simp add: grep_lines.simps [of pat p] find_newline_none)

lemma grep_lines_line:
  "whole_line l \<Longrightarrow>
   grep_lines pat (l @ NEWLINE # t) =
     ((if match_re pat l then l @ [NEWLINE] else []) @ fst (grep_lines pat t), snd (grep_lines pat t))"
  by (subst grep_lines.simps) (simp add: find_newline_line split: prod.splits)

abbreviation unlines :: "byte list list \<Rightarrow> byte list" where
  "unlines ls \<equiv> concat (map (\<lambda>l. l @ [NEWLINE]) ls)"

lemma grep_lines_whole:
  "list_all whole_line ls \<Longrightarrow> grep_lines pat (unlines ls) = (unlines (filter (match_re pat) ls), [])"
  by (induction ls) (simp_all add: grep_lines_none grep_lines_line)

lemma grep_step:
  "read 1023 s = (bs, s') \<Longrightarrow> bs \<noteq> [] \<Longrightarrow>
   grep pat [] s =
     fst (grep_lines pat bs) @
     grep pat (if length (snd (grep_lines pat bs)) = length bs then [] else snd (grep_lines pat bs)) s'"
  by (subst grep.simps) (simp split: prod.splits)

lemma grep_piece:
  "p \<noteq> [] \<Longrightarrow> length p \<le> 1023 \<Longrightarrow> read 1023 (p # ps) = (p, ps)"
  by simp

lemma grep_whole_pieces:
  assumes "list_all (\<lambda>ls. ls \<noteq> [] \<and> list_all whole_line ls \<and> length (unlines ls) \<le> 1023) pieces"
  shows "grep pat [] (map unlines pieces) = unlines (filter (match_re pat) (concat pieces))"
  using assms
proof (induction pieces)
  case Nil
  then show ?case by (simp add: grep.simps)
next
  case (Cons ls pieces)
  then have ls: "unlines ls \<noteq> []" "length (unlines ls) \<le> 1023" "list_all whole_line ls"
    by (cases ls; simp)+
  have "grep pat [] (map unlines (ls # pieces)) =
        unlines (filter (match_re pat) ls) @ grep pat [] (map unlines pieces)"
    using grep_step [OF grep_piece [OF ls(1,2)], of pat "map unlines pieces"] grep_lines_whole [OF ls(3)] Cons.prems by simp
  then show ?case using Cons by simp
qed

text \<open>C32: The matcher of \<^verbatim>\<open>grep\<close> decides the language of its pattern: a text matches when some part of it
  is in the language, the part starting at the front for a pattern with \<^verbatim>\<open>^\<close> and ending at the back
  for one with \<^verbatim>\<open>$\<close>; a dot stands for any character and a star repeats the character before it.\<close>

theorem grep_matches_language:
  "match_re re text =
     (let anchored = (re \<noteq> [] \<and> hd re = CARET);
          (as, at_end) = parse_re (if anchored then tl re else re)
      in \<exists>u v w. text = u @ v @ w \<and> v \<in> lang as \<and>
           (if anchored then u = [] else True) \<and> (if at_end then w = [] else True))"
proof (cases "re \<noteq> [] \<and> hd re = CARET")
  case True
  then show ?thesis
    by (cases "snd (parse_re (tl re))") (simp_all add: match_re_def matcher_correct matches_at_def case_prod_beta)
next
  case False
  then show ?thesis
    unfolding match_re_def match_from_suffix matcher_correct matches_at_def
    by (cases "snd (parse_re re)") (simp_all add: case_prod_beta, blast+)
qed

text \<open>C33: When every \<^verbatim>\<open>read\<close> delivers whole lines that fit the buffer, \<^verbatim>\<open>grep\<close> writes exactly the lines that
  match, in their order.\<close>

theorem grep_selects_lines:
  assumes "list_all (\<lambda>ls. ls \<noteq> [] \<and> list_all whole_line ls \<and> length (unlines ls) \<le> 1023) pieces"
  shows "grep pat [] (map unlines pieces) = unlines (filter (match_re pat) (concat pieces))"
  by (rule grep_whole_pieces [OF assms])

theorem grep_selects_lines_witness:
  "grep [97] [] (map unlines [[[97, 98], [99]], [[98, 97]]]) =
     unlines (filter (match_re [97]) [[97, 98], [99], [98, 97]])"
  using grep_selects_lines [of "[[[97, 98], [99]], [[98, 97]]]" "[97]"]
  by (simp add: whole_line_def NEWLINE_def)

text \<open>C40: A piece of input without a line end is thrown away: when a \<^verbatim>\<open>read\<close> delivers only the beginning
  of a line, as reading from a pipe does, \<^verbatim>\<open>grep\<close> goes on as if it had not been there, and the rest of
  the line is matched on its own.\<close>

theorem grep_drops_partial_line:
  assumes "p \<noteq> []" "length p \<le> 1023" "NEWLINE \<notin> set p"
  shows "grep pat [] (p # s) = grep pat [] s"
  using grep_step [OF grep_piece [OF assms(1,2)], of pat s] assms(1,3) by (simp add: grep_lines_none)

theorem grep_drops_partial_line_witness:
  "match_re [97] [97, 98] \<and> grep [97] [] [[97], [98, 10]] = grep [97] [] [[98, 10]]"
proof -
  have "match_re [97] [97, 98]" by code_simp
  then show ?thesis using grep_drops_partial_line [of "[97]" "[97]" "[[98, 10]]"] by (simp add: NEWLINE_def)
qed

text \<open>The counts of \<^verbatim>\<open>wc\<close> do not depend on how the input is cut into pieces: they are the number of
  line ends, of places where a word begins, and of bytes of the whole text, which is also what
  \<^verbatim>\<open>cat\<close> copies.\<close>

lemma wc_counts_text:
  "wc s = (length (filter (\<lambda>b. b = 10) (cat s)), card (word_starts (cat s)), length (cat s)) \<and>
   cat s = concat (takeWhile (\<lambda>p. p \<noteq> []) s)"
  by (simp add: wc_def wc_loop_text wc_fold cat_text text_of_def Let_def)

end
