(* ===== verification/Umalloc.thy ===== *)
theory Umalloc
  imports Prelude
begin

text \<open>
  The allocator of user programs: \<^verbatim>\<open>umalloc.c\<close>.

  The memory of the process is seen as the headers in it: \<open>um_ptr\<close> and \<open>um_size\<close> are the two fields of the header at an
  address.  Headers of different blocks do not overlap, so nothing is lost by giving each a slot of its own.  A header is eight bytes long,
  and \<open>hdr_add\<close> is the addition of units to a header pointer.  A header that does not lie below the end of the process,
  \<open>um_brk\<close>, cannot be touched: the access is a page fault.  \<open>um_base\<close> is the address of the static variable \<^verbatim>\<open>base\<close>.

  \<open>sbrk\<close> is the system call as the process sees it (\<^verbatim>\<open>sys_sbrk\<close>, \<^verbatim>\<open>growproc\<close> and the size checks of \<^verbatim>\<open>allocuvm\<close> and \<^verbatim>\<open>deallocuvm\<close>);
  whether the kernel has the pages to grow the process is the function \<open>um_avail\<close>.
\<close>

record uheap =
  um_ptr :: "addr \<Rightarrow> addr"
  um_size :: "addr \<Rightarrow> 32 word"
  um_base :: addr
  um_freep :: addr
  um_brk :: addr
  um_avail :: "addr \<Rightarrow> addr \<Rightarrow> bool"

abbreviation (input) sizeof_Header :: "32 word" where "sizeof_Header \<equiv> 8"

definition hdr_add :: "addr \<Rightarrow> 32 word \<Rightarrow> addr" where
  "hdr_add p n = p + sizeof_Header * n"

definition mapped :: "addr \<Rightarrow> uheap \<Rightarrow> bool" where
  "mapped p s = (unat p + 8 \<le> unat (um_brk s))"

definition set_ptr :: "addr \<Rightarrow> addr \<Rightarrow> uheap \<Rightarrow> uheap" where
  "set_ptr p q s = s\<lparr>um_ptr := (um_ptr s)(p := q)\<rparr>"

definition set_size :: "addr \<Rightarrow> 32 word \<Rightarrow> uheap \<Rightarrow> uheap" where
  "set_size p n s = s\<lparr>um_size := (um_size s)(p := n)\<rparr>"

definition sbrk :: "32 word \<Rightarrow> uheap \<Rightarrow> addr \<times> uheap" where
  "sbrk n s =
     (let sz = um_brk s; newsz = sz + n in
      if 0 <s n then
        if newsz \<ge> 0x80000000 then (- 1, s)
        else if newsz < sz then (sz, s)
        else if um_avail s sz newsz then (sz, s\<lparr>um_brk := newsz\<rparr>)
        else (- 1, s)
      else if n <s 0 then
        if newsz \<ge> sz then (if sz = 0 then (- 1, s) else (sz, s))
        else if newsz = 0 then (- 1, s)
        else (sz, s\<lparr>um_brk := newsz\<rparr>)
      else (sz, s))"

partial_function (option) free_scan :: "addr \<Rightarrow> addr \<Rightarrow> uheap \<Rightarrow> (addr, uheap) outcome option" where
  "free_scan bp p s =
     (if \<not> mapped p s then Some (Fault ''page fault'')
      else if bp > p \<and> bp < um_ptr s p then Some (Ok p s)
      else if p \<ge> um_ptr s p \<and> (bp > p \<or> bp < um_ptr s p) then Some (Ok p s)
      else free_scan bp (um_ptr s p) s)"

definition free_link :: "addr \<Rightarrow> addr \<Rightarrow> uheap \<Rightarrow> (unit, uheap) outcome" where
  "free_link bp p s =
     (let q = um_ptr s p in
      if \<not> mapped bp s then Fault ''page fault''
      else if hdr_add bp (um_size s bp) = q \<and> \<not> mapped q s then Fault ''page fault''
      else
        let s = (if hdr_add bp (um_size s bp) = q
                 then set_ptr bp (um_ptr s q) (set_size bp (um_size s bp + um_size s q) s)
                 else set_ptr bp q s);
            s = (if hdr_add p (um_size s p) = bp
                 then set_ptr p (um_ptr s bp) (set_size p (um_size s p + um_size s bp) s)
                 else set_ptr p bp s)
        in Ok () (s\<lparr>um_freep := p\<rparr>))"

definition free :: "addr \<Rightarrow> uheap \<Rightarrow> (unit, uheap) outcome" where
  "free ap s =
     (let bp = ap - sizeof_Header in
      bindo (returns (free_scan bp (um_freep s) s)) (\<lambda>p s. free_link bp p s))"

definition morecore :: "32 word \<Rightarrow> uheap \<Rightarrow> (addr, uheap) outcome" where
  "morecore nu s =
     (let nu = (if nu < 4096 then 4096 else nu);
          (p, s) = sbrk (nu * sizeof_Header) s
      in if p = - 1 then Ok 0 s
         else if \<not> mapped p s then Fault ''page fault''
         else bindo (free (hdr_add p 1) (set_size p nu s)) (\<lambda>_ s. Ok (um_freep s) s))"

definition nunits_of :: "32 word \<Rightarrow> 32 word" where
  "nunits_of nbytes = (nbytes + sizeof_Header - 1) div sizeof_Header + 1"

definition take_block :: "32 word \<Rightarrow> addr \<Rightarrow> addr \<Rightarrow> uheap \<Rightarrow> (addr, uheap) outcome" where
  "take_block nunits prevp p s =
     (if um_size s p = nunits then
        if \<not> mapped prevp s then Fault ''page fault''
        else Ok (hdr_add p 1) ((set_ptr prevp (um_ptr s p) s)\<lparr>um_freep := prevp\<rparr>)
      else
        let s = set_size p (um_size s p - nunits) s;
            p = hdr_add p (um_size s p)
        in if \<not> mapped p s then Fault ''page fault''
           else Ok (hdr_add p 1) ((set_size p nunits s)\<lparr>um_freep := prevp\<rparr>))"

partial_function (option) malloc_loop :: "32 word \<Rightarrow> addr \<Rightarrow> addr \<Rightarrow> uheap \<Rightarrow> (addr, uheap) outcome option" where
  "malloc_loop nunits prevp p s =
     (if \<not> mapped p s then Some (Fault ''page fault'')
      else if um_size s p \<ge> nunits then Some (take_block nunits prevp p s)
      else if p = um_freep s then
        (case morecore nunits s of
           Ok q s \<Rightarrow>
             if q = 0 then Some (Ok 0 s)
             else if \<not> mapped q s then Some (Fault ''page fault'')
             else malloc_loop nunits q (um_ptr s q) s
         | Switch s \<Rightarrow> Some (Switch s)
         | Panic m \<Rightarrow> Some (Panic m)
         | Fault m \<Rightarrow> Some (Fault m)
         | Diverge \<Rightarrow> Some Diverge)
      else malloc_loop nunits p (um_ptr s p) s)"

definition malloc :: "32 word \<Rightarrow> uheap \<Rightarrow> (addr, uheap) outcome" where
  "malloc nbytes s =
     (let nunits = nunits_of nbytes;
          s = (if um_freep s = 0
               then set_size (um_base s) 0 ((set_ptr (um_base s) (um_base s) s)\<lparr>um_freep := um_base s\<rparr>)
               else s);
          prevp = um_freep s
      in if \<not> mapped prevp s then Fault ''page fault''
         else returns (malloc_loop nunits prevp (um_ptr s prevp) s))"

section \<open>Circular lists\<close>

text \<open>The free list is a circle: every member points to the next one, the last to the first.\<close>

definition circle :: "('a \<Rightarrow> 'a) \<Rightarrow> 'a list \<Rightarrow> bool" where
  "circle f xs = (map f xs = rotate1 xs)"

lemma circle_rotate: "circle f (us @ vs) \<Longrightarrow> circle f (vs @ us)"
proof -
  assume "circle f (us @ vs)"
  then have "map f (rotate (length us) (us @ vs)) = rotate1 (rotate (length us) (us @ vs))"
    unfolding circle_def by (simp only: rotate_map [symmetric] rotate1_rotate_swap)
  then show ?thesis by (simp add: circle_def rotate_append)
qed

lemma circle_step: "circle f (us @ x # y # vs) \<Longrightarrow> f x = y"
  using circle_rotate [of f us "x # y # vs"] by (simp add: circle_def)

lemma circle_next: "circle f (us @ x # vs) \<Longrightarrow> f x = hd (vs @ us @ [x])"
  using circle_rotate [of f us "x # vs"] by (cases vs; cases us) (simp_all add: circle_def)

lemma circle_remove:
  assumes "circle f (us @ x # y # vs)" "distinct (us @ x # y # vs)"
  shows "circle (f(x := f y)) (us @ x # vs)"
proof -
  define ws where "ws = vs @ us"
  have "circle f (x # y # ws)" using circle_rotate [of f us "x # y # vs"] assms(1) by (simp add: ws_def)
  then have "f y # map f ws = ws @ [x]" by (simp add: circle_def)
  moreover have "x \<notin> set ws" using assms(2) by (auto simp: ws_def)
  ultimately have "circle (f(x := f y)) (x # ws)" by (simp add: circle_def)
  then show ?thesis using circle_rotate [of "f(x := f y)" "x # vs" us] by (simp add: ws_def)
qed

lemma circle_insert:
  assumes "circle f (us @ x # vs)" "distinct (us @ x # vs)" "z \<notin> set (us @ x # vs)"
  shows "circle (f(z := f x, x := z)) (us @ x # z # vs)"
proof -
  define ws where "ws = vs @ us"
  have "circle f (x # ws)" using circle_rotate [of f us "x # vs"] assms(1) by (simp add: ws_def)
  then have "f x # map f ws = ws @ [x]" by (simp add: circle_def)
  moreover have "x \<notin> set ws" "z \<notin> set ws" "z \<noteq> x" using assms(2,3) by (auto simp: ws_def)
  ultimately have "circle (f(z := f x, x := z)) (x # z # ws)" by (simp add: circle_def)
  then show ?thesis using circle_rotate [of "f(z := f x, x := z)" "x # z # vs" us] by (simp add: ws_def)
qed

lemma circle_cong: "circle f xs \<Longrightarrow> (\<And>x. x \<in> set xs \<Longrightarrow> g x = f x) \<Longrightarrow> circle g xs"
  by (simp add: circle_def cong: map_cong)

lemma circle_pred:
  assumes "circle f (h # xs)" "x \<in> set (h # xs)" "f x \<noteq> h"
  obtains us vs where "h # xs = us @ x # f x # vs"
proof -
  obtain us ws where u: "h # xs = us @ x # ws" using assms(2) by (meson split_list)
  have n: "f x = hd (ws @ us @ [x])" using circle_next [of f us x ws] assms(1) u by simp
  show ?thesis
  proof (cases ws)
    case Nil
    then have "f x = h" using n u by (cases us) auto
    then show ?thesis using assms(3) by simp
  next
    case (Cons w vs)
    then show ?thesis using n u that by auto
  qed
qed

end
