(* ===== verification/UmallocSpec.thy ===== *)
theory UmallocSpec
  imports Umalloc
begin

text \<open>
  The allocator of user programs keeps its heap.  The heap of a process consists of blocks: the free ones, which form a circle
  in the order of their addresses that starts at \<^verbatim>\<open>base\<close>, and the ones handed out.  No two blocks overlap, and no two free blocks
  touch.  \<^verbatim>\<open>free\<close> finds the place of a block in the circle and merges it with its neighbours; \<^verbatim>\<open>malloc\<close> hands out a block that is
  part of no other one, and grows the process when no free block is large enough.
\<close>

section \<open>Blocks\<close>

definition bend :: "(addr \<Rightarrow> 32 word) \<Rightarrow> addr \<Rightarrow> nat" where
  "bend sz b = unat b + 8 * unat (sz b)"

definition blocks_ok :: "addr \<Rightarrow> addr \<Rightarrow> (addr \<Rightarrow> 32 word) \<Rightarrow> addr set \<Rightarrow> bool" where
  "blocks_ok base brk sz B =
     ((\<forall>b\<in>B. 0 < unat (sz b) \<and> unat base + 8 \<le> unat b \<and> bend sz b \<le> unat brk) \<and>
      (\<forall>b\<in>B. \<forall>c\<in>B. unat b < unat c \<longrightarrow> bend sz b \<le> unat c))"

definition heap_list ::
  "addr \<Rightarrow> addr \<Rightarrow> (addr \<Rightarrow> 32 word) \<Rightarrow> (addr \<Rightarrow> addr) \<Rightarrow> addr list \<Rightarrow> addr set \<Rightarrow> bool" where
  "heap_list base brk sz f xs A =
     (xs \<noteq> [] \<and> hd xs = base \<and> sorted_wrt (<) xs \<and> circle f xs \<and> sz base = 0 \<and> 0 < unat base \<and>
      unat base + 8 \<le> unat brk \<and> unat brk < 2 ^ 31 \<and> set (tl xs) \<inter> A = {} \<and> blocks_ok base brk sz (set (tl xs) \<union> A))"

definition strict :: "(addr \<Rightarrow> 32 word) \<Rightarrow> addr list \<Rightarrow> bool" where
  "strict sz xs = sorted_wrt (\<lambda>b c. bend sz b < unat c) xs"

definition heap_ok :: "uheap \<Rightarrow> addr list \<Rightarrow> addr set \<Rightarrow> bool" where
  "heap_ok s xs A =
     (heap_list (um_base s) (um_brk s) (um_size s) (um_ptr s) xs A \<and> um_freep s \<in> set xs \<and> strict (um_size s) xs)"

definition untouched :: "addr set \<Rightarrow> uheap \<Rightarrow> uheap \<Rightarrow> bool" where
  "untouched A s t =
     (\<forall>a\<in>A. \<forall>x. unat a \<le> unat x \<and> unat x < bend (um_size s) a \<longrightarrow>
        um_ptr t x = um_ptr s x \<and> um_size t x = um_size s x)"

definition covered :: "(addr \<Rightarrow> 32 word) \<Rightarrow> addr list \<Rightarrow> nat set" where
  "covered sz xs = (\<Union>x\<in>set xs. {unat x..<bend sz x})"

lemma hdr_add_bend: "bend sz b < 2 ^ 32 \<Longrightarrow> unat (hdr_add b (sz b)) = bend sz b"
proof -
  assume a: "bend sz b < 2 ^ 32"
  then have "unat (8 * sz b) = 8 * unat (sz b)"
    by (simp add: bend_def unat_word_ariths)
  then show ?thesis using a by (simp add: hdr_add_def bend_def unat_word_ariths)
qed

lemma heap_listD:
  assumes "heap_list base brk sz f xs A"
  shows "sorted_wrt (<) xs" "distinct xs" "circle f xs" "sz base = 0" "base \<in> set xs" "unat brk < 2 ^ 31" "unat base + 8 \<le> unat brk"
    "hd xs = base" "0 < unat base"
  using assms strict_sorted_iff [of xs] by (auto simp: heap_list_def)

lemma heap_list_block:
  assumes "heap_list base brk sz f xs A" "b \<in> set xs \<union> A" "b \<noteq> base"
  shows "0 < unat (sz b)" "unat base + 8 \<le> unat b" "bend sz b \<le> unat brk" "unat b + 8 \<le> bend sz b"
proof -
  have "b \<in> set (tl xs) \<union> A" using assms by (cases xs) (auto simp: heap_list_def)
  then show "0 < unat (sz b)" "unat base + 8 \<le> unat b" "bend sz b \<le> unat brk"
    using assms(1) by (auto simp: heap_list_def blocks_ok_def)
  then show "unat b + 8 \<le> bend sz b" by (simp add: bend_def)
qed

lemma heap_list_order:
  assumes "heap_list base brk sz f xs A" "b \<in> set xs \<union> A" "c \<in> set xs \<union> A" "unat b < unat c"
  shows "bend sz b \<le> unat c"
proof (cases "b = base")
  case True
  then show ?thesis using heap_listD(4) [OF assms(1)] assms(4) by (simp add: bend_def)
next
  case False
  have "c \<noteq> base"
    using heap_list_block(2) [OF assms(1,2) False] assms(4) by auto
  then show ?thesis using assms False by (cases xs) (auto simp: heap_list_def blocks_ok_def)
qed

lemma heap_list_mapped:
  assumes "heap_list base brk sz f xs A" "b \<in> set xs \<union> A"
  shows "unat b + 8 \<le> unat brk" "0 < unat b" "unat base \<le> unat b"
proof -
  show "unat b + 8 \<le> unat brk" "0 < unat b" "unat base \<le> unat b"
    using heap_listD(7,9) [OF assms(1)] heap_list_block(2-4) [OF assms] by (cases "b = base"; force)+
qed

lemma heap_list_disjoint:
  assumes "heap_list base brk sz f xs A" "x \<in> set xs"
  shows "x \<notin> A"
proof -
  have "base \<notin> A" using assms(1) by (force simp: heap_list_def blocks_ok_def)
  moreover have "x = base \<or> x \<in> set (tl xs)" using assms by (cases xs) (auto simp: heap_list_def)
  ultimately show ?thesis using assms(1) by (auto simp: heap_list_def)
qed

lemma heap_list_outside:
  assumes "heap_list base brk sz f xs A" "y \<in> set xs \<union> A" "a \<in> A" "y \<noteq> a" "unat a \<le> unat x" "unat x < bend sz a"
  shows "y \<noteq> x"
proof
  assume e: "y = x"
  then have "unat a < unat y" using assms(4,5) by (metis le_neq_implies_less word_unat_eq_iff)
  then have "bend sz a \<le> unat y" using heap_list_order [OF assms(1), of a y] assms(2,3) by blast
  then show False using assms(6) e by simp
qed

section \<open>Insertion and merging\<close>

lemma heap_list_insert:
  assumes h: "heap_list base brk sz f (us @ p # vs) (insert b A)" "b \<notin> A" "p < b" "\<forall>x\<in>set vs. b < x"
  shows "heap_list base brk sz (f(b := f p, p := b)) (us @ p # b # vs) A"
proof -
  note d = heap_listD [OF h(1)]
  have "b \<notin> set (us @ p # vs)"
    using h(1) h(3) d(8) by (cases us) (auto simp: heap_list_def)
  then have "circle (f(b := f p, p := b)) (us @ p # b # vs)"
    using circle_insert d(2,3) by metis
  moreover have "sorted_wrt (<) (us @ p # b # vs)"
    using d(1) h(3,4) by (auto simp: sorted_wrt_append)
  moreover have "set (tl (us @ p # b # vs)) \<union> A = set (tl (us @ p # vs)) \<union> insert b A" by (cases us) auto
  moreover have "set (tl (us @ p # b # vs)) \<inter> A = {}" using h(1,2) by (cases us) (auto simp: heap_list_def)
  ultimately show ?thesis using h(1) d(8) by (cases us) (auto simp: heap_list_def)
qed

lemma blocks_merge:
  assumes "blocks_ok base brk sz B" "x \<in> B" "y \<in> B" "bend sz x = unat y" "unat brk < 2 ^ 31"
  shows "unat (sz x + sz y) = unat (sz x) + unat (sz y)" "bend (sz(x := sz x + sz y)) x = bend sz y"
    "blocks_ok base brk (sz(x := sz x + sz y)) (B - {y})"
proof -
  have "bend sz y \<le> unat brk" using assms by (simp add: blocks_ok_def)
  then have "unat (sz x) + unat (sz y) < 2 ^ 32" using assms(4,5) by (simp add: bend_def)
  then show u: "unat (sz x + sz y) = unat (sz x) + unat (sz y)" by (simp add: unat_word_ariths)
  show e: "bend (sz(x := sz x + sz y)) x = bend sz y" using u assms(4) by (simp add: bend_def)
  have "0 < unat (sz x)" using assms by (simp add: blocks_ok_def)
  then have lt: "unat x < unat y" using assms(4) by (simp add: bend_def)
  have o: "bend (sz(x := sz x + sz y)) b = (if b = x then bend sz y else bend sz b)" for b
    using e by (simp add: bend_def)
  have "bend (sz(x := sz x + sz y)) b \<le> unat c" if b: "b \<in> B - {y}" "c \<in> B - {y}" "unat b < unat c" for b c
  proof (cases "b = x")
    case True
    then have "unat y \<le> unat c" using assms(1,2,4) b(2,3) by (auto simp: blocks_ok_def)
    then have "unat y < unat c" using b(2) by (auto simp: le_less word_unat_eq_iff)
    then show ?thesis using True o assms(1,3) b(2) by (simp add: blocks_ok_def)
  next
    case False
    then show ?thesis using o assms(1) b by (simp add: blocks_ok_def)
  qed
  then show "blocks_ok base brk (sz(x := sz x + sz y)) (B - {y})"
    using assms(1,3) o u by (auto simp: blocks_ok_def)
qed

lemma heap_list_merge:
  assumes h: "heap_list base brk sz f (us @ x # y # vs) A" "x \<noteq> base" "bend sz x = unat y"
  shows "heap_list base brk (sz(x := sz x + sz y)) (f(x := f y)) (us @ x # vs) A"
    "bend (sz(x := sz x + sz y)) x = bend sz y"
    "covered (sz(x := sz x + sz y)) (us @ x # vs) = covered sz (us @ x # y # vs)"
proof -
  note d = heap_listD [OF h(1)]
  obtain us' where us: "us = base # us'" using d(8) h(2) by (cases us) auto
  have "circle (f(x := f y)) (us @ x # vs)" using circle_remove d(2,3) by metis
  moreover have "sorted_wrt (<) (us @ x # vs)" using d(1) by (auto simp: sorted_wrt_append)
  moreover have b: "blocks_ok base brk sz (set (us' @ x # y # vs) \<union> A)" using h(1) us by (simp add: heap_list_def)
  moreover have "set (us' @ x # y # vs) \<union> A - {y} = set (us' @ x # vs) \<union> A"
    using d(2) h(1) us by (auto simp: heap_list_def)
  ultimately show "heap_list base brk (sz(x := sz x + sz y)) (f(x := f y)) (us @ x # vs) A"
    using h(1) h(2) us blocks_merge(3) [OF b, of x y] h(3) d(6) by (auto simp: heap_list_def)
  show e: "bend (sz(x := sz x + sz y)) x = bend sz y" using blocks_merge(2) [OF b _ _ h(3) d(6)] by simp
  have "{unat x..<bend sz y} = {unat x..<bend sz x} \<union> {unat y..<bend sz y}"
    using h(3) by (auto simp: bend_def)
  moreover have "bend (sz(x := sz x + sz y)) z = bend sz z" if "z \<in> set us \<union> set vs" for z
    using that d(2) by (auto simp: bend_def)
  ultimately show "covered (sz(x := sz x + sz y)) (us @ x # vs) = covered sz (us @ x # y # vs)"
    using e by (auto simp: covered_def)
qed

section \<open>Finding the place of a block\<close>

definition stop_at :: "addr \<Rightarrow> addr \<Rightarrow> addr \<Rightarrow> bool" where
  "stop_at bp p q = (bp > p \<and> bp < q \<or> p \<ge> q \<and> (bp > p \<or> bp < q))"

lemma free_scan_step:
  "mapped p s \<Longrightarrow> free_scan bp p s = (if stop_at bp p (um_ptr s p) then Some (Ok p s) else free_scan bp (um_ptr s p) s)"
  by (subst free_scan.simps) (auto simp: stop_at_def)

lemma free_walk:
  "map (um_ptr s) xs = tl (xs @ [p]) \<Longrightarrow> (\<And>x. x \<in> set xs \<Longrightarrow> mapped x s \<and> \<not> stop_at bp x (um_ptr s x)) \<Longrightarrow>
   free_scan bp (hd (xs @ [p])) s = free_scan bp p s"
proof (induction xs)
  case (Cons x xs)
  then have "free_scan bp x s = free_scan bp (um_ptr s x) s" using free_scan_step [of x s bp] by simp
  moreover have "um_ptr s x = hd (xs @ [p])" "map (um_ptr s) xs = tl (xs @ [p])"
    using Cons.prems(1) by (cases xs; simp)+
  ultimately show ?case using Cons.IH Cons.prems(2) by simp
qed simp

lemma circle_path:
  assumes "circle f (xs @ p # ys)"
  shows "map f xs = tl (xs @ [p])"
proof (cases xs)
  case (Cons x xs')
  then have "map f xs @ map f (p # ys) = (xs' @ [p]) @ (ys @ [x])" using assms by (simp add: circle_def)
  then have "map f xs = xs' @ [p]" using Cons by (subst (asm) append_eq_append_conv) simp_all
  then show ?thesis using Cons by simp
qed simp

lemma free_scan_place:
  assumes h: "heap_list (um_base s) (um_brk s) (um_size s) (um_ptr s) (us @ p # vs) A" "um_freep s \<in> set (us @ p # vs)"
    and b: "p < bp" "\<forall>x\<in>set vs. bp < x"
  shows "free_scan bp (um_freep s) s = Some (Ok p s)"
proof -
  note d = heap_listD [OF h(1)]
  have m: "mapped x s" if "x \<in> set (us @ p # vs)" for x
    using heap_list_mapped(1) [OF h(1) UnI1 [OF that]] by (simp add: mapped_def)
  have base: "um_base s \<le> p" using heap_list_mapped(3) [OF h(1), of p] by (simp add: word_le_nat_alt)
  have before: "\<not> stop_at bp x (um_ptr s x)" if x: "x \<in> set us" for x
  proof -
    obtain a c where u: "us = a @ x # c" using x by (meson split_list)
    have "um_ptr s x = hd (c @ [p])" using circle_next [of "um_ptr s" a x "c @ p # vs"] d(3) u by (cases c) simp_all
    then have "x < um_ptr s x" "um_ptr s x < bp"
      using d(1) b(1) u by (cases c; auto simp: sorted_wrt_append)+
    then show ?thesis by (auto simp: stop_at_def)
  qed
  have after: "\<not> stop_at bp x (um_ptr s x)" if x: "x \<in> set vs" for x
  proof -
    obtain a c where u: "vs = a @ x # c" using x by (meson split_list)
    have n: "um_ptr s x = hd (c @ us @ p # a @ [x])" using circle_next [of "um_ptr s" "us @ p # a" x c] d(3) u by simp
    show ?thesis
    proof (cases c)
      case Nil
      then have "um_ptr s x = um_base s" using n d(8) by (cases us) auto
      then show ?thesis using b x base by (auto simp: stop_at_def)
    next
      case (Cons w ws)
      then show ?thesis using n d(1) b x u by (auto simp: stop_at_def sorted_wrt_append)
    qed
  qed
  have stop: "stop_at bp p (um_ptr s p)"
  proof (cases vs)
    case Nil
    then have "um_ptr s p = um_base s" using circle_next [of "um_ptr s" us p vs] d(3,8) by (cases us) auto
    then show ?thesis using base b(1) by (simp add: stop_at_def)
  next
    case (Cons w ws)
    then show ?thesis using circle_next [of "um_ptr s" us p vs] d(3) b by (simp add: stop_at_def)
  qed
  obtain a c where r: "us @ p # vs = a @ um_freep s # c" using h(2) by (meson split_list)
  have circ: "circle (um_ptr s) (um_freep s # c @ a)"
    using circle_rotate [of "um_ptr s" a "um_freep s # c"] d(3) r by simp
  have set: "set (um_freep s # c @ a) = set (us @ p # vs)" unfolding r by auto
  obtain xs ys where x: "um_freep s # c @ a = xs @ p # ys" using set by (metis in_set_conv_decomp split_list)
  have "distinct (um_freep s # c @ a)" using d(2) unfolding r by auto
  then have xp: "p \<notin> set xs" unfolding x by simp
  have "set xs \<subseteq> set (us @ p # vs)" unfolding set [symmetric] x by auto
  then have "y \<in> set (us @ p # vs) \<and> (y \<in> set us \<or> y \<in> set vs)" if "y \<in> set xs" for y
    using that xp by auto
  then have "mapped y s \<and> \<not> stop_at bp y (um_ptr s y)" if "y \<in> set xs" for y
    using that m before after by blast
  then have "free_scan bp (hd (xs @ [p])) s = free_scan bp p s"
    using circle_path [of "um_ptr s" xs p ys] circ x by (intro free_walk) simp_all
  moreover have "hd (xs @ [p]) = um_freep s" using x by (cases xs) simp_all
  moreover have "free_scan bp p s = Some (Ok p s)" using free_scan_step [OF m, of p bp] stop by simp
  ultimately show ?thesis by simp
qed

lemma heap_split:
  assumes "heap_list base brk sz f xs (insert b A)" "b \<notin> A"
  obtains us p vs where "xs = us @ p # vs" "p < b" "\<forall>x\<in>set vs. b < x"
proof -
  have d: "sorted_wrt (<) xs" "hd xs = base" "xs \<noteq> []" using assms(1) by (auto simp: heap_list_def)
  have bx: "b \<notin> set (tl xs)" "base < b"
    using assms(1) heap_list_block(2) [OF assms(1), of b] by (auto simp: heap_list_def blocks_ok_def word_less_nat_alt)
  define us where "us = takeWhile (\<lambda>x. x < b) xs"
  define vs where "vs = dropWhile (\<lambda>x. x < b) xs"
  have x: "xs = us @ vs" by (simp add: us_def vs_def)
  have "us \<noteq> []" using d bx(2) by (cases xs) (auto simp: us_def)
  then obtain us' p where u: "us = us' @ [p]" by (meson rev_exhaust)
  have "p < b" using set_takeWhileD [of p "\<lambda>x. x < b" xs] u by (simp add: us_def)
  moreover have "\<forall>x\<in>set vs. b < x"
  proof (cases vs)
    case (Cons v ws)
    have "\<not> v < b" using Cons hd_dropWhile [of "\<lambda>x. x < b" xs] by (simp add: vs_def)
    moreover have "v \<noteq> b" using bx(1) x u Cons by (cases us') auto
    ultimately show ?thesis using d(1) Cons x by (force simp: sorted_wrt_append)
  qed simp
  ultimately show ?thesis using that [of us' p vs] x u by simp
qed

section \<open>Freeing\<close>

lemma heap_touches:
  assumes "heap_list base brk sz f xs A" "b \<in> set xs \<union> A"
  shows "hdr_add b (sz b) = c \<longleftrightarrow> bend sz b = unat c"
proof -
  have "bend sz b \<le> unat brk"
    using heap_list_block(3) [OF assms] heap_list_mapped(1) [OF assms] heap_listD(4) [OF assms(1)] by (cases "b = base") (auto simp: bend_def)
  then have "bend sz b < 2 ^ 32" using heap_listD(6) [OF assms(1)] by simp
  then have "unat (hdr_add b (sz b)) = bend sz b" by (rule hdr_add_bend)
  then show ?thesis by (auto simp: word_unat_eq_iff)
qed

lemma strict_le:
  assumes "strict sz xs" "us @ x # vs = xs" "y \<in> set vs"
  shows "bend sz x < unat y"
  using assms by (auto simp: strict_def sorted_wrt_append)

lemma strict_cong:
  assumes "strict sz xs" "\<And>x. x \<in> set xs \<Longrightarrow> sz' x = sz x"
  shows "strict sz' xs"
  unfolding strict_def
  by (rule sorted_wrt_mono_rel [OF _ assms(1) [unfolded strict_def]]) (simp add: bend_def assms(2))

lemma strict_remove: "strict sz (us @ x # vs) \<Longrightarrow> strict sz (us @ vs)"
  by (simp add: strict_def sorted_wrt_append)

lemma free_right:
  assumes h: "heap_list base brk sz f (us @ p # vs) (insert bp A)" "bp \<notin> A" "p < bp" "\<forall>x\<in>set vs. bp < x" "strict sz (us @ p # vs)"
    and sz1: "sz1 = (if hdr_add bp (sz bp) = f p then sz(bp := sz bp + sz (f p)) else sz)"
    and f1: "f1 = (if hdr_add bp (sz bp) = f p then f(bp := f (f p)) else f(bp := f p))"
  obtains vs1 where "heap_list base brk sz1 (f1(p := bp)) (us @ p # bp # vs1) A" "\<forall>y\<in>set vs1. bend sz1 bp < unat y"
    "strict sz1 (us @ p # vs1)" "unat (sz bp) \<le> unat (sz1 bp)" "hdr_add bp (sz bp) = f p \<Longrightarrow> f p \<in> set vs"
    "covered sz1 (us @ p # bp # vs1) = covered sz (us @ p # vs) \<union> {unat bp..<bend sz bp}"
proof -
  note d = heap_listD [OF h(1)] and ins = heap_list_insert [OF h(1-4)]
  have bp: "bp \<noteq> base" "p \<noteq> bp" "bp \<notin> set (us @ p # vs)"
    using h(3,4) d(1) heap_list_mapped(3) [OF h(1), of p] by (auto simp: sorted_wrt_append word_less_nat_alt)
  have bu: "bp \<in> set (us @ p # vs) \<union> insert bp A" by simp
  have R: "hdr_add bp (sz bp) = f p \<longleftrightarrow> bend sz bp = unat (f p)" by (rule heap_touches [OF h(1) bu])
  have nx: "f p = hd (vs @ us @ [p])" using circle_next [of f us p vs] d(3) by simp
  show ?thesis
  proof (cases "hdr_add bp (sz bp) = f p")
    case True
    then have e: "bend sz bp = unat (f p)" using R by simp
    have "vs \<noteq> []"
    proof
      assume "vs = []"
      then have "f p = base" using nx d(8) by (cases us) auto
      then show False using e heap_list_block(2,4) [OF h(1) bu bp(1)] by simp
    qed
    then obtain ws where v: "vs = f p # ws" using nx by (cases vs) auto
    have fv: "f p \<in> set vs" by (subst v) simp
    have q: "f p \<noteq> bp" "f p \<noteq> p" using h(3,4) fv by auto
    have "heap_list base brk sz (f(bp := f p, p := bp)) ((us @ [p]) @ bp # f p # ws) A" using ins v by simp
    note m = heap_list_merge [OF this bp(1) e]
    have st: "strict sz (us @ p # f p # ws)" using h(5) v by simp
    have "heap_list base brk sz1 (f1(p := bp)) (us @ p # bp # ws) A"
      using m(1) True q bp(2) by (simp add: sz1 f1 fun_upd_twist)
    moreover have "\<forall>y\<in>set ws. bend sz1 bp < unat y"
      using m(2) True st by (auto simp: sz1 strict_def sorted_wrt_append)
    moreover have "strict sz1 (us @ p # ws)"
    proof (rule strict_cong)
      show "strict sz (us @ p # ws)" using strict_remove [of sz "us @ [p]" "f p" ws] st by simp
    qed (use bp(3) v in \<open>auto simp: sz1\<close>)
    moreover have "unat (sz bp) \<le> unat (sz1 bp)"
      using m(2) True e by (simp add: sz1 bend_def)
    moreover have "covered sz1 (us @ p # bp # ws) = covered sz (us @ p # vs) \<union> {unat bp..<bend sz bp}"
      using m(3) True by (simp add: sz1) (auto simp: covered_def v)
    ultimately show ?thesis using that [of ws] fv by simp
  next
    case False
    have "bend sz bp < unat y" if y: "y \<in> set vs" for y
    proof -
      obtain ws where v: "vs = f p # ws" using nx y by (cases vs) auto
      have fv: "f p \<in> set vs" by (subst v) simp
      then have "bend sz bp \<le> unat (f p)"
        using h(4) by (intro heap_list_order [OF h(1) bu]) (auto simp: word_less_nat_alt)
      moreover have "sorted_wrt (<) (f p # ws)" using d(1) v by (simp add: sorted_wrt_append)
      then have "unat (f p) \<le> unat y" using y by (subst (asm) v) (auto simp: word_less_nat_alt)
      ultimately show ?thesis using False R by simp
    qed
    moreover have "covered sz (us @ p # bp # vs) = covered sz (us @ p # vs) \<union> {unat bp..<bend sz bp}" by (auto simp: covered_def)
    ultimately show ?thesis using that [of vs] ins h(5) False by (simp add: sz1 f1)
  qed
qed

lemma free_left:
  assumes h: "heap_list base brk sz1 (f1(p := bp)) (us @ p # bp # vs) A" "\<forall>y\<in>set vs. bend sz1 bp < unat y" "strict sz1 (us @ p # vs)"
    and sz2: "sz2 = (if hdr_add p (sz1 p) = bp then sz1(p := sz1 p + sz1 bp) else sz1)"
    and f2: "f2 = (if hdr_add p (sz1 p) = bp then f1(p := f1 bp) else f1(p := bp))"
  obtains xs where "heap_list base brk sz2 f2 xs A" "strict sz2 xs" "p \<in> set xs" "\<exists>y\<in>set xs. unat (sz1 bp) \<le> unat (sz2 y)"
    "covered sz2 xs = covered sz1 (us @ p # bp # vs)"
proof -
  note d = heap_listD [OF h(1)]
  have pb: "p \<noteq> bp" "unat p < unat bp" using d(1) by (auto simp: sorted_wrt_append word_less_nat_alt)
  have pu: "p \<in> set (us @ p # bp # vs) \<union> A" and bu: "bp \<in> set (us @ p # bp # vs) \<union> A" by simp_all
  have L: "hdr_add p (sz1 p) = bp \<longleftrightarrow> bend sz1 p = unat bp" by (rule heap_touches [OF h(1) pu])
  have dist: "p \<notin> set us" "p \<notin> set vs" using d(2) by auto
  show ?thesis
  proof (cases "hdr_add p (sz1 p) = bp")
    case True
    then have e: "bend sz1 p = unat bp" using L by simp
    have "p \<noteq> base" using e d(4) pb by (auto simp: bend_def)
    note m = heap_list_merge [OF h(1) this e]
    have b: "bend sz2 x = (if x = p then bend sz1 bp else bend sz1 x)" for x
      using m(2) True by (simp add: sz2 bend_def)
    have "heap_list base brk sz2 f2 (us @ p # vs) A" using m(1) True pb by (simp add: sz2 f2)
    moreover have "strict sz2 (us @ p # vs)"
    proof -
      have "sorted_wrt (\<lambda>x y. bend sz2 x < unat y) us" "sorted_wrt (\<lambda>x y. bend sz2 x < unat y) vs"
        using h(3) dist by (auto simp: strict_def sorted_wrt_append b intro: sorted_wrt_mono_rel [rotated])
      then show ?thesis using h(2,3) dist by (auto simp: strict_def sorted_wrt_append b)
    qed
    moreover have "unat (sz1 bp) \<le> unat (sz2 p)" using b [of p] pb(2) by (simp add: bend_def)
    moreover have "covered sz2 (us @ p # vs) = covered sz1 (us @ p # bp # vs)" using m(3) True by (simp add: sz2)
    ultimately show ?thesis using that [of "us @ p # vs"] by auto
  next
    case False
    have "bend sz1 p \<le> unat bp" by (rule heap_list_order [OF h(1) pu bu pb(2)])
    then have "bend sz1 p < unat bp" using False L by simp
    moreover have "bend sz1 x < unat bp" if "x \<in> set us" for x
      using h(3) that pb(2) by (auto simp: strict_def sorted_wrt_append)
    ultimately have "strict sz2 (us @ p # bp # vs)"
      using h(2,3) False by (auto simp: sz2 strict_def sorted_wrt_append)
    then show ?thesis using that [of "us @ p # bp # vs"] h(1) False by (simp add: sz2 f2)
  qed
qed

lemma free_link_ok:
  assumes h: "heap_list (um_base s) (um_brk s) (um_size s) (um_ptr s) (us @ p # vs) (insert bp A)" "bp \<notin> A" "p < bp"
      "\<forall>x\<in>set vs. bp < x" "strict (um_size s) (us @ p # vs)"
  obtains t xs where "free_link bp p s = Ok () t" "heap_ok t xs A" "um_base t = um_base s" "um_brk t = um_brk s" "um_avail t = um_avail s"
    "\<exists>y\<in>set xs. unat (um_size s bp) \<le> unat (um_size t y)" "untouched A s t"
    "covered (um_size t) xs = covered (um_size s) (us @ p # vs) \<union> {unat bp..<bend (um_size s) bp}"
proof -
  let ?R = "hdr_add bp (um_size s bp) = um_ptr s p"
  define sz1 where "sz1 = (if ?R then (um_size s)(bp := um_size s bp + um_size s (um_ptr s p)) else um_size s)"
  define f1 where "f1 = (if ?R then (um_ptr s)(bp := um_ptr s (um_ptr s p)) else (um_ptr s)(bp := um_ptr s p))"
  obtain vs1 where one: "heap_list (um_base s) (um_brk s) sz1 (f1(p := bp)) (us @ p # bp # vs1) A" "\<forall>y\<in>set vs1. bend sz1 bp < unat y"
    "strict sz1 (us @ p # vs1)" "unat (um_size s bp) \<le> unat (sz1 bp)" "?R \<Longrightarrow> um_ptr s p \<in> set vs"
    "covered sz1 (us @ p # bp # vs1) = covered (um_size s) (us @ p # vs) \<union> {unat bp..<bend (um_size s) bp}"
    using free_right [OF h sz1_def f1_def] by blast
  define sz2 where "sz2 = (if hdr_add p (sz1 p) = bp then sz1(p := sz1 p + sz1 bp) else sz1)"
  define f2 where "f2 = (if hdr_add p (sz1 p) = bp then f1(p := f1 bp) else f1(p := bp))"
  obtain xs where two: "heap_list (um_base s) (um_brk s) sz2 f2 xs A" "strict sz2 xs" "p \<in> set xs"
    "\<exists>y\<in>set xs. unat (sz1 bp) \<le> unat (sz2 y)" "covered sz2 xs = covered sz1 (us @ p # bp # vs1)"
    using free_left [OF one(1-3) sz2_def f2_def] by blast
  define t where "t = s\<lparr>um_ptr := f2, um_size := sz2, um_freep := p\<rparr>"
  have m: "mapped bp s" "?R \<Longrightarrow> mapped (um_ptr s p) s"
    using heap_list_mapped(1) [OF h(1)] one(5) by (auto simp: mapped_def)
  have "free_link bp p s = Ok () t"
    using m h(3) by (auto simp: free_link_def Let_def set_ptr_def set_size_def t_def sz2_def f2_def sz1_def f1_def)
  moreover have "heap_ok t xs A" using two by (simp add: heap_ok_def t_def)
  moreover have "untouched A s t"
  proof -
    have "p \<notin> A" using heap_list_disjoint [OF h(1), of p] by simp
    then have "x \<noteq> p \<and> x \<noteq> bp" if "a \<in> A" "unat a \<le> unat x" "unat x < bend (um_size s) a" for a x
      using heap_list_outside [OF h(1), of p a x] heap_list_outside [OF h(1), of bp a x] that h(2) by auto
    then show ?thesis by (auto simp: untouched_def t_def sz2_def f2_def sz1_def f1_def)
  qed
  ultimately show ?thesis using that [of t xs] two(4,5) one(4,6) by (force simp: t_def)
qed

lemma free_ok:
  assumes "heap_ok s xs (insert b A)" "b \<notin> A"
  obtains t ys where "free (hdr_add b 1) s = Ok () t" "heap_ok t ys A" "um_base t = um_base s" "um_brk t = um_brk s" "um_avail t = um_avail s"
    "\<exists>y\<in>set ys. unat (um_size s b) \<le> unat (um_size t y)" "untouched A s t"
    "covered (um_size t) ys = covered (um_size s) xs \<union> {unat b..<bend (um_size s) b}"
proof -
  have h: "heap_list (um_base s) (um_brk s) (um_size s) (um_ptr s) xs (insert b A)" "um_freep s \<in> set xs" "strict (um_size s) xs"
    using assms(1) by (simp_all add: heap_ok_def)
  obtain us p vs where x: "xs = us @ p # vs" "p < b" "\<forall>x\<in>set vs. b < x" using heap_split [OF h(1) assms(2)] by blast
  have "free_scan b (um_freep s) s = Some (Ok p s)"
    using free_scan_place [OF h(1,2) [unfolded x(1)] x(2,3)] .
  then have "free (hdr_add b 1) s = free_link b p s" by (simp add: free_def hdr_add_def)
  then show ?thesis using free_link_ok [OF h(1) [unfolded x(1)] assms(2) x(2,3) h(3) [unfolded x(1)]] that unfolding x(1) by metis
qed

section \<open>Taking a block\<close>

lemma take_whole:
  assumes h: "heap_ok s (us @ v # p # vs) A"
  shows "heap_ok ((set_ptr v (um_ptr s p) s)\<lparr>um_freep := v\<rparr>) (us @ v # vs) (insert p A)"
proof -
  have l: "heap_list (um_base s) (um_brk s) (um_size s) (um_ptr s) (us @ v # p # vs) A" and st: "strict (um_size s) (us @ v # p # vs)"
    using h by (simp_all add: heap_ok_def)
  note d = heap_listD [OF l]
  have "circle ((um_ptr s)(v := um_ptr s p)) (us @ v # vs)" using circle_remove [of "um_ptr s" us v p vs] d(2,3) by simp
  moreover have "sorted_wrt (<) (us @ v # vs)" using d(1) by (auto simp: sorted_wrt_append)
  moreover have "hd (us @ v # vs) = um_base s" using d(8) by (cases us) auto
  moreover have "set (tl (us @ v # vs)) \<union> insert p A = set (tl (us @ v # p # vs)) \<union> A" by (cases us) auto
  moreover have "set (tl (us @ v # vs)) \<inter> insert p A = {}" using l d(2) by (cases us) (auto simp: heap_list_def)
  ultimately have "heap_list (um_base s) (um_brk s) (um_size s) ((um_ptr s)(v := um_ptr s p)) (us @ v # vs) (insert p A)"
    using l by (simp add: heap_list_def)
  moreover have "strict (um_size s) (us @ v # vs)" using strict_remove [of _ "us @ [v]" p vs] st by simp
  ultimately show ?thesis by (simp add: heap_ok_def set_ptr_def)
qed

lemma split_size:
  assumes "n < sz p" "bend sz p < 2 ^ 32"
  shows "unat (hdr_add p (sz p - n)) + 8 * unat n = bend sz p" "unat (hdr_add p (sz p - n)) = unat p + 8 * unat (sz p - n)"
    "0 < unat (sz p - n)"
proof -
  have u: "unat (sz p - n) = unat (sz p) - unat n" using unat_sub [OF less_imp_le [OF assms(1)]] .
  then show a: "unat (hdr_add p (sz p - n)) = unat p + 8 * unat (sz p - n)"
    using assms hdr_add_bend [of "\<lambda>_. sz p - n" p] by (simp add: bend_def)
  show "0 < unat (sz p - n)" using u assms(1) by (simp add: word_less_nat_alt)
  show "unat (hdr_add p (sz p - n)) + 8 * unat n = bend sz p" using a u assms(1) by (simp add: bend_def word_less_nat_alt)
qed

lemma blocks_split:
  assumes "blocks_ok base brk sz B" "p \<in> B" "n < sz p" "0 < n" "unat brk < 2 ^ 31" "r = hdr_add p (sz p - n)"
  shows "r \<notin> B" "blocks_ok base brk (sz(p := sz p - n, r := n)) (insert r B)"
proof -
  have bp: "unat base + 8 \<le> unat p" "bend sz p \<le> unat brk" using assms(1,2) by (auto simp: blocks_ok_def)
  have "bend sz p < 2 ^ 32" using bp(2) assms(5) by simp
  note z = split_size [OF assms(3) this, folded assms(6)]
  have n: "0 < unat n" using assms(4) by (simp add: word_gt_0 unat_gt_0)
  have order: "bend sz b \<le> unat c" if "b \<in> B" "c \<in> B" "unat b < unat c" for b c
    using assms(1) that by (simp add: blocks_ok_def)
  have inside: "unat c < unat p \<or> bend sz p \<le> unat c" if "c \<in> B" "c \<noteq> p" for c
    using order [OF assms(2) that(1)] that(2) by (metis linorder_neqE_nat word_unat_eq_iff)
  have rB: "unat p < unat r" "unat r < bend sz p" using z n by simp_all
  show r: "r \<notin> B" using inside [of r] rB by auto
  let ?sz = "sz(p := sz p - n, r := n)"
  have pr: "p \<noteq> r" using rB(1) by auto
  have e: "bend ?sz p = unat r" "bend ?sz r = bend sz p" "\<And>c. c \<noteq> p \<Longrightarrow> c \<noteq> r \<Longrightarrow> bend ?sz c = bend sz c"
    using z pr by (simp_all add: bend_def)
  have "bend ?sz b \<le> unat c" if bc: "b \<in> insert r B" "c \<in> insert r B" "unat b < unat c" for b c
  proof -
    consider "b = p" | "b = r" "c \<in> B" "c \<noteq> p" | "b \<in> B" "b \<noteq> p" "b \<noteq> r" "c = r" | "b \<in> B" "b \<noteq> p" "b \<noteq> r" "c \<in> B" | "b = r" "c = p" | "b = r" "c = r"
      using bc by blast
    then show ?thesis
    proof cases
      case 1
      then have "c = r \<or> bend sz p \<le> unat c" using bc(2,3) inside [of c] by auto
      then show ?thesis using 1 e(1) rB by auto
    next
      case 2
      then show ?thesis using e(2) bc(3) inside [of c] rB by auto
    next
      case 3
      then show ?thesis using e(3) [of b] bc(3) inside [of b] order [of b p] assms(2) rB by auto
    next
      case 4
      then show ?thesis using e(3) [of b] order bc(3) by auto
    qed (use bc(3) rB in auto)
  qed
  moreover have "0 < unat (?sz b) \<and> unat base + 8 \<le> unat b \<and> bend ?sz b \<le> unat brk" if "b \<in> insert r B" for b
  proof -
    have "0 < unat (sz b) \<and> unat base + 8 \<le> unat b \<and> bend sz b \<le> unat brk" if "b \<in> B"
      using assms(1) that by (simp add: blocks_ok_def)
    then show ?thesis using that e z(3) n bp rB pr by (cases "b = r"; cases "b = p") auto
  qed
  ultimately show "blocks_ok base brk ?sz (insert r B)" by (simp only: blocks_ok_def) blast
qed

lemma take_part:
  assumes h: "heap_ok s xs A" "p \<in> set xs" "p \<noteq> um_base s" "n < um_size s p" "0 < n" "v \<in> set xs"
    and r: "r = hdr_add p (um_size s p - n)"
  shows "r \<notin> set xs \<union> A" "unat r + 8 \<le> unat (um_brk s)"
    "heap_ok ((set_size r n (set_size p (um_size s p - n) s))\<lparr>um_freep := v\<rparr>) xs (insert r A)"
proof -
  let ?sz = "(um_size s)(p := um_size s p - n, r := n)"
  have l: "heap_list (um_base s) (um_brk s) (um_size s) (um_ptr s) xs A" and st: "strict (um_size s) xs"
    using h(1) by (simp_all add: heap_ok_def)
  note d = heap_listD [OF l]
  have p: "p \<in> set (tl xs) \<union> A" using h(2,3) d(8) by (cases xs) auto
  have B: "blocks_ok (um_base s) (um_brk s) (um_size s) (set (tl xs) \<union> A)" using l by (simp add: heap_list_def)
  note b = blocks_split [OF B p h(4,5) d(6) r]
  have "r \<in> insert r (set (tl xs) \<union> A)" by simp
  then have rb: "unat (um_base s) + 8 \<le> unat r" "0 < unat (?sz r)" "bend ?sz r \<le> unat (um_brk s)"
    using b(2) by (simp_all only: blocks_ok_def)
  then have rn: "r \<noteq> um_base s" by auto
  then show rx: "r \<notin> set xs \<union> A" using b(1) d(8) by (cases xs) auto
  show "unat r + 8 \<le> unat (um_brk s)" using rb(2,3) by (simp add: bend_def)
  have "blocks_ok (um_base s) (um_brk s) ?sz (set (tl xs) \<union> insert r A)" using b(2) by simp
  then have "heap_list (um_base s) (um_brk s) ?sz (um_ptr s) xs (insert r A)"
    using l rn h(3) rx by (cases xs) (auto simp: heap_list_def)
  moreover have "strict ?sz xs"
  proof -
    have "bend ?sz x \<le> bend (um_size s) x" if "x \<in> set xs" for x
      using that rx unat_sub [OF less_imp_le [OF h(4)]] by (auto simp: bend_def)
    then show ?thesis
      unfolding strict_def using sorted_wrt_mono_rel [OF _ st [unfolded strict_def]] by (meson le_less_trans)
  qed
  ultimately show "heap_ok ((set_size r n (set_size p (um_size s p - n) s))\<lparr>um_freep := v\<rparr>) xs (insert r A)"
    using h(6) by (simp add: heap_ok_def set_size_def)
qed

definition handed_out :: "32 word \<Rightarrow> addr set \<Rightarrow> uheap \<Rightarrow> addr \<Rightarrow> uheap \<Rightarrow> bool" where
  "handed_out n A s p t =
     (\<exists>r ys. p = hdr_add r 1 \<and> r \<notin> A \<and> um_size t r = n \<and> heap_ok t ys (insert r A) \<and> untouched A s t \<and> um_base t = um_base s)"

lemma take_block_ok:
  assumes h: "heap_ok s (us @ v # p # vs) A" "n \<le> um_size s p" "0 < n"
  obtains q t where "take_block n v p s = Ok q t" "handed_out n A s q t"
proof -
  let ?xs = "us @ v # p # vs"
  have l: "heap_list (um_base s) (um_brk s) (um_size s) (um_ptr s) ?xs A" using h(1) by (simp add: heap_ok_def)
  note d = heap_listD [OF l]
  have mv: "mapped v s" using heap_list_mapped(1) [OF l, of v] by (simp add: mapped_def)
  have pb: "p \<noteq> um_base s" using d(2,8) by (cases us) auto
  have out: "x \<noteq> y" if "y \<in> set ?xs" "a \<in> A" "unat a \<le> unat x" "unat x < bend (um_size s) a" for a x y
    using heap_list_outside [OF l, of y a x] heap_list_disjoint [OF l that(1)] that by auto
  show ?thesis
  proof (cases "um_size s p = n")
    case True
    let ?t = "(set_ptr v (um_ptr s p) s)\<lparr>um_freep := v\<rparr>"
    have "untouched A s ?t" using out [of v] by (auto simp: untouched_def set_ptr_def)
    then have "handed_out n A s (hdr_add p 1) ?t"
      using take_whole [OF h(1)] True heap_list_disjoint [OF l, of p]
      by (auto simp: handed_out_def set_ptr_def intro!: exI [of _ p] exI [of _ "us @ v # vs"])
    then show ?thesis using that True mv by (simp add: take_block_def)
  next
    case False
    define r where "r = hdr_add p (um_size s p - n)"
    let ?t = "(set_size r n (set_size p (um_size s p - n) s))\<lparr>um_freep := v\<rparr>"
    have lt: "n < um_size s p" using False h(2) by simp
    note k = take_part [OF h(1) _ pb lt h(3) _ r_def, of v]
    have "untouched A s ?t"
    proof -
      have lr: "heap_list (um_base s) (um_brk s) ((um_size s)(p := um_size s p - n, r := n)) (um_ptr s) ?xs (insert r A)"
        using k(3) by (simp add: heap_ok_def set_size_def)
      have "x \<noteq> r" if "a \<in> A" "unat a \<le> unat x" "unat x < bend (um_size s) a" for a x
      proof -
        have "a \<noteq> p" "a \<noteq> r" using that(1) heap_list_disjoint [OF l, of p] k(1) by auto
        then show ?thesis using heap_list_outside [OF lr, of r a x] that by (auto simp: bend_def)
      qed
      then show ?thesis using out [of p] by (auto simp: untouched_def set_size_def)
    qed
    then have "handed_out n A s (hdr_add r 1) ?t"
      using k by (auto simp: handed_out_def set_size_def intro!: exI [of _ r] exI [of _ ?xs])
    moreover have "take_block n v p s = Ok (hdr_add r 1) ?t"
      using False k(2) by (simp add: take_block_def Let_def set_size_def r_def mapped_def)
    ultimately show ?thesis using that by blast
  qed
qed

section \<open>Searching the circle\<close>

lemma malloc_walk:
  "map (um_ptr s) xs = tl (xs @ [p]) \<Longrightarrow> (\<And>x. x \<in> set xs \<Longrightarrow> mapped x s \<and> \<not> n \<le> um_size s x \<and> x \<noteq> um_freep s) \<Longrightarrow>
   malloc_loop n v (hd (xs @ [p])) s = malloc_loop n (last (v # xs)) p s"
proof (induction xs arbitrary: v)
  case (Cons x xs)
  have x: "mapped x s" "\<not> n \<le> um_size s x" "x \<noteq> um_freep s" using Cons.prems(2) by simp_all
  have n: "um_ptr s x = hd (xs @ [p])" "map (um_ptr s) xs = tl (xs @ [p])"
    using Cons.prems(1) by (cases xs; simp)+
  have "malloc_loop n v x s = malloc_loop n x (hd (xs @ [p])) s"
    using x n(1) by (subst malloc_loop.simps) simp
  also have "\<dots> = malloc_loop n (last (x # xs)) p s" using Cons.IH n(2) Cons.prems(2) by simp
  finally show ?case by simp
qed simp

lemma circle_from_freep:
  assumes "heap_ok s xs A"
  obtains zs where "circle (um_ptr s) (zs @ [um_freep s])" "set (zs @ [um_freep s]) = set xs" "distinct (zs @ [um_freep s])"
    "um_ptr s (um_freep s) = hd (zs @ [um_freep s])"
proof -
  have l: "circle (um_ptr s) xs" "distinct xs" "um_freep s \<in> set xs"
    using assms heap_listD(2,3) by (auto simp: heap_ok_def)
  obtain a c where x: "xs = a @ um_freep s # c" using l(3) by (meson split_list)
  have "circle (um_ptr s) ((um_freep s # c) @ a)" using circle_rotate [of "um_ptr s" a "um_freep s # c"] l(1) x by simp
  then have "circle (um_ptr s) ([um_freep s] @ (c @ a))" by simp
  then have k: "circle (um_ptr s) ((c @ a) @ [um_freep s])" by (rule circle_rotate)
  then have "um_ptr s (um_freep s) = hd ((c @ a) @ [um_freep s])"
    using circle_next [of "um_ptr s" "c @ a" "um_freep s" "[]"] by simp
  then show ?thesis using that [of "c @ a"] k l(2) x by auto
qed

lemma malloc_find:
  assumes h: "heap_ok s xs A" "y \<in> set xs" "n \<le> um_size s y" "0 < n"
  obtains q t where "malloc_loop n (um_freep s) (um_ptr s (um_freep s)) s = Some (Ok q t)" "handed_out n A s q t"
proof -
  have l: "heap_list (um_base s) (um_brk s) (um_size s) (um_ptr s) xs A" using h(1) by (simp add: heap_ok_def)
  obtain zs where z: "circle (um_ptr s) (zs @ [um_freep s])" "set (zs @ [um_freep s]) = set xs" "distinct (zs @ [um_freep s])"
    "um_ptr s (um_freep s) = hd (zs @ [um_freep s])" using circle_from_freep [OF h(1)] by blast
  have "\<exists>y\<in>set (zs @ [um_freep s]). n \<le> um_size s y" using h(2,3) z(2) by blast
  then obtain ws p rs where p: "zs @ [um_freep s] = ws @ p # rs" "n \<le> um_size s p" "\<forall>x\<in>set ws. \<not> n \<le> um_size s x"
    by (rule split_list_first_propE) blast
  have px: "p \<in> set xs" unfolding z(2) [symmetric] p(1) by simp
  have sub: "set ws \<subseteq> set xs" unfolding z(2) [symmetric] p(1) by auto
  have nf: "um_freep s \<notin> set ws"
    using p(1) z(3) by (cases rs rule: rev_cases) auto
  have m: "mapped x s" if "x \<in> set xs" for x using heap_list_mapped(1) [OF l, of x] that by (simp add: mapped_def)
  have path: "map (um_ptr s) ws = tl (ws @ [p])" using circle_path [of "um_ptr s" ws p rs] z(1) p(1) by simp
  have hd: "hd (ws @ [p]) = um_ptr s (um_freep s)" using z(4) p(1) by (cases ws) simp_all
  define v where "v = last (um_freep s # ws)"
  have walk: "malloc_loop n (um_freep s) (um_ptr s (um_freep s)) s = malloc_loop n v p s"
    using malloc_walk [OF path, of n "um_freep s"] m sub p(3) nf unfolding hd v_def by blast
  have v: "um_ptr s v = p" "v \<in> set xs"
  proof -
    show "um_ptr s v = p"
    proof (cases ws rule: rev_cases)
      case Nil
      then show ?thesis using hd by (simp add: v_def)
    next
      case (snoc us w)
      then show ?thesis using circle_step [of "um_ptr s" us w p rs] z(1) p(1) by (simp add: v_def)
    qed
    show "v \<in> set xs" using sub h(1) by (cases ws rule: rev_cases) (auto simp: v_def heap_ok_def)
  qed
  have "p \<noteq> um_base s" using p(2) h(4) heap_listD(4) [OF l] by auto
  moreover obtain rest where xr: "xs = um_base s # rest" using l by (cases xs) (auto simp: heap_list_def)
  ultimately obtain us vs where x: "xs = us @ v # p # vs"
    using circle_pred [of "um_ptr s" "um_base s" rest v] heap_listD(3) [OF l] v by metis
  obtain q t where "take_block n v p s = Ok q t" "handed_out n A s q t"
    using take_block_ok [OF h(1) [unfolded x] p(2) h(4)] by blast
  then show ?thesis using that walk m [OF px] p(2) by (subst (asm) malloc_loop.simps) simp
qed

section \<open>Growing the process\<close>

lemma sless_unat: "0 < unat w \<Longrightarrow> unat w < 2 ^ 31 \<Longrightarrow> (0 :: 32 word) <s w"
proof -
  assume w: "0 < unat w" "unat w < 2 ^ 31"
  have i: "uint w = int (unat w)" by simp
  have "unat w < 2147483648" using w(2) by simp
  then have "uint w < 2147483648" "uint w > 0" unfolding i using w(1) by linarith+
  then show ?thesis by (simp add: word_sless_alt sint_uint32)
qed

lemma grow_heap:
  assumes h: "heap_ok s xs A" "0 < unat nu" "unat (um_brk s) + 8 * unat nu < 2 ^ 31"
    and t: "t = set_size (um_brk s) nu (s\<lparr>um_brk := um_brk s + nu * sizeof_Header\<rparr>)"
  shows "heap_ok t xs (insert (um_brk s) A)" "um_brk s \<notin> A" "mapped (um_brk s) t" "untouched A s t" "\<forall>a\<in>A. um_size t a = um_size s a"
    "\<forall>x\<in>A. unat x < unat (um_brk s)"
proof -
  let ?p = "um_brk s" and ?sz = "(um_size s)(um_brk s := nu)"
  have l: "heap_list (um_base s) ?p (um_size s) (um_ptr s) xs A" and st: "strict (um_size s) xs" "um_freep s \<in> set xs"
    using h(1) by (simp_all add: heap_ok_def)
  note d = heap_listD [OF l]
  have u: "unat (?p + nu * 8) = unat ?p + 8 * unat nu" using h(3) by (simp add: unat_word_ariths)
  have lt: "unat x + 8 \<le> unat ?p" if "x \<in> set xs \<union> A" for x using heap_list_mapped(1) [OF l that] .
  then have new: "?p \<notin> set xs \<union> A" by force
  have e: "bend ?sz x = bend (um_size s) x" if "x \<noteq> ?p" for x using that by (simp add: bend_def)
  have below: "bend (um_size s) x \<le> unat ?p" if "x \<in> set (tl xs) \<union> A" for x
    using l that by (auto simp: heap_list_def blocks_ok_def)
  have "set (tl xs) \<subseteq> set xs" by (cases xs) auto
  then have tlx: "?p \<notin> set (tl xs)" "\<And>x. x \<in> set (tl xs) \<union> A \<Longrightarrow> unat x + 8 \<le> unat ?p" using new lt by auto
  have "blocks_ok (um_base s) (?p + nu * 8) ?sz (insert ?p (set (tl xs) \<union> A))"
    unfolding blocks_ok_def
  proof (intro conjI ballI impI)
    fix b assume b: "b \<in> insert ?p (set (tl xs) \<union> A)"
    have o: "0 < unat (um_size s b) \<and> unat (um_base s) + 8 \<le> unat b" if "b \<noteq> ?p"
      using l b that by (auto simp: heap_list_def blocks_ok_def)
    show "0 < unat (?sz b)" "unat (um_base s) + 8 \<le> unat b" using o h(2) d(7) by (cases "b = ?p"; simp)+
    show "bend ?sz b \<le> unat (?p + nu * 8)"
      using b below [of b] e [of b] u by (cases "b = ?p") (auto simp: bend_def)
    fix c assume c: "c \<in> insert ?p (set (tl xs) \<union> A)" "unat b < unat c"
    have "b \<noteq> ?p" using c tlx(2) [of c] by auto
    moreover have "bend (um_size s) b \<le> unat c" if "c \<noteq> ?p"
      using l b c that calculation by (auto simp: heap_list_def blocks_ok_def)
    ultimately show "bend ?sz b \<le> unat c" using b below [of b] e [of b] by (cases "c = ?p") auto
  qed
  moreover have "um_base s \<noteq> ?p" using d(5) new by auto
  ultimately have "heap_list (um_base s) (?p + nu * 8) ?sz (um_ptr s) xs (insert ?p A)"
    using l h(3) u tlx(1) by (auto simp: heap_list_def)
  moreover have "strict ?sz xs" by (rule strict_cong [OF st(1)]) (use new in auto)
  ultimately show "heap_ok t xs (insert ?p A)" using st(2) by (simp add: heap_ok_def t set_size_def)
  show "?p \<notin> A" using new by simp
  show "mapped ?p t" using u h(2) by (simp add: mapped_def t set_size_def)
  show "untouched A s t" using below by (force simp: untouched_def t set_size_def)
  show "\<forall>a\<in>A. um_size t a = um_size s a" using new by (auto simp: t set_size_def)
  show "\<forall>x\<in>A. unat x < unat ?p" using lt by force
qed

lemma untouched_trans:
  assumes "untouched A s t" "untouched A t u" "\<forall>a\<in>A. um_size t a = um_size s a"
  shows "untouched A s u"
  using assms by (simp add: untouched_def bend_def)

lemma untouched_sizes:
  assumes "heap_ok s xs A" "untouched A s t" "a \<in> A"
  shows "um_size t a = um_size s a"
proof -
  have l: "heap_list (um_base s) (um_brk s) (um_size s) (um_ptr s) xs A" using assms(1) by (simp add: heap_ok_def)
  have "a \<noteq> um_base s" using heap_list_disjoint [OF l heap_listD(5) [OF l]] assms(3) by auto
  then have "unat a < bend (um_size s) a" using heap_list_block(4) [OF l, of a] assms(3) by simp
  then show ?thesis using assms(2,3) by (simp add: untouched_def)
qed

lemma sbrk_cases:
  assumes "0 < unat n" "unat n < 2 ^ 31" "unat (um_brk s) < 2 ^ 31"
  shows "sbrk n s = (- 1, s) \<or>
    sbrk n s = (um_brk s, s\<lparr>um_brk := um_brk s + n\<rparr>) \<and> unat (um_brk s) + unat n < 2 ^ 31"
proof -
  have u: "unat (um_brk s + n) = unat (um_brk s) + unat n" using assms by (simp add: unat_word_ariths)
  then have "\<not> um_brk s + n < um_brk s" by (simp add: word_less_nat_alt)
  then show ?thesis using sless_unat [OF assms(1,2)] u
    by (auto simp: sbrk_def Let_def word_le_nat_alt not_le)
qed

definition refused :: "32 word \<Rightarrow> uheap \<Rightarrow> bool" where
  "refused n s = (fst (sbrk ((if n < 4096 then 4096 else n) * sizeof_Header) s) = - 1)"

lemma morecore_ok:
  assumes h: "heap_ok s xs A" "8 * unat n < 2 ^ 31"
  shows "morecore n s = Ok 0 s \<and> refused n s \<or>
    (\<exists>t ys. morecore n s = Ok (um_freep t) t \<and> heap_ok t ys A \<and> um_base t = um_base s \<and> untouched A s t \<and>
       (\<exists>y\<in>set ys. unat n \<le> unat (um_size t y)))"
proof -
  define nu where "nu = (if n < 4096 then 4096 else n)"
  have nu: "unat n \<le> unat nu" "0 < unat nu" "8 * unat nu < 2 ^ 31"
    using h(2) by (auto simp: nu_def word_less_nat_alt)
  have u: "unat (nu * 8) = 8 * unat nu" using nu(3) by (simp add: unat_word_ariths)
  have brk: "unat (um_brk s) < 2 ^ 31" using h(1) by (auto simp: heap_ok_def heap_list_def)
  moreover have "unat (- 1 :: addr) = 4294967295" by (simp add: unsigned_minus_1_eq_mask mask_eq_exp_minus_1)
  ultimately have neq: "um_brk s \<noteq> - 1" by auto
  have "0 < unat (nu * 8)" "unat (nu * 8) < 2 ^ 31" using u nu by simp_all
  from sbrk_cases [OF this brk] show ?thesis
  proof (elim disjE conjE)
    assume "sbrk (nu * 8) s = (- 1, s)"
    then show ?thesis by (simp add: morecore_def refused_def nu_def [symmetric])
  next
    assume s: "sbrk (nu * 8) s = (um_brk s, s\<lparr>um_brk := um_brk s + nu * 8\<rparr>)" "unat (um_brk s) + unat (nu * 8) < 2 ^ 31"
    define s1 where "s1 = set_size (um_brk s) nu (s\<lparr>um_brk := um_brk s + nu * 8\<rparr>)"
    have lim: "unat (um_brk s) + 8 * unat nu < 2 ^ 31" using s(2) u by simp
    note g = grow_heap [OF h(1) nu(2) lim s1_def]
    obtain t ys where t: "free (hdr_add (um_brk s) 1) s1 = Ok () t" "heap_ok t ys A" "um_base t = um_base s1" 
      "\<exists>y\<in>set ys. unat (um_size s1 (um_brk s)) \<le> unat (um_size t y)" "untouched A s1 t"
      using free_ok [OF g(1,2)] by metis
    have "morecore n s = Ok (um_freep t) t"
      using s(1) neq g(3) t(1) by (simp add: morecore_def nu_def [symmetric] s1_def [symmetric] Let_def) (simp add: mapped_def s1_def set_size_def)
    moreover have e: "um_size s1 (um_brk s) = nu" "um_base s1 = um_base s" by (simp_all add: s1_def set_size_def)
    have "\<exists>y\<in>set ys. unat n \<le> unat (um_size t y)" using t(4) nu(1) unfolding e(1) by (meson le_trans)
    ultimately show ?thesis using t(2,3) e(2) untouched_trans [OF g(4) t(5) g(5)] by auto
  qed
qed

section \<open>Allocation\<close>

lemma heap_ok_freep:
  assumes "heap_ok s xs A"
  shows "um_freep s \<noteq> 0" "mapped (um_freep s) s"
proof -
  have l: "heap_list (um_base s) (um_brk s) (um_size s) (um_ptr s) xs A" "um_freep s \<in> set xs \<union> A"
    using assms by (simp_all add: heap_ok_def)
  then show "um_freep s \<noteq> 0" "mapped (um_freep s) s" using heap_list_mapped(1,2) [OF l] by (auto simp: mapped_def)
qed

lemma handed_out_nonzero:
  assumes "handed_out n A s p t"
  shows "p \<noteq> 0"
proof -
  obtain r ys where r: "p = hdr_add r 1" "heap_ok t ys (insert r A)" using assms by (auto simp: handed_out_def)
  then have "unat r + 8 \<le> unat (um_brk t)" "unat (um_brk t) < 2 ^ 31"
    using heap_list_mapped(1) [of "um_base t" "um_brk t" "um_size t" "um_ptr t" ys "insert r A" r] heap_listD(6)
    by (auto simp: heap_ok_def)
  then have "unat (r + 8) = unat r + 8" by (simp add: unat_word_ariths)
  then show ?thesis using r(1) by (auto simp: hdr_add_def)
qed

lemma malloc_loop_ok:
  assumes h: "heap_ok s xs A" "0 < n" "8 * unat n < 2 ^ 31"
  obtains q t where "malloc_loop n (um_freep s) (um_ptr s (um_freep s)) s = Some (Ok q t)"
    "q = 0 \<and> t = s \<and> refused n s \<or> handed_out n A s q t"
proof (cases "\<exists>y\<in>set xs. n \<le> um_size s y")
  case True
  then show ?thesis using malloc_find [OF h(1) _ _ h(2)] that by metis
next
  case False
  have l: "heap_list (um_base s) (um_brk s) (um_size s) (um_ptr s) xs A" using h(1) by (simp add: heap_ok_def)
  obtain zs where z: "circle (um_ptr s) (zs @ [um_freep s])" "set (zs @ [um_freep s]) = set xs" "distinct (zs @ [um_freep s])"
    "um_ptr s (um_freep s) = hd (zs @ [um_freep s])" using circle_from_freep [OF h(1)] by blast
  have m: "mapped x s \<and> \<not> n \<le> um_size s x" if "x \<in> set (zs @ [um_freep s])" for x
    using heap_list_mapped(1) [OF l, of x] that False unfolding z(2) by (auto simp: mapped_def)
  have "malloc_loop n (um_freep s) (um_ptr s (um_freep s)) s = malloc_loop n (last (um_freep s # zs)) (um_freep s) s"
    unfolding z(4) using circle_path [of "um_ptr s" zs "um_freep s" "[]"] z(1,3) m by (intro malloc_walk) auto
  also have "\<dots> = (case morecore n s of
      Ok q s \<Rightarrow> if q = 0 then Some (Ok 0 s) else if \<not> mapped q s then Some (Fault ''page fault'') else malloc_loop n q (um_ptr s q) s
    | Switch s \<Rightarrow> Some (Switch s) | Panic m \<Rightarrow> Some (Panic m) | Fault m \<Rightarrow> Some (Fault m) | Diverge \<Rightarrow> Some Diverge)"
    using m [of "um_freep s"] by (subst malloc_loop.simps) simp
  finally have loop: "malloc_loop n (um_freep s) (um_ptr s (um_freep s)) s = \<dots>" .
  from morecore_ok [OF h(1,3)] show ?thesis
  proof (elim disjE conjE exE bexE)
    assume "morecore n s = Ok 0 s" "refused n s"
    then show ?thesis using that loop by simp
  next
    fix t ys y
    assume t: "morecore n s = Ok (um_freep t) t" "heap_ok t ys A" "um_base t = um_base s" "untouched A s t" "y \<in> set ys" "unat n \<le> unat (um_size t y)"
    note f = heap_ok_freep [OF t(2)]
    have "n \<le> um_size t y" using t(6) by (simp add: word_le_nat_alt)
    then obtain q u where u: "malloc_loop n (um_freep t) (um_ptr t (um_freep t)) t = Some (Ok q u)" "handed_out n A t q u"
      using malloc_find [OF t(2,5) _ h(2)] by blast
    have "\<forall>a\<in>A. um_size t a = um_size s a" using untouched_sizes [OF h(1) t(4)] by blast
    then have "handed_out n A s q u" using u(2) t(3) untouched_trans [OF t(4)] by (auto simp: handed_out_def)
    then show ?thesis using that loop t(1) f u(1) by simp
  qed
qed

definition heap_inv :: "uheap \<Rightarrow> addr set \<Rightarrow> bool" where
  "heap_inv s A =
     ((\<exists>xs. heap_ok s xs A) \<or>
      um_freep s = 0 \<and> A = {} \<and> 0 < unat (um_base s) \<and> unat (um_base s) + 8 \<le> unat (um_brk s) \<and> unat (um_brk s) < 2 ^ 31)"

definition malloc_start :: "uheap \<Rightarrow> uheap" where
  "malloc_start s =
     (if um_freep s = 0
      then set_size (um_base s) 0 ((set_ptr (um_base s) (um_base s) s)\<lparr>um_freep := um_base s\<rparr>)
      else s)"

lemma malloc_start_ok:
  assumes "heap_inv s A"
  shows "\<exists>xs. heap_ok (malloc_start s) xs A" "um_base (malloc_start s) = um_base s" "untouched A s (malloc_start s)"
    "refused n (malloc_start s) = refused n s" "\<forall>a\<in>A. um_size (malloc_start s) a = um_size s a"
proof -
  show "\<exists>xs. heap_ok (malloc_start s) xs A"
  proof (cases "um_freep s = 0")
    case True
    then have "\<not> heap_ok s xs A" for xs using heap_ok_freep(1) by blast
    then have "A = {} \<and> 0 < unat (um_base s) \<and> unat (um_base s) + 8 \<le> unat (um_brk s) \<and> unat (um_brk s) < 2 ^ 31"
      using assms by (simp add: heap_inv_def)
    then have "heap_ok (malloc_start s) [um_base s] A"
      using True by (simp add: malloc_start_def heap_ok_def heap_list_def blocks_ok_def circle_def strict_def set_ptr_def set_size_def)
    then show ?thesis by blast
  next
    case False
    then show ?thesis using assms by (simp add: heap_inv_def malloc_start_def)
  qed
  have "um_brk (malloc_start s) = um_brk s" "um_avail (malloc_start s) = um_avail s"
    by (simp_all add: malloc_start_def set_ptr_def set_size_def)
  then show "refused n (malloc_start s) = refused n s" unfolding refused_def sbrk_def Let_def by (simp cong: if_cong)
  show "um_base (malloc_start s) = um_base s" by (simp add: malloc_start_def set_ptr_def set_size_def)
  have "um_freep s \<noteq> 0 \<or> A = {}"
  proof (cases "\<exists>xs. heap_ok s xs A")
    case True
    then show ?thesis using heap_ok_freep(1) by blast
  next
    case False
    then show ?thesis using assms by (simp add: heap_inv_def)
  qed
  then show "untouched A s (malloc_start s)" "\<forall>a\<in>A. um_size (malloc_start s) a = um_size s a"
    by (auto simp: malloc_start_def untouched_def)
qed

lemma malloc_ok:
  assumes "heap_inv s A" "0 < nunits_of nb" "8 * unat (nunits_of nb) < 2 ^ 31"
  obtains p t where "malloc nb s = Ok p t" "p = 0 \<and> heap_inv t A \<and> refused (nunits_of nb) s \<and> untouched A s t \<or> handed_out (nunits_of nb) A s p t"
proof -
  let ?s = "malloc_start s"
  note st = malloc_start_ok [OF assms(1)]
  obtain xs where h: "heap_ok ?s xs A" using st(1) by blast
  obtain q t where q: "malloc_loop (nunits_of nb) (um_freep ?s) (um_ptr ?s (um_freep ?s)) ?s = Some (Ok q t)"
    "q = 0 \<and> t = ?s \<and> refused (nunits_of nb) ?s \<or> handed_out (nunits_of nb) A ?s q t"
    using malloc_loop_ok [OF h assms(2,3)] by blast
  have "malloc nb s = Ok q t" using q(1) heap_ok_freep(2) [OF h] by (simp add: malloc_def malloc_start_def [symmetric] Let_def)
  moreover have "handed_out (nunits_of nb) A s q t" if "handed_out (nunits_of nb) A ?s q t"
    using that st(2) untouched_trans [OF st(3) _ st(5)] by (auto simp: handed_out_def)
  moreover have "heap_inv ?s A" using h by (auto simp: heap_inv_def)
  ultimately show ?thesis using that q(2) st(3,4) by blast
qed

lemma nunits_of_unat:
  assumes "unat nb \<le> 0x7FFFFFF0"
  shows "unat (nunits_of nb) = (unat nb + 7) div 8 + 1"
proof -
  have "unat (nb + 7) = unat nb + 7" using assms by (simp add: unat_word_ariths)
  then have d: "unat ((nb + 7) div 8) = (unat nb + 7) div 8" by (simp add: unat_div)
  then have "unat ((nb + 7) div 8) + 1 < 2 ^ 32" using assms by simp
  then have "unat ((nb + 7) div 8 + 1) = unat ((nb + 7) div 8) + 1" by (simp add: unat_word_ariths)
  moreover have "nb + 8 - 1 = nb + 7" by simp
  ultimately show ?thesis using d by (simp only: nunits_of_def)
qed

lemma hdr_add_one:
  assumes "heap_ok t ys (insert b A)"
  shows "unat (hdr_add b 1) = unat b + 8"
proof -
  have l: "heap_list (um_base t) (um_brk t) (um_size t) (um_ptr t) ys (insert b A)" using assms by (simp add: heap_ok_def)
  then have "unat b + 8 < 2 ^ 32" using heap_list_mapped(1) [OF l, of b] heap_listD(6) [OF l] by simp
  then show ?thesis by (simp add: hdr_add_def unat_word_ariths)
qed

lemma heap_ok_apart:
  assumes "heap_ok t ys (insert b A)" "b \<notin> A" "a \<in> A"
  shows "bend (um_size t) a \<le> unat b \<or> bend (um_size t) b \<le> unat a"
proof -
  have l: "heap_list (um_base t) (um_brk t) (um_size t) (um_ptr t) ys (insert b A)" using assms(1) by (simp add: heap_ok_def)
  have "unat a < unat b \<or> unat b < unat a" using assms(2,3) by (metis linorder_neqE_nat word_unat_eq_iff)
  then show ?thesis using heap_list_order [OF l, of a b] heap_list_order [OF l, of b a] assms(3) by auto
qed

definition demo_uheap :: uheap where
  "demo_uheap = \<lparr>um_ptr = (\<lambda>_. 0), um_size = (\<lambda>_. 0), um_base = 0x2000, um_freep = 0, um_brk = 0x3000, um_avail = (\<lambda>_ _. True)\<rparr>"

lemma demo_uheap_inv: "heap_inv demo_uheap {}"
  by (simp add: heap_inv_def demo_uheap_def)

lemma demo_not_refused: "\<not> refused 1 demo_uheap" "\<not> refused 14 demo_uheap"
proof -
  have "sbrk 32768 demo_uheap = (0x3000, demo_uheap\<lparr>um_brk := 0xB000\<rparr>)"
    using sless_unat [of 32768] by (simp add: sbrk_def demo_uheap_def Let_def)
  then show "\<not> refused 1 demo_uheap" "\<not> refused 14 demo_uheap" by (simp_all add: refused_def)
qed

text \<open>C27: \<^verbatim>\<open>malloc\<close> returns for every request below two gigabytes, and never page-faults.  It hands out a block of its own with room for the
  request, which overlaps no block handed out before, it leaves what is in those blocks alone, and the heap stays well-formed.
  It returns 0 only when the kernel refuses to let the process grow.\<close>

theorem malloc_gives_fresh_block:
  assumes "heap_inv s A" "unat nbytes \<le> 0x7FFFFFF0"
  shows "\<exists>p t. malloc nbytes s = Ok p t \<and> untouched A s t \<and>
    (if p = 0 then refused (nunits_of nbytes) s \<and> heap_inv t A
     else \<exists>b. p = hdr_add b 1 \<and> b \<notin> A \<and> heap_inv t (insert b A) \<and> unat p + unat nbytes \<le> bend (um_size t) b \<and>
       (\<forall>a\<in>A. bend (um_size t) a \<le> unat b \<or> bend (um_size t) b \<le> unat a))"
proof -
  note u = nunits_of_unat [OF assms(2)]
  have n: "0 < nunits_of nbytes" "8 * unat (nunits_of nbytes) < 2 ^ 31" using u assms(2) by (simp_all add: word_less_nat_alt)
  obtain p t where m: "malloc nbytes s = Ok p t"
    "p = 0 \<and> heap_inv t A \<and> refused (nunits_of nbytes) s \<and> untouched A s t \<or> handed_out (nunits_of nbytes) A s p t"
    using malloc_ok [OF assms(1) n] by blast
  show ?thesis
  proof (cases "handed_out (nunits_of nbytes) A s p t")
    case True
    then obtain b ys where b: "p = hdr_add b 1" "b \<notin> A" "um_size t b = nunits_of nbytes" "heap_ok t ys (insert b A)" "untouched A s t"
      by (auto simp: handed_out_def)
    have "unat p + unat nbytes \<le> bend (um_size t) b" using hdr_add_one [OF b(4)] b(1,3) u by (simp add: bend_def)
    then show ?thesis using m(1) b handed_out_nonzero [OF True] heap_ok_apart [OF b(4,2)] by (auto simp: heap_inv_def)
  next
    case False
    then show ?thesis using m by auto
  qed
qed

theorem malloc_gives_fresh_block_witness:
  "\<exists>p t b. malloc 100 demo_uheap = Ok p t \<and> p = hdr_add b 1 \<and> heap_inv t {b} \<and> unat p + 100 \<le> bend (um_size t) b"
  using malloc_gives_fresh_block [OF demo_uheap_inv, of 100] demo_not_refused(2)
  by (auto simp: nunits_of_def split: if_splits)

text \<open>C34: a request of the seven largest sizes wraps around.  Adding the size of the header overflows, so \<^verbatim>\<open>malloc\<close> treats the request
  as one for no bytes at all; instead of failing it hands out a block that consists of its header only, and everything the caller writes there
  belongs to somebody else.\<close>

theorem malloc_huge_request_wraps:
  assumes "heap_inv s A" "0xFFFFFFF9 \<le> unat nbytes" "\<not> refused 1 s"
  shows "malloc nbytes s = malloc 0 s \<and>
    (\<exists>p t b. malloc nbytes s = Ok p t \<and> p = hdr_add b 1 \<and> bend (um_size t) b = unat p \<and> heap_inv t (insert b A))"
proof -
  have n: "nunits_of nbytes = 1"
  proof -
    have "unat nbytes < 4294967296" using unsigned_less [of nbytes] by simp
    then obtain k where k: "unat nbytes + 7 = 4294967296 + k" "k < 8"
      using assms(2) le_Suc_ex [of 4294967296 "unat nbytes + 7"] by auto
    have "unat (nbytes + 7) = (unat nbytes + 7) mod 4294967296" by (simp only: unat_word_ariths) simp
    then have "unat (nbytes + 7) < 8" unfolding k(1) mod_add_self1 using k(2) by simp
    then have "(nbytes + 7) div 8 = 0" by (simp add: word_unat_eq_iff unat_div)
    then show ?thesis by (simp add: nunits_of_def add.commute)
  qed
  then have z: "malloc nbytes s = malloc 0 s" by (simp add: malloc_def nunits_of_def)
  obtain p t where m: "malloc nbytes s = Ok p t" "handed_out 1 A s p t"
    using malloc_ok [OF assms(1), of nbytes] n assms(3) by auto
  then obtain b ys where b: "p = hdr_add b 1" "um_size t b = 1" "heap_ok t ys (insert b A)" by (auto simp: handed_out_def)
  have "bend (um_size t) b = unat p" "heap_inv t (insert b A)"
    using b hdr_add_one [OF b(3)] by (auto simp: bend_def heap_inv_def)
  then show ?thesis using z m(1) b(1) by blast
qed

theorem malloc_huge_request_wraps_witness:
  "\<exists>p t b. malloc 0xFFFFFFFF demo_uheap = Ok p t \<and> p = hdr_add b 1 \<and> bend (um_size t) b = unat p"
proof -
  have "0xFFFFFFF9 \<le> unat (0xFFFFFFFF :: 32 word)" by simp
  from malloc_huge_request_wraps [OF demo_uheap_inv this demo_not_refused(1)] show ?thesis by blast
qed

text \<open>C28: \<^verbatim>\<open>free\<close> returns for every block that is handed out.  The bytes of the block become free bytes and nothing else does, the other blocks
  and what is in them stay as they are, and the free list is in the order of addresses with no two neighbours left unmerged.\<close>

theorem free_returns_block:
  assumes "heap_ok s xs (insert b A)" "b \<notin> A"
  shows "\<exists>t ys. free (hdr_add b 1) s = Ok () t \<and> heap_ok t ys A \<and> untouched A s t \<and>
    covered (um_size t) ys = covered (um_size s) xs \<union> {unat b..<bend (um_size s) b}"
  using free_ok [OF assms] by metis

definition demo_used_heap :: uheap where
  "demo_used_heap = \<lparr>um_ptr = (\<lambda>x. if x = 0x2000 then 0x3000 else 0x2000), um_size = (\<lambda>x. if x = 0x3000 then 4 else if x = 0x3020 then 2 else 0),
     um_base = 0x2000, um_freep = 0x2000, um_brk = 0x4000, um_avail = (\<lambda>_ _. True)\<rparr>"

theorem free_returns_block_witness:
  "\<exists>t ys. free (hdr_add 0x3020 1) demo_used_heap = Ok () t \<and> heap_ok t ys {} \<and> covered (um_size t) ys = {0x3000..<0x3030}"
proof -
  have "heap_ok demo_used_heap [0x2000, 0x3000] (insert 0x3020 {})"
    by (simp add: heap_ok_def heap_list_def blocks_ok_def strict_def circle_def bend_def demo_used_heap_def)
  moreover have "covered (um_size demo_used_heap) [0x2000, 0x3000] \<union> {unat (0x3020 :: addr)..<bend (um_size demo_used_heap) 0x3020} = {0x3000..<0x3030}"
    by (auto simp: covered_def bend_def demo_used_heap_def)
  ultimately show ?thesis using free_returns_block [of demo_used_heap "[0x2000, 0x3000]" "0x3020" "{}"] by auto
qed

text \<open>A request of two gigabytes or more that does not wrap is handed to \<^verbatim>\<open>sbrk\<close> as a negative number.  The kernel then leaves the process as it
  is and reports success, and \<^verbatim>\<open>morecore\<close> writes a header behind the end of the process.\<close>

lemma morecore_negative_faults:
  assumes "2 ^ 31 \<le> 8 * unat n" "unat (um_brk s) + 8 * unat n < 2 ^ 32" "0 < unat (um_brk s)" "unat (um_brk s) < 2 ^ 31"
  shows "morecore n s = Fault ''page fault''"
proof -
  have u: "unat (n * 8) = 8 * unat n" "unat (um_brk s + n * 8) = unat (um_brk s) + 8 * unat n"
    using assms(1,2) by (simp_all add: unat_word_ariths)
  have i: "uint (n * 8) = int (unat (n * 8))" by simp
  have b: "2147483648 \<le> 8 * unat n" "8 * unat n < 4294967296" using assms(1,2) by simp_all
  have "uint (n * 8) \<ge> 2147483648" unfolding i u(1) using b(1) by linarith
  moreover have "uint (n * 8) < 4294967296" unfolding i u(1) using b(2) by linarith
  ultimately have s: "\<not> 0 <s n * 8" "n * 8 <s 0" by (simp_all add: word_sless_alt sint_uint32)
  have "um_brk s \<noteq> 0" "um_brk s \<noteq> - 1"
    using assms(3,4) by (auto simp: unsigned_minus_1_eq_mask mask_eq_exp_minus_1)
  moreover have "um_brk s \<le> um_brk s + n * 8" using u(2) by (simp add: word_le_nat_alt)
  ultimately have "sbrk (n * 8) s = (um_brk s, s)" using s by (simp add: sbrk_def Let_def)
  moreover have "\<not> n < 4096" using assms(1) by (simp add: word_less_nat_alt)
  ultimately show ?thesis using \<open>um_brk s \<noteq> - 1\<close> by (simp add: morecore_def mapped_def)
qed

end
