(* ===== verification/Sh.thy ===== *)
theory Sh
  imports Prelude
begin

text \<open>
  The command parser of the shell: \<^verbatim>\<open>sh.c\<close> from the constructors to \<^verbatim>\<open>nulterminate\<close>.

  Pointers into the command line are positions in it; the end \<^verbatim>\<open>es\<close> is its length, where the
  terminating zero stands.  A parsed word is the pair of its start and its end, as in the fields
  \<^verbatim>\<open>argv\<close> and \<^verbatim>\<open>eargv\<close>.  \<^verbatim>\<open>parseexec\<close> stores arguments into the \<^verbatim>\<open>execcmd\<close> it made before it
  wrapped redirections around it; \<open>add_arg\<close> reaches it through them.  The \<^verbatim>\<open>panic\<close> of the shell
  prints and exits: it is the result \<open>Exit\<close>.  The nesting of the mutually recursive parsing functions
  is bounded by fuel, and \<open>parsecmd\<close> supplies enough of it for every line.
\<close>

section \<open>Tokens\<close>

definition whitespace :: "byte list" where "whitespace = [32, 9, 13, 10, 11]"
definition symbols :: "byte list" where "symbols = [60, 124, 62, 38, 59, 40, 41]"

definition char_at :: "byte list \<Rightarrow> nat \<Rightarrow> byte" where
  "char_at b i = (if i < length b then b ! i else 0)"

definition skip_space :: "byte list \<Rightarrow> nat \<Rightarrow> nat" where
  "skip_space b s = s + length (takeWhile (\<lambda>c. c \<in> set whitespace) (drop s b))"

definition skip_word :: "byte list \<Rightarrow> nat \<Rightarrow> nat" where
  "skip_word b s =
     s + length (takeWhile (\<lambda>c. c \<notin> set whitespace \<and> c \<notin> set symbols) (drop s b))"

definition gettoken :: "byte list \<Rightarrow> nat \<Rightarrow> byte \<times> nat \<times> nat \<times> nat" where
  "gettoken b s =
     (let q = skip_space b s;
          c = char_at b q;
          (ret, eq) =
            (if c = 0 then (c, q)
             else if c \<in> {124, 40, 41, 59, 38, 60} then (c, q + 1)
             else if c = 62 then (if char_at b (q + 1) = 62 then (43, q + 2) else (c, q + 1))
             else (97, skip_word b q))
      in (ret, q, eq, skip_space b eq))"

definition peek :: "byte list \<Rightarrow> nat \<Rightarrow> byte list \<Rightarrow> bool \<times> nat" where
  "peek b s toks =
     (let s = skip_space b s
      in (char_at b s \<noteq> 0 \<and> char_at b s \<in> set toks, s))"

section \<open>Commands\<close>

datatype cmd =
    EXEC "(nat \<times> nat) list"
  | REDIR cmd "nat \<times> nat" "32 word" int
  | PIPE cmd cmd
  | LIST cmd cmd
  | BACK cmd

datatype 'a parsed = Parsed 'a nat | Exit string | NoFuel

fun bindp :: "'a parsed \<Rightarrow> ('a \<Rightarrow> nat \<Rightarrow> 'b parsed) \<Rightarrow> 'b parsed" where
  "bindp (Parsed x s) f = f x s"
| "bindp (Exit m) f = Exit m"
| "bindp NoFuel f = NoFuel"

lemma bindp_cong [fundef_cong]:
  "m = m' \<Longrightarrow> (\<And>x s. m' = Parsed x s \<Longrightarrow> f x s = g x s) \<Longrightarrow> bindp m f = bindp m' g"
  by (cases m') auto

definition MAXARGS :: nat where "MAXARGS = 20"

fun add_arg :: "nat \<times> nat \<Rightarrow> cmd \<Rightarrow> cmd" where
  "add_arg w (EXEC av) = EXEC (av @ [w])"
| "add_arg w (REDIR c f m d) = REDIR (add_arg w c) f m d"
| "add_arg w c = c"

lemma skip_space_bounds: "s \<le> skip_space b s" "s \<le> length b \<Longrightarrow> skip_space b s \<le> length b"
  using length_takeWhile_le [of "\<lambda>c. c \<in> set whitespace" "drop s b"] by (simp_all add: skip_space_def)

lemma skip_word_bounds: "s \<le> skip_word b s" "s \<le> length b \<Longrightarrow> skip_word b s \<le> length b"
  using length_takeWhile_le [of "\<lambda>c. c \<notin> set whitespace \<and> c \<notin> set symbols" "drop s b"]
  by (simp_all add: skip_word_def)

lemma char_at_nonzero: "char_at b i \<noteq> 0 \<Longrightarrow> i < length b"
  by (simp add: char_at_def split: if_splits)

lemma skip_space_stop: "char_at b (skip_space b s) \<notin> set whitespace"
proof (cases "skip_space b s < length b")
  case True
  let ?P = "\<lambda>c. c \<in> set whitespace"
  have l: "length (takeWhile ?P (drop s b)) < length (drop s b)" using True by (simp add: skip_space_def)
  have "drop s b ! length (takeWhile ?P (drop s b)) \<notin> set whitespace" using nth_length_takeWhile [OF l] .
  then show ?thesis using True l by (simp add: char_at_def skip_space_def)
qed (simp add: char_at_def whitespace_def)

lemma skip_word_advances:
  assumes "q < length b" "b ! q \<notin> set whitespace" "b ! q \<notin> set symbols"
  shows "q < skip_word b q"
  using assms by (simp add: skip_word_def Cons_nth_drop_Suc [OF assms(1), symmetric] del: Cons_nth_drop_Suc)

lemma gettoken_advances:
  assumes "gettoken b s = (ret, q, eq, s')"
  shows "s \<le> q" "q \<le> eq" "eq \<le> s'" "ret \<noteq> 0 \<Longrightarrow> q < eq"
    "s \<le> length b \<Longrightarrow> s' \<le> length b" "s \<le> length b \<Longrightarrow> eq \<le> length b"
proof -
  let ?c = "char_at b (skip_space b s)"
  have q: "q = skip_space b s" and s': "s' = skip_space b eq"
    and r: "(ret, eq) =
            (if ?c = 0 then (?c, q)
             else if ?c \<in> {124, 40, 41, 59, 38, 60} then (?c, q + 1)
             else if ?c = 62 then (if char_at b (q + 1) = 62 then (43, q + 2) else (?c, q + 1))
             else (97, skip_word b q))"
    using assms by (auto simp: gettoken_def Let_def split: if_splits)
  have w: "?c \<noteq> 0 \<Longrightarrow> q < length b \<and> b ! q = ?c" using char_at_nonzero [of b q] q by (auto simp: char_at_def)
  have ns: "?c \<notin> set whitespace" by (rule skip_space_stop)
  have adv: "?c \<noteq> 0 \<Longrightarrow> ?c \<notin> {124, 40, 41, 59, 38, 60} \<Longrightarrow> ?c \<noteq> 62 \<Longrightarrow> q < skip_word b q"
    using w ns by (intro skip_word_advances) (auto simp: symbols_def)
  show "s \<le> q" unfolding q by (rule skip_space_bounds)
  show "q \<le> eq" using r skip_word_bounds(1) [of q b] by (auto split: if_splits)
  show "eq \<le> s'" unfolding s' by (rule skip_space_bounds)
  show "ret \<noteq> 0 \<Longrightarrow> q < eq" using r adv by (auto split: if_splits)
  have eq: "eq \<le> length b" if l: "s \<le> length b"
  proof -
    have ql: "q \<le> length b" unfolding q by (rule skip_space_bounds(2) [OF l])
    have "char_at b (q + 1) = 62 \<Longrightarrow> q + 1 < length b" using char_at_nonzero [of b "q + 1"] by simp
    then show ?thesis using r w ql skip_word_bounds(2) [OF ql] by (auto split: if_splits)
  qed
  then show "s \<le> length b \<Longrightarrow> eq \<le> length b" .
  show "s \<le> length b \<Longrightarrow> s' \<le> length b" unfolding s' using eq by (rule skip_space_bounds(2))
qed

lemma peek_bounds:
  assumes "peek b s toks = (r, s')"
  shows "s \<le> s'" "s \<le> length b \<Longrightarrow> s' \<le> length b" "r \<Longrightarrow> s' < length b"
    "r \<Longrightarrow> char_at b s' \<in> set toks" "char_at b s' \<notin> set whitespace"
  using assms skip_space_bounds [of s b] skip_space_stop [of b s] char_at_nonzero [of b "skip_space b s"]
  by (auto simp: peek_def Let_def)

lemma gettoken_nonzero:
  assumes "gettoken b s = (ret, q, eq, s')" "char_at b s \<noteq> 0" "char_at b s \<notin> set whitespace"
  shows "ret \<noteq> 0"
proof -
  have "s < length b" using assms(2) by (rule char_at_nonzero)
  then have "skip_space b s = s"
    using assms(3) by (simp add: skip_space_def char_at_def takeWhile_eq_Nil_iff Cons_nth_drop_Suc [symmetric])
  then show ?thesis using assms by (auto simp: gettoken_def Let_def split: if_splits)
qed

lemma redir_less:
  assumes "peek b s toks = (True, s1)" "gettoken b s1 = (tok, q1, e1, s2)" "gettoken b s2 = (97, q, eq, s3)"
  shows "length b - s3 < length b - s"
proof -
  have "s \<le> s1" "s1 < length b" using peek_bounds [OF assms(1)] by simp_all
  moreover have "s1 \<le> s2" using gettoken_advances [OF assms(2)] by simp
  moreover have "s2 < s3" using gettoken_advances [OF assms(3)] by simp
  ultimately show ?thesis by simp
qed

lemma symbol_less:
  assumes "peek b s toks = (True, s1)" "gettoken b s1 = (tok, q, eq, s2)"
  shows "length b - s2 < length b - s"
proof -
  have p: "s \<le> s1" "s1 < length b" "char_at b s1 \<noteq> 0" "char_at b s1 \<notin> set whitespace"
    using peek_bounds [OF assms(1)] assms(1) by (auto simp: peek_def Let_def)
  have "tok \<noteq> 0" by (rule gettoken_nonzero [OF assms(2) p(3,4)])
  then have "s1 < s2" using gettoken_advances [OF assms(2)] by simp
  then show ?thesis using p by simp
qed

function parseredirs :: "byte list \<Rightarrow> cmd \<Rightarrow> nat \<Rightarrow> cmd parsed" where
  "parseredirs b c s =
     (let (more, s) = peek b s [60, 62] in
      if \<not> more then Parsed c s
      else
        let (tok, _, _, s) = gettoken b s;
            (ret, q, eq, s) = gettoken b s
        in if ret \<noteq> 97 then Exit ''missing file for redirection''
           else if tok = 60 then parseredirs b (REDIR c (q, eq) 0 0) s
           else parseredirs b (REDIR c (q, eq) 0x201 1) s)"
  by pat_completeness auto
termination
  by (relation "measure (\<lambda>(b, c, s). length b - s)") (auto intro: redir_less [OF sym sym sym])

declare parseredirs.simps [simp del]

function parseargs :: "byte list \<Rightarrow> cmd \<Rightarrow> nat \<Rightarrow> nat \<Rightarrow> cmd parsed" where
  "parseargs b ret argc s =
     (let (stop, s) = peek b s [124, 41, 38, 59] in
      if stop then Parsed ret s
      else
        let (tok, q, eq, s) = gettoken b s in
        if tok = 0 then Parsed ret s
        else if tok \<noteq> 97 then Exit ''syntax''
        else if argc + 1 \<ge> MAXARGS then Exit ''too many args''
        else bindp (parseredirs b (add_arg (q, eq) ret) s) (\<lambda>ret s. parseargs b ret (argc + 1) s))"
  by pat_completeness auto
termination
  by (relation "measure (\<lambda>(b, ret, argc, s). MAXARGS - argc)") auto

declare parseargs.simps [simp del]

function parseback :: "byte list \<Rightarrow> cmd \<Rightarrow> nat \<Rightarrow> cmd parsed" where
  "parseback b c s =
     (let (more, s) = peek b s [38] in
      if \<not> more then Parsed c s
      else let (_, _, _, s) = gettoken b s in parseback b (BACK c) s)"
  by pat_completeness auto
termination
  by (relation "measure (\<lambda>(b, c, s). length b - s)") (auto intro: symbol_less [OF sym sym])

declare parseback.simps [simp del]

fun parseline :: "nat \<Rightarrow> byte list \<Rightarrow> nat \<Rightarrow> cmd parsed"
  and parsepipe :: "nat \<Rightarrow> byte list \<Rightarrow> nat \<Rightarrow> cmd parsed"
  and parseexec :: "nat \<Rightarrow> byte list \<Rightarrow> nat \<Rightarrow> cmd parsed"
  and parseblock :: "nat \<Rightarrow> byte list \<Rightarrow> nat \<Rightarrow> cmd parsed" where
  "parseline 0 b s = NoFuel"
| "parsepipe 0 b s = NoFuel"
| "parseexec 0 b s = NoFuel"
| "parseblock 0 b s = NoFuel"
| "parseline (Suc n) b s =
     bindp (parsepipe n b s) (\<lambda>c s.
     bindp (parseback b c s) (\<lambda>c s.
       let (more, s) = peek b s [59] in
       if more then
         let (_, _, _, s) = gettoken b s in
         bindp (parseline n b s) (\<lambda>d s. Parsed (LIST c d) s)
       else Parsed c s))"
| "parsepipe (Suc n) b s =
     bindp (parseexec n b s) (\<lambda>c s.
       let (more, s) = peek b s [124] in
       if more then
         let (_, _, _, s) = gettoken b s in
         bindp (parsepipe n b s) (\<lambda>d s. Parsed (PIPE c d) s)
       else Parsed c s)"
| "parseexec (Suc n) b s =
     (let (block, s) = peek b s [40] in
      if block then parseblock n b s
      else bindp (parseredirs b (EXEC []) s) (\<lambda>ret s. parseargs b ret 0 s))"
| "parseblock (Suc n) b s =
     (let (open, s) = peek b s [40] in
      if \<not> open then Exit ''parseblock''
      else
        let (_, _, _, s) = gettoken b s in
        bindp (parseline n b s) (\<lambda>c s.
          let (close, s) = peek b s [41] in
          if \<not> close then Exit ''syntax - missing )''
          else let (_, _, _, s) = gettoken b s in parseredirs b c s))"

definition put_nul :: "nat \<times> nat \<Rightarrow> byte list \<Rightarrow> byte list" where
  "put_nul w m = m[snd w := 0]"

fun nulterminate :: "cmd \<Rightarrow> byte list \<Rightarrow> byte list" where
  "nulterminate (EXEC av) m = fold put_nul av m"
| "nulterminate (REDIR c f mode fd) m = put_nul f (nulterminate c m)"
| "nulterminate (PIPE l r) m = nulterminate r (nulterminate l m)"
| "nulterminate (LIST l r) m = nulterminate r (nulterminate l m)"
| "nulterminate (BACK c) m = nulterminate c m"

definition parse_fuel :: "byte list \<Rightarrow> nat" where
  "parse_fuel b = 4 * length b + 4"

definition parsecmd :: "byte list \<Rightarrow> (cmd \<times> byte list) parsed" where
  "parsecmd b =
     bindp (parseline (parse_fuel b) b 0) (\<lambda>c s.
       let (_, s) = peek b s [] in
       if s \<noteq> length b then Exit ''syntax''
       else Parsed (c, nulterminate c (b @ [0])) s)"

section \<open>Every line is parsed, and words are words\<close>

definition plain :: "byte \<Rightarrow> bool" where
  "plain c = (c \<notin> set whitespace \<and> c \<notin> set symbols)"

definition token_ok :: "byte list \<Rightarrow> nat \<times> nat \<Rightarrow> bool" where
  "token_ok b w =
     (fst w < snd w \<and> snd w \<le> length b \<and> (\<forall>i \<in> {fst w..<snd w}. plain (b ! i)) \<and>
      (snd w < length b \<longrightarrow> \<not> plain (b ! snd w)))"

fun cmd_words :: "cmd \<Rightarrow> (nat \<times> nat) list" where
  "cmd_words (EXEC av) = av"
| "cmd_words (REDIR c f m d) = cmd_words c @ [f]"
| "cmd_words (PIPE l r) = cmd_words l @ cmd_words r"
| "cmd_words (LIST l r) = cmd_words l @ cmd_words r"
| "cmd_words (BACK c) = cmd_words c"

abbreviation words_ok :: "byte list \<Rightarrow> cmd \<Rightarrow> bool" where
  "words_ok b c \<equiv> list_all (token_ok b) (cmd_words c)"

definition good :: "byte list \<Rightarrow> nat \<Rightarrow> cmd parsed \<Rightarrow> bool" where
  "good b s r =
     (r \<noteq> NoFuel \<and>
      (\<forall>c s'. r = Parsed c s' \<longrightarrow> s \<le> s' \<and> s' \<le> length b \<and> words_ok b c))"

lemma good_simps [simp]:
  "good b s (Parsed c s') = (s \<le> s' \<and> s' \<le> length b \<and> words_ok b c)"
  "good b s (Exit m)" "\<not> good b s NoFuel"
  by (simp_all add: good_def)

lemma good_mono: "good b s' r \<Longrightarrow> s \<le> s' \<Longrightarrow> good b s r"
  by (auto simp: good_def)

lemma good_bindp:
  assumes "good b s r" "\<And>c s'. s \<le> s' \<Longrightarrow> s' \<le> length b \<Longrightarrow> words_ok b c \<Longrightarrow> good b s' (f c s')"
  shows "good b s (bindp r f)"
proof (cases r)
  case (Parsed c s')
  then have "s \<le> s'" "s' \<le> length b" "words_ok b c" using assms(1) by simp_all
  then show ?thesis using Parsed good_mono [OF assms(2)] by simp
qed (use assms(1) in simp_all)

lemma gettoken_word:
  assumes "gettoken b s = (97, q, eq, s')" "s \<le> length b"
  shows "token_ok b (q, eq)"
proof -
  let ?P = "\<lambda>c. c \<notin> set whitespace \<and> c \<notin> set symbols"
  have q: "q = skip_space b s" and e: "eq = skip_word b q" and nz: "char_at b q \<noteq> 0"
    using assms(1) by (auto simp: gettoken_def Let_def split: if_splits)
  have lt: "q < eq" "eq \<le> length b" using gettoken_advances [OF assms(1)] assms(2) by simp_all
  let ?t = "takeWhile ?P (drop q b)"
  have l: "length ?t = eq - q" using e by (simp add: skip_word_def)
  have "plain (b ! i)" if "i \<in> {q..<eq}" for i
  proof -
    have "i - q < length ?t" using that l by auto
    then have "?t ! (i - q) = drop q b ! (i - q)" "?t ! (i - q) \<in> set ?t"
      by (rule takeWhile_nth, rule nth_mem)
    then have "?P (drop q b ! (i - q))" using set_takeWhileD [of "?t ! (i - q)" ?P "drop q b"] by simp
    then show ?thesis using that lt by (simp add: plain_def)
  qed
  moreover have "\<not> plain (b ! eq)" if "eq < length b"
  proof -
    have k: "length ?t < length (drop q b)" using l lt that by simp
    have "\<not> ?P (drop q b ! length ?t)" by (rule nth_length_takeWhile [OF k])
    then show ?thesis using l lt by (simp add: plain_def)
  qed
  ultimately show ?thesis using lt by (simp add: token_ok_def)
qed

lemma words_add_arg: "words_ok b c \<Longrightarrow> token_ok b w \<Longrightarrow> words_ok b (add_arg w c)"
  by (induction w c rule: add_arg.induct) auto

lemma parseredirs_good: "s \<le> length b \<Longrightarrow> words_ok b c \<Longrightarrow> good b s (parseredirs b c s)"
proof (induction b c s rule: parseredirs.induct)
  case (1 b c s)
  obtain more s1 where p: "peek b s [60, 62] = (more, s1)" by (cases "peek b s [60, 62]") auto
  obtain tok q1 e1 s2 where g: "gettoken b s1 = (tok, q1, e1, s2)" by (cases "gettoken b s1") auto
  obtain ret q eq s3 where h: "gettoken b s2 = (ret, q, eq, s3)" by (cases "gettoken b s2") auto
  have b1: "s \<le> s1" "s1 \<le> length b" using peek_bounds [OF p] 1(3) by simp_all
  have b2: "s1 \<le> s2" "s2 \<le> length b" using gettoken_advances [OF g] b1 by simp_all
  have b3: "s2 \<le> s3" "s3 \<le> length b" using gettoken_advances [OF h] b2 by simp_all
  have ok: "ret = 97 \<Longrightarrow> token_ok b (q, eq)" using gettoken_word [of b s2 q eq s3] h b2 by simp
  show ?case
  proof (cases "more \<and> ret = 97")
    case True
    then have m: "more" and r: "ret = 97" by simp_all
    show ?thesis
    proof (cases "tok = 60")
      case t: True
      have "good b s3 (parseredirs b (REDIR c (q, eq) 0 0) s3)"
        using 1(1) [OF p [symmetric] refl _ g [symmetric] refl refl refl h [symmetric] refl refl refl] m r t b3 ok 1(4) by simp
      from good_mono [OF this, of s] show ?thesis
        using p g h m r t b1 b2 b3 by (simp add: parseredirs.simps [of b c s])
    next
      case t: False
      have "good b s3 (parseredirs b (REDIR c (q, eq) 0x201 1) s3)"
        using 1(2) [OF p [symmetric] refl _ g [symmetric] refl refl refl h [symmetric] refl refl refl] m r t b3 ok 1(4) by simp
      from good_mono [OF this, of s] show ?thesis
        using p g h m r t b1 b2 b3 by (simp add: parseredirs.simps [of b c s])
    qed
  next
    case False
    then show ?thesis using p g h b1 1(4) by (auto simp: parseredirs.simps [of b c s])
  qed
qed

lemma parseargs_good: "s \<le> length b \<Longrightarrow> words_ok b c \<Longrightarrow> good b s (parseargs b c argc s)"
proof (induction b c argc s rule: parseargs.induct)
  case (1 b c argc s)
  obtain stop s1 where p: "peek b s [124, 41, 38, 59] = (stop, s1)"
    by (cases "peek b s [124, 41, 38, 59]") auto
  obtain tok q eq s2 where g: "gettoken b s1 = (tok, q, eq, s2)" by (cases "gettoken b s1") auto
  have b1: "s \<le> s1" "s1 \<le> length b" using peek_bounds [OF p] 1(2) by simp_all
  have b2: "s1 \<le> s2" "s2 \<le> length b" using gettoken_advances [OF g] b1 by simp_all
  show ?case
  proof (cases "\<not> stop \<and> tok = 97 \<and> argc + 1 < MAXARGS")
    case True
    then have t: "\<not> stop" "tok = 97" "argc + 1 < MAXARGS" by simp_all
    have "words_ok b (add_arg (q, eq) c)" using gettoken_word [of b s1 q eq s2] g t b1 1(3)
      by (simp add: words_add_arg)
    then have r: "good b s2 (parseredirs b (add_arg (q, eq) c) s2)" by (rule parseredirs_good [OF b2(2)])
    have "good b s2 (bindp (parseredirs b (add_arg (q, eq) c) s2) (\<lambda>ret s. parseargs b ret (argc + 1) s))"
    proof (cases "parseredirs b (add_arg (q, eq) c) s2")
      case (Parsed d s3)
      have "good b s3 (parseargs b d (argc + 1) s3)"
        using 1(1) [OF p [symmetric] refl _ g [symmetric] refl refl refl] Parsed r t by simp
      then show ?thesis using Parsed r good_mono [of b s3 _ s2] by simp
    qed (use r in simp_all)
    from good_mono [OF this, of s] show ?thesis
      using p g t b1 b2 by (simp add: parseargs.simps [of b c argc s])
  next
    case False
    then show ?thesis using p g b1 b2 1(3) by (auto simp: parseargs.simps [of b c argc s])
  qed
qed

lemma parseback_good: "s \<le> length b \<Longrightarrow> words_ok b c \<Longrightarrow> good b s (parseback b c s)"
proof (induction b c s rule: parseback.induct)
  case (1 b c s)
  obtain more s1 where p: "peek b s [38] = (more, s1)" by (cases "peek b s [38]") auto
  obtain tok q eq s2 where g: "gettoken b s1 = (tok, q, eq, s2)" by (cases "gettoken b s1") auto
  have b1: "s \<le> s1" "s1 \<le> length b" using peek_bounds [OF p] 1(2) by simp_all
  have b2: "s1 \<le> s2" "s2 \<le> length b" using gettoken_advances [OF g] b1 by simp_all
  show ?case
  proof (cases more)
    case True
    have "good b s2 (parseback b (BACK c) s2)"
      using 1(1) [OF p [symmetric] refl _ g [symmetric] refl refl refl] True b2 1(3) by simp
    from good_mono [OF this, of s] show ?thesis
      using p g True b1 b2 by (simp add: parseback.simps [of b c s])
  next
    case False
    then show ?thesis using p b1 1(3) by (simp add: parseback.simps [of b c s])
  qed
qed

text \<open>A token that stands at a symbol moves on by at least one character.\<close>

lemma symbol_step:
  assumes "peek b s toks = (True, s1)" "gettoken b s1 = (tok, q, eq, s2)" "s \<le> length b"
  shows "s < s2" "s2 \<le> length b"
  using symbol_less [OF assms(1,2)] peek_bounds [OF assms(1)] gettoken_advances [OF assms(2)] assms(3) by auto

lemma good_continue:
  assumes "s \<le> length b" "words_ok b c"
    and f: "\<And>s'. s < s' \<Longrightarrow> s' \<le> length b \<Longrightarrow> good b s' (f s')"
    and mk: "\<And>d. words_ok b d \<Longrightarrow> words_ok b (mk d)"
  shows "good b s
     (let (more, s) = peek b s toks in
      if more then let (_, _, _, s) = gettoken b s in bindp (f s) (\<lambda>d s. Parsed (mk d) s)
      else Parsed c s)"
proof -
  obtain more s1 where p: "peek b s toks = (more, s1)" by (cases "peek b s toks") auto
  obtain tok q eq s2 where g: "gettoken b s1 = (tok, q, eq, s2)" by (cases "gettoken b s1") auto
  show ?thesis
  proof (cases more)
    case True
    have st: "s < s2" "s2 \<le> length b" using symbol_step [of b s toks s1] p g True assms(1) by auto
    have "good b s2 (bindp (f s2) (\<lambda>d s. Parsed (mk d) s))"
      by (rule good_bindp [OF f [OF st]]) (simp add: mk)
    from good_mono [OF this, of s] show ?thesis using p g True st by simp
  qed (use p peek_bounds [OF p] assms in simp)
qed

lemma parseblock_good:
  assumes line: "\<And>s'. s < s' \<Longrightarrow> s' \<le> length b \<Longrightarrow> good b s' (parseline n b s')" and "s \<le> length b"
  shows "good b s (parseblock (Suc n) b s)"
proof -
  obtain op s1 where p: "peek b s [40] = (op, s1)" by (cases "peek b s [40]") auto
  obtain tok q eq s2 where g: "gettoken b s1 = (tok, q, eq, s2)" by (cases "gettoken b s1") auto
  show ?thesis
  proof (cases op)
    case True
    have st: "s < s2" "s2 \<le> length b" using symbol_step [of b s "[40]" s1] p g True assms(2) by auto
    have "good b s2 (bindp (parseline n b s2) (\<lambda>c s.
          let (close, s) = peek b s [41] in
          if \<not> close then Exit ''syntax - missing )''
          else let (_, _, _, s) = gettoken b s in parseredirs b c s))"
    proof (rule good_bindp [OF line [OF st]])
      fix c s3 assume a: "s2 \<le> s3" "s3 \<le> length b" "words_ok b c"
      obtain cl s4 where p4: "peek b s3 [41] = (cl, s4)" by (cases "peek b s3 [41]") auto
      obtain t5 q5 e5 s5 where g5: "gettoken b s4 = (t5, q5, e5, s5)" by (cases "gettoken b s4") auto
      have "s3 \<le> s4" "s4 \<le> s5" "s5 \<le> length b"
        using peek_bounds [OF p4] gettoken_advances [OF g5] a by auto
      then have "good b s3 (parseredirs b c s5)" using a by (intro good_mono [OF parseredirs_good]) auto
      then show "good b s3 (let (close, s) = peek b s3 [41] in
          if \<not> close then Exit ''syntax - missing )''
          else let (_, _, _, s) = gettoken b s in parseredirs b c s)"
        using p4 g5 by (cases cl) simp_all
    qed
    from good_mono [OF this, of s] show ?thesis using p g True st by simp
  qed (use p in simp)
qed

lemma parser_good:
  "\<forall>s \<le> length b.
     (4 * (length b - s) + 4 \<le> n \<longrightarrow> good b s (parseline n b s)) \<and>
     (4 * (length b - s) + 3 \<le> n \<longrightarrow> good b s (parsepipe n b s)) \<and>
     (4 * (length b - s) + 2 \<le> n \<longrightarrow> good b s (parseexec n b s)) \<and>
     (4 * (length b - s) + 1 \<le> n \<longrightarrow> good b s (parseblock n b s))"
proof (induction n)
  case (Suc n)
  have block: "good b s (parseblock (Suc n) b s)" if "s \<le> length b" "4 * (length b - s) + 1 \<le> Suc n" for s
    using Suc that by (intro parseblock_good) auto
  have exec: "good b s (parseexec (Suc n) b s)" if s: "s \<le> length b" "4 * (length b - s) + 2 \<le> Suc n" for s
  proof -
    obtain bl s1 where p: "peek b s [40] = (bl, s1)" by (cases "peek b s [40]") auto
    have s1: "s \<le> s1" "s1 \<le> length b" using peek_bounds [OF p] s by auto
    have "good b s1 (parseblock n b s1)" using Suc s s1 by auto
    moreover have "good b s1 (bindp (parseredirs b (EXEC []) s1) (\<lambda>ret s. parseargs b ret 0 s))"
      by (rule good_bindp [OF parseredirs_good [OF s1(2)]]) (simp_all add: parseargs_good)
    ultimately show ?thesis using p good_mono [OF _ s1(1)] by (cases bl) simp_all
  qed
  have pipe: "good b s (parsepipe (Suc n) b s)" if s: "s \<le> length b" "4 * (length b - s) + 3 \<le> Suc n" for s
    unfolding parsepipe.simps
  proof (rule good_bindp)
    show "good b s (parseexec n b s)" using Suc s by auto
    fix c s1 assume "s \<le> s1" "s1 \<le> length b" "words_ok b c"
    then show "good b s1 (let (more, s) = peek b s1 [124] in
       if more then let (_, _, _, s) = gettoken b s in bindp (parsepipe n b s) (\<lambda>d s. Parsed (PIPE c d) s)
       else Parsed c s)" using Suc s by (intro good_continue) auto
  qed
  have line: "good b s (parseline (Suc n) b s)" if s: "s \<le> length b" "4 * (length b - s) + 4 \<le> Suc n" for s
    unfolding parseline.simps
  proof (rule good_bindp, goal_cases)
    case 1
    then show ?case using Suc s by auto
  next
    case (2 c s1)
    show ?case
    proof (rule good_bindp [OF parseback_good], goal_cases)
      case (3 c' s2)
      then show ?case using Suc s 2 by (intro good_continue) auto
    qed (use 2 in simp_all)
  qed
  show ?case using line pipe exec block by blast
qed simp

section \<open>The words of a parsed line\<close>

lemma parsecmd_cases:
  "(\<exists>m. parsecmd b = Exit m) \<or>
   (\<exists>c. parsecmd b = Parsed (c, nulterminate c (b @ [0])) (length b) \<and> words_ok b c)"
proof -
  have "good b 0 (parseline (parse_fuel b) b 0)"
    using parser_good [of b "parse_fuel b"] by (simp add: parse_fuel_def)
  then show ?thesis
    by (cases "parseline (parse_fuel b) b 0") (auto simp: parsecmd_def Let_def split: prod.splits)
qed

definition cstring_at :: "byte list \<Rightarrow> nat \<Rightarrow> byte list" where
  "cstring_at m q = takeWhile (\<lambda>c. c \<noteq> 0) (drop q m)"

lemma nth_put_nul: "j < length m \<Longrightarrow> put_nul w m ! j = (if snd w = j then 0 else m ! j)"
  by (cases "snd w = j") (simp_all add: put_nul_def)

lemma length_put_nul [simp]: "length (put_nul w m) = length m"
  by (simp add: put_nul_def)

lemma fold_put_nul:
  "length (fold put_nul ws m) = length m \<and>
   (i < length m \<longrightarrow> fold put_nul ws m ! i = (if i \<in> snd ` set ws then 0 else m ! i))"
  by (induction ws arbitrary: m) (auto simp: nth_put_nul)

lemma length_nulterminate [simp]: "length (nulterminate c m) = length m"
  by (induction c m rule: nulterminate.induct) (simp_all add: fold_put_nul)

lemma nulterminate_nth:
  "i < length m \<Longrightarrow> nulterminate c m ! i = (if i \<in> snd ` set (cmd_words c) then 0 else m ! i)"
  by (induction c m rule: nulterminate.induct)
    (simp_all add: fold_put_nul nth_put_nul image_Un)

lemma cstring_word:
  assumes "length m = Suc (length b)" "q < eq" "eq \<le> length b" "m ! eq = 0"
    and same: "\<And>i. q \<le> i \<Longrightarrow> i < eq \<Longrightarrow> m ! i = b ! i \<and> b ! i \<noteq> 0"
  shows "cstring_at m q = take (eq - q) (drop q b)"
proof -
  have t: "take (eq - q) (drop q m) = take (eq - q) (drop q b)"
    by (rule nth_equalityI) (use assms(1-3) same in auto)
  have "drop eq m = 0 # drop (Suc eq) m"
    using Cons_nth_drop_Suc [of eq m] assms(1,3,4) by simp
  then have d: "drop q m = take (eq - q) (drop q b) @ 0 # drop (Suc eq) m"
    using append_take_drop_id [of "eq - q" "drop q m"] t assms(2) by simp
  have "c \<noteq> 0" if "c \<in> set (take (eq - q) (drop q b))" for c
    using that same assms(3) by (fastforce simp: in_set_conv_nth)
  then show ?thesis unfolding cstring_at_def d by (simp add: takeWhile_append2)
qed

lemma parsed_word:
  assumes "words_ok b c" "0 \<notin> set b" "w \<in> set (cmd_words c)"
  shows "cstring_at (nulterminate c (b @ [0])) (fst w) = take (snd w - fst w) (drop (fst w) b)"
proof (rule cstring_word)
  have w: "token_ok b w" using assms(1,3) by (simp add: list_all_iff)
  then show "fst w < snd w" "snd w \<le> length b" by (simp_all add: token_ok_def)
  then show "nulterminate c (b @ [0]) ! snd w = 0" using assms(3) nulterminate_nth [of "snd w" "b @ [0]" c] by auto
  show "length (nulterminate c (b @ [0])) = Suc (length b)" by simp
  fix i assume i: "fst w \<le> i" "i < snd w"
  have il: "i < length b" using i w by (simp add: token_ok_def)
  have "plain (b ! i)" using i w by (auto simp: token_ok_def)
  moreover have "\<not> plain (b ! snd v)" if "v \<in> set (cmd_words c)" "snd v = i" for v
    using that assms(1) il by (auto simp: list_all_iff token_ok_def)
  ultimately have "i \<notin> snd ` set (cmd_words c)" by auto
  moreover have "b ! i \<noteq> 0" using nth_mem [OF il] assms(2) by metis
  ultimately show "nulterminate c (b @ [0]) ! i = b ! i \<and> b ! i \<noteq> 0"
    using nulterminate_nth [of i "b @ [0]" c] il by (simp add: nth_append)
qed



definition demo_line :: "byte list" where
  "demo_line = [108, 115, 32, 97, 62, 98, 124, 119, 99]"

lemma demo_line_parsed:
  "parsecmd demo_line =
     Parsed (PIPE (REDIR (EXEC [(0, 2), (3, 4)]) (5, 6) 0x201 1) (EXEC [(7, 9)]),
             [108, 115, 0, 97, 0, 98, 0, 119, 99, 0]) 9"
  by code_simp


end
