(* ===== verification/Spec2Isabelle.thy ===== *)
theory Spec2Isabelle
  imports Waiting BootSpec FileSpec PipeSpec ConsoleSpec VmSpec Strings Ide UserIoSpec UmallocSpec Sh
begin

text \<open>
  An xv6 kernel for the x86 whose scheduler keeps its run queue in a skip list ordered by virtual deadlines, and user programs
  around it.  The sources are the C files under \<^verbatim>\<open>src\<close>.

  PARTS OF THE PROGRAM AND HOW THEY INTERACT.  The timer interrupt takes ticks from the running process (\<^verbatim>\<open>trap.c\<close>); when the last one is gone the process
  yields, the scheduler (\<^verbatim>\<open>proc.c\<close>) gives it a new deadline, queues it in the skip list and runs the process at the head of the list.
  Nodes of the skip list, page tables, kernel stacks and pipes are pages of the page allocator (\<^verbatim>\<open>kalloc.c\<close>).  System calls
  (\<^verbatim>\<open>syscall.c\<close>, \<^verbatim>\<open>sysproc.c\<close>, \<^verbatim>\<open>sysfile.c\<close>) reach the process table, the file table (\<^verbatim>\<open>file.c\<close>), pipes (\<^verbatim>\<open>pipe.c\<close>), the console
  (\<^verbatim>\<open>console.c\<close>, \<^verbatim>\<open>kbd.c\<close>, \<^verbatim>\<open>uart.c\<close>) and the file system, which is layered: inodes, directories and paths (\<^verbatim>\<open>fs.c\<close>) on the log (\<^verbatim>\<open>log.c\<close>), on the
  buffer cache (\<^verbatim>\<open>bio.c\<close>), on a disk (\<^verbatim>\<open>memide.c\<close> or \<^verbatim>\<open>ide.c\<close>).  Spin locks (\<^verbatim>\<open>spinlock.c\<close>) and sleep locks (\<^verbatim>\<open>sleeplock.c\<close>) protect the shared
  state.  The boot path discovers the processors (\<^verbatim>\<open>mp.c\<close>), programs the interrupt controllers (\<^verbatim>\<open>lapic.c\<close>, \<^verbatim>\<open>ioapic.c\<close>,
  \<^verbatim>\<open>picirq.c\<close>) and starts everything (\<^verbatim>\<open>main.c\<close>).  User space has a library (\<^verbatim>\<open>ulib.c\<close>, \<^verbatim>\<open>printf.c\<close>, \<^verbatim>\<open>umalloc.c\<close>), a shell (\<^verbatim>\<open>sh.c\<close>) and text filters
  (\<^verbatim>\<open>cat.c\<close>, \<^verbatim>\<open>wc.c\<close>, \<^verbatim>\<open>grep.c\<close>).

  HOW C BECOMES HOL.  A kernel function is a HOL function from the kernel state to an \<open>outcome\<close> (theory Prelude): \<open>Ok\<close> with the value and the new
  state, \<open>Switch\<close> when it gives the processor away with \<^verbatim>\<open>swtch\<close>, \<open>Panic\<close> with the message of \<^verbatim>\<open>panic\<close>, \<open>Fault\<close> for the use of a pointer
  that must not be used, \<open>Diverge\<close> when it never returns.  Statements are sequenced with \<open>bindo\<close>; bounded loops are \<open>for_list\<close> or structural recursion;
  loops without an evident bound are partial functions whose \<open>None\<close> becomes \<open>Diverge\<close>.  A function that sleeps ends with \<open>Switch\<close>; what it does
  after it has been resumed is a function of its own, with the suffix \<open>_resume\<close>.  C structs are records, the kernel state is a chain of
  extensible records in which every layer adds its globals: \<open>mach\<close> (processors, locks; Spinlock), \<open>kmem\<close> (pages; Memory), \<open>kout\<close> (text
  written to the console; Printf), \<open>kvm\<close> (page tables; Vm), \<open>kproc\<close> (processes; Process), \<open>kbio\<close> (buffers and disk; Bio), \<open>klog\<close> (Log), \<open>kino\<close> (Inode),
  \<open>kcons\<close> (Console), \<open>kfile\<close> (File), \<open>ktrap\<close> (Syscall), \<open>kboot\<close> (Apic).  An operation of one layer works on every extension of its record, so the
  layers compose without translation.  Unsigned numbers and addresses are 32-bit words, so they wrap around as in C; where C has \<^verbatim>\<open>int\<close> and the
  range matters, the integers are reduced with \<open>s32\<close>.

  THEORIES AND SOURCES.  Each group names its model first and then the theories with its proofs.

  \<^item> Spinlock: \<^verbatim>\<open>spinlock.c\<close>, \<^verbatim>\<open>mycpu\<close>, \<^verbatim>\<open>cpuid\<close>.  Interleavings of processors are sequences of events over one shared state; in all of them a
    lock has at most one owner.
  \<^item> Memory: \<^verbatim>\<open>kalloc.c\<close>.  The free list is a chain of distinct pages; the locale \<open>page_allocator\<close> is the contract the layers above use, and
    \<open>pages\<close> interprets it for \<^verbatim>\<open>kalloc\<close> and \<^verbatim>\<open>kfree\<close>.
  \<^item> Printf, Strings: \<^verbatim>\<open>cprintf\<close>, \<^verbatim>\<open>printf\<close>, \<^verbatim>\<open>string.c\<close>, \<^verbatim>\<open>ulib.c\<close>.  Copying of overlapping blocks, termination of strings, printing and
    reading of numbers.
  \<^item> Vm; VmSpec: \<^verbatim>\<open>vm.c\<close>.  What a page table means is the translation it gives; mapping changes only its range, growing a process gives
    it zeroed pages of its own, and \<^verbatim>\<open>copyout\<close> writes to user pages only.
  \<^item> Process, SkipList; RunQueue, RunQueueOps, Levels, RunQueueSpec, Waiting: the skip list of \<^verbatim>\<open>proc.c\<close> on pages and pointers.  It
    refines a queue sorted by deadline that is stable for equal ones; the locale \<open>run_queue\<close> is the contract of such a queue and \<open>skip_list\<close> its interpretation.
    Levels replays the pseudo-random levels: the first 416 insertions after boot stay within the headers, the next one does not.  Waiting bounds the number of removals
    a process waits for.
  \<^item> Sched; SchedSpec, Trap; TrapSpec: the scheduler, \<^verbatim>\<open>sleep\<close> and \<^verbatim>\<open>wakeup\<close>, and the timer.  \<open>sched_inv\<close> relates process table and run queue; the
    process with the earliest deadline runs, runnable processes are queued, no wakeup is lost, and a quantum ends with its last tick.
  \<^item> Ring; Pipe; PipeSpec, Console, Kbd; ConsoleSpec: the locale \<open>ring_buffer\<close> covers buffers with free-running indices and is interpreted
    for pipes and for the console.  Pipes deliver bytes in order; the console refines a line editor.
  \<^item> Bio; Quiet, BioSpec: buffer cache and disk in memory.  \<open>content s b\<close> is what a reader of block \<open>b\<close> sees; recycling buffers does
    not change it.  Ide models the driver \<^verbatim>\<open>ide.c\<close>, which can replace the disk in memory.
  \<^item> Layout, Log; LogSpec, CrashSpec: structures in blocks, the write-ahead log.  After a crash at any point of the sequence of
    block writes, recovery leaves all changes of a transaction or none, also if it is itself interrupted.
  \<^item> Inode, Fs; TxSpec, AllocSpec, InodeSpec, FileSpec: \<^verbatim>\<open>fs.c\<close>.  A file is the sequence of its bytes; \<^verbatim>\<open>readi\<close> and \<^verbatim>\<open>writei\<close> read and replace a
    piece of it across direct and indirect blocks, \<^verbatim>\<open>balloc\<close> gives blocks nobody uses, and with the theorems about the log a write of a file is atomic
    under crashes.
  \<^item> File, ProcLife, Args, Exec, Sysfile, Syscall: file table, life of a process, arguments of system calls, program loading, all
    system calls and their dispatcher, with every error path.
  \<^item> Apic, Mp, Boot; BootSpec: interrupt controllers, clock, serial port, processor discovery, \<^verbatim>\<open>main\<close> and the start of the other processors.  Discovery registers
    the processors of a well-formed table, and hangs on an entry of an unknown kind.
  \<^item> Umalloc; UmallocSpec: \<^verbatim>\<open>umalloc.c\<close>.  The circular free list stays sorted, disjoint and merged; blocks handed out never overlap.
  \<^item> Sh: the parser of \<^verbatim>\<open>sh.c\<close>.  It returns on every line.  UserIo; UserIoSpec: \<^verbatim>\<open>cat.c\<close>, \<^verbatim>\<open>wc.c\<close>, \<^verbatim>\<open>grep.c\<close>; the matcher of \<^verbatim>\<open>grep\<close> decides the
    language of its pattern.

  BOUNDS AND FUEL.  The shell's parser is the only function that runs on fuel: four steps per byte of the line and four more, enough because every
  recursive call either consumes a byte or descends one of four grammar levels; the theorem on \<^verbatim>\<open>parsecmd\<close> states that it never runs out.  The theorems about the skip list carry the
  number of insertions made so far, because of the overflow at number 417.  A write of one chunk of a file needs at most six blocks of the log, so the 1536 bytes that \<^verbatim>\<open>filewrite\<close>
  writes at once fit into a transaction.  Requests to \<^verbatim>\<open>malloc\<close> are below two gigabytes in the theorem that it succeeds; what happens above is shown separately.

  SETTING OF THE SEQUENTIAL THEOREMS.  Pipes, buffers, log, inodes and files are verified for \<open>quiet\<close> states: one process runs, no spin lock is taken and nobody sleeps,
  so that no operation has to wait.  Mutual exclusion of the locks is proved for interleavings; that the critical sections of different processors
  do not interfere beyond that is not.  The theorems of SchedSpec describe the processor that executes, with \<^verbatim>\<open>ptable.lock\<close> in their hypotheses.

  NOT MODELLED.  The call stacks recorded for debugging (\<^verbatim>\<open>getcallerpcs\<close>) are arguments where they are printed.  Assembly (\<^verbatim>\<open>swtch.S\<close>, trap entry, boot sector) and the boot loader
  \<^verbatim>\<open>bootmain.c\<close> run outside the C kernel's state; \<^verbatim>\<open>swtch\<close> is the end of a function.  \<^verbatim>\<open>mkfs.c\<close> runs on the build host with the host's files.  \<^verbatim>\<open>skiplist.c\<close> is a prototype that the
  kernel does not link.  In the shell, running a parsed command, and in the filters the loops over the command line, are sequences of system calls of the process;
  so are the small user programs, and \<^verbatim>\<open>usertests.c\<close> and the like are tests.  What the linker, the firmware and the devices provide
  (the first free address, disk image, tables in memory, register values, key codes) are arguments of the definitions.
\<close>

end
